(* ===== verification/GM_Prelude.thy ===== *)
theory GM_Prelude
  imports Main "HOL-Library.Word" "HOL-Library.AList"
begin

text \<open>
  Shared vocabulary of the development: the machine integer types of the C++ code, the byte
  sequences its codecs read and write, and the two associative containers it uses.
  \<open>std::unordered_map\<close> is an association list updated with the library's \<open>AList.update\<close> and
  \<open>AList.delete\<close> (its order is the iteration order, which the C++ standard leaves open);
  \<open>std::map\<close> is an association list kept in strictly ascending key order.
  The generic lemmas below are the ones the component theories share.
\<close>

unbundle bit_operations_syntax

type_synonym u8 = "8 word"
type_synonym u16 = "16 word"
type_synonym u32 = "32 word"
type_synonym u64 = "64 word"
type_synonym i32 = "32 word"
type_synonym i64 = "64 word"
type_synonym bytes = "8 word list"

named_theorems gm_defs "unfolding rules of the component operations"
named_theorems gm_inv "preservation of the component invariants"

section \<open>Lists\<close>

lemma take_drop_append_take: "take n (drop m xs) @ take k (drop (m + n) xs) = take (n + k) (drop m xs)"
  by (simp add: take_add [of n k] add.commute [of m])

lemma map_of_eq_None_iff_fst: "map_of m k = None \<longleftrightarrow> k \<notin> fst ` set m"
  by (rule map_of_eq_None_iff)

lemma filter_id_when_all: "(\<And>x. x \<in> set xs \<Longrightarrow> P x) \<Longrightarrow> filter P xs = xs"
  by (rule filter_True) blast

lemma map_of_map_snd: "map_of (map (\<lambda>(k, v). (k, f k v)) m) k = map_option (f k) (map_of m k)"
  by (induction m) auto

lemma foldl_invariant:
  assumes "P s" and "\<And>s x. P s \<Longrightarrow> x \<in> set xs \<Longrightarrow> P (f s x)"
  shows "P (foldl f s xs)"
  using assms by (induction xs arbitrary: s) auto

lemma foldl_frame:
  assumes "\<And>s x. g (f s x) = g s"
  shows "g (foldl f s xs) = g s"
  by (induction xs arbitrary: s) (simp_all add: assms)

lemma list_all2_nthI:
  "length xs = length ys \<Longrightarrow> (\<And>i. i < length xs \<Longrightarrow> P (xs ! i) (ys ! i)) \<Longrightarrow> list_all2 P xs ys"
  by (rule list_all2_all_nthI)

section \<open>Hash maps: association lists with distinct keys\<close>

abbreviation um_keys :: "('k \<times> 'v) list \<Rightarrow> 'k list" where
  "um_keys m \<equiv> map fst m"

definition um_ok :: "('k \<times> 'v) list \<Rightarrow> bool" where
  "um_ok m \<longleftrightarrow> distinct (um_keys m)"

lemma um_ok_Nil [simp, intro]: "um_ok []"
  by (simp add: um_ok_def)

lemma um_ok_update [gm_inv, intro]: "um_ok m \<Longrightarrow> um_ok (AList.update k v m)"
  by (simp add: um_ok_def distinct_update)

lemma um_ok_delete [gm_inv, intro]: "um_ok m \<Longrightarrow> um_ok (AList.delete k m)"
  by (simp add: um_ok_def distinct_delete)

lemma um_get_update: "map_of (AList.update k v m) k' = (if k' = k then Some v else map_of m k')"
  by (simp add: update_conv')

lemma um_get_delete: "map_of (AList.delete k m) k' = (if k' = k then None else map_of m k')"
  by (simp add: delete_conv')

lemma um_keys_update_mem: "k \<in> set (um_keys m) \<Longrightarrow> um_keys (AList.update k v m) = um_keys m"
  by (induction m) auto

lemma um_keys_update_new: "k \<notin> set (um_keys m) \<Longrightarrow> AList.update k v m = m @ [(k, v)]"
  by (induction m) auto

lemma um_length_update:
  "length (AList.update k v m) = (if k \<in> set (um_keys m) then length m else Suc (length m))"
  by (induction m) auto

lemma um_in_set_get: "um_ok m \<Longrightarrow> (k, v) \<in> set m \<longleftrightarrow> map_of m k = Some v"
  by (auto simp: um_ok_def)

lemma um_keys_delete: "set (um_keys (AList.delete k m)) = set (um_keys m) - {k}"
  by (induction m) auto

section \<open>Ordered maps: association lists in ascending key order\<close>

text \<open>\<open>std::map::operator[]\<close> followed by an assignment: the entry is replaced or inserted in order.\<close>

fun om_put :: "'k::linorder \<Rightarrow> 'v \<Rightarrow> ('k \<times> 'v) list \<Rightarrow> ('k \<times> 'v) list" where
  "om_put k v [] = [(k, v)]"
| "om_put k v ((k', v') # m) =
     (if k < k' then (k, v) # (k', v') # m
      else if k = k' then (k, v) # m
      else (k', v') # om_put k v m)"

definition om_ok :: "('k::linorder \<times> 'v) list \<Rightarrow> bool" where
  "om_ok m \<longleftrightarrow> sorted_wrt (<) (map fst m)"

lemma om_ok_Nil [simp, intro]: "om_ok []"
  by (simp add: om_ok_def)

lemma om_ok_distinct: "om_ok m \<Longrightarrow> distinct (map fst m)"
  by (simp add: om_ok_def strict_sorted_iff)

lemma om_put_keys: "set (map fst (om_put k v m)) = insert k (set (map fst m))"
  by (induction k v m rule: om_put.induct) (auto simp: insert_commute)

lemma om_ok_put [gm_inv, intro]: "om_ok m \<Longrightarrow> om_ok (om_put k v m)"
proof (induction m)
  case Nil
  then show ?case by (simp add: om_ok_def)
next
  case (Cons p m)
  obtain k' v' where p: "p = (k', v')" by force
  from Cons.prems p have "om_ok m" and low: "\<forall>x \<in> set (map fst m). k' < x"
    by (auto simp: om_ok_def)
  then show ?case using Cons p om_put_keys [of k v m]
    by (force simp: om_ok_def)
qed

lemma om_get_put: "om_ok m \<Longrightarrow> map_of (om_put k v m) k' = (if k' = k then Some v else map_of m k')"
proof (induction m)
  case Nil
  then show ?case by simp
next
  case (Cons p m)
  obtain a b where p: "p = (a, b)" by force
  from Cons.prems p have ok: "om_ok m" and low: "\<forall>x \<in> set (map fst m). a < x"
    by (auto simp: om_ok_def)
  have "k < a \<Longrightarrow> map_of m k = None"
    using low by (force simp: map_of_eq_None_iff)
  then show ?case using Cons.IH [OF ok] p by auto
qed

lemma om_ok_delete [gm_inv, intro]: "om_ok m \<Longrightarrow> om_ok (AList.delete k m)"
proof (induction m)
  case (Cons p m)
  then show ?case using um_keys_delete [of k m] by (auto simp: om_ok_def)
qed (simp add: om_ok_def)

section \<open>A contract for the associative containers\<close>

text \<open>
  What the components rely on, whichever container they use: a lookup after a store or an
  erase, and the representation invariant both keep.
\<close>

locale kv_store =
  fixes put :: "'k \<Rightarrow> 'v \<Rightarrow> ('k \<times> 'v) list \<Rightarrow> ('k \<times> 'v) list"
    and ok :: "('k \<times> 'v) list \<Rightarrow> bool"
  assumes put_ok: "ok m \<Longrightarrow> ok (put k v m)"
    and del_ok: "ok m \<Longrightarrow> ok (AList.delete k m)"
    and ok_distinct: "ok m \<Longrightarrow> distinct (map fst m)"
    and get_put: "ok m \<Longrightarrow> map_of (put k v m) k' = (if k' = k then Some v else map_of m k')"
begin

lemma get_put_same: "ok m \<Longrightarrow> map_of (put k v m) k = Some v"
  by (simp add: get_put)

lemma get_put_other: "ok m \<Longrightarrow> k' \<noteq> k \<Longrightarrow> map_of (put k v m) k' = map_of m k'"
  by (simp add: get_put)

lemma get_del: "map_of (AList.delete k m) k' = (if k' = k then None else map_of m k')"
  by (simp add: delete_conv')

lemma put_all_ok: "ok m \<Longrightarrow> ok (foldl (\<lambda>m (k, v). put k v m) m kvs)"
  by (rule foldl_invariant) (auto intro: put_ok)

lemma dom_put: "ok m \<Longrightarrow> dom (map_of (put k v m)) = insert k (dom (map_of m))"
  by (auto simp: dom_def get_put split: if_splits)

lemma size_put:
  assumes "ok m"
  shows "length (put k v m) = (if k \<in> set (map fst m) then length m else Suc (length m))"
proof -
  have card: "length l = card (dom (map_of l))" if "distinct (map fst l)" for l :: "('k \<times> 'v) list"
  proof -
    have "length l = card (set (map fst l))" using distinct_card [OF that] by simp
    also have "set (map fst l) = dom (map_of l)" by (simp add: dom_map_of_conv_image_fst)
    finally show ?thesis .
  qed
  have d: "dom (map_of m) = set (map fst m)" by (simp add: dom_map_of_conv_image_fst)
  have "length (put k v m) = card (insert k (dom (map_of m)))"
    using card [OF ok_distinct [OF put_ok [OF assms]], of k v] dom_put [OF assms] by simp
  also have "\<dots> = (if k \<in> dom (map_of m) then card (dom (map_of m)) else Suc (card (dom (map_of m))))"
    by (simp add: card_insert_if finite_dom_map_of insert_absorb)
  finally show ?thesis using card [OF ok_distinct [OF assms]] d by simp
qed

end

interpretation um: kv_store "AList.update" "um_ok"
  by unfold_locales (auto simp: um_ok_def distinct_update distinct_delete update_conv')

interpretation om: kv_store "om_put" "om_ok"
  by unfold_locales (auto simp: om_get_put om_ok_distinct)

section \<open>Machine words\<close>

lemma word_min_sub_le: "(x :: 'a::len word) - min x d \<le> x"
  by (simp add: word_sub_le)

lemma word_sub_min_zero_iff: "(x :: 'a::len word) - min x d = 0 \<longleftrightarrow> x \<le> d"
  by (auto simp: min_def)

lemma unat_sub_min: "unat ((x :: 'a::len word) - min x d) = unat x - unat d"
  by (auto simp: min_def unat_sub word_le_nat_alt)

lemma unat_plus_one: "(x :: 'a::len word) \<noteq> - 1 \<Longrightarrow> unat (x + 1) = Suc (unat x)"
  by (metis Suc_eq_plus1 add.commute unatSuc add_eq_0_iff)

lemma sint_by_cases:
  "sint (w :: 'a::len word) =
     (if uint w < 2 ^ (LENGTH('a) - 1) then uint w else uint w - 2 ^ LENGTH('a))"
proof -
  obtain n where n: "LENGTH('a) = Suc n" by (cases "LENGTH('a)") auto
  have b: "0 \<le> uint w" "uint w < 2 ^ LENGTH('a)" using uint_bounded [of w] by auto
  have "sint w = (uint w + 2 ^ n) mod 2 ^ Suc n - 2 ^ n"
    by (simp add: sint_uint signed_take_bit_eq_take_bit_shift take_bit_eq_mod n)
  moreover have "(uint w + 2 ^ n) mod 2 ^ Suc n = uint w - 2 ^ n" if "2 ^ n \<le> uint w"
  proof -
    have "(uint w + 2 ^ n) mod 2 ^ Suc n = (uint w - 2 ^ n + 2 ^ Suc n) mod 2 ^ Suc n" by (simp add: add.commute)
    also have "\<dots> = (uint w - 2 ^ n) mod 2 ^ Suc n" by (simp only: mod_add_self2)
    also have "\<dots> = uint w - 2 ^ n" using that b n by (simp add: mod_pos_pos_trivial)
    finally show ?thesis .
  qed
  ultimately show ?thesis using b n by (auto simp: mod_pos_pos_trivial)
qed

lemma sint64_cases: "sint (w :: 64 word) = (if uint w < 2 ^ 63 then uint w else uint w - 2 ^ 64)"
  using sint_by_cases [of w] by simp

lemma uint64_bounds: "0 \<le> uint (w :: 64 word)" "uint w < 2 ^ 64"
  using uint_bounded [of w] by simp_all

lemma uint_neg64: "uint (- w :: 64 word) = (if uint w = 0 then 0 else 2 ^ 64 - uint w)"
  using uint64_bounds [of w]
  by (simp add: uint_word_ariths zmod_zminus1_eq_if mod_pos_pos_trivial)

lemma uint_add64: "uint (a :: u64) + uint b < 2 ^ 64 \<Longrightarrow> uint (a + b) = uint a + uint b"
  by (simp add: uint_word_ariths mod_pos_pos_trivial)

lemma uint_mul64: "uint (a :: u64) * uint b < 2 ^ 64 \<Longrightarrow> uint (a * b) = uint a * uint b"
  by (simp add: uint_word_ariths mod_pos_pos_trivial)

lemma uint_take_bit: "uint (take_bit k (a :: 'a::len word)) = uint a mod 2 ^ k"
  by (subst unsigned_take_bit_eq) (rule take_bit_eq_mod)

lemma uint_drop_bit: "uint (drop_bit k (a :: 'a::len word)) = uint a div 2 ^ k"
proof -
  have "uint (drop_bit k a) = drop_bit k (uint a)"
    by (subst unsigned_drop_bit_eq) (simp add: take_bit_int_eq_self)
  then show ?thesis by (simp add: drop_bit_eq_div)
qed

lemma uint_push_bit: "uint (push_bit k (a :: 'a::len word)) = (uint a * 2 ^ k) mod 2 ^ LENGTH('a)"
  by (subst unsigned_push_bit_eq) (simp add: push_bit_eq_mult take_bit_eq_mod)

lemma push_or_eq_plus:
  assumes "uint b < 2 ^ k"
  shows "push_bit k a OR (b :: 'a::len word) = push_bit k a + b"
proof -
  have b: "take_bit k b = b"
    using assms by (simp add: word_uint_eq_iff uint_take_bit)
  have "push_bit k a AND b = 0"
    by (rule bit_word_eqI) (subst b [symmetric], auto simp: bit_simps)
  then show ?thesis by (simp add: disjunctive_add_eq_or)
qed

lemma uint_push_or:
  assumes "uint b < 2 ^ k"
  shows "uint (push_bit k a OR (b :: 'a::len word)) = (uint a * 2 ^ k + uint b) mod 2 ^ LENGTH('a)"
  using push_or_eq_plus [OF assms, of a]
  by (simp add: uint_word_ariths uint_push_bit mod_simps)

lemma uint_plus64: "uint ((a :: u64) + b) = (uint a + uint b) mod 2 ^ 64"
  by (simp add: uint_word_ariths)

section \<open>Big-endian codecs\<close>

text \<open>Most significant byte first, as the wire format and the replay files have it.\<close>

fun be_put :: "nat \<Rightarrow> 'a::len word \<Rightarrow> bytes" where
  "be_put 0 v = []"
| "be_put (Suc n) v = ucast (drop_bit (8 * n) v) # be_put n v"

definition be_step :: "'a::len word \<Rightarrow> u8 \<Rightarrow> 'a word" where
  "be_step v b = push_bit 8 v OR ucast b"

definition be_get :: "bytes \<Rightarrow> 'a::len word" where
  "be_get bs = foldl be_step 0 bs"

lemma length_be_put [simp]: "length (be_put n v) = n"
  by (induction n) auto

lemma foldl_be_put:
  "foldl be_step a (be_put n v) = push_bit (8 * n) a OR take_bit (8 * n) (v :: 'a::len word)"
proof (induction n arbitrary: a)
  case (Suc n)
  have "foldl be_step a (be_put (Suc n) v) =
      push_bit (8 * n) (push_bit 8 a OR ucast (ucast (drop_bit (8 * n) v) :: u8)) OR take_bit (8 * n) v"
    by (simp add: Suc be_step_def)
  also have "\<dots> = push_bit (8 * Suc n) a OR take_bit (8 * Suc n) v"
    by (rule bit_word_eqI) (auto simp: bit_simps not_less add.commute)
  finally show ?case .
qed simp

lemma be_get_put: "LENGTH('a) \<le> 8 * n \<Longrightarrow> be_get (be_put n (v :: 'a::len word)) = v"
  by (simp add: be_get_def foldl_be_put take_bit_word_eq_self)

lemma foldl_be_step_split:
  "foldl be_step a bs = push_bit (8 * length bs) (a :: 'a::len word) OR foldl be_step 0 bs"
proof (induction bs arbitrary: a)
  case (Cons b bs)
  have "foldl be_step a (b # bs) = push_bit (8 * length bs) (be_step a b) OR foldl be_step 0 bs"
    using Cons [of "be_step a b"] by simp
  also have "push_bit (8 * length bs) (be_step a b) =
      push_bit (8 * length (b # bs)) a OR push_bit (8 * length bs) (be_step 0 b)"
    by (rule bit_word_eqI) (auto simp: be_step_def bit_simps add.commute)
  finally show ?case using Cons [of "be_step 0 b"] by (simp add: or.assoc)
qed simp

lemma be_get_small: "take_bit (8 * length bs) (foldl be_step 0 bs :: 'a::len word) = foldl be_step 0 bs"
proof (induction bs)
  case (Cons b bs)
  have h: "foldl be_step 0 (b # bs) = push_bit (8 * length bs) (be_step 0 b) OR (foldl be_step 0 bs :: 'a word)"
    using foldl_be_step_split [of "be_step 0 b" bs] by simp
  show ?case unfolding h
    by (subst (1 2) Cons [symmetric]) (rule bit_word_eqI, auto simp: be_step_def bit_simps dest: bit_imp_le_length)
qed simp

lemma be_put_foldl:
  "8 * length bs \<le> LENGTH('a) \<Longrightarrow> be_put (length bs) (foldl be_step a bs :: 'a::len word) = bs"
proof (induction bs arbitrary: a)
  case (Cons b bs)
  let ?w = "foldl be_step (be_step a b) bs"
  have "?w = push_bit (8 * length bs) (be_step a b) OR take_bit (8 * length bs) (foldl be_step 0 bs)"
    using foldl_be_step_split [of "be_step a b" bs] by (simp add: be_get_small)
  then have "ucast (drop_bit (8 * length bs) ?w) = b"
    using Cons.prems by (intro bit_word_eqI) (auto simp: be_step_def bit_simps)
  then show ?case using Cons by simp
qed simp

lemma be_put_get: "length bs = n \<Longrightarrow> 8 * n = LENGTH('a) \<Longrightarrow> be_put n (be_get bs :: 'a::len word) = bs"
  using be_put_foldl [of bs "0 :: 'a word"] by (simp add: be_get_def)

lemma word_xor_left_cancel: "h XOR x = h XOR y \<Longrightarrow> x = (y :: 'a::len word)"
proof -
  assume "h XOR x = h XOR y"
  then have "h XOR (h XOR x) = h XOR (h XOR y)" by (simp only:)
  then show "x = y" by (simp only: bit.xor_left_self)
qed

lemma word_xor_right_cancel: "x XOR h = y XOR h \<Longrightarrow> x = (y :: 'a::len word)"
  using word_xor_left_cancel [of h x y] by (simp only: xor.commute)

lemma ucast_ucast_u8_u64: "ucast (ucast (b :: u8) :: u64) = b"
  by (rule bit_word_eqI) (simp add: bit_simps)

end
