(* ===== verification/GM_Float.thy ===== *)
theory GM_Float
  imports GM_Prelude
begin

text \<open>
  IEEE 754 binary floating point, as far as the C++ code uses it: \<open>float\<close> (binary32) and
  \<open>double\<close> (binary64) with round to nearest, ties to even, and no extended precision (SSE
  arithmetic on x86-64, the platform of the build files). A number is its bit pattern, read as
  \<open>NaN\<close>, an infinity or a finite value \<open>(-1)^s * m * 2^e\<close>; every operation computes the exact
  result on integers, with a sticky bit for division and square root, and rounds once.
  Conversions to integers truncate; a NaN or a value out of range, undefined in C++, gives the
  value the x86-64 instruction gives (the least integer).
\<close>

type_synonym f32 = "32 word"
type_synonym f64 = "64 word"

datatype fl = FNaN | FInf bool | Fin bool int int

text \<open>A format is the number of fraction bits and of exponent bits.\<close>

record ffmt =
  frac_bits :: nat
  exp_bits :: nat

definition binary32 :: ffmt where
  "binary32 = \<lparr>frac_bits = 23, exp_bits = 8\<rparr>"

definition binary64 :: ffmt where
  "binary64 = \<lparr>frac_bits = 52, exp_bits = 11\<rparr>"

definition f_bias :: "ffmt \<Rightarrow> int" where
  "f_bias F = 2 ^ (exp_bits F - 1) - 1"

text \<open>The exponent of the least significant bit of a subnormal.\<close>

definition f_emin :: "ffmt \<Rightarrow> int" where
  "f_emin F = 1 - f_bias F - int (frac_bits F)"

definition f_unpack :: "ffmt \<Rightarrow> int \<Rightarrow> fl" where
  "f_unpack F n =
     (let t = frac_bits F; fr = n mod 2 ^ t; ex = (n div 2 ^ t) mod 2 ^ exp_bits F;
          s = odd (n div 2 ^ (t + exp_bits F))
      in if ex = 2 ^ exp_bits F - 1 then (if fr = 0 then FInf s else FNaN)
         else if ex = 0 then Fin s fr (f_emin F)
         else Fin s (2 ^ t + fr) (f_emin F + ex - 1))"

definition f_sign_bit :: "ffmt \<Rightarrow> bool \<Rightarrow> int" where
  "f_sign_bit F s = (if s then 2 ^ (frac_bits F + exp_bits F) else 0)"

definition f_inf_bits :: "ffmt \<Rightarrow> int" where
  "f_inf_bits F = (2 ^ exp_bits F - 1) * 2 ^ frac_bits F"

definition f_nan_bits :: "ffmt \<Rightarrow> int" where
  "f_nan_bits F = f_inf_bits F + 2 ^ (frac_bits F - 1)"

function bit_len :: "int \<Rightarrow> nat" where
  "bit_len n = (if n \<le> 0 then 0 else Suc (bit_len (n div 2)))"
  by pat_completeness auto
termination
  by (relation "measure nat") auto

declare bit_len.simps [simp del]

text \<open>
  Rounds \<open>(m + d) * 2^e\<close>, with \<open>0 < d < 1\<close> if \<open>sticky\<close> and \<open>d = 0\<close> otherwise. The result
  mantissa is added to the biased exponent field, so that a carry moves to the next binade.
\<close>

definition f_round :: "ffmt \<Rightarrow> bool \<Rightarrow> int \<Rightarrow> int \<Rightarrow> bool \<Rightarrow> int" where
  "f_round F s m e sticky =
     (if m = 0 then f_sign_bit F s
      else let t = frac_bits F;
               e' = max (e + int (bit_len m) - int t - 1) (f_emin F);
               q = (if e' \<le> e then m * 2 ^ nat (e - e')
                    else let k = nat (e' - e); d = m div 2 ^ k; r = m mod 2 ^ k; h = 2 ^ (k - 1)
                         in if r > h \<or> (r = h \<and> (sticky \<or> odd d)) then d + 1 else d);
               b = (e' - f_emin F) * 2 ^ t + q
           in f_sign_bit F s + min b (f_inf_bits F))"

fun f_pack :: "ffmt \<Rightarrow> fl \<Rightarrow> int" where
  "f_pack F FNaN = f_nan_bits F"
| "f_pack F (FInf s) = f_sign_bit F s + f_inf_bits F"
| "f_pack F (Fin s m e) = f_round F s m e False"

section \<open>Arithmetic on values, rounded to a format\<close>

fun f_neg :: "fl \<Rightarrow> fl" where
  "f_neg FNaN = FNaN"
| "f_neg (FInf s) = FInf (\<not> s)"
| "f_neg (Fin s m e) = Fin (\<not> s) m e"

definition fin_int :: "bool \<Rightarrow> int \<Rightarrow> int" where
  "fin_int s m = (if s then - m else m)"

text \<open>The exact sum; a zero sum of opposite signs is positive, as round-to-nearest has it.\<close>

fun f_add_exact :: "fl \<Rightarrow> fl \<Rightarrow> fl" where
  "f_add_exact FNaN _ = FNaN"
| "f_add_exact _ FNaN = FNaN"
| "f_add_exact (FInf s) (FInf s') = (if s = s' then FInf s else FNaN)"
| "f_add_exact (FInf s) (Fin _ _ _) = FInf s"
| "f_add_exact (Fin _ _ _) (FInf s) = FInf s"
| "f_add_exact (Fin s m e) (Fin s' m' e') =
     (let e0 = min e e';
          v = fin_int s m * 2 ^ nat (e - e0) + fin_int s' m' * 2 ^ nat (e' - e0)
      in if v = 0 then Fin (s \<and> s') 0 e0 else Fin (v < 0) \<bar>v\<bar> e0)"

fun f_mul_exact :: "fl \<Rightarrow> fl \<Rightarrow> fl" where
  "f_mul_exact FNaN _ = FNaN"
| "f_mul_exact _ FNaN = FNaN"
| "f_mul_exact (FInf s) (FInf s') = FInf (s \<noteq> s')"
| "f_mul_exact (FInf s) (Fin s' m _) = (if m = 0 then FNaN else FInf (s \<noteq> s'))"
| "f_mul_exact (Fin s m _) (FInf s') = (if m = 0 then FNaN else FInf (s \<noteq> s'))"
| "f_mul_exact (Fin s m e) (Fin s' m' e') = Fin (s \<noteq> s') (m * m') (e + e')"

definition f_addb :: "ffmt \<Rightarrow> int \<Rightarrow> int \<Rightarrow> int" where
  "f_addb F a b = f_pack F (f_add_exact (f_unpack F a) (f_unpack F b))"

definition f_subb :: "ffmt \<Rightarrow> int \<Rightarrow> int \<Rightarrow> int" where
  "f_subb F a b = f_pack F (f_add_exact (f_unpack F a) (f_neg (f_unpack F b)))"

definition f_mulb :: "ffmt \<Rightarrow> int \<Rightarrow> int \<Rightarrow> int" where
  "f_mulb F a b = f_pack F (f_mul_exact (f_unpack F a) (f_unpack F b))"

text \<open>Division: the dividend is scaled so that the quotient has at least two extra bits.\<close>

definition f_divb :: "ffmt \<Rightarrow> int \<Rightarrow> int \<Rightarrow> int" where
  "f_divb F a b =
     (case (f_unpack F a, f_unpack F b) of
        (FNaN, _) \<Rightarrow> f_nan_bits F
      | (_, FNaN) \<Rightarrow> f_nan_bits F
      | (FInf _, FInf _) \<Rightarrow> f_nan_bits F
      | (FInf s, Fin s' _ _) \<Rightarrow> f_pack F (FInf (s \<noteq> s'))
      | (Fin s _ _, FInf s') \<Rightarrow> f_sign_bit F (s \<noteq> s')
      | (Fin s m e, Fin s' m' e') \<Rightarrow>
          (if m' = 0 then (if m = 0 then f_nan_bits F else f_pack F (FInf (s \<noteq> s')))
           else let k = bit_len m' + frac_bits F + 3; n = m * 2 ^ k
                in f_round F (s \<noteq> s') (n div m') (e - e' - int k) (n mod m' \<noteq> 0)))"

text \<open>Integer square root, two bits at a time.\<close>

function isqrt :: "int \<Rightarrow> int" where
  "isqrt n =
     (if n \<le> 0 then 0
      else let r = 2 * isqrt (n div 4) in if (r + 1) * (r + 1) \<le> n then r + 1 else r)"
  by pat_completeness auto
termination
  by (relation "measure nat") auto

declare isqrt.simps [simp del]

definition f_sqrtb :: "ffmt \<Rightarrow> int \<Rightarrow> int" where
  "f_sqrtb F a =
     (case f_unpack F a of
        FNaN \<Rightarrow> f_nan_bits F
      | FInf s \<Rightarrow> if s then f_nan_bits F else f_pack F (FInf False)
      | Fin s m e \<Rightarrow>
          (if m = 0 then f_sign_bit F s
           else if s then f_nan_bits F
           else let (m1, e1) = (if even e then (m, e) else (2 * m, e - 1));
                    k = frac_bits F + 3; n = m1 * 2 ^ (2 * k); r = isqrt n
                in f_round F False r (e1 div 2 - int k) (r * r \<noteq> n)))"

text \<open>Comparison: \<open>None\<close> when unordered.\<close>

fun f_cmp :: "fl \<Rightarrow> fl \<Rightarrow> int option" where
  "f_cmp FNaN _ = None"
| "f_cmp _ FNaN = None"
| "f_cmp (FInf s) (FInf s') = Some ((if s then -1 else 1) - (if s' then -1 else 1))"
| "f_cmp (FInf s) (Fin _ _ _) = Some (if s then -1 else 1)"
| "f_cmp (Fin _ _ _) (FInf s) = Some (if s then 1 else -1)"
| "f_cmp (Fin s m e) (Fin s' m' e') =
     (let e0 = min e e'
      in Some (sgn (fin_int s m * 2 ^ nat (e - e0) - fin_int s' m' * 2 ^ nat (e' - e0))))"

definition f_of_intb :: "ffmt \<Rightarrow> int \<Rightarrow> int" where
  "f_of_intb F i = f_round F (i < 0) \<bar>i\<bar> 0 False"

text \<open>Truncation towards zero and rounding up; \<open>None\<close> for NaN and infinities.\<close>

fun f_trunc :: "fl \<Rightarrow> int option" where
  "f_trunc FNaN = None"
| "f_trunc (FInf _) = None"
| "f_trunc (Fin s m e) =
     Some (fin_int s (if 0 \<le> e then m * 2 ^ nat e else m div 2 ^ nat (- e)))"

fun f_ceil :: "fl \<Rightarrow> int option" where
  "f_ceil FNaN = None"
| "f_ceil (FInf _) = None"
| "f_ceil (Fin s m e) =
     Some (if 0 \<le> e then fin_int s (m * 2 ^ nat e)
           else if s then - (m div 2 ^ nat (- e))
           else m div 2 ^ nat (- e) + (if m mod 2 ^ nat (- e) = 0 then 0 else 1))"

definition cast_i32 :: "int option \<Rightarrow> i32" where
  "cast_i32 v =
     (case v of Some i \<Rightarrow> if - (2 ^ 31) \<le> i \<and> i < 2 ^ 31 then word_of_int i else push_bit 31 1
      | None \<Rightarrow> push_bit 31 1)"

definition cast_i64 :: "int option \<Rightarrow> i64" where
  "cast_i64 v =
     (case v of Some i \<Rightarrow> if - (2 ^ 63) \<le> i \<and> i < 2 ^ 63 then word_of_int i else push_bit 63 1
      | None \<Rightarrow> push_bit 63 1)"

section \<open>The two C++ types\<close>

definition f32_val :: "f32 \<Rightarrow> fl" where "f32_val a = f_unpack binary32 (uint a)"

definition f32_add :: "f32 \<Rightarrow> f32 \<Rightarrow> f32" where
  "f32_add a b = word_of_int (f_addb binary32 (uint a) (uint b))"

definition f32_sub :: "f32 \<Rightarrow> f32 \<Rightarrow> f32" where
  "f32_sub a b = word_of_int (f_subb binary32 (uint a) (uint b))"

definition f32_mul :: "f32 \<Rightarrow> f32 \<Rightarrow> f32" where
  "f32_mul a b = word_of_int (f_mulb binary32 (uint a) (uint b))"

definition f32_div :: "f32 \<Rightarrow> f32 \<Rightarrow> f32" where
  "f32_div a b = word_of_int (f_divb binary32 (uint a) (uint b))"

definition f32_sqrt :: "f32 \<Rightarrow> f32" where
  "f32_sqrt a = word_of_int (f_sqrtb binary32 (uint a))"

definition f32_lt :: "f32 \<Rightarrow> f32 \<Rightarrow> bool" where
  "f32_lt a b = (case f_cmp (f32_val a) (f32_val b) of Some c \<Rightarrow> c < 0 | None \<Rightarrow> False)"

definition f32_le :: "f32 \<Rightarrow> f32 \<Rightarrow> bool" where
  "f32_le a b = (case f_cmp (f32_val a) (f32_val b) of Some c \<Rightarrow> c \<le> 0 | None \<Rightarrow> False)"

definition f32_of_int :: "int \<Rightarrow> f32" where
  "f32_of_int i = word_of_int (f_of_intb binary32 i)"

definition f32_to_i32 :: "f32 \<Rightarrow> i32" where
  "f32_to_i32 a = cast_i32 (f_trunc (f32_val a))"

definition f32_to_i64 :: "f32 \<Rightarrow> i64" where
  "f32_to_i64 a = cast_i64 (f_trunc (f32_val a))"

definition f32_ceil_i32 :: "f32 \<Rightarrow> i32" where
  "f32_ceil_i32 a = cast_i32 (f_ceil (f32_val a))"

definition f64_val :: "f64 \<Rightarrow> fl" where "f64_val a = f_unpack binary64 (uint a)"

definition f64_add :: "f64 \<Rightarrow> f64 \<Rightarrow> f64" where
  "f64_add a b = word_of_int (f_addb binary64 (uint a) (uint b))"

definition f64_sub :: "f64 \<Rightarrow> f64 \<Rightarrow> f64" where
  "f64_sub a b = word_of_int (f_subb binary64 (uint a) (uint b))"

definition f64_mul :: "f64 \<Rightarrow> f64 \<Rightarrow> f64" where
  "f64_mul a b = word_of_int (f_mulb binary64 (uint a) (uint b))"

definition f64_div :: "f64 \<Rightarrow> f64 \<Rightarrow> f64" where
  "f64_div a b = word_of_int (f_divb binary64 (uint a) (uint b))"

definition f64_le :: "f64 \<Rightarrow> f64 \<Rightarrow> bool" where
  "f64_le a b = (case f_cmp (f64_val a) (f64_val b) of Some c \<Rightarrow> c \<le> 0 | None \<Rightarrow> False)"

definition f64_lt :: "f64 \<Rightarrow> f64 \<Rightarrow> bool" where
  "f64_lt a b = (case f_cmp (f64_val a) (f64_val b) of Some c \<Rightarrow> c < 0 | None \<Rightarrow> False)"

definition f64_neg :: "f64 \<Rightarrow> f64" where
  "f64_neg a = word_of_int (f_pack binary64 (f_neg (f64_val a)))"

definition f64_of_int :: "int \<Rightarrow> f64" where
  "f64_of_int i = word_of_int (f_of_intb binary64 i)"

definition f32_of_f64 :: "f64 \<Rightarrow> f32" where
  "f32_of_f64 a = word_of_int (f_pack binary32 (f64_val a))"

section \<open>Facts\<close>

lemma isqrt_nonneg [simp]: "0 \<le> isqrt n"
  by (induction n rule: isqrt.induct) (simp add: isqrt.simps Let_def)

lemma isqrt_bounds: "0 \<le> n \<Longrightarrow> isqrt n * isqrt n \<le> n \<and> n < (isqrt n + 1) * (isqrt n + 1)"
proof (induction n rule: isqrt.induct)
  case (1 n)
  show ?case
  proof (cases "n \<le> 0")
    case True
    then show ?thesis using 1 by (simp add: isqrt.simps)
  next
    case False
    define r where "r = isqrt (n div 4)"
    have "0 \<le> n div 4" using False by simp
    from 1(1) [OF False this] have lo: "r * r \<le> n div 4" and hi: "n div 4 < (r + 1) * (r + 1)"
      by (simp_all add: r_def)
    have "4 * (r * r) \<le> n" using lo by linarith
    moreover have "n < 4 * ((r + 1) * (r + 1))" using hi by linarith
    ultimately show ?thesis using False
      by (simp add: isqrt.simps [of n] Let_def r_def [symmetric] algebra_simps)
  qed
qed

lemma square_le_square_int: "0 \<le> (a :: int) \<Longrightarrow> a \<le> b \<Longrightarrow> a * a \<le> b * b"
  by (rule mult_mono) auto

lemma isqrt_le_iff: "0 \<le> n \<Longrightarrow> 0 \<le> r \<Longrightarrow> r \<le> isqrt n \<longleftrightarrow> r * r \<le> n"
  using isqrt_bounds [of n] square_le_square_int [of r "isqrt n"]
    square_le_square_int [of "isqrt n + 1" r]
  by (smt (verit) isqrt_nonneg)

lemma isqrt_unique: "0 \<le> r \<Longrightarrow> r * r \<le> n \<Longrightarrow> n < (r + 1) * (r + 1) \<Longrightarrow> isqrt n = r"
  using isqrt_le_iff [of n r] isqrt_le_iff [of n "r + 1"]
  by (smt (verit) zero_le_mult_iff isqrt_nonneg)

end
