(* ===== verification/GM_Fixed.thy ===== *)
theory GM_Fixed
  imports Complex_Main GM_Float
begin

text \<open>
  The 32.32 fixed-point arithmetic of the realtime server (\<open>common/cpp/realtime/fixed/\<close>): the
  portable 64x64 multiplication and the bitwise division of \<open>fixed.hpp\<close>, the Newton square root
  and the sine table of \<open>fixed_math.hpp\<close>, and the vectors of \<open>fixed_vec3.hpp\<close>. A \<open>Fixed\<close> is its
  raw 64-bit word, read as two's complement. The lemmas show that the multiplication and the
  division compute the exact quotient truncated towards zero, and that the square root's 40
  iterations are enough for every input.
\<close>

type_synonym fixed = i64

section \<open>fixed.hpp\<close>

definition FX_ONE :: fixed where
  "FX_ONE = push_bit 32 1"

definition fx_from_int :: "i32 \<Rightarrow> fixed" where
  "fx_from_int v = push_bit 32 (scast v)"

definition f32_ONE :: f32 where
  "f32_ONE = f32_of_int (2 ^ 32)"

definition fx_from_float :: "f32 \<Rightarrow> fixed" where
  "fx_from_float v = f32_to_i64 (f32_mul v f32_ONE)"

definition fx_to_int :: "fixed \<Rightarrow> i32" where
  "fx_to_int r = ucast (signed_drop_bit 32 r)"

definition fx_to_float :: "fixed \<Rightarrow> f32" where
  "fx_to_float r = f32_div (f32_of_int (sint r)) f32_ONE"

definition fx_add :: "fixed \<Rightarrow> fixed \<Rightarrow> fixed" where "fx_add a b = a + b"

definition fx_sub :: "fixed \<Rightarrow> fixed \<Rightarrow> fixed" where "fx_sub a b = a - b"

definition fx_neg :: "fixed \<Rightarrow> fixed" where "fx_neg a = - a"

definition fx_lt :: "fixed \<Rightarrow> fixed \<Rightarrow> bool" where "fx_lt a b \<longleftrightarrow> sint a < sint b"

definition fx_le :: "fixed \<Rightarrow> fixed \<Rightarrow> bool" where "fx_le a b \<longleftrightarrow> sint a \<le> sint b"

definition to_unsigned_abs :: "i64 \<Rightarrow> u64" where
  "to_unsigned_abs v = (if sint v < 0 then - (v + 1) + 1 else v)"

definition mask32 :: u64 where "mask32 = 0xFFFFFFFF"

definition mul_magnitude :: "u64 \<Rightarrow> u64 \<Rightarrow> u64" where
  "mul_magnitude ua ub =
     (let a_lo = ua AND mask32; a_hi = drop_bit 32 ua;
          b_lo = ub AND mask32; b_hi = drop_bit 32 ub;
          ll = a_lo * b_lo; lh = a_lo * b_hi; hl = a_hi * b_lo; hh = a_hi * b_hi;
          mid = drop_bit 32 ll + (lh AND mask32) + (hl AND mask32);
          res_lo32 = mid AND mask32; carry = drop_bit 32 mid;
          res_hi32 = hh + drop_bit 32 lh + drop_bit 32 hl + carry
      in push_bit 32 res_hi32 OR res_lo32)"

definition mul_shift_right32 :: "i64 \<Rightarrow> i64 \<Rightarrow> i64" where
  "mul_shift_right32 a b =
     (let neg = ((sint a < 0) \<noteq> (sint b < 0));
          result = mul_magnitude (to_unsigned_abs a) (to_unsigned_abs b)
      in if neg then - result else result)"

definition fx_mul :: "fixed \<Rightarrow> fixed \<Rightarrow> fixed" where
  "fx_mul a b = mul_shift_right32 a b"

text \<open>The loop of the long division: \<open>i\<close> rounds left, remainder and quotient bits so far.\<close>

fun div_loop :: "nat \<Rightarrow> u64 \<Rightarrow> u64 \<Rightarrow> u64 \<Rightarrow> u64" where
  "div_loop 0 denom rem fp = fp"
| "div_loop (Suc i) denom rem fp =
     (let rem1 = push_bit 1 rem; fp1 = push_bit 1 fp
      in if denom \<le> rem1 then div_loop i denom (rem1 - denom) (fp1 OR 1)
         else div_loop i denom rem1 fp1)"

definition div_q32_32 :: "u64 \<Rightarrow> u64 \<Rightarrow> u64" where
  "div_q32_32 numer denom =
     (if denom = 0 then 0
      else let int_part = numer div denom; rem = numer mod denom;
               frac_part = div_loop 32 denom rem 0
           in push_bit 32 int_part OR (frac_part AND mask32))"

definition div_shift_left32 :: "i64 \<Rightarrow> i64 \<Rightarrow> i64" where
  "div_shift_left32 a b =
     (let neg = ((sint a < 0) \<noteq> (sint b < 0));
          result = div_q32_32 (to_unsigned_abs a) (to_unsigned_abs b)
      in if neg then - result else result)"

text \<open>\<open>operator/\<close> throws on a zero divisor: \<open>None\<close>.\<close>

definition fx_div :: "fixed \<Rightarrow> fixed \<Rightarrow> fixed option" where
  "fx_div a b = (if b = 0 then None else Some (div_shift_left32 a b))"

section \<open>fixed\_math.hpp\<close>

text \<open>The Newton loop: at most \<open>i\<close> more rounds, leaving when the guess stops falling.\<close>

fun sqrt_loop :: "nat \<Rightarrow> u64 \<Rightarrow> u64 \<Rightarrow> u64" where
  "sqrt_loop 0 n guess = guess"
| "sqrt_loop (Suc i) n guess =
     (if guess = 0 then guess
      else let q = n div guess; ng = (guess + q) div 2
           in if guess \<le> ng then guess else sqrt_loop i n ng)"

definition fixed_sqrt :: "fixed \<Rightarrow> fixed" where
  "fixed_sqrt x = (if sint x \<le> 0 then 0 else push_bit 16 (sqrt_loop 40 x x))"

definition fixed_abs :: "fixed \<Rightarrow> fixed" where
  "fixed_abs x = (if sint x < 0 then - x else x)"

text \<open>The Taylor series that fills the table at compile time, in double precision.\<close>

definition half_pi :: f64 where
  "half_pi = 0x3FF921FB54442D18"

fun sin_terms :: "nat list \<Rightarrow> f64 \<Rightarrow> f64 \<Rightarrow> f64 \<Rightarrow> f64" where
  "sin_terms [] angle s term = s"
| "sin_terms (k # ks) angle s term =
     (let den = f64_mul (f64_mul (f64_of_int 2) (f64_of_int (int k)))
                  (f64_add (f64_mul (f64_of_int 2) (f64_of_int (int k))) (f64_of_int 1));
          term' = f64_mul term (f64_div (f64_mul (f64_neg angle) angle) den)
      in sin_terms ks angle (f64_add s term') term')"

definition TABLE_SIZE :: nat where "TABLE_SIZE = 4096"

definition generate_sin_entry :: "nat \<Rightarrow> fixed" where
  "generate_sin_entry i =
     (let angle = f64_mul (f64_div (f64_of_int (int i)) (f64_of_int 4096)) half_pi
      in fx_from_float (f32_of_f64 (sin_terms [1, 2, 3, 4, 5, 6, 7] angle angle angle)))"

definition fixed_sin :: "u16 \<Rightarrow> fixed" where
  "fixed_sin bradian =
     (let idx = (unat bradian * 4) div 16;
          quadrant = (idx div 4096) mod 4;
          in_quad = idx mod 4096
      in if quadrant = 0 then generate_sin_entry in_quad
         else if quadrant = 1 then generate_sin_entry (TABLE_SIZE - 1 - in_quad)
         else if quadrant = 2 then - generate_sin_entry in_quad
         else - generate_sin_entry (TABLE_SIZE - 1 - in_quad))"

definition fixed_cos :: "u16 \<Rightarrow> fixed" where
  "fixed_cos bradian = fixed_sin (bradian + 16384)"

section \<open>fixed\_vec3.hpp\<close>

record fixed_vec3 =
  fv_x :: fixed
  fv_y :: fixed
  fv_z :: fixed

definition FV_ZERO :: fixed_vec3 where
  "FV_ZERO = \<lparr>fv_x = 0, fv_y = 0, fv_z = 0\<rparr>"

definition fv_add :: "fixed_vec3 \<Rightarrow> fixed_vec3 \<Rightarrow> fixed_vec3" where
  "fv_add a b = \<lparr>fv_x = fx_add (fv_x a) (fv_x b), fv_y = fx_add (fv_y a) (fv_y b),
                 fv_z = fx_add (fv_z a) (fv_z b)\<rparr>"

definition fv_sub :: "fixed_vec3 \<Rightarrow> fixed_vec3 \<Rightarrow> fixed_vec3" where
  "fv_sub a b = \<lparr>fv_x = fx_sub (fv_x a) (fv_x b), fv_y = fx_sub (fv_y a) (fv_y b),
                 fv_z = fx_sub (fv_z a) (fv_z b)\<rparr>"

definition fv_scale :: "fixed_vec3 \<Rightarrow> fixed \<Rightarrow> fixed_vec3" where
  "fv_scale a s = \<lparr>fv_x = fx_mul (fv_x a) s, fv_y = fx_mul (fv_y a) s, fv_z = fx_mul (fv_z a) s\<rparr>"

definition fv_dot :: "fixed_vec3 \<Rightarrow> fixed_vec3 \<Rightarrow> fixed" where
  "fv_dot a b = fx_add (fx_add (fx_mul (fv_x a) (fv_x b)) (fx_mul (fv_y a) (fv_y b)))
                  (fx_mul (fv_z a) (fv_z b))"

definition fv_length :: "fixed_vec3 \<Rightarrow> fixed" where
  "fv_length a = fixed_sqrt (fv_dot a a)"

definition fv_length_xz :: "fixed_vec3 \<Rightarrow> fixed" where
  "fv_length_xz a =
     fixed_sqrt (fx_add (fx_mul (fv_x a) (fv_x a)) (fx_mul (fv_z a) (fv_z a)))"

text \<open>The division cannot throw: its divisor is not zero in the branch that divides.\<close>

definition fv_normalized :: "fixed_vec3 \<Rightarrow> fixed_vec3" where
  "fv_normalized a =
     (let len = fv_length a
      in if len = 0 then FV_ZERO
         else \<lparr>fv_x = div_shift_left32 (fv_x a) len, fv_y = div_shift_left32 (fv_y a) len,
               fv_z = div_shift_left32 (fv_z a) len\<rparr>)"

section \<open>The portable multiplication is exact\<close>

lemma uint_to_unsigned_abs: "uint (to_unsigned_abs v) = \<bar>sint v\<bar>"
  using uint64_bounds [of v]
  by (auto simp: to_unsigned_abs_def sint64_cases uint_neg64 not_less)

lemma uint_mask32: "uint (a AND mask32) = uint a mod 2 ^ 32"
proof -
  have "a AND mask32 = take_bit 32 a"
    by (simp add: mask32_def take_bit_eq_mask mask_eq_exp_minus_1)
  then show ?thesis by (simp add: uint_take_bit)
qed

lemma int_div_lessI:
  assumes "0 < d" and "x < k * (d :: int)"
  shows "x div d < k"
proof -
  have "x div d * d \<le> x" using assms(1) by (simp add: minus_mod_eq_div_mult [symmetric])
  then have "x div d * d < k * d" using assms(2) by linarith
  then show ?thesis using assms(1) by (simp add: mult_less_cancel_right)
qed

lemma mod_mult_add_left: "((a mod n) * b + c) mod n = (a * b + c) mod (n :: int)"
  by (metis mod_add_left_eq mod_mult_left_eq)

lemma int_mul_split_div:
  fixes A B :: int
  shows "A * B div 2 ^ 32 =
    ((A div 2 ^ 32) * (B div 2 ^ 32)) * 2 ^ 32 + (A mod 2 ^ 32) * (B div 2 ^ 32)
      + (A div 2 ^ 32) * (B mod 2 ^ 32) + (A mod 2 ^ 32) * (B mod 2 ^ 32) div 2 ^ 32"
proof -
  define a1 a0 b1 b0 where d: "a1 = A div 2 ^ 32" "a0 = A mod 2 ^ 32" "b1 = B div 2 ^ 32" "b0 = B mod 2 ^ 32"
  have "A = a1 * 2 ^ 32 + a0" "B = b1 * 2 ^ 32 + b0" by (simp_all add: d)
  then have "A * B = a0 * b0 + (a1 * b1 * 2 ^ 32 + a0 * b1 + a1 * b0) * 2 ^ 32"
    by (simp add: algebra_simps)
  then have "A * B div 2 ^ 32 = a1 * b1 * 2 ^ 32 + a0 * b1 + a1 * b0 + a0 * b0 div 2 ^ 32"
    by simp
  then show ?thesis by (simp add: d)
qed

lemma uint_mul_magnitude:
  "uint (mul_magnitude ua ub) = (uint ua * uint ub div 2 ^ 32) mod 2 ^ 64"
proof -
  define A B where AB: "A = uint ua" "B = uint ub"
  define a0 a1 b0 b1 where d: "a0 = A mod 2 ^ 32" "a1 = A div 2 ^ 32" "b0 = B mod 2 ^ 32" "b1 = B div 2 ^ 32"
  have bA: "0 \<le> A" "A < 2 ^ 64" "0 \<le> B" "B < 2 ^ 64" using uint64_bounds by (auto simp: AB)
  have b: "0 \<le> a0" "a0 < 2 ^ 32" "0 \<le> a1" "a1 < 2 ^ 32" "0 \<le> b0" "b0 < 2 ^ 32" "0 \<le> b1" "b1 < 2 ^ 32"
    using bA by (auto simp: d)
  have small: "x * y \<le> (2 ^ 32 - 1) * (2 ^ 32 - 1)" if "0 \<le> x" "x < 2 ^ 32" "0 \<le> y" "y < 2 ^ 32" for x y :: int
    using that by (intro mult_mono) auto
  have u: "uint (ua AND mask32) = a0" "uint (ub AND mask32) = b0" "uint (drop_bit 32 ua) = a1" "uint (drop_bit 32 ub) = b1"
    by (simp_all only: uint_mask32 uint_drop_bit AB d)
  have m: "uint ((ua AND mask32) * (ub AND mask32)) = a0 * b0" "uint ((ua AND mask32) * drop_bit 32 ub) = a0 * b1"
     "uint (drop_bit 32 ua * (ub AND mask32)) = a1 * b0" "uint (drop_bit 32 ua * drop_bit 32 ub) = a1 * b1"
    using small [of a0 b0] small [of a0 b1] small [of a1 b0] small [of a1 b1] b
    by (simp_all add: uint_mul64 u)
  define mid where "mid = a0 * b0 div 2 ^ 32 + a0 * b1 mod 2 ^ 32 + a1 * b0 mod 2 ^ 32"
  have midw: "uint (drop_bit 32 ((ua AND mask32) * (ub AND mask32)) + ((ua AND mask32) * drop_bit 32 ub AND mask32)
      + (drop_bit 32 ua * (ub AND mask32) AND mask32)) = mid"
  proof -
    define x where "x = drop_bit 32 ((ua AND mask32) * (ub AND mask32))"
    define y where "y = ((ua AND mask32) * drop_bit 32 ub) AND mask32"
    define z where "z = (drop_bit 32 ua * (ub AND mask32)) AND mask32"
    have v: "uint x = a0 * b0 div 2 ^ 32" "uint y = a0 * b1 mod 2 ^ 32" "uint z = a1 * b0 mod 2 ^ 32"
      by (simp_all only: x_def y_def z_def uint_drop_bit uint_mask32 m)
    have "a0 * b0 < 2 ^ 32 * 2 ^ 32" using small [of a0 b0] b by simp
    then have "uint x < 2 ^ 32" unfolding v by (intro int_div_lessI) simp_all
    moreover have "uint y < 2 ^ 32" "uint z < 2 ^ 32" unfolding v by simp_all
    ultimately have "uint (x + y + z) = uint x + uint y + uint z"
      by (simp add: uint_add64)
    then have "uint (x + y + z) = mid" unfolding v mid_def .
    then show ?thesis unfolding x_def y_def z_def .
  qed
  define mw where "mw = drop_bit 32 ((ua AND mask32) * (ub AND mask32)) + ((ua AND mask32) * drop_bit 32 ub AND mask32)
      + (drop_bit 32 ua * (ub AND mask32) AND mask32)"
  have midw: "uint mw = mid" using midw by (simp only: mw_def)
  define hi where "hi = drop_bit 32 ua * drop_bit 32 ub + drop_bit 32 ((ua AND mask32) * drop_bit 32 ub)
      + drop_bit 32 (drop_bit 32 ua * (ub AND mask32))
      + drop_bit 32 mw"
  have hi: "uint hi = (a1 * b1 + a0 * b1 div 2 ^ 32 + a1 * b0 div 2 ^ 32 + mid div 2 ^ 32) mod 2 ^ 64"
    unfolding hi_def by (simp only: uint_plus64 uint_drop_bit m midw mod_add_left_eq)
  have "uint (mul_magnitude ua ub) = (uint hi * 2 ^ 32 + mid mod 2 ^ 32) mod 2 ^ 64"
    unfolding mul_magnitude_def Let_def mw_def [symmetric] hi_def [symmetric]
    by (subst uint_push_or) (simp_all add: uint_mask32 midw)
  then have "uint (mul_magnitude ua ub) =
     ((a1 * b1 + a0 * b1 div 2 ^ 32 + a1 * b0 div 2 ^ 32 + mid div 2 ^ 32) * 2 ^ 32 + mid mod 2 ^ 32) mod 2 ^ 64"
    unfolding hi mod_mult_add_left .
  also have "(a1 * b1 + a0 * b1 div 2 ^ 32 + a1 * b0 div 2 ^ 32 + mid div 2 ^ 32) * 2 ^ 32 + mid mod 2 ^ 32
     = a1 * b1 * 2 ^ 32 + a0 * b1 + a1 * b0 + a0 * b0 div 2 ^ 32"
    using div_mult_mod_eq [of "a0 * b1" "2 ^ 32"] div_mult_mod_eq [of "a1 * b0" "2 ^ 32"] div_mult_mod_eq [of mid "2 ^ 32"]
    by (simp only: mid_def distrib_right)
  finally show ?thesis
    using int_mul_split_div [of A B] by (simp add: d AB)
qed
lemma sint_signed_magnitude:
  fixes r :: u64
  assumes "uint r < 2 ^ 63"
  shows "sint (if neg then - r else r) = (if neg then - uint r else uint r)"
  using assms uint64_bounds [of r] by (auto simp: sint64_cases uint_neg64)

lemma sign_product: "(if (x < 0) \<noteq> (y < 0) then - (\<bar>x\<bar> * \<bar>y\<bar>) else \<bar>x\<bar> * \<bar>y\<bar>) = x * (y :: int)"
  by (auto simp: abs_if)

lemma sint_fx_mul:
  assumes "\<bar>sint a * sint b\<bar> div 2 ^ 32 < 2 ^ 63"
  shows "sint (fx_mul a b) = sgn (sint a) * sgn (sint b) * (\<bar>sint a * sint b\<bar> div 2 ^ 32)"
proof -
  define r where "r = mul_magnitude (to_unsigned_abs a) (to_unsigned_abs b)"
  have "0 \<le> \<bar>sint a * sint b\<bar> div 2 ^ 32" by simp
  then have r: "uint r = \<bar>sint a * sint b\<bar> div 2 ^ 32"
    using assms by (simp add: r_def uint_mul_magnitude uint_to_unsigned_abs abs_mult mod_pos_pos_trivial)
  show ?thesis
    using sint_signed_magnitude [of r "(sint a < 0) \<noteq> (sint b < 0)"] r assms
    by (auto simp: fx_mul_def mul_shift_right32_def Let_def r_def [symmetric] sgn_if)
qed

section \<open>The bitwise division is exact\<close>

lemma uint_div_loop:
  assumes "uint rem < uint denom" and "uint denom \<le> 2 ^ 63"
  shows "uint (div_loop i denom rem fp) =
           (uint fp * 2 ^ i + uint rem * 2 ^ i div uint denom) mod 2 ^ 64"
  using assms
proof (induction i arbitrary: rem fp)
  case 0
  then show ?case using uint64_bounds [of fp] by (simp add: div_pos_pos_trivial mod_pos_pos_trivial)
next
  case (Suc i)
  let ?d = "uint denom" and ?r = "uint rem"
  have r1: "uint (push_bit 1 rem) = 2 * ?r"
    using Suc.prems uint64_bounds [of rem] by (subst uint_push_bit) (simp add: mod_pos_pos_trivial)
  have f1: "uint (push_bit 1 fp) = (2 * uint fp) mod 2 ^ 64"
    by (subst uint_push_bit) (simp add: mult.commute)
  have dbl: "push_bit 1 x = x * 2" for x :: u64 by simp
  note r1 = r1 [unfolded dbl] and f1 = f1 [unfolded dbl]
  have unf: "div_loop (Suc i) denom rem fp =
     (if denom \<le> rem * 2 then div_loop i denom (rem * 2 - denom) (fp * 2 OR 1)
      else div_loop i denom (rem * 2) (fp * 2))"
    by (simp add: Let_def)
  show ?case
  proof (cases "denom \<le> rem * 2")
    case True
    then have le: "?d \<le> 2 * ?r" by (simp add: word_le_def r1)
    have s: "uint (rem * 2 - denom) = 2 * ?r - ?d"
      using le Suc.prems uint64_bounds [of denom]
      by (simp add: uint_word_ariths r1 mod_pos_pos_trivial)
    have o: "uint (fp * 2 OR 1) = (2 * uint fp + 1) mod 2 ^ 64"
      using uint_push_or [of 1 1 fp] by (simp add: mult.commute)
    have "uint (div_loop (Suc i) denom rem fp) =
       ((2 * uint fp + 1) * 2 ^ i + (2 * ?r - ?d) * 2 ^ i div ?d) mod 2 ^ 64"
      using True Suc.IH [of "rem * 2 - denom" "fp * 2 OR 1"] s o Suc.prems
      by (simp add: unf mod_mult_add_left)
    also have "(2 * ?r - ?d) * 2 ^ i div ?d = ?r * 2 ^ Suc i div ?d - 2 ^ i"
    proof -
      have "(2 * ?r - ?d) * 2 ^ i = ?r * 2 ^ Suc i + (- (2 ^ i)) * ?d"
        by (simp add: algebra_simps)
      moreover have "?d \<noteq> 0" using Suc.prems(1) le by linarith
      ultimately show ?thesis
        by (metis (no_types) div_mult_self1 add.commute uminus_add_conv_diff)
    qed
    finally show ?thesis by (simp add: algebra_simps)
  next
    case False
    then have lt: "2 * ?r < ?d" by (simp add: word_le_def r1 not_le)
    have "uint (div_loop (Suc i) denom rem fp) =
       (2 * uint fp * 2 ^ i + 2 * ?r * 2 ^ i div ?d) mod 2 ^ 64"
      using False Suc.IH [of "rem * 2" "fp * 2"] r1 f1 lt Suc.prems
      by (simp add: unf mod_mult_add_left)
    then show ?thesis by (simp add: algebra_simps)
  qed
qed

lemma uint_div_q32_32:
  assumes "denom \<noteq> 0" and "uint denom \<le> 2 ^ 63"
  shows "uint (div_q32_32 numer denom) = (uint numer * 2 ^ 32 div uint denom) mod 2 ^ 64"
proof -
  let ?n = "uint numer" and ?d = "uint denom"
  have d: "0 < ?d" using assms(1) uint64_bounds [of denom] by (metis le_neq_trans uint_0_iff)
  have n: "0 \<le> ?n" by simp
  have rem: "uint (numer mod denom) = ?n mod ?d" by (simp add: uint_mod)
  have lt: "?n mod ?d * 2 ^ 32 div ?d < 2 ^ 32" "0 \<le> ?n mod ?d * 2 ^ 32 div ?d"
    using d by (auto intro!: int_div_lessI simp: pos_imp_zdiv_nonneg_iff)
  have fp: "uint (div_loop 32 denom (numer mod denom) 0) = ?n mod ?d * 2 ^ 32 div ?d"
    using uint_div_loop [of "numer mod denom" denom 32 0] d assms(2) lt
    by (simp add: rem mod_pos_pos_trivial)
  obtain q m where qm: "?n div ?d = q" "?n mod ?d = m" "?n = q * ?d + m"
    using div_mult_mod_eq [of ?n ?d] by metis
  have "?n * 2 ^ 32 = ?n mod ?d * 2 ^ 32 + (?n div ?d * 2 ^ 32) * ?d"
    unfolding qm(1,2) by (subst qm(3)) (simp add: algebra_simps)
  then have split: "?n * 2 ^ 32 div ?d = ?n div ?d * 2 ^ 32 + ?n mod ?d * 2 ^ 32 div ?d"
    using d by simp
  have "uint (div_q32_32 numer denom) = (uint (numer div denom) * 2 ^ 32 + uint (div_loop 32 denom (numer mod denom) 0 AND mask32)) mod 2 ^ 64"
    using assms(1) by (simp add: div_q32_32_def Let_def uint_push_or uint_mask32)
  then show ?thesis
    using lt split by (simp add: uint_mask32 fp uint_div mod_pos_pos_trivial)
qed

lemma sint_fx_div:
  assumes "b \<noteq> 0" and "\<bar>sint a\<bar> * 2 ^ 32 div \<bar>sint b\<bar> < 2 ^ 63"
  shows "\<exists>q. fx_div a b = Some q \<and>
    sint q = sgn (sint a) * sgn (sint b) * (\<bar>sint a\<bar> * 2 ^ 32 div \<bar>sint b\<bar>)"
proof -
  define r where "r = div_q32_32 (to_unsigned_abs a) (to_unsigned_abs b)"
  have b: "sint b \<noteq> 0" using assms(1) uint64_bounds [of b] by (auto simp: sint64_cases uint_0_iff)
  have ub: "to_unsigned_abs b \<noteq> 0" "uint (to_unsigned_abs b) \<le> 2 ^ 63"
    using b uint_to_unsigned_abs [of b] sint_ge [of b] sint_lt [of b] by auto
  have "0 \<le> \<bar>sint a\<bar> * 2 ^ 32 div \<bar>sint b\<bar>" using b by (simp add: pos_imp_zdiv_nonneg_iff)
  then have r: "uint r = \<bar>sint a\<bar> * 2 ^ 32 div \<bar>sint b\<bar>"
    using uint_div_q32_32 [OF ub, of "to_unsigned_abs a"] assms(2)
    by (simp add: r_def uint_to_unsigned_abs mod_pos_pos_trivial)
  show ?thesis
    using sint_signed_magnitude [of r "(sint a < 0) \<noteq> (sint b < 0)"] r assms b
    by (auto simp: fx_div_def div_shift_left32_def Let_def r_def [symmetric] sgn_if)
qed
section \<open>The Newton iteration reaches the integer square root\<close>

text \<open>The loop on integers; the word loop computes it, since no intermediate sum overflows.\<close>

fun newton :: "nat \<Rightarrow> int \<Rightarrow> int \<Rightarrow> int" where
  "newton 0 n g = g"
| "newton (Suc i) n g = (let ng = (g + n div g) div 2 in if g \<le> ng then g else newton i n ng)"

lemma newton_ge:
  fixes g :: int
  assumes "0 < g" and "0 \<le> n"
  shows "isqrt n \<le> (g + n div g) div 2"
proof -
  let ?s = "isqrt n" and ?q = "n div g"
  have "?s * ?s \<le> n" using isqrt_bounds [OF assms(2)] by simp
  have "n < (?q + 1) * g"
    using assms(1) by (metis div_mult_mod_eq pos_mod_bound distrib_right mult_1 add_strict_left_mono)
  have "2 * ?s \<le> g + ?q"
  proof (rule ccontr)
    assume "\<not> 2 * ?s \<le> g + ?q"
    then have "g + ?q + 1 \<le> 2 * ?s" by simp
    moreover have "0 \<le> ?q" using assms by (simp add: pos_imp_zdiv_nonneg_iff)
    ultimately have "(g + (?q + 1)) * (g + (?q + 1)) \<le> (2 * ?s) * (2 * ?s)"
      using assms(1) by (intro square_le_square_int) auto
    moreover have "4 * (g * (?q + 1)) \<le> (g + (?q + 1)) * (g + (?q + 1))"
      using zero_le_square [of "g - (?q + 1)"] by (simp add: algebra_simps)
    ultimately show False using \<open>?s * ?s \<le> n\<close> \<open>n < (?q + 1) * g\<close> by (simp add: algebra_simps)
  qed
  then show ?thesis by simp
qed

lemma newton_stop:
  assumes "0 < n"
  shows "newton i n (isqrt n) = isqrt n"
proof (cases i)
  case (Suc j)
  have "1 \<le> isqrt n" using assms isqrt_le_iff [of n 1] by simp
  then have "isqrt n \<le> (isqrt n + n div isqrt n) div 2" using assms by (intro newton_ge) auto
  then show ?thesis using Suc by (simp add: Let_def)
qed simp

text \<open>The relative error of the guess, as a real number.\<close>

definition near :: "int \<Rightarrow> real \<Rightarrow> int \<Rightarrow> bool" where
  "near n \<epsilon> g \<longleftrightarrow> isqrt n \<le> g \<and> 0 < g \<and> real_of_int g \<le> sqrt (real_of_int n) * (1 + \<epsilon>)"

lemma isqrt_real:
  assumes "0 \<le> n"
  shows "real_of_int (isqrt n) \<le> sqrt (real_of_int n)" "sqrt (real_of_int n) < real_of_int (isqrt n) + 1"
proof -
  have "real_of_int (isqrt n * isqrt n) \<le> real_of_int n"
    and "real_of_int n < real_of_int ((isqrt n + 1) * (isqrt n + 1))"
    unfolding of_int_le_iff of_int_less_iff using isqrt_bounds [OF assms] by simp_all
  then show "real_of_int (isqrt n) \<le> sqrt (real_of_int n)" "sqrt (real_of_int n) < real_of_int (isqrt n) + 1"
    by (auto intro!: real_le_rsqrt real_less_lsqrt simp: power2_eq_square)
qed

lemma newton_near_step:
  assumes n: "0 < n" and g: "near n \<epsilon> g" and \<epsilon>: "0 \<le> \<epsilon>" and ne: "g \<noteq> isqrt n"
    and d: "\<epsilon> * \<epsilon> \<le> 2 * \<delta> * (1 + \<epsilon>)"
  shows "near n \<delta> ((g + n div g) div 2)"
proof -
  define r where "r = sqrt (real_of_int n)"
  define x where "x = real_of_int g"
  have r: "0 < r" "r * r = real_of_int n" using n by (auto simp: r_def)
  have gr: "r < x" using isqrt_real [of n] n g ne by (auto simp: near_def r_def x_def)
  have xr: "x \<le> r * (1 + \<epsilon>)" using g by (simp add: near_def r_def x_def)
  have "real_of_int ((g + n div g) div 2) \<le> real_of_int (g + n div g) / 2"
    by (metis of_int_numeral real_of_int_div4)
  also have "\<dots> \<le> (x + r * r / x) / 2"
  proof -
    have "real_of_int (n div g) \<le> r * r / x" using real_of_int_div4 [of n g] by (simp add: x_def r(2))
    then show ?thesis unfolding x_def [symmetric] of_int_add
      by (intro divide_right_mono add_left_mono) simp_all
  qed
  also have "\<dots> \<le> r * (1 + \<delta>)"
  proof -
    define t where "t = x / r - 1"
    have t: "0 < t" "t \<le> \<epsilon>" "x = r * (1 + t)"
      using gr xr r(1) by (auto simp: t_def field_simps)
    have "t * t * (1 + \<epsilon>) \<le> \<epsilon> * \<epsilon> * (1 + t)"
    proof -
      have "t * t \<le> \<epsilon> * \<epsilon>" using t by (intro mult_mono) auto
      moreover have "t * t * \<epsilon> \<le> \<epsilon> * \<epsilon> * t" using t \<epsilon> by (simp add: mult.assoc mult_left_mono mult_mono algebra_simps)
      ultimately show ?thesis by (simp add: algebra_simps)
    qed
    also have "\<dots> \<le> 2 * \<delta> * (1 + \<epsilon>) * (1 + t)" using d t by (intro mult_right_mono) auto
    finally have "t * t * (1 + \<epsilon>) \<le> (2 * \<delta> * (1 + t)) * (1 + \<epsilon>)" by (simp add: algebra_simps)
    then have "t * t \<le> 2 * \<delta> * (1 + t)" using \<epsilon> by (simp add: mult_le_cancel_right)
    then have "(1 + t) * (1 + t) + 1 \<le> 2 * (1 + \<delta>) * (1 + t)" by (simp add: algebra_simps)
    then have "1 + t + 1 / (1 + t) \<le> 2 * (1 + \<delta>)" using t by (simp add: field_simps)
    then have "r * (1 + t + 1 / (1 + t)) \<le> r * (2 * (1 + \<delta>))" using r by (intro mult_left_mono) auto
    moreover have "r * r / x = r / (1 + t)" using r(1) t by (simp add: t(3))
    ultimately show ?thesis by (simp add: t(3) algebra_simps)
  qed
  finally have "real_of_int ((g + n div g) div 2) \<le> r * (1 + \<delta>)" .
  moreover have "isqrt n \<le> (g + n div g) div 2" using n g by (intro newton_ge) (auto simp: near_def)
  moreover have "1 \<le> isqrt n" using n isqrt_le_iff [of n 1] by simp
  ultimately show ?thesis by (simp add: near_def r_def)
qed

lemma newton_final:
  assumes n: "0 < n" and b: "n < 2 ^ 64" and g: "near n (1 / 2 ^ 70) g"
  shows "g = isqrt n"
proof (rule ccontr)
  define s where "s = isqrt n"
  assume "g \<noteq> isqrt n"
  then have "s + 1 \<le> g" using g by (simp add: near_def s_def)
  have s: "0 \<le> s" "n + 1 \<le> (s + 1) * (s + 1)" "s * s \<le> n" using n isqrt_bounds [of n] by (auto simp: s_def)
  have "s < 2 ^ 32"
  proof (rule ccontr)
    assume "\<not> s < 2 ^ 32"
    then have "2 ^ 32 * 2 ^ 32 \<le> s * s" by (intro square_le_square_int) auto
    then show False using s(3) b by simp
  qed
  define S where "S = real_of_int (s + 1)"
  define r where "r = sqrt (real_of_int n)"
  have S: "1 \<le> S" "S \<le> 2 ^ 32" using s(1) \<open>s < 2 ^ 32\<close> by (auto simp: S_def)
  have "S \<le> real_of_int g" using \<open>s + 1 \<le> g\<close> unfolding S_def by (simp only: of_int_le_iff)
  then have Sr: "S \<le> r * (1 + 1 / 2 ^ 70)" using g by (simp add: near_def r_def)
  have "real_of_int (n + 1) \<le> real_of_int ((s + 1) * (s + 1))" using s(2) by (simp only: of_int_le_iff)
  then have rr: "r * r + 1 \<le> S * S" using n by (simp add: S_def r_def)
  have r0: "0 \<le> r" using n by (simp add: r_def)
  have rS: "r \<le> S"
    by (rule power2_le_imp_le) (use rr S in \<open>simp_all add: power2_eq_square\<close>)
  have "S * S \<le> (r * (1 + 1 / 2 ^ 70)) * (r * (1 + 1 / 2 ^ 70))"
    using Sr S by (intro mult_mono) auto
  also have "\<dots> = r * r * ((1 + 1 / 2 ^ 70) * (1 + 1 / 2 ^ 70))" by (simp add: algebra_simps)
  also have "\<dots> \<le> r * r + r * r * (1 / 2 ^ 68)"
  proof -
    have "r * r * ((1 + 1 / 2 ^ 70) * (1 + 1 / 2 ^ 70)) \<le> r * r * (1 + 1 / 2 ^ 68)"
      using r0 by (intro mult_left_mono) (auto simp: field_simps)
    then show ?thesis by (simp add: algebra_simps)
  qed
  finally have "1 \<le> r * r * (1 / 2 ^ 68)" using rr by linarith
  moreover have "r * r \<le> 2 ^ 32 * 2 ^ 32" using rS r0 S by (intro mult_mono) auto
  ultimately show False by simp
qed

text \<open>One round of the loop, given what the remaining rounds do with the next guess.\<close>

lemma newton_round:
  assumes n: "0 < n" and \<epsilon>: "0 \<le> \<epsilon>" and d: "\<epsilon> * \<epsilon> \<le> 2 * \<delta> * (1 + \<epsilon>)"
    and rest: "\<And>g. near n \<delta> g \<Longrightarrow> newton i n g = isqrt n"
    and g: "near n \<epsilon> g"
  shows "newton (Suc i) n g = isqrt n"
proof (cases "g = isqrt n")
  case True
  then show ?thesis using newton_stop [OF n] by simp
next
  case False
  let ?ng = "(g + n div g) div 2"
  have gs: "isqrt n + 1 \<le> g" "0 < g" using g False by (auto simp: near_def)
  have "n < g * g"
    using isqrt_bounds [of n] n square_le_square_int [of "isqrt n + 1" g] gs by auto
  then have "n div g < g" using gs by (intro int_div_lessI) auto
  then have "\<not> g \<le> ?ng" by simp
  then show ?thesis using rest [OF newton_near_step [OF n g \<epsilon> False d]] by (simp add: Let_def)
qed

lemma newton_halving:
  assumes n: "0 < n" and rest: "\<And>g. near n 1 g \<Longrightarrow> newton i n g = isqrt n"
  shows "near n (2 ^ k) g \<Longrightarrow> newton (k + i) n g = isqrt n"
proof (induction k arbitrary: g)
  case 0
  then show ?case using rest by simp
next
  case (Suc k)
  have "(2 :: real) ^ Suc k * 2 ^ Suc k \<le> 2 * 2 ^ k * (1 + 2 ^ Suc k)" by (simp add: algebra_simps)
  then have "newton (Suc (k + i)) n g = isqrt n"
    by (rule newton_round [OF n _ _ Suc.IH Suc.prems, rotated]) simp_all
  then show ?case by simp
qed

lemma newton_40:
  assumes n: "0 < n" and b: "n < 2 ^ 64"
  shows "newton 40 n n = isqrt n"
proof -
  have r: "1 \<le> sqrt (real_of_int n)" using n by simp
  have r32: "sqrt (real_of_int n) \<le> 2 ^ 32"
  proof -
    have "real_of_int n \<le> (2 ^ 32) ^ 2" using b by simp
    then show ?thesis by (rule real_le_lsqrt [rotated -1]) (use n in auto)
  qed
  have "isqrt n \<le> n"
  proof -
    have "1 \<le> isqrt n" using n isqrt_le_iff [of n 1] by simp
    then have "1 * isqrt n \<le> isqrt n * isqrt n" by (intro mult_right_mono) auto
    then show ?thesis using isqrt_bounds [of n] n by linarith
  qed
  moreover have "real_of_int n \<le> sqrt (real_of_int n) * (1 + 2 ^ 32)"
  proof -
    have "real_of_int n = sqrt (real_of_int n) * sqrt (real_of_int n)" using n by simp
    also have "\<dots> \<le> sqrt (real_of_int n) * (1 + 2 ^ 32)" using r r32 by (intro mult_left_mono) auto
    finally show ?thesis .
  qed
  ultimately have start: "near n (2 ^ 32) n" using n by (simp add: near_def)
  note R = newton_round [OF n]
  have a0: "newton 1 n g = isqrt n" if "near n (1 / 2 ^ 70) g" for g
    using newton_final [OF n b that] newton_stop [OF n] by simp
  have a1: "newton (Suc 1) n g = isqrt n" if "near n (1 / 2 ^ 63) g" for g
    by (rule R [OF _ _ a0 that]) (simp_all add: power2_eq_square)
  have a2: "newton (Suc (Suc 1)) n g = isqrt n" if "near n (1 / 2 ^ 31) g" for g
    by (rule R [OF _ _ a1 that]) simp_all
  have a3: "newton (Suc (Suc (Suc 1))) n g = isqrt n" if "near n (1 / 2 ^ 15) g" for g
    by (rule R [OF _ _ a2 that]) simp_all
  have a4: "newton (Suc (Suc (Suc (Suc 1)))) n g = isqrt n" if "near n (1 / 2 ^ 7) g" for g
    by (rule R [OF _ _ a3 that]) simp_all
  have a5: "newton (Suc (Suc (Suc (Suc (Suc 1))))) n g = isqrt n" if "near n (1 / 2 ^ 3) g" for g
    by (rule R [OF _ _ a4 that]) simp_all
  have a6: "newton (Suc (Suc (Suc (Suc (Suc (Suc 1)))))) n g = isqrt n" if "near n (1 / 2) g" for g
    by (rule R [OF _ _ a5 that]) simp_all
  have a7: "newton (Suc (Suc (Suc (Suc (Suc (Suc (Suc 1))))))) n g = isqrt n" if "near n 1 g" for g
    by (rule R [OF _ _ a6 that]) simp_all
  have "newton (32 + Suc (Suc (Suc (Suc (Suc (Suc (Suc 1))))))) n n = isqrt n"
    by (rule newton_halving [OF n a7 start])
  then show ?thesis by (simp add: numeral_eq_Suc)
qed

text \<open>The word loop follows the integer loop.\<close>

lemma uint_sqrt_loop:
  assumes "0 < uint g" and "uint g \<le> uint n" and "uint n < 2 ^ 63"
  shows "uint (sqrt_loop i n g) = newton i (uint n) (uint g)"
  using assms
proof (induction i arbitrary: g)
  case (Suc i)
  let ?ng = "(g + n div g) div 2"
  have "(uint n + 1) * 1 \<le> (uint n + 1) * uint g"
    using Suc.prems by (intro mult_left_mono) auto
  then have "uint n div uint g < uint n + 1"
    by (intro int_div_lessI [OF Suc.prems(1)]) (simp only: mult_1_right add1_zle_eq)
  then have q: "uint n div uint g \<le> uint n" by simp
  have ng: "uint ?ng = (uint g + uint n div uint g) div 2"
    using Suc.prems q by (simp add: uint_div uint_add64)
  have "g \<noteq> 0" using Suc.prems(1) by auto
  show ?case
  proof (cases "g \<le> ?ng")
    case True
    then show ?thesis using \<open>g \<noteq> 0\<close> ng by (simp add: Let_def word_le_def)
  next
    case False
    then have lt: "uint ?ng < uint g" by (simp add: word_le_def not_le)
    moreover have "1 \<le> uint n div uint g" using Suc.prems by (simp add: zdiv_mono1 int_one_le_iff_zero_less pos_imp_zdiv_pos_iff)
    then have "0 < uint ?ng" using ng Suc.prems by simp
    ultimately have "uint (sqrt_loop i n ?ng) = newton i (uint n) (uint ?ng)"
      using Suc.prems by (intro Suc.IH) auto
    then show ?thesis using False \<open>g \<noteq> 0\<close> ng lt by (simp add: Let_def)
  qed
qed simp

lemma uint_fixed_sqrt:
  assumes "0 < sint x"
  shows "uint (fixed_sqrt x) = isqrt (sint x) * 2 ^ 16" and "sint (fixed_sqrt x) = isqrt (sint x) * 2 ^ 16"
proof -
  have x: "uint x = sint x" "0 < uint x" "uint x < 2 ^ 63"
    using assms uint64_bounds [of x] by (auto simp: sint64_cases split: if_splits)
  have "uint (sqrt_loop 40 x x) = isqrt (uint x)"
    using uint_sqrt_loop [of x x 40] newton_40 [of "uint x"] x by simp
  moreover have "isqrt (uint x) < 2 ^ 32"
  proof (rule ccontr)
    assume "\<not> isqrt (uint x) < 2 ^ 32"
    then have "2 ^ 32 * 2 ^ 32 \<le> isqrt (uint x) * isqrt (uint x)" by (intro square_le_square_int) auto
    then show False using isqrt_bounds [of "uint x"] x by simp
  qed
  ultimately show "uint (fixed_sqrt x) = isqrt (sint x) * 2 ^ 16"
    using assms by (simp add: fixed_sqrt_def uint_push_bit x(1) [symmetric] mod_pos_pos_trivial)
  with \<open>isqrt (uint x) < 2 ^ 32\<close> show "sint (fixed_sqrt x) = isqrt (sint x) * 2 ^ 16"
    using sint64_cases [of "fixed_sqrt x"] by (simp add: x(1) [symmetric])
qed

section \<open>Properties\<close>

text \<open>\<open>Fixed::operator*\<close> is the product of the Q32.32 values, truncated toward zero, with the
  right sign, whenever the result fits: the four 32-bit partial products of the portable branch
  lose nothing.\<close>

theorem fx_mul_exact:
  assumes "\<bar>sint a * sint b\<bar> div 2 ^ 32 < 2 ^ 63"
  shows "sint (fx_mul a b) = sgn (sint a) * sgn (sint b) * (\<bar>sint a * sint b\<bar> div 2 ^ 32)"
  using assms by (rule sint_fx_mul)

lemma fx_mul_exact_witness:
  "sint (fx_mul 0x180000000 (- 0x280000000)) = - 0x3C0000000"
  by (subst fx_mul_exact) (simp_all add: sint_uint signed_take_bit_int_eq_self_iff)

text \<open>C16: \<open>Fixed::operator/\<close> is the quotient of the Q32.32 values, truncated toward zero, with the
  right sign, whenever the divisor is not zero and the result fits: the long division of the
  portable branch produces every fraction bit.\<close>

theorem fx_div_exact:
  assumes "b \<noteq> 0" and "\<bar>sint a\<bar> * 2 ^ 32 div \<bar>sint b\<bar> < 2 ^ 63"
  shows "\<exists>q. fx_div a b = Some q \<and>
    sint q = sgn (sint a) * sgn (sint b) * (\<bar>sint a\<bar> * 2 ^ 32 div \<bar>sint b\<bar>)"
  using assms by (rule sint_fx_div)

lemma fx_div_exact_witness: "\<exists>q. fx_div 0x300000000 (- 0x200000000) = Some q \<and> sint q = - 0x180000000"
proof -
  have "sint (0x300000000 :: i64) = 0x300000000" "sint (- 0x200000000 :: i64) = - 0x200000000" by simp_all
  then show ?thesis using fx_div_exact [of "- 0x200000000" "0x300000000"] by simp
qed

text \<open>C17: \<open>FixedMath::Sqrt\<close> stops within its 40 Newton steps on the integer square root of the raw
  value for every positive argument, scaled back to Q32.32; so its square is at most the argument and
  its error is less than one unit of 2^-16.\<close>

theorem fixed_sqrt_exact:
  assumes "0 < sint x"
  shows "sint (fixed_sqrt x) = isqrt (sint x) * 2 ^ 16 \<and>
    (isqrt (sint x))\<^sup>2 \<le> sint x \<and> sint x < (isqrt (sint x) + 1)\<^sup>2"
  using uint_fixed_sqrt(2) [OF assms] isqrt_bounds [of "sint x"] assms by (simp add: power2_eq_square)

lemma fixed_sqrt_exact_witness: "sint (fixed_sqrt 0x200000000) = 92681 * 2 ^ 16"
proof -
  have x: "sint (0x200000000 :: i64) = 0x200000000" by simp
  have "isqrt 0x200000000 = 92681" by (rule isqrt_unique) simp_all
  then show ?thesis using fixed_sqrt_exact [of "0x200000000"] unfolding x by simp
qed

end
