(* ===== verification/GM_Lockstep.thy ===== *)
theory GM_Lockstep
  imports GM_Fixed
begin

text \<open>
  The lockstep engine (\<open>lockstep_engine.hpp/.cpp\<close>): it collects the players' inputs per frame and
  releases a frame once every online player has an input for it, or once the frame has waited
  for the configured number of engine ticks, when missing inputs are filled in. Sets and maps
  are the ordered ones of the code. The optional callback is called with exactly the frames
  \<open>TryAdvance\<close> also returns, in the same order, so it is not part of the state.
\<close>

section \<open>State\<close>

record player_input =
  pi_player :: u64
  pi_seq :: u32
  pi_move_x :: fixed
  pi_move_z :: fixed
  pi_skill_slot :: u8
  pi_target_x :: fixed
  pi_target_z :: fixed
  pi_target_eid :: u64
  pi_has_input :: bool

definition default_input :: player_input where
  "default_input = \<lparr>pi_player = 0, pi_seq = 0, pi_move_x = 0, pi_move_z = 0, pi_skill_slot = 0xFF,
     pi_target_x = 0, pi_target_z = 0, pi_target_eid = 0, pi_has_input = False\<rparr>"

record frame_inputs =
  fi_frame :: u32
  fi_inputs :: "(u64 \<times> player_input) list"
  fi_confirmed :: bool

definition empty_frame :: frame_inputs where
  "empty_frame = \<lparr>fi_frame = 0, fi_inputs = [], fi_confirmed = False\<rparr>"

record lockstep =
  ls_current :: u32
  ls_timeout :: u32
  ls_counter :: u32
  ls_active :: "u64 list"
  ls_all :: "u64 list"
  ls_buffer :: "(u32 \<times> frame_inputs) list"
  ls_last :: "(u64 \<times> player_input) list"
  ls_start :: "(u32 \<times> u32) list"

definition lockstep_init :: lockstep where
  "lockstep_init = \<lparr>ls_current = 0, ls_timeout = 12, ls_counter = 0, ls_active = [], ls_all = [],
     ls_buffer = [], ls_last = [], ls_start = []\<rparr>"

definition kHistorySize :: u32 where "kHistorySize = 300"

text \<open>\<open>std::set::insert\<close>.\<close>

definition os_insert :: "'a::linorder \<Rightarrow> 'a list \<Rightarrow> 'a list" where
  "os_insert x xs = (if x \<in> set xs then xs else insort x xs)"

section \<open>Operations\<close>

definition set_timeout_frames :: "u32 \<Rightarrow> lockstep \<Rightarrow> lockstep" where
  "set_timeout_frames n s = s\<lparr>ls_timeout := n\<rparr>"

definition tick_frame_counter :: "lockstep \<Rightarrow> lockstep" where
  "tick_frame_counter s = s\<lparr>ls_counter := ls_counter s + 1\<rparr>"

definition set_current_frame :: "u32 \<Rightarrow> lockstep \<Rightarrow> lockstep" where
  "set_current_frame f s =
     (if ls_current s < f
      then s\<lparr>ls_current := f, ls_start := om_put f (ls_counter s) (ls_start s)\<rparr>
      else s)"

definition set_players :: "u64 list \<Rightarrow> lockstep \<Rightarrow> lockstep" where
  "set_players ids s =
     (let ps = foldl (\<lambda>xs p. os_insert p xs) [] ids in s\<lparr>ls_active := ps, ls_all := ps\<rparr>)"

definition player_disconnected :: "u64 \<Rightarrow> lockstep \<Rightarrow> lockstep" where
  "player_disconnected p s = s\<lparr>ls_active := removeAll p (ls_active s)\<rparr>"

definition player_reconnected :: "u64 \<Rightarrow> lockstep \<Rightarrow> lockstep" where
  "player_reconnected p s =
     (if p \<in> set (ls_all s) then s\<lparr>ls_active := os_insert p (ls_active s)\<rparr> else s)"

definition is_frame_ready :: "lockstep \<Rightarrow> u32 \<Rightarrow> bool" where
  "is_frame_ready s f =
     (case map_of (ls_buffer s) f of None \<Rightarrow> False
      | Some fi \<Rightarrow> list_all (\<lambda>p. map_of (fi_inputs fi) p \<noteq> None) (ls_active s))"

definition submit_input :: "u64 \<Rightarrow> player_input \<Rightarrow> lockstep \<Rightarrow> bool \<times> lockstep" where
  "submit_input p inp s =
     (if p \<notin> set (ls_all s) then (False, s)
      else let cf = ls_current s;
               fi = (case map_of (ls_buffer s) cf of None \<Rightarrow> empty_frame | Some fi \<Rightarrow> fi);
               fi1 = fi\<lparr>fi_frame := cf, fi_inputs := om_put p inp (fi_inputs fi)\<rparr>;
               s1 = s\<lparr>ls_buffer := om_put cf fi1 (ls_buffer s), ls_last := om_put p inp (ls_last s)\<rparr>
           in (is_frame_ready s1 cf, s1))"

definition make_empty_input :: "lockstep \<Rightarrow> u64 \<Rightarrow> player_input" where
  "make_empty_input s p =
     (let e = default_input\<lparr>pi_player := p, pi_has_input := False\<rparr>
      in case map_of (ls_last s) p of None \<Rightarrow> e
         | Some l \<Rightarrow> e\<lparr>pi_move_x := pi_move_x l, pi_move_z := pi_move_z l\<rparr>)"

definition fill_missing :: "lockstep \<Rightarrow> frame_inputs \<Rightarrow> frame_inputs" where
  "fill_missing s fi =
     foldl (\<lambda>fi p. if map_of (fi_inputs fi) p = None
                  then fi\<lparr>fi_inputs := om_put p (make_empty_input s p) (fi_inputs fi)\<rparr> else fi)
       fi (ls_active s)"

text \<open>One iteration of the loop of \<open>TryAdvance\<close>: skip a frame confirmed before, release it, or stop.\<close>

datatype adv = AdvSkip | AdvConfirm frame_inputs | AdvStop

definition confirm_frame :: "u32 \<Rightarrow> frame_inputs \<Rightarrow> lockstep \<Rightarrow> lockstep \<times> adv" where
  "confirm_frame f fi s =
     (let fi1 = fi\<lparr>fi_confirmed := True\<rparr>;
          s1 = s\<lparr>ls_buffer := om_put f fi1 (ls_buffer s)\<rparr>;
          s2 = (if kHistorySize < f
                then s1\<lparr>ls_buffer := AList.delete (f - kHistorySize) (ls_buffer s1),
                       ls_start := AList.delete (f - kHistorySize) (ls_start s1)\<rparr>
                else s1)
      in (s2, AdvConfirm fi1))"

definition advance_frame :: "u32 \<Rightarrow> lockstep \<Rightarrow> lockstep \<times> adv" where
  "advance_frame f s0 =
     (let s = (case map_of (ls_buffer s0) f of
                 None \<Rightarrow> s0\<lparr>ls_buffer := om_put f (empty_frame\<lparr>fi_frame := f\<rparr>) (ls_buffer s0)\<rparr>
               | Some _ \<Rightarrow> s0);
          fi = (case map_of (ls_buffer s0) f of
                 None \<Rightarrow> empty_frame\<lparr>fi_frame := f\<rparr> | Some fi \<Rightarrow> fi)
      in if fi_confirmed fi then (s, AdvSkip)
         else if is_frame_ready s f then confirm_frame f fi s
         else case map_of (ls_start s) f of
                None \<Rightarrow> (s, AdvStop)
              | Some t \<Rightarrow>
                  if ls_timeout s \<le> ls_counter s - t then confirm_frame f (fill_missing s fi) s
                  else (s, AdvStop))"

partial_function (option) advance_loop ::
  "u32 \<Rightarrow> u32 \<Rightarrow> lockstep \<Rightarrow> frame_inputs list \<Rightarrow> (lockstep \<times> frame_inputs list) option" where
  "advance_loop hi f s out =
     (if f \<le> hi then
        (case advance_frame f s of
           (s1, AdvSkip) \<Rightarrow> advance_loop hi (f + 1) s1 out
         | (s1, AdvConfirm fi) \<Rightarrow> advance_loop hi (f + 1) s1 (out @ [fi])
         | (s1, AdvStop) \<Rightarrow> Some (s1, out))
      else Some (s, out))"

definition try_advance :: "lockstep \<Rightarrow> (lockstep \<times> frame_inputs list) option" where
  "try_advance s = advance_loop (ls_current s + 32) (ls_current s) s []"

definition get_last_input :: "lockstep \<Rightarrow> u64 \<Rightarrow> player_input option" where
  "get_last_input s p = map_of (ls_last s) p"

definition get_frame_inputs :: "lockstep \<Rightarrow> u32 \<Rightarrow> frame_inputs option" where
  "get_frame_inputs s f = map_of (ls_buffer s) f"

definition lockstep_reset :: "lockstep \<Rightarrow> lockstep" where
  "lockstep_reset s = s\<lparr>ls_current := 0, ls_counter := 0, ls_active := [], ls_all := [],
     ls_buffer := [], ls_last := [], ls_start := []\<rparr>"

section \<open>Well-formedness\<close>

definition frame_ok :: "u32 \<times> frame_inputs \<Rightarrow> bool" where
  "frame_ok e \<longleftrightarrow> fi_frame (snd e) = fst e \<and> om_ok (fi_inputs (snd e))"

definition ls_ok :: "lockstep \<Rightarrow> bool" where
  "ls_ok s \<longleftrightarrow> om_ok (ls_buffer s) \<and> om_ok (ls_last s) \<and> om_ok (ls_start s) \<and>
     list_all frame_ok (ls_buffer s) \<and> sorted_wrt (<) (ls_active s) \<and> sorted_wrt (<) (ls_all s) \<and>
     set (ls_active s) \<subseteq> set (ls_all s)"

lemma os_insert_set [simp]: "set (os_insert x xs) = insert x (set xs)"
  by (auto simp: os_insert_def set_insort_key)

lemma os_insert_sorted: "sorted_wrt (<) xs \<Longrightarrow> sorted_wrt (<) (os_insert x xs)"
  by (auto simp: os_insert_def strict_sorted_iff sorted_insort distinct_insort)

lemma list_all_om_put: "list_all P m \<Longrightarrow> P (k, v) \<Longrightarrow> list_all P (om_put k v m)"
  by (induction k v m rule: om_put.induct) auto

lemma list_all_delete: "list_all P m \<Longrightarrow> list_all P (AList.delete k m)"
  by (induction m) auto

lemma frame_ok_get: "ls_ok s \<Longrightarrow> map_of (ls_buffer s) f = Some fi \<Longrightarrow> frame_ok (f, fi)"
  by (auto simp: ls_ok_def list_all_iff dest: map_of_SomeD)

lemma frame_ok_empty: "frame_ok (f, empty_frame\<lparr>fi_frame := f\<rparr>)"
  by (simp add: frame_ok_def empty_frame_def)

lemma ls_ok_init: "ls_ok lockstep_init"
  by (simp add: ls_ok_def lockstep_init_def)

lemma ls_ok_put_buffer: "ls_ok s \<Longrightarrow> frame_ok (f, fi) \<Longrightarrow> ls_ok (s\<lparr>ls_buffer := om_put f fi (ls_buffer s)\<rparr>)"
  by (auto simp: ls_ok_def intro: list_all_om_put)

lemma ls_ok_set_current [gm_inv]: "ls_ok s \<Longrightarrow> ls_ok (set_current_frame f s)"
  by (auto simp: ls_ok_def set_current_frame_def)

lemma ls_ok_tick [gm_inv]: "ls_ok s \<Longrightarrow> ls_ok (tick_frame_counter s)"
  by (auto simp: ls_ok_def tick_frame_counter_def)

lemma ls_ok_timeout [gm_inv]: "ls_ok s \<Longrightarrow> ls_ok (set_timeout_frames n s)"
  by (auto simp: ls_ok_def set_timeout_frames_def)

lemma ls_ok_set_players [gm_inv]: "ls_ok s \<Longrightarrow> ls_ok (set_players ids s)"
proof -
  have "sorted_wrt (<) (foldl (\<lambda>xs p. os_insert p xs) [] ids)"
    by (rule foldl_invariant [where P = "sorted_wrt (<)"]) (auto intro: os_insert_sorted)
  then show "ls_ok s \<Longrightarrow> ls_ok (set_players ids s)" by (auto simp: ls_ok_def set_players_def Let_def)
qed

lemma sorted_removeAll: "sorted_wrt (<) xs \<Longrightarrow> sorted_wrt (<) (removeAll x (xs :: 'a::linorder list))"
  by (induction xs) auto

lemma ls_ok_disconnected [gm_inv]: "ls_ok s \<Longrightarrow> ls_ok (player_disconnected p s)"
  by (auto simp: ls_ok_def player_disconnected_def intro: sorted_removeAll)

lemma ls_ok_reconnected [gm_inv]: "ls_ok s \<Longrightarrow> ls_ok (player_reconnected p s)"
  by (auto simp: ls_ok_def player_reconnected_def intro: os_insert_sorted)

lemma ls_ok_submit [gm_inv]: "ls_ok s \<Longrightarrow> ls_ok (snd (submit_input p inp s))"
proof -
  assume ok: "ls_ok s"
  show ?thesis
  proof (cases "p \<in> set (ls_all s)")
    case True
    define fi where "fi = (case map_of (ls_buffer s) (ls_current s) of None \<Rightarrow> empty_frame | Some fi \<Rightarrow> fi)"
    have "om_ok (fi_inputs fi)"
      using ok by (auto simp: fi_def empty_frame_def frame_ok_def dest: frame_ok_get split: option.split)
    then have "frame_ok (ls_current s, fi\<lparr>fi_frame := ls_current s, fi_inputs := om_put p inp (fi_inputs fi)\<rparr>)"
      by (simp add: frame_ok_def om_ok_put)
    from ls_ok_put_buffer [OF ok this] show ?thesis using True
      by (simp add: submit_input_def Let_def fi_def [symmetric] ls_ok_def om_ok_put)
  qed (simp add: submit_input_def ok)
qed

section \<open>One iteration of the loop\<close>

lemma fill_missing_props:
  assumes "om_ok (fi_inputs fi)"
  shows "om_ok (fi_inputs (fill_missing s fi)) \<and> fi_frame (fill_missing s fi) = fi_frame fi \<and>
    fi_confirmed (fill_missing s fi) = fi_confirmed fi \<and>
    (\<forall>p. map_of (fi_inputs (fill_missing s fi)) p =
       (case map_of (fi_inputs fi) p of Some i \<Rightarrow> Some i
        | None \<Rightarrow> if p \<in> set (ls_active s) then Some (make_empty_input s p) else None))"
proof -
  have "om_ok (fi_inputs fi) \<Longrightarrow>
    (let r = foldl (\<lambda>fi p. if map_of (fi_inputs fi) p = None
                  then fi\<lparr>fi_inputs := om_put p (make_empty_input s p) (fi_inputs fi)\<rparr> else fi) fi ps
     in om_ok (fi_inputs r) \<and> fi_frame r = fi_frame fi \<and> fi_confirmed r = fi_confirmed fi \<and>
    (\<forall>p. map_of (fi_inputs r) p =
       (case map_of (fi_inputs fi) p of Some i \<Rightarrow> Some i
        | None \<Rightarrow> if p \<in> set ps then Some (make_empty_input s p) else None)))" for ps
  proof (induction ps arbitrary: fi)
    case Nil
    then show ?case by (simp split: option.split)
  next
    case (Cons q ps)
    then show ?case
      by (cases "map_of (fi_inputs fi) q") (auto simp: Let_def om_get_put om_ok_put split: option.splits)
  qed
  then show ?thesis using assms by (simp add: fill_missing_def Let_def)
qed

text \<open>What an iteration leaves alone.\<close>

lemma advance_frame_frame:
  assumes "advance_frame f s = (s', a)"
  shows "ls_current s' = ls_current s" "ls_timeout s' = ls_timeout s" "ls_counter s' = ls_counter s"
    "ls_active s' = ls_active s" "ls_all s' = ls_all s" "ls_last s' = ls_last s"
  using assms
  by (auto simp: advance_frame_def confirm_frame_def Let_def split: option.splits if_splits)

definition frame_of :: "lockstep \<Rightarrow> u32 \<Rightarrow> frame_inputs" where
  "frame_of s f = (case map_of (ls_buffer s) f of
     None \<Rightarrow> empty_frame\<lparr>fi_frame := f\<rparr> | Some fi \<Rightarrow> fi)"

lemma frame_of_ok: "ls_ok s \<Longrightarrow> frame_ok (f, frame_of s f)"
  by (auto simp: frame_of_def frame_ok_empty dest: frame_ok_get split: option.split)

lemma make_empty_input_buffer [simp]: "make_empty_input (s\<lparr>ls_buffer := b\<rparr>) p = make_empty_input s p"
  by (simp add: make_empty_input_def)

lemma fill_missing_buffer [simp]: "fill_missing (s\<lparr>ls_buffer := b\<rparr>) fi = fill_missing s fi"
  by (simp add: fill_missing_def cong: if_cong)

lemma advance_frame_alt:
  "ls_ok s \<Longrightarrow> advance_frame f s =
    (let s1 = (if map_of (ls_buffer s) f = None
               then s\<lparr>ls_buffer := om_put f (frame_of s f) (ls_buffer s)\<rparr> else s)
     in if fi_confirmed (frame_of s f) then (s1, AdvSkip)
        else if \<forall>p \<in> set (ls_active s). map_of (fi_inputs (frame_of s f)) p \<noteq> None
             then confirm_frame f (frame_of s f) s1
        else case map_of (ls_start s) f of None \<Rightarrow> (s1, AdvStop)
           | Some t \<Rightarrow> if ls_timeout s \<le> ls_counter s - t
                       then confirm_frame f (fill_missing s (frame_of s f)) s1 else (s1, AdvStop))"
  by (auto simp: advance_frame_def frame_of_def is_frame_ready_def om_get_put ls_ok_def list_all_iff
       Let_def empty_frame_def split: option.splits)

lemma frame_neq_old: "kHistorySize < f \<Longrightarrow> f - kHistorySize \<noteq> f"
  by (auto simp: kHistorySize_def)

lemma confirm_frame_get:
  "om_ok (ls_buffer s) \<Longrightarrow> confirm_frame f fi s = (s', a) \<Longrightarrow>
   map_of (ls_buffer s') g =
     (if g = f then Some (fi\<lparr>fi_confirmed := True\<rparr>)
      else if kHistorySize < f \<and> g = f - kHistorySize then None else map_of (ls_buffer s) g)"
  using frame_neq_old [of f]
  by (auto simp: confirm_frame_def Let_def om_get_put delete_conv' split: if_splits)

lemma confirm_frame_result: "confirm_frame f fi s = (s', a) \<Longrightarrow> a = AdvConfirm (fi\<lparr>fi_confirmed := True\<rparr>)"
  by (auto simp: confirm_frame_def Let_def split: if_splits)

lemma ls_ok_confirm:
  "ls_ok s \<Longrightarrow> frame_ok (f, fi) \<Longrightarrow> confirm_frame f fi s = (s', a) \<Longrightarrow> ls_ok s'"
  by (auto simp: confirm_frame_def Let_def ls_ok_def frame_ok_def om_ok_put
      intro!: list_all_om_put list_all_delete om_ok_delete split: if_splits)

text \<open>What an iteration does, by outcome.\<close>

lemma advance_frame_cases:
  assumes ok: "ls_ok s" and a: "advance_frame f s = (s', a)"
  obtains (skip) s1 where "ls_ok s1" "\<And>g. map_of (ls_buffer s1) g = (if g = f then Some (frame_of s f) else map_of (ls_buffer s) g)"
      "s' = s1" "a = AdvSkip" "fi_confirmed (frame_of s f)"
  | (confirm) s1 fi where "ls_ok s1" "\<And>g. map_of (ls_buffer s1) g = (if g = f then Some (frame_of s f) else map_of (ls_buffer s) g)"
      "confirm_frame f fi s1 = (s', a)" "\<not> fi_confirmed (frame_of s f)" "frame_ok (f, fi)"
      "\<forall>p \<in> set (ls_active s). map_of (fi_inputs fi) p \<noteq> None"
      "\<forall>p i. map_of (fi_inputs (frame_of s f)) p = Some i \<longrightarrow> map_of (fi_inputs fi) p = Some i"
      "(\<forall>p \<in> set (ls_active s). map_of (fi_inputs (frame_of s f)) p \<noteq> None) \<or>
        (\<exists>t. map_of (ls_start s) f = Some t \<and> ls_timeout s \<le> ls_counter s - t)"
  | (stop) s1 where "ls_ok s1" "\<And>g. map_of (ls_buffer s1) g = (if g = f then Some (frame_of s f) else map_of (ls_buffer s) g)"
      "s' = s1" "a = AdvStop" "\<not> fi_confirmed (frame_of s f)"
      "\<exists>p \<in> set (ls_active s). map_of (fi_inputs (frame_of s f)) p = None"
      "\<forall>t. map_of (ls_start s) f = Some t \<longrightarrow> \<not> ls_timeout s \<le> ls_counter s - t"
proof -
  define s1 where "s1 = (if map_of (ls_buffer s) f = None
               then s\<lparr>ls_buffer := om_put f (frame_of s f) (ls_buffer s)\<rparr> else s)"
  have fo: "frame_ok (f, frame_of s f)" using ok by (rule frame_of_ok)
  have s1: "ls_ok s1" using ok fo by (auto simp: s1_def intro: ls_ok_put_buffer)
  have ob: "om_ok (ls_buffer s)" using ok by (simp add: ls_ok_def)
  have g1: "map_of (ls_buffer s1) g = (if g = f then Some (frame_of s f) else map_of (ls_buffer s) g)" for g
    using ob by (auto simp: s1_def om_get_put frame_of_def split: option.splits)
  have fm: "frame_ok (f, fill_missing s (frame_of s f))"
     "\<And>p. map_of (fi_inputs (fill_missing s (frame_of s f))) p =
       (case map_of (fi_inputs (frame_of s f)) p of Some i \<Rightarrow> Some i
        | None \<Rightarrow> if p \<in> set (ls_active s) then Some (make_empty_input s p) else None)"
    using fill_missing_props [of "frame_of s f" s] fo by (auto simp: frame_ok_def)
  note alt = a [unfolded advance_frame_alt [OF ok] Let_def s1_def [symmetric]]
  show thesis
  proof (cases "fi_confirmed (frame_of s f)")
    case True
    then show thesis using alt s1 g1 by (intro skip [of s1]) auto
  next
    case nc: False
    show thesis
    proof (cases "\<forall>p \<in> set (ls_active s). map_of (fi_inputs (frame_of s f)) p \<noteq> None")
      case True
      then show thesis using alt nc s1 g1 fo by (intro confirm [of s1 "frame_of s f"]) auto
    next
      case nr: False
      show thesis
      proof (cases "\<exists>t. map_of (ls_start s) f = Some t \<and> ls_timeout s \<le> ls_counter s - t")
        case True
        with alt nc nr have "confirm_frame f (fill_missing s (frame_of s f)) s1 = (s', a)"
          by (auto split: if_splits)
        then show thesis using nc s1 g1 fm True
          by (intro confirm [of s1 "fill_missing s (frame_of s f)"]) (auto split: option.splits)
      next
        case False
        with alt nc nr have "s' = s1" "a = AdvStop" by (auto split: option.splits if_splits)
        then show thesis using nc nr s1 g1 False by (intro stop [of s1]) auto
      qed
    qed
  qed
qed

lemma ls_ok_advance_frame:
  assumes ok: "ls_ok s" and a: "advance_frame f s = (s', a)"
  shows "ls_ok s'"
  using ok a by (cases rule: advance_frame_cases) (auto intro: ls_ok_confirm)

lemma advance_frame_get:
  assumes ok: "ls_ok s" and a: "advance_frame f s = (s', a)"
  shows "map_of (ls_buffer s') g =
     (if g = f then Some (case a of AdvConfirm fi \<Rightarrow> fi | _ \<Rightarrow> frame_of s f)
      else case a of
             AdvConfirm _ \<Rightarrow> if kHistorySize < f \<and> g = f - kHistorySize then None
                             else map_of (ls_buffer s) g
           | _ \<Rightarrow> map_of (ls_buffer s) g)"
  using ok a
proof (cases rule: advance_frame_cases)
  case (confirm s1 fi)
  have "om_ok (ls_buffer s1)" using confirm(1) by (simp add: ls_ok_def)
  from confirm_frame_get [OF this confirm(3), of g] confirm_frame_result [OF confirm(3)] confirm(2)
  show ?thesis by auto
qed auto

lemma advance_frame_outcome:
  assumes ok: "ls_ok s" and a: "advance_frame f s = (s', a)"
  shows "case a of
       AdvSkip \<Rightarrow> fi_confirmed (frame_of s f)
     | AdvConfirm fi \<Rightarrow> \<not> fi_confirmed (frame_of s f) \<and> fi_confirmed fi \<and> fi_frame fi = f \<and>
         (\<forall>p \<in> set (ls_active s). map_of (fi_inputs fi) p \<noteq> None) \<and>
         (\<forall>p i. map_of (fi_inputs (frame_of s f)) p = Some i \<longrightarrow> map_of (fi_inputs fi) p = Some i)
     | AdvStop \<Rightarrow> \<not> fi_confirmed (frame_of s f) \<and>
         (\<exists>p \<in> set (ls_active s). map_of (fi_inputs (frame_of s f)) p = None) \<and>
         (\<forall>t. map_of (ls_start s) f = Some t \<longrightarrow> \<not> ls_timeout s \<le> ls_counter s - t)"
  using ok a
proof (cases rule: advance_frame_cases)
  case (confirm s1 fi)
  then show ?thesis using confirm_frame_result [OF confirm(3)] by (simp add: frame_ok_def)
qed auto

section \<open>The loop of TryAdvance\<close>

text \<open>\<open>advance_upto n f\<close> runs at most n iterations from frame f: the loop without its bound, by
  structural recursion. It is what the loop computes whenever the bound does not wrap.\<close>

primrec advance_upto :: "nat \<Rightarrow> u32 \<Rightarrow> lockstep \<Rightarrow> lockstep \<times> frame_inputs list" where
  "advance_upto 0 f s = (s, [])"
| "advance_upto (Suc n) f s =
     (case advance_frame f s of
        (s1, AdvSkip) \<Rightarrow> advance_upto n (f + 1) s1
      | (s1, AdvConfirm fi) \<Rightarrow> (let (s2, out) = advance_upto n (f + 1) s1 in (s2, fi # out))
      | (s1, AdvStop) \<Rightarrow> (s1, []))"

lemma advance_loop_upto:
  "unat f + n = unat hi + 1 \<Longrightarrow> unat hi + 1 < 2 ^ 32 \<Longrightarrow>
   advance_loop hi f s out = Some (let (s', o1) = advance_upto n f s in (s', out @ o1))"
proof (induction n arbitrary: f s out)
  case 0
  then have "\<not> f \<le> hi" by (simp add: word_le_nat_alt)
  then show ?case by (simp add: advance_loop.simps)
next
  case (Suc n)
  have le: "f \<le> hi" using Suc.prems by (simp add: word_le_nat_alt)
  have "unat (f + 1) = unat f + 1" using Suc.prems by (simp add: unat_word_ariths)
  then have n: "unat (f + 1) + n = unat hi + 1" using Suc.prems(1) by simp
  note IH = Suc.IH [OF n Suc.prems(2)]
  show ?case
    by (subst advance_loop.simps) (simp add: le IH Let_def split: prod.split adv.split)
qed

lemma try_advance_upto:
  assumes "unat (ls_current s) + 33 < 2 ^ 32"
  shows "try_advance s = Some (advance_upto 33 (ls_current s) s)"
proof -
  have "unat (ls_current s + 32) = unat (ls_current s) + 32"
    using assms by (simp add: unat_word_ariths)
  then show ?thesis using assms
    by (simp add: try_advance_def advance_loop_upto [of "ls_current s" 33] Let_def split: prod.split)
qed

lemma ls_ok_advance_upto:
  "ls_ok s \<Longrightarrow> ls_ok (fst (advance_upto n f s))"
proof (induction n arbitrary: f s)
  case (Suc n)
  obtain s1 a where a: "advance_frame f s = (s1, a)" by (cases "advance_frame f s")
  have "ls_ok s1" using ls_ok_advance_frame [OF Suc.prems a] .
  then show ?case using Suc.IH [of s1 "f + 1"]
    by (cases "advance_upto n (f + 1) s1") (auto simp: a split: adv.split)
qed simp

lemma advance_upto_frame:
  "advance_upto n f s = (s', out) \<Longrightarrow>
    ls_current s' = ls_current s \<and> ls_timeout s' = ls_timeout s \<and> ls_counter s' = ls_counter s \<and>
    ls_active s' = ls_active s \<and> ls_all s' = ls_all s \<and> ls_last s' = ls_last s"
proof (induction n arbitrary: f s s' out)
  case (Suc n)
  obtain s1 a where a: "advance_frame f s = (s1, a)" by (cases "advance_frame f s")
  obtain s2 o2 where r: "advance_upto n (f + 1) s1 = (s2, o2)" by (cases "advance_upto n (f + 1) s1")
  from Suc.prems advance_frame_frame [OF a] Suc.IH [OF r] show ?case
    by (auto simp: a r split: adv.splits)
qed simp

lemma advance_frame_other:
  assumes "ls_ok s" "advance_frame f s = (s', a)" "f < g"
  shows "frame_of s' g = frame_of s g"
proof -
  have "f - kHistorySize < f" if "kHistorySize < f"
    using that by (simp add: kHistorySize_def word_less_nat_alt unat_sub_if_size word_le_nat_alt)
  then have "\<not> (kHistorySize < f \<and> g = f - kHistorySize)" "g \<noteq> f" using assms(3) by auto
  then show ?thesis using advance_frame_get [OF assms(1,2), of g]
    by (auto simp: frame_of_def split: adv.splits)
qed

definition released :: "lockstep \<Rightarrow> frame_inputs \<Rightarrow> bool" where
  "released s fi \<longleftrightarrow> fi_confirmed fi \<and> \<not> fi_confirmed (frame_of s (fi_frame fi)) \<and>
     (\<forall>p \<in> set (ls_active s). map_of (fi_inputs fi) p \<noteq> None) \<and>
     (\<forall>p i. map_of (fi_inputs (frame_of s (fi_frame fi))) p = Some i \<longrightarrow> map_of (fi_inputs fi) p = Some i)"

lemma advance_upto_out:
  "ls_ok s \<Longrightarrow> unat f + n < 2 ^ 32 \<Longrightarrow> advance_upto n f s = (s', out) \<Longrightarrow>
   sorted_wrt (<) (map fi_frame out) \<and>
   (\<forall>fi \<in> set out. unat f \<le> unat (fi_frame fi) \<and> unat (fi_frame fi) < unat f + n \<and> released s fi)"
proof (induction n arbitrary: f s s' out)
  case (Suc n)
  obtain s1 a where a: "advance_frame f s = (s1, a)" by (cases "advance_frame f s")
  obtain s2 o2 where r: "advance_upto n (f + 1) s1 = (s2, o2)" by (cases "advance_upto n (f + 1) s1")
  have f1: "unat (f + 1) = unat f + 1" using Suc.prems(2) by (simp add: unat_word_ariths)
  have ok1: "ls_ok s1" using Suc.prems(1) a by (rule ls_ok_advance_frame)
  have IH: "sorted_wrt (<) (map fi_frame o2)"
    "fi \<in> set o2 \<Longrightarrow> unat f + 1 \<le> unat (fi_frame fi) \<and> unat (fi_frame fi) < unat f + Suc n \<and> released s1 fi" for fi
    using Suc.IH [OF ok1 _ r] Suc.prems(2) by (auto simp: f1)
  have rel: "released s fi" if "fi \<in> set o2" for fi
  proof -
    have "f < fi_frame fi" using IH(2) [OF that] by (simp add: word_less_nat_alt)
    from advance_frame_other [OF Suc.prems(1) a this] advance_frame_frame(4) [OF a] IH(2) [OF that]
    show ?thesis by (simp add: released_def)
  qed
  have lo: "f < fi_frame fi" if "fi \<in> set o2" for fi
    using IH(2) [OF that] by (simp add: word_less_nat_alt)
  have o2: "\<forall>fi \<in> set o2. unat f \<le> unat (fi_frame fi) \<and> unat (fi_frame fi) < unat f + Suc n \<and> released s fi"
    using IH(2) rel by force
  show ?case
  proof (cases a)
    case AdvSkip
    then have "out = o2" using Suc.prems(3) by (simp add: a r)
    then show ?thesis using IH(1) o2 by blast
  next
    case AdvStop
    then show ?thesis using Suc.prems(3) by (simp add: a)
  next
    case (AdvConfirm fi)
    then have "released s fi" "fi_frame fi = f" "out = fi # o2"
      using advance_frame_outcome [OF Suc.prems(1) a] Suc.prems(3) by (auto simp: released_def a r)
    then show ?thesis using IH(1) o2 lo by simp
  qed
qed simp

text \<open>Frames from the current one on are never un-confirmed or lost by the loop.\<close>

lemma advance_upto_confirmed:
  "ls_ok s \<Longrightarrow> unat f + n < 2 ^ 32 \<Longrightarrow> advance_upto n f s = (s', out) \<Longrightarrow>
   unat f + n \<le> unat g + 300 \<Longrightarrow> fi_confirmed (frame_of s g) \<Longrightarrow> fi_confirmed (frame_of s' g)"
proof (induction n arbitrary: f s s' out)
  case (Suc n)
  obtain s1 a where a: "advance_frame f s = (s1, a)" by (cases "advance_frame f s")
  obtain s2 o2 where r: "advance_upto n (f + 1) s1 = (s2, o2)" by (cases "advance_upto n (f + 1) s1")
  have f1: "unat (f + 1) = unat f + 1" using Suc.prems(2) by (simp add: unat_word_ariths)
  have ok1: "ls_ok s1" using Suc.prems(1) a by (rule ls_ok_advance_frame)
  have ng: "\<not> (kHistorySize < f \<and> g = f - kHistorySize)"
    using Suc.prems(4) by (auto simp: kHistorySize_def word_less_nat_alt unat_sub_if_size)
  have g1: "fi_confirmed (frame_of s1 g)"
    using advance_frame_get [OF Suc.prems(1) a, of g] advance_frame_outcome [OF Suc.prems(1) a] Suc.prems(5) ng
    by (auto simp: frame_of_def split: adv.splits if_splits)
  have "fi_confirmed (frame_of s2 g)"
    using Suc.IH [OF ok1 _ r] Suc.prems(2,4) g1 by (simp add: f1)
  then show ?case using Suc.prems(3) g1 by (auto simp: a r split: adv.splits)
qed simp

lemma advance_upto_out_confirmed:
  "ls_ok s \<Longrightarrow> unat f + n < 2 ^ 32 \<Longrightarrow> n \<le> 300 \<Longrightarrow> advance_upto n f s = (s', out) \<Longrightarrow>
   fi \<in> set out \<Longrightarrow> fi_confirmed (frame_of s' (fi_frame fi))"
proof (induction n arbitrary: f s s' out)
  case (Suc n)
  obtain s1 a where a: "advance_frame f s = (s1, a)" by (cases "advance_frame f s")
  obtain s2 o2 where r: "advance_upto n (f + 1) s1 = (s2, o2)" by (cases "advance_upto n (f + 1) s1")
  have f1: "unat (f + 1) = unat f + 1" using Suc.prems(2) by (simp add: unat_word_ariths)
  have ok1: "ls_ok s1" using Suc.prems(1) a by (rule ls_ok_advance_frame)
  show ?case
  proof (cases "fi \<in> set o2")
    case True
    then have "fi_confirmed (frame_of s2 (fi_frame fi))"
      using Suc.IH [OF ok1 _ _ r] Suc.prems(2,3) by (simp add: f1)
    then show ?thesis using Suc.prems(4,5) True by (auto simp: a r split: adv.splits)
  next
    case False
    then have ac: "a = AdvConfirm fi" "s' = s2" using Suc.prems(4,5) by (auto simp: a r split: adv.splits)
    then have "fi_frame fi = f" "fi_confirmed fi" "fi_confirmed (frame_of s1 f)"
      using advance_frame_outcome [OF Suc.prems(1) a] advance_frame_get [OF Suc.prems(1) a, of f]
      by (auto simp: frame_of_def)
    then show ?thesis
      using advance_upto_confirmed [OF ok1 _ r, of f] Suc.prems(2,3) ac by (simp add: f1)
  qed
qed simp

section \<open>The trace of an engine\<close>

text \<open>The calls a room makes between two resets, and the list of the frame numbers it was
  handed. The guard of \<open>lt_advance\<close> keeps the loop's bound \<open>current_frame_ + 32\<close> within 32 bits.\<close>

inductive ls_trace :: "lockstep \<Rightarrow> u32 list \<Rightarrow> bool" where
  lt_init: "ls_trace lockstep_init []"
| lt_reset: "ls_trace s D \<Longrightarrow> ls_trace (lockstep_reset s) []"
| lt_current: "ls_trace s D \<Longrightarrow> ls_trace (set_current_frame f s) D"
| lt_tick: "ls_trace s D \<Longrightarrow> ls_trace (tick_frame_counter s) D"
| lt_timeout: "ls_trace s D \<Longrightarrow> ls_trace (set_timeout_frames n s) D"
| lt_players: "ls_trace s D \<Longrightarrow> ls_trace (set_players ids s) D"
| lt_disc: "ls_trace s D \<Longrightarrow> ls_trace (player_disconnected p s) D"
| lt_reco: "ls_trace s D \<Longrightarrow> ls_trace (player_reconnected p s) D"
| lt_submit: "ls_trace s D \<Longrightarrow> submit_input p i s = (r, s') \<Longrightarrow> ls_trace s' D"
| lt_advance: "ls_trace s D \<Longrightarrow> try_advance s = Some (s', out) \<Longrightarrow> unat (ls_current s) + 33 < 2 ^ 32 \<Longrightarrow>
    ls_trace s' (D @ map fi_frame out)"

definition delivered_ok :: "lockstep \<Rightarrow> u32 list \<Rightarrow> bool" where
  "delivered_ok s D \<longleftrightarrow> ls_ok s \<and> distinct D \<and>
     (\<forall>d \<in> set D. d < ls_current s \<or> fi_confirmed (frame_of s d))"

lemma frame_of_cong: "ls_buffer s = ls_buffer s' \<Longrightarrow> frame_of s f = frame_of s' f"
  by (simp add: frame_of_def)

lemma ls_ok_reset [gm_inv]: "ls_ok (lockstep_reset s)"
  by (simp add: ls_ok_def lockstep_reset_def)

lemma submit_confirmed:
  assumes "ls_ok s" "submit_input p i s = (r, s')"
  shows "fi_confirmed (frame_of s' f) = fi_confirmed (frame_of s f)" "ls_current s' = ls_current s"
proof -
  have "om_ok (ls_buffer s)" using assms(1) by (simp add: ls_ok_def)
  then show "fi_confirmed (frame_of s' f) = fi_confirmed (frame_of s f)" "ls_current s' = ls_current s"
    using assms(2) by (auto simp: submit_input_def Let_def frame_of_def om_get_put empty_frame_def
        split: if_splits option.splits)
qed

lemma delivered_advance:
  assumes d: "delivered_ok s D" and t: "try_advance s = Some (s', out)"
    and b: "unat (ls_current s) + 33 < 2 ^ 32"
  shows "delivered_ok s' (D @ map fi_frame out)"
proof -
  have up: "advance_upto 33 (ls_current s) s = (s', out)" using t try_advance_upto [OF b] by simp
  have ok: "ls_ok s" using d by (simp add: delivered_ok_def)
  note o = advance_upto_out [OF ok _ up]
  have cur: "ls_current s' = ls_current s" using advance_upto_frame [OF up] by simp
  have ok': "ls_ok s'" using ls_ok_advance_upto [OF ok, of 33 "ls_current s"] by (simp add: up)
  have dist: "distinct (map fi_frame out)" using o b strict_sorted_iff by blast
  have new: "fi_confirmed (frame_of s' (fi_frame fi))" if "fi \<in> set out" for fi
    using advance_upto_out_confirmed [OF ok _ _ up that] b by simp
  have old: "d < ls_current s' \<or> fi_confirmed (frame_of s' d)" if "d \<in> set D" for d
  proof (cases "d < ls_current s")
    case False
    then have "fi_confirmed (frame_of s d)" "unat (ls_current s) \<le> unat d"
      using d that by (auto simp: delivered_ok_def word_less_nat_alt)
    then show ?thesis using advance_upto_confirmed [OF ok _ up, of d] b by simp
  qed (simp add: cur)
  have "fi_frame fi \<notin> set D" if "fi \<in> set out" for fi
    using o b that d by (fastforce simp: delivered_ok_def released_def word_less_nat_alt)
  then show ?thesis using d ok' dist new old by (auto simp: delivered_ok_def)
qed

lemma ls_trace_delivered: "ls_trace s D \<Longrightarrow> delivered_ok s D"
proof (induction rule: ls_trace.induct)
  case lt_init
  then show ?case by (simp add: delivered_ok_def ls_ok_init)
next
  case (lt_reset s D)
  then show ?case by (simp add: delivered_ok_def ls_ok_reset)
next
  case (lt_current s D f)
  then show ?case using ls_ok_set_current [of s f] frame_of_cong [of "set_current_frame f s" s]
    by (auto simp: delivered_ok_def) (auto simp: set_current_frame_def split: if_splits)
next
  case (lt_tick s D)
  then show ?case using ls_ok_tick [of s] frame_of_cong [of "tick_frame_counter s" s]
    by (simp add: delivered_ok_def tick_frame_counter_def)
next
  case (lt_timeout s D n)
  then show ?case using ls_ok_timeout [of s n] frame_of_cong [of "set_timeout_frames n s" s]
    by (simp add: delivered_ok_def set_timeout_frames_def)
next
  case (lt_players s D ids)
  then show ?case using ls_ok_set_players [of s ids] frame_of_cong [of "set_players ids s" s]
    by (simp add: delivered_ok_def set_players_def Let_def)
next
  case (lt_disc s D p)
  then show ?case using ls_ok_disconnected [of s p] frame_of_cong [of "player_disconnected p s" s]
    by (simp add: delivered_ok_def player_disconnected_def)
next
  case (lt_reco s D p)
  then show ?case using ls_ok_reconnected [of s p] frame_of_cong [of "player_reconnected p s" s]
    by (auto simp: delivered_ok_def player_reconnected_def split: if_splits)
next
  case (lt_submit s D p i r s')
  then have "ls_ok s'" using ls_ok_submit [of s p i] by (simp add: delivered_ok_def)
  then show ?case using lt_submit submit_confirmed [of s p i r s'] by (simp add: delivered_ok_def)
next
  case (lt_advance s D s' out)
  then show ?case by (intro delivered_advance)
qed

section \<open>Properties\<close>

text \<open>C10: as long as \<open>current_frame_ + 32\<close> does not wrap, \<open>TryAdvance\<close> returns, keeps the engine
  well formed, and hands out frames in ascending order from the window of 33 frames; each one was
  not confirmed before, now is, has an input of every online player and keeps every input that
  was submitted for it.\<close>

theorem try_advance_correct:
  assumes "ls_ok s" and "unat (ls_current s) + 33 < 2 ^ 32"
  shows "\<exists>s' out. try_advance s = Some (s', out) \<and> ls_ok s' \<and> sorted_wrt (<) (map fi_frame out) \<and>
    (\<forall>fi \<in> set out. unat (ls_current s) \<le> unat (fi_frame fi) \<and> unat (fi_frame fi) < unat (ls_current s) + 33 \<and>
       fi_confirmed fi \<and> \<not> fi_confirmed (frame_of s (fi_frame fi)) \<and>
       (\<forall>p \<in> set (ls_active s). map_of (fi_inputs fi) p \<noteq> None) \<and>
       (\<forall>p i. map_of (fi_inputs (frame_of s (fi_frame fi))) p = Some i \<longrightarrow> map_of (fi_inputs fi) p = Some i))"
proof -
  obtain s' out where up: "advance_upto 33 (ls_current s) s = (s', out)" by (cases "advance_upto 33 (ls_current s) s")
  have "ls_ok s'" using ls_ok_advance_upto [OF assms(1), of 33 "ls_current s"] by (simp add: up)
  then show ?thesis using advance_upto_out [OF assms(1) _ up] try_advance_upto [OF assms(2)] assms(2)
    by (auto simp: up released_def)
qed

text \<open>C9: over any sequence of calls between two resets, no frame number is handed out twice.\<close>

theorem frames_delivered_once:
  assumes "ls_trace s D"
  shows "distinct D"
  using ls_trace_delivered [OF assms] by (simp add: delivered_ok_def)

text \<open>The frame the engine is at is released by the next \<open>TryAdvance\<close> as soon as every online
  player has an input for it or its wait has reached the timeout: no player can hold it back longer.\<close>

theorem current_frame_released:
  assumes ok: "ls_ok s" and b: "unat (ls_current s) + 33 < 2 ^ 32"
    and nc: "\<not> fi_confirmed (frame_of s (ls_current s))"
    and w: "(\<forall>p \<in> set (ls_active s). map_of (fi_inputs (frame_of s (ls_current s))) p \<noteq> None) \<or>
      (\<exists>t. map_of (ls_start s) (ls_current s) = Some t \<and> ls_timeout s \<le> ls_counter s - t)"
  shows "\<exists>s' fi out. try_advance s = Some (s', fi # out) \<and> fi_frame fi = ls_current s"
proof -
  obtain s1 a where a: "advance_frame (ls_current s) s = (s1, a)" by (cases "advance_frame (ls_current s) s")
  have "case a of AdvConfirm fi \<Rightarrow> fi_frame fi = ls_current s | _ \<Rightarrow> False"
    using advance_frame_outcome [OF ok a] nc w by (auto split: adv.splits)
  then obtain fi where "a = AdvConfirm fi" "fi_frame fi = ls_current s" by (cases a) auto
  then show ?thesis using try_advance_upto [OF b] a
    by (simp add: numeral_eq_Suc Let_def split: prod.split)
qed

text \<open>A frame that still misses an input of an online player and has not timed out holds the
  engine: nothing is handed out.\<close>

theorem unready_frame_blocks:
  assumes ok: "ls_ok s" and b: "unat (ls_current s) + 33 < 2 ^ 32"
    and nc: "\<not> fi_confirmed (frame_of s (ls_current s))"
    and p: "p \<in> set (ls_active s)" "map_of (fi_inputs (frame_of s (ls_current s))) p = None"
    and t: "\<forall>t. map_of (ls_start s) (ls_current s) = Some t \<longrightarrow> ls_counter s - t < ls_timeout s"
  shows "map_option snd (try_advance s) = Some []"
proof -
  obtain s1 a where a: "advance_frame (ls_current s) s = (s1, a)" by (cases "advance_frame (ls_current s) s")
  have "a = AdvStop"
    using ok a
  proof (cases rule: advance_frame_cases)
    case (confirm s1 fi)
    then show ?thesis using p t by (auto simp: linorder_not_le [symmetric])
  qed (use nc in auto)
  then show ?thesis using try_advance_upto [OF b] a by (simp add: numeral_eq_Suc)
qed

section \<open>Witnesses\<close>

text \<open>Player 7 alone, with an input for frame 0; and two players with one of the inputs missing.\<close>

definition demo_ready :: lockstep where
  "demo_ready = snd (submit_input 7 default_input (set_players [7] lockstep_init))"

definition demo_waiting :: lockstep where
  "demo_waiting = snd (submit_input 7 default_input (set_current_frame 1 (set_players [7, 9] lockstep_init)))"

lemma demo_ready_ok: "ls_ok demo_ready"
  unfolding demo_ready_def by (intro gm_inv ls_ok_init)

lemma demo_waiting_ok: "ls_ok demo_waiting"
  unfolding demo_waiting_def by (intro gm_inv ls_ok_init)

lemma demo_bounds: "unat (ls_current demo_ready) + 33 < 2 ^ 32" "unat (ls_current demo_waiting) + 33 < 2 ^ 32"
  by (simp_all add: demo_ready_def demo_waiting_def submit_input_def set_players_def Let_def
      lockstep_init_def os_insert_def set_current_frame_def)

lemma demo_state:
  "ls_current demo_ready = 0" "\<not> fi_confirmed (frame_of demo_ready 0)"
  "ls_active demo_ready = [7]" "map_of (fi_inputs (frame_of demo_ready 0)) 7 = Some default_input"
  "ls_current demo_waiting = 1" "\<not> fi_confirmed (frame_of demo_waiting 1)" "9 \<in> set (ls_active demo_waiting)"
  "map_of (fi_inputs (frame_of demo_waiting 1)) 9 = None" "map_of (ls_start demo_waiting) 1 = Some 0"
  "ls_counter demo_waiting = 0" "ls_timeout demo_waiting = 12"
  by (simp_all add: demo_ready_def demo_waiting_def submit_input_def set_players_def Let_def
      lockstep_init_def os_insert_def set_current_frame_def frame_of_def empty_frame_def)

lemma demo_ready_advance: "map_option (map fi_frame \<circ> snd) (try_advance demo_ready) = Some [0]"
proof -
  have e: "(33::nat) = Suc (Suc 31)" by simp
  show ?thesis
    unfolding try_advance_upto [OF demo_bounds(1)] e advance_upto.simps
    by (simp add: demo_ready_def submit_input_def set_players_def Let_def lockstep_init_def os_insert_def
        advance_frame_def is_frame_ready_def confirm_frame_def empty_frame_def kHistorySize_def)
qed

lemma try_advance_correct_witness:
  "\<exists>s' out. try_advance demo_ready = Some (s', out) \<and> ls_ok s' \<and> sorted_wrt (<) (map fi_frame out)"
  using try_advance_correct [OF demo_ready_ok demo_bounds(1)] by blast

lemma frames_delivered_once_witness: "\<exists>s. ls_trace s [0] \<and> distinct [0::u32]"
proof -
  obtain s' out where a: "try_advance demo_ready = Some (s', out)" "map fi_frame out = [0]"
    using demo_ready_advance by auto
  have "ls_trace demo_ready []"
    unfolding demo_ready_def by (rule lt_submit [OF lt_players [OF lt_init]], rule prod.collapse [symmetric])
  from lt_advance [OF this a(1) demo_bounds(1)] have t: "ls_trace s' [0]" by (simp add: a(2))
  show ?thesis using t frames_delivered_once [OF t] by blast
qed

lemma current_frame_released_witness:
  "\<exists>s' fi out. try_advance demo_ready = Some (s', fi # out) \<and> fi_frame fi = 0"
  using current_frame_released [OF demo_ready_ok demo_bounds(1)] by (simp add: demo_state)

lemma unready_frame_blocks_witness: "map_option snd (try_advance demo_waiting) = Some []"
  by (rule unready_frame_blocks [OF demo_waiting_ok demo_bounds(2), where p = 9]) (simp_all add: demo_state)

end
