(* ===== verification/GM_Determ.thy ===== *)
theory GM_Determ
  imports GM_Prelude
begin

text \<open>
  The deterministic building blocks of the battle engine
  (\<open>common/cpp/realtime/deterministic/\<close>): the FNV-1a frame hash (\<open>frame_hash.hpp\<close>), the
  Xorshift64 generator (\<open>prng.hpp\<close>) and the replay recorder with its file format
  (\<open>replay_recorder.hpp\<close>). Reads past the end of the replay bytes, undefined in the code, are
  \<open>None\<close>.
\<close>

section \<open>frame\_hash.hpp\<close>

definition FNV_OFFSET :: u64 where "FNV_OFFSET = 0xcbf29ce484222325"

definition FNV_PRIME :: u64 where "FNV_PRIME = 0x100000001b3"

definition fnv_step :: "u64 \<Rightarrow> u8 \<Rightarrow> u64" where
  "fnv_step h b = (h XOR ucast b) * FNV_PRIME"

definition fh_update :: "u64 \<Rightarrow> bytes \<Rightarrow> u64" where
  "fh_update h data = foldl fnv_step h data"

text \<open>The bytes of an integer in memory (little-endian hosts).\<close>

definition mem_bytes :: "nat \<Rightarrow> 'a::len word \<Rightarrow> bytes" where
  "mem_bytes n v = rev (be_put n v)"

definition fh_update_u64 :: "u64 \<Rightarrow> u64 \<Rightarrow> u64" where
  "fh_update_u64 h v = fh_update h (mem_bytes 8 v)"

definition fh_update_u32 :: "u64 \<Rightarrow> u32 \<Rightarrow> u64" where
  "fh_update_u32 h v = fh_update h (mem_bytes 4 v)"

definition fh_update_i64 :: "u64 \<Rightarrow> i64 \<Rightarrow> u64" where
  "fh_update_i64 h v = fh_update h (mem_bytes 8 v)"

definition fh_update_string :: "u64 \<Rightarrow> bytes \<Rightarrow> u64" where
  "fh_update_string h s = fh_update (fh_update_u64 h (of_nat (length s))) s"

definition fnv1a_hash :: "bytes \<Rightarrow> u64" where
  "fnv1a_hash data = fh_update FNV_OFFSET data"

section \<open>prng.hpp\<close>

definition xs_seed :: "u64 \<Rightarrow> u64" where
  "xs_seed seed = (if seed = 0 then 0x9E3779B97F4A7C15 else seed)"

text \<open>The new state is also the number drawn.\<close>

definition xs_next :: "u64 \<Rightarrow> u64" where
  "xs_next state =
     (let x = state XOR push_bit 13 state; y = x XOR drop_bit 7 x in y XOR push_bit 17 y)"

definition xs_next_uint32 :: "u64 \<Rightarrow> u32 \<Rightarrow> u32 \<times> u64" where
  "xs_next_uint32 state mx =
     (if mx = 0 then (0, state)
      else let s = xs_next state; r = ucast (drop_bit 32 s) :: u32 in (r mod mx, s))"

definition xs_next_fixed_raw :: "u64 \<Rightarrow> i64 \<times> u64" where
  "xs_next_fixed_raw state = (let s = xs_next state in (drop_bit 32 s, s))"

section \<open>replay\_recorder.hpp\<close>

record replay_frame =
  rf_frame_no :: u32
  rf_input :: bytes
  rf_hash :: u64

record replay =
  rp_seed :: u64
  rp_frames :: "replay_frame list"

definition record_frame :: "replay \<Rightarrow> u32 \<Rightarrow> bytes \<Rightarrow> u64 \<Rightarrow> replay" where
  "record_frame r no input h =
     r\<lparr>rp_frames := rp_frames r @ [\<lparr>rf_frame_no = no, rf_input = input, rf_hash = h\<rparr>]\<rparr>"

definition serialize_frame :: "replay_frame \<Rightarrow> bytes" where
  "serialize_frame f =
     be_put 4 (rf_frame_no f) @ be_put 4 (of_nat (length (rf_input f)) :: u32)
       @ rf_input f @ be_put 8 (rf_hash f)"

definition replay_serialize :: "replay \<Rightarrow> bytes" where
  "replay_serialize r =
     be_put 8 (rp_seed r) @ be_put 4 (of_nat (length (rp_frames r)) :: u32)
       @ concat (map serialize_frame (rp_frames r))"

text \<open>Reads \<open>n\<close> bytes at the front of what is left.\<close>

definition rd_bytes :: "nat \<Rightarrow> bytes \<Rightarrow> (bytes \<times> bytes) option" where
  "rd_bytes n d = (if n \<le> length d then Some (take n d, drop n d) else None)"

definition rd_u32 :: "bytes \<Rightarrow> (u32 \<times> bytes) option" where
  "rd_u32 d = map_option (\<lambda>(b, r). (be_get b, r)) (rd_bytes 4 d)"

definition rd_u64 :: "bytes \<Rightarrow> (u64 \<times> bytes) option" where
  "rd_u64 d = map_option (\<lambda>(b, r). (be_get b, r)) (rd_bytes 8 d)"

fun read_frames :: "nat \<Rightarrow> bytes \<Rightarrow> replay \<Rightarrow> replay option" where
  "read_frames 0 d rec = Some rec"
| "read_frames (Suc n) d rec =
     (case rd_u32 d of None \<Rightarrow> None
      | Some (no, d1) \<Rightarrow>
     (case rd_u32 d1 of None \<Rightarrow> None
      | Some (sz, d2) \<Rightarrow>
     (case rd_bytes (unat sz) d2 of None \<Rightarrow> None
      | Some (input, d3) \<Rightarrow>
     (case rd_u64 d3 of None \<Rightarrow> None
      | Some (h, d4) \<Rightarrow> read_frames n d4 (record_frame rec no input h)))))"

definition deserialize_replay :: "bytes \<Rightarrow> replay option" where
  "deserialize_replay d =
     (case rd_u64 d of None \<Rightarrow> None
      | Some (seed, d1) \<Rightarrow>
     (case rd_u32 d1 of None \<Rightarrow> None
      | Some (cnt, d2) \<Rightarrow> read_frames (unat cnt) d2 \<lparr>rp_seed = seed, rp_frames = []\<rparr>))"

section \<open>The hash separates streams\<close>

lemma fh_update_append: "fh_update h (xs @ ys) = fh_update (fh_update h xs) ys"
  by (simp add: fh_update_def)

lemma FNV_PRIME_inverse: "FNV_PRIME * 0xce965057aff6957b = 1"
  by (simp add: FNV_PRIME_def)

lemma mult_FNV_PRIME_inj: "a * FNV_PRIME = b * FNV_PRIME \<Longrightarrow> a = b"
proof -
  assume "a * FNV_PRIME = b * FNV_PRIME"
  then have "a * FNV_PRIME * 0xce965057aff6957b = b * FNV_PRIME * 0xce965057aff6957b"
    by (simp only:)
  then show "a = b" unfolding mult.assoc FNV_PRIME_inverse by (simp only: mult_1_right)
qed

lemma fnv_step_state_inj: "fnv_step h b = fnv_step h' b \<Longrightarrow> h = h'"
  unfolding fnv_step_def by (drule mult_FNV_PRIME_inj) (rule word_xor_right_cancel)

lemma fnv_step_byte_inj: "fnv_step h b = fnv_step h b' \<Longrightarrow> b = b'"
proof -
  assume "fnv_step h b = fnv_step h b'"
  then have "h XOR ucast b = h XOR ucast b'" unfolding fnv_step_def by (rule mult_FNV_PRIME_inj)
  then have eq: "(ucast b :: u64) = ucast b'" by (rule word_xor_left_cancel)
  have "ucast (ucast b :: u64) = (ucast (ucast b' :: u64) :: u8)" by (simp only: eq)
  then show "b = b'" by (simp add: ucast_ucast_u8_u64)
qed

lemma fh_update_state_inj: "fh_update h data = fh_update h' data \<Longrightarrow> h = h'"
  by (induction data arbitrary: h h') (auto simp: fh_update_def dest: fnv_step_state_inj)

section \<open>The generator\<close>

text \<open>A xorshift step is invertible, so no state but zero leads to zero.\<close>

lemma xor_push_bit_zero:
  fixes x :: "'a::len word"
  assumes "x XOR push_bit k x = 0" and "0 < k"
  shows "x = 0"
proof (rule bit_word_eqI)
  fix n assume "n < LENGTH('a)"
  have e: "bit x m = (k \<le> m \<and> bit x (m - k))" if "m < LENGTH('a)" for m
    using arg_cong [OF assms(1), where f = "\<lambda>w. bit w m"] that by (auto simp: bit_simps)
  have "\<not> bit x m" if "m < LENGTH('a)" for m
    using that
  proof (induction m rule: less_induct)
    case (less m)
    show ?case using e [OF less.prems] less.IH [of "m - k"] less.prems assms(2) by auto
  qed
  then show "bit x n = bit (0 :: 'a word) n" using \<open>n < LENGTH('a)\<close> by simp
qed

lemma xor_drop_bit_zero:
  fixes x :: "'a::len word"
  assumes "x XOR drop_bit k x = 0" and "0 < k"
  shows "x = 0"
proof (rule bit_word_eqI)
  fix n assume "n < LENGTH('a)"
  have e: "bit x m = bit x (m + k)" for m
    using arg_cong [OF assms(1), where f = "\<lambda>w. bit w m"]
    by (cases "m < LENGTH('a)") (auto simp: bit_simps add.commute dest: bit_imp_le_length)
  have "bit x n = bit x (n + j * k)" for j
  proof (induction j)
    case (Suc j)
    then show ?case using e [of "n + j * k"] by (simp add: ac_simps)
  qed simp
  then have "bit x n = bit x (n + LENGTH('a) * k)" .
  moreover have "\<not> bit x (n + LENGTH('a) * k)"
    using assms(2) by (metis bit_imp_le_length leD le_add2 mult.right_neutral mult_le_mono2 Suc_leI One_nat_def add.commute trans_le_add1)
  ultimately show "bit x n = bit (0 :: 'a word) n" by simp
qed

lemma xor_push_bit_inj:
  "0 < k \<Longrightarrow> x XOR push_bit k x = y XOR push_bit k y \<Longrightarrow> x = (y :: 'a::len word)"
proof -
  assume k: "0 < k" and e: "x XOR push_bit k x = y XOR push_bit k y"
  have "(x XOR y) XOR push_bit k (x XOR y) = (x XOR push_bit k x) XOR (y XOR push_bit k y)"
    by (rule bit_word_eqI) (auto simp: bit_simps)
  also have "\<dots> = 0" unfolding e by (rule xor_self_eq)
  finally have "x XOR y = 0" by (rule xor_push_bit_zero [OF _ k])
  then show "x = y" using word_xor_left_cancel [of x y x] by simp
qed

lemma xor_drop_bit_inj:
  "0 < k \<Longrightarrow> x XOR drop_bit k x = y XOR drop_bit k y \<Longrightarrow> x = (y :: 'a::len word)"
proof -
  assume k: "0 < k" and e: "x XOR drop_bit k x = y XOR drop_bit k y"
  have "(x XOR y) XOR drop_bit k (x XOR y) = (x XOR drop_bit k x) XOR (y XOR drop_bit k y)"
    by (rule bit_word_eqI) (auto simp: bit_simps)
  also have "\<dots> = 0" unfolding e by (rule xor_self_eq)
  finally have "x XOR y = 0" by (rule xor_drop_bit_zero [OF _ k])
  then show "x = y" using word_xor_left_cancel [of x y x] by simp
qed

lemma xs_next_inj: "xs_next s = xs_next s' \<Longrightarrow> s = s'"
  unfolding xs_next_def Let_def
  by (drule xor_push_bit_inj [rotated], simp, drule xor_drop_bit_inj [rotated], simp,
      drule xor_push_bit_inj [rotated], simp_all)

lemma xs_next_zero: "xs_next 0 = 0"
  by (simp add: xs_next_def)

lemma xs_next_nonzero: "s \<noteq> 0 \<Longrightarrow> xs_next s \<noteq> 0"
  using xs_next_inj [of s 0] by (auto simp: xs_next_zero)

lemma uint_xs_high: "uint (drop_bit 32 (s :: u64)) < 2 ^ 32"
  using uint64_bounds [of s] by (simp add: uint_drop_bit)

section \<open>The replay format\<close>

lemma rd_bytes_append: "length b = n \<Longrightarrow> rd_bytes n (b @ r) = Some (b, r)"
  by (simp add: rd_bytes_def)

lemma rd_u32_put: "rd_u32 (be_put 4 v @ r) = Some (v, r)"
  by (simp add: rd_u32_def rd_bytes_append be_get_put)

lemma rd_u64_put: "rd_u64 (be_put 8 v @ r) = Some (v, r)"
  by (simp add: rd_u64_def rd_bytes_append be_get_put)

definition frame_fits :: "replay_frame \<Rightarrow> bool" where
  "frame_fits f \<longleftrightarrow> length (rf_input f) < 2 ^ 32"

lemma read_frames_serialized:
  "\<forall>f \<in> set fs. frame_fits f \<Longrightarrow>
   read_frames (length fs) (concat (map serialize_frame fs)) r =
     Some (r\<lparr>rp_frames := rp_frames r @ fs\<rparr>)"
proof (induction fs arbitrary: r)
  case (Cons f fs)
  have sz: "unat (of_nat (length (rf_input f)) :: u32) = length (rf_input f)"
    using Cons.prems by (simp add: frame_fits_def unat_of_nat)
  then show ?case using Cons
    by (simp add: serialize_frame_def rd_u32_put rd_u64_put rd_bytes_append record_frame_def)
qed simp

section \<open>Properties\<close>

text \<open>The frame hash notices every change of one byte, wherever it is in the stream and
  whatever the hash already holds.\<close>

theorem hash_detects_byte:
  assumes "b \<noteq> b'"
  shows "fh_update h (xs @ b # ys) \<noteq> fh_update h (xs @ b' # ys)"
proof
  assume "fh_update h (xs @ b # ys) = fh_update h (xs @ b' # ys)"
  then have "fh_update (fnv_step (fh_update h xs) b) ys = fh_update (fnv_step (fh_update h xs) b') ys"
    by (simp add: fh_update_def)
  then show False using assms fh_update_state_inj fnv_step_byte_inj by blast
qed

lemma hash_detects_byte_witness: "fh_update FNV_OFFSET [1, 2, 3] \<noteq> fh_update FNV_OFFSET [1, 5, 3]"
  using hash_detects_byte [of 2 5 FNV_OFFSET "[1]" "[3]"] by simp

text \<open>The generator never reaches the absorbing state zero, whatever the seed (zero included)
  and however many numbers are drawn, and two states that differ never meet.\<close>

theorem xorshift_never_stuck:
  "(xs_next ^^ n) (xs_seed seed) \<noteq> 0 \<and> ((xs_next ^^ n) s = (xs_next ^^ n) s' \<longleftrightarrow> s = s')"
proof
  show "(xs_next ^^ n) (xs_seed seed) \<noteq> 0"
    by (induction n) (auto simp: xs_seed_def xs_next_nonzero)
  show "(xs_next ^^ n) s = (xs_next ^^ n) s' \<longleftrightarrow> s = s'"
    by (induction n) (auto dest: xs_next_inj)
qed

text \<open>\<open>NextUint32(max)\<close> is below \<open>max\<close>, or zero with the state untouched when \<open>max\<close> is zero;
  \<open>NextFixedRaw\<close> is a Q32.32 value of [0, 1).\<close>

theorem prng_ranges:
  "(if mx = 0 then xs_next_uint32 s mx = (0, s)
    else fst (xs_next_uint32 s mx) < mx \<and> snd (xs_next_uint32 s mx) = xs_next s) \<and>
   0 \<le> sint (fst (xs_next_fixed_raw s)) \<and> sint (fst (xs_next_fixed_raw s)) < 2 ^ 32"
proof -
  define w where "w = drop_bit 32 (xs_next s)"
  have w: "uint w < 2 ^ 32" unfolding w_def by (rule uint_xs_high)
  have "sint w = uint w" using w by (simp add: sint64_cases)
  then show ?thesis using w
    by (auto simp: xs_next_uint32_def xs_next_fixed_raw_def Let_def w_def [symmetric]
        word_mod_less_divisor word_gt_0)
qed

text \<open>C15: a replay whose counts and sizes fit in 32 bits is read back from its serialised bytes.\<close>

theorem replay_roundtrip:
  assumes "length (rp_frames r) < 2 ^ 32" and "\<forall>f \<in> set (rp_frames r). frame_fits f"
  shows "deserialize_replay (replay_serialize r) = Some r"
proof -
  have "unat (of_nat (length (rp_frames r)) :: u32) = length (rp_frames r)"
    using assms(1) by (simp add: unat_of_nat)
  then show ?thesis using read_frames_serialized [OF assms(2)]
    by (simp add: deserialize_replay_def replay_serialize_def rd_u64_put rd_u32_put)
qed

lemma replay_roundtrip_witness:
  "let r = record_frame \<lparr>rp_seed = 42, rp_frames = []\<rparr> 1 [10, 20] 99
   in deserialize_replay (replay_serialize r) = Some r"
  using replay_roundtrip [of "record_frame \<lparr>rp_seed = 42, rp_frames = []\<rparr> 1 [10, 20] 99"]
  by (simp add: record_frame_def frame_fits_def)

end
