(* ===== verification/GM_Entity.thy ===== *)
theory GM_Entity
  imports GM_Fixed
begin

text \<open>
  The entities of a battle (\<open>message.hpp\<close> Vec3, \<open>battle_types.hpp\<close>, \<open>entity.hpp/.cpp\<close>). The base
  class \<open>IEntity\<close> is the record \<open>entity\<close>, its subclasses are the values of the field \<open>en_sub\<close>;
  virtual calls are case distinctions on it. Floats are binary32 bit patterns with the arithmetic
  of GM\_Float; \<open>std::atan2\<close> is the parameter \<open>at2\<close>. An access past the end of the fixed cooldown
  array is \<open>None\<close>. Signed 32-bit arithmetic is that of two's complement.
\<close>

section \<open>Data\<close>

record vec3 =
  vx :: f32
  vy :: f32
  vz :: f32

definition V3 :: "f32 \<Rightarrow> f32 \<Rightarrow> f32 \<Rightarrow> vec3" where
  "V3 x y z = \<lparr>vx = x, vy = y, vz = z\<rparr>"

datatype team_side = TeamNone | TeamBlue | TeamRed

datatype entity_type = ETInvalid | ETHero | ETMinion | ETTower | ETProjectile | ETBase

datatype entity_state = ESIdle | ESMoving | ESAttacking | ESCasting | ESDead

datatype control_mode = CMPlayer | CMAI

datatype tower_grade = TGOuter | TGInner | TGBase | TGCrystal

datatype minion_type = MTMelee | MTRanged | MTSiege

record skill_def =
  sk_slot :: u8
  sk_id :: u32
  sk_range :: f32
  sk_radius :: f32
  sk_damage :: u32
  sk_cooldown :: u32
  sk_speed :: f32
  sk_aoe :: bool

record hero =
  h_owner :: u64
  h_control :: control_mode
  h_target :: vec3
  h_speed :: f32
  h_skills :: "skill_def list"
  h_cooldowns :: "u32 list"
  h_kills :: u32
  h_deaths :: u32
  h_assists :: u32
  h_gold :: u32
  h_level :: u32
  h_respawn :: u32
  h_fountain :: vec3
  h_exp :: u32

record minion =
  m_type :: minion_type
  m_waypoints :: "vec3 list"
  m_wp :: nat
  m_speed :: f32
  m_range :: f32
  m_damage :: u32
  m_cooldown :: u32
  m_interval :: u32

record tower =
  t_grade :: tower_grade
  t_range :: f32
  t_damage :: u32
  t_cooldown :: u32
  t_interval :: u32

record projectile =
  p_caster :: u64
  p_target :: vec3
  p_speed :: f32
  p_damage :: u32
  p_radius :: f32
  p_reached :: bool

datatype entity_sub = SHero hero | SMinion minion | STower tower | SProjectile projectile

record entity =
  en_id :: u64
  en_team :: team_side
  en_pos :: vec3
  en_vel :: vec3
  en_yaw :: f32
  en_hp :: i32
  en_max_hp :: i32
  en_state :: entity_state
  en_sub :: entity_sub

definition f32_lit :: "int \<Rightarrow> f32" where "f32_lit n = f32_of_int n"

definition F_HALF :: f32 where "F_HALF = 0x3F000000"
definition F_1_5 :: f32 where "F_1_5 = 0x3FC00000"
definition F_2_5 :: f32 where "F_2_5 = 0x40200000"
definition F_3_5 :: f32 where "F_3_5 = 0x40600000"
definition F_0_001 :: f32 where "F_0_001 = 0x3A83126F"

section \<open>Geometry\<close>

definition distance_xz :: "vec3 \<Rightarrow> vec3 \<Rightarrow> f32" where
  "distance_xz a b =
     (let dx = f32_sub (vx a) (vx b); dz = f32_sub (vz a) (vz b)
      in f32_sqrt (f32_add (f32_mul dx dx) (f32_mul dz dz)))"

definition direction_xz :: "vec3 \<Rightarrow> vec3 \<Rightarrow> vec3" where
  "direction_xz a b =
     (let dx = f32_sub (vx b) (vx a); dz = f32_sub (vz b) (vz a);
          len = f32_sqrt (f32_add (f32_mul dx dx) (f32_mul dz dz))
      in if f32_lt len F_0_001 then V3 0 0 0 else V3 (f32_div dx len) 0 (f32_div dz len))"

definition distance_xz_fixed :: "fixed_vec3 \<Rightarrow> fixed_vec3 \<Rightarrow> fixed" where
  "distance_xz_fixed a b =
     (let dx = fx_sub (fv_x a) (fv_x b); dz = fx_sub (fv_z a) (fv_z b)
      in fixed_sqrt (fx_add (fx_mul dx dx) (fx_mul dz dz)))"

section \<open>IEntity\<close>

definition default_entity :: "entity_sub \<Rightarrow> entity" where
  "default_entity sub = \<lparr>en_id = 0, en_team = TeamNone, en_pos = V3 0 0 0, en_vel = V3 0 0 0, en_yaw = 0,
     en_hp = 100, en_max_hp = 100, en_state = ESIdle, en_sub = sub\<rparr>"

definition ent_type :: "entity \<Rightarrow> entity_type" where
  "ent_type e = (case en_sub e of SHero _ \<Rightarrow> ETHero | SMinion _ \<Rightarrow> ETMinion
     | STower _ \<Rightarrow> ETTower | SProjectile _ \<Rightarrow> ETProjectile)"

definition is_alive :: "entity \<Rightarrow> bool" where
  "is_alive e \<longleftrightarrow> 0 < sint (en_hp e)"

definition set_pos :: "vec3 \<Rightarrow> entity \<Rightarrow> entity" where "set_pos p e = e\<lparr>en_pos := p\<rparr>"
definition set_vel :: "vec3 \<Rightarrow> entity \<Rightarrow> entity" where "set_vel p e = e\<lparr>en_vel := p\<rparr>"
definition set_yaw :: "f32 \<Rightarrow> entity \<Rightarrow> entity" where "set_yaw y e = e\<lparr>en_yaw := y\<rparr>"

definition take_damage :: "i32 \<Rightarrow> entity \<Rightarrow> entity" where
  "take_damage d e = e\<lparr>en_hp := if sint (en_hp e - d) < 0 then 0 else en_hp e - d\<rparr>"

definition heal :: "i32 \<Rightarrow> entity \<Rightarrow> entity" where
  "heal n e = e\<lparr>en_hp := if sint (en_hp e + n) < sint (en_max_hp e) then en_hp e + n else en_max_hp e\<rparr>"

definition kill :: "entity \<Rightarrow> entity" where
  "kill e = e\<lparr>en_hp := 0, en_state := ESDead\<rparr>"

definition set_pos_fixed :: "fixed_vec3 \<Rightarrow> entity \<Rightarrow> entity" where
  "set_pos_fixed p e = e\<lparr>en_pos := V3 (fx_to_float (fv_x p)) (fx_to_float (fv_y p)) (fx_to_float (fv_z p))\<rparr>"

definition ent_move_to :: "fixed_vec3 \<Rightarrow> entity \<Rightarrow> entity" where
  "ent_move_to t e = e\<lparr>en_pos := (en_pos e)\<lparr>vx := fx_to_float (fv_x t), vz := fx_to_float (fv_z t)\<rparr>\<rparr>"

definition pos_fixed :: "entity \<Rightarrow> fixed_vec3" where
  "pos_fixed e = \<lparr>fv_x = fx_from_float (vx (en_pos e)), fv_y = fx_from_float (vy (en_pos e)),
     fv_z = fx_from_float (vz (en_pos e))\<rparr>"

text \<open>One step along the ground toward a point, shared by the moving entities.\<close>

definition step_toward :: "vec3 \<Rightarrow> f32 \<Rightarrow> entity \<Rightarrow> entity" where
  "step_toward t step e =
     (let d = direction_xz (en_pos e) t
      in e\<lparr>en_pos := (en_pos e)\<lparr>vx := f32_add (vx (en_pos e)) (f32_mul (vx d) step),
                                vz := f32_add (vz (en_pos e)) (f32_mul (vz d) step)\<rparr>\<rparr>)"

definition step_length :: "f32 \<Rightarrow> u32 \<Rightarrow> f32" where
  "step_length speed delta = f32_div (f32_mul speed (f32_of_int (uint delta))) (f32_lit 1000)"

definition cooldown_dec :: "u32 \<Rightarrow> u32 \<Rightarrow> u32" where
  "cooldown_dec cd delta = (if 0 < cd then cd - min cd delta else cd)"

section \<open>HeroEntity\<close>

definition new_hero :: "u64 \<Rightarrow> team_side \<Rightarrow> u64 \<Rightarrow> entity" where
  "new_hero eid team owner =
     (default_entity (SHero \<lparr>h_owner = owner, h_control = CMPlayer, h_target = V3 0 0 0, h_speed = f32_lit 5,
        h_skills = [], h_cooldowns = [0, 0, 0, 0], h_kills = 0, h_deaths = 0, h_assists = 0, h_gold = 500,
        h_level = 1, h_respawn = 0, h_fountain = V3 0 0 0, h_exp = 0\<rparr>))
     \<lparr>en_id := eid, en_team := team, en_max_hp := 1000, en_hp := 1000\<rparr>"

definition exp_to_next :: "hero \<Rightarrow> u32" where "exp_to_next h = h_level h * 100"

function level_up :: "hero \<Rightarrow> entity \<Rightarrow> hero \<times> entity" where
  "level_up h e =
     (if exp_to_next h \<le> h_exp h \<and> h_level h < 15
      then level_up (h\<lparr>h_exp := h_exp h - exp_to_next h, h_level := h_level h + 1\<rparr>)
                    (e\<lparr>en_max_hp := en_max_hp e + 50, en_hp := en_max_hp e + 50\<rparr>)
      else (h, e))"
  by pat_completeness auto
termination
proof (relation "measure (\<lambda>(h, e). 15 - unat (h_level h))", goal_cases)
  case 2
  then show ?case by (auto simp: word_less_nat_alt unat_word_ariths)
qed simp

declare level_up.simps [simp del]

text \<open>The hero's own methods act on the pair of its hero part and its base part.\<close>

definition on_hero :: "(hero \<Rightarrow> entity \<Rightarrow> hero \<times> entity) \<Rightarrow> entity \<Rightarrow> entity" where
  "on_hero f e = (case en_sub e of SHero h \<Rightarrow> (let (h', e') = f h e in e'\<lparr>en_sub := SHero h'\<rparr>) | _ \<Rightarrow> e)"

definition add_exp :: "u32 \<Rightarrow> hero \<Rightarrow> entity \<Rightarrow> hero \<times> entity" where
  "add_exp x h e = level_up (h\<lparr>h_exp := h_exp h + x\<rparr>) e"

definition add_kill :: "hero \<Rightarrow> entity \<Rightarrow> hero \<times> entity" where
  "add_kill h e = add_exp 200 (h\<lparr>h_kills := h_kills h + 1, h_gold := h_gold h + 200\<rparr>) e"

definition add_death :: "hero \<Rightarrow> entity \<Rightarrow> hero \<times> entity" where
  "add_death h e = (h\<lparr>h_deaths := h_deaths h + 1\<rparr>, e)"

definition add_assist :: "hero \<Rightarrow> entity \<Rightarrow> hero \<times> entity" where
  "add_assist h e = (h\<lparr>h_assists := h_assists h + 1, h_gold := h_gold h + 100\<rparr>, e)"

definition add_gold :: "u32 \<Rightarrow> hero \<Rightarrow> entity \<Rightarrow> hero \<times> entity" where
  "add_gold g h e = (h\<lparr>h_gold := h_gold h + g\<rparr>, e)"

definition trigger_respawn :: "u32 \<Rightarrow> hero \<Rightarrow> entity \<Rightarrow> hero \<times> entity" where
  "trigger_respawn ms h e = (h\<lparr>h_respawn := ms\<rparr>, e)"

definition is_respawning :: "hero \<Rightarrow> bool" where "is_respawning h \<longleftrightarrow> 0 < h_respawn h"

definition set_fountain :: "vec3 \<Rightarrow> hero \<Rightarrow> entity \<Rightarrow> hero \<times> entity" where
  "set_fountain p h e = (h\<lparr>h_fountain := p\<rparr>, e)"

definition set_skills :: "skill_def list \<Rightarrow> hero \<Rightarrow> entity \<Rightarrow> hero \<times> entity" where
  "set_skills ss h e = (h\<lparr>h_skills := ss\<rparr>, e)"

definition set_control_mode :: "control_mode \<Rightarrow> hero \<Rightarrow> entity \<Rightarrow> hero \<times> entity" where
  "set_control_mode m h e = (h\<lparr>h_control := m\<rparr>, e)"

definition hero_move_to :: "vec3 \<Rightarrow> hero \<Rightarrow> entity \<Rightarrow> hero \<times> entity" where
  "hero_move_to t h e = (h\<lparr>h_target := t\<rparr>, e\<lparr>en_state := ESMoving\<rparr>)"

definition hero_tick :: "(f32 \<Rightarrow> f32 \<Rightarrow> f32) \<Rightarrow> u32 \<Rightarrow> hero \<Rightarrow> entity \<Rightarrow> hero \<times> entity" where
  "hero_tick at2 delta h e =
     (if \<not> is_alive e then
        (if 0 < h_respawn h then
           (let r = h_respawn h - min (h_respawn h) delta
            in if r = 0
               then (h\<lparr>h_respawn := 0\<rparr>, e\<lparr>en_hp := en_max_hp e, en_state := ESIdle, en_pos := h_fountain h\<rparr>)
               else (h\<lparr>h_respawn := r\<rparr>, e))
         else (h, e))
      else
        (let h1 = h\<lparr>h_cooldowns := map (\<lambda>c. cooldown_dec c delta) (h_cooldowns h)\<rparr>
         in if en_state e = ESMoving then
              (let dist = distance_xz (en_pos e) (h_target h); step = step_length (h_speed h) delta
               in if f32_le dist step then (h1, e\<lparr>en_pos := h_target h, en_state := ESIdle\<rparr>)
                  else (let d = direction_xz (en_pos e) (h_target h)
                        in (h1, (step_toward (h_target h) step e)\<lparr>en_yaw := at2 (vx d) (vz d)\<rparr>)))
            else (h1, e)))"

text \<open>\<open>skill_cooldowns_\<close> has four elements: a slot past them is an access out of bounds.\<close>

definition cast_skill :: "u8 \<Rightarrow> hero \<Rightarrow> entity \<Rightarrow> (bool \<times> hero \<times> entity) option" where
  "cast_skill slot h e =
     (if length (h_skills h) \<le> unat slot then Some (False, h, e)
      else if length (h_cooldowns h) \<le> unat slot then None
      else if 0 < h_cooldowns h ! unat slot then Some (False, h, e)
      else Some (True, h\<lparr>h_cooldowns := (h_cooldowns h)[unat slot := sk_cooldown (h_skills h ! unat slot)]\<rparr>,
                 e\<lparr>en_state := ESCasting\<rparr>))"

section \<open>MinionEntity\<close>

definition minion_stats :: "minion_type \<Rightarrow> i32 \<times> u32 \<times> f32 \<times> f32" where
  "minion_stats ty = (case ty of
      MTMelee \<Rightarrow> (450, 20, F_3_5, F_1_5)
    | MTRanged \<Rightarrow> (280, 25, f32_lit 3, f32_lit 5)
    | MTSiege \<Rightarrow> (800, 40, F_2_5, f32_lit 5))"

definition new_minion :: "u64 \<Rightarrow> team_side \<Rightarrow> minion_type \<Rightarrow> entity" where
  "new_minion eid team ty =
     (let (hp, dmg, speed, range) = minion_stats ty
      in (default_entity (SMinion \<lparr>m_type = ty, m_waypoints = [], m_wp = 0, m_speed = speed, m_range = range,
            m_damage = dmg, m_cooldown = 0, m_interval = 1000\<rparr>))
         \<lparr>en_id := eid, en_team := team, en_max_hp := hp, en_hp := hp\<rparr>)"

definition set_waypoints :: "vec3 list \<Rightarrow> entity \<Rightarrow> entity" where
  "set_waypoints ws e = (case en_sub e of SMinion m \<Rightarrow> e\<lparr>en_sub := SMinion (m\<lparr>m_waypoints := ws\<rparr>)\<rparr> | _ \<Rightarrow> e)"

definition minion_tick :: "(f32 \<Rightarrow> f32 \<Rightarrow> f32) \<Rightarrow> u32 \<Rightarrow> minion \<Rightarrow> entity \<Rightarrow> minion \<times> entity" where
  "minion_tick at2 delta m e =
     (if \<not> is_alive e then (m, e)
      else
        (let m1 = m\<lparr>m_cooldown := cooldown_dec (m_cooldown m) delta\<rparr>
         in if m_wp m < length (m_waypoints m) then
              (let wp = m_waypoints m ! m_wp m; dist = distance_xz (en_pos e) wp;
                   step = step_length (m_speed m) delta
               in if f32_le dist step then (m1\<lparr>m_wp := m_wp m + 1\<rparr>, e\<lparr>en_pos := wp, en_state := ESMoving\<rparr>)
                  else (let d = direction_xz (en_pos e) wp
                        in (m1, (step_toward wp step e)\<lparr>en_yaw := at2 (vx d) (vz d), en_state := ESMoving\<rparr>)))
            else (m1, e\<lparr>en_state := ESIdle\<rparr>)))"

section \<open>TowerEntity\<close>

definition tower_stats :: "tower_grade \<Rightarrow> i32 \<times> u32 \<times> f32" where
  "tower_stats g = (case g of
      TGOuter \<Rightarrow> (3000, 100, f32_lit 8)
    | TGInner \<Rightarrow> (2500, 120, f32_lit 8)
    | TGBase \<Rightarrow> (2000, 140, f32_lit 8)
    | TGCrystal \<Rightarrow> (4000, 0, 0))"

definition new_tower :: "u64 \<Rightarrow> team_side \<Rightarrow> tower_grade \<Rightarrow> entity" where
  "new_tower eid team g =
     (let (hp, dmg, range) = tower_stats g
      in (default_entity (STower \<lparr>t_grade = g, t_range = range, t_damage = dmg, t_cooldown = 0, t_interval = 1250\<rparr>))
         \<lparr>en_id := eid, en_team := team, en_max_hp := hp, en_hp := hp\<rparr>)"

definition tower_tick :: "u32 \<Rightarrow> tower \<Rightarrow> entity \<Rightarrow> tower" where
  "tower_tick delta t e = (if is_alive e then t\<lparr>t_cooldown := cooldown_dec (t_cooldown t) delta\<rparr> else t)"

definition can_attack :: "tower \<Rightarrow> bool" where "can_attack t \<longleftrightarrow> t_cooldown t = 0"

definition on_attack :: "tower \<Rightarrow> tower" where "on_attack t = t\<lparr>t_cooldown := t_interval t\<rparr>"

definition tick_cooldown :: "u32 \<Rightarrow> tower \<Rightarrow> tower" where
  "tick_cooldown delta t = t\<lparr>t_cooldown := if delta < t_cooldown t then t_cooldown t - delta else 0\<rparr>"

section \<open>ProjectileEntity\<close>

definition new_projectile ::
  "u64 \<Rightarrow> team_side \<Rightarrow> u64 \<Rightarrow> vec3 \<Rightarrow> vec3 \<Rightarrow> f32 \<Rightarrow> u32 \<Rightarrow> f32 \<Rightarrow> entity" where
  "new_projectile eid team caster start target speed dmg radius =
     (default_entity (SProjectile \<lparr>p_caster = caster, p_target = target, p_speed = speed, p_damage = dmg,
        p_radius = radius, p_reached = False\<rparr>))
     \<lparr>en_id := eid, en_team := team, en_pos := start, en_hp := 1, en_max_hp := 1\<rparr>"

definition projectile_tick :: "u32 \<Rightarrow> projectile \<Rightarrow> entity \<Rightarrow> projectile \<times> entity" where
  "projectile_tick delta p e =
     (if p_reached p \<or> \<not> is_alive e then (p, e)
      else
        (let dist = distance_xz (en_pos e) (p_target p); step = step_length (p_speed p) delta
         in if f32_le dist step then (p\<lparr>p_reached := True\<rparr>, e\<lparr>en_pos := p_target p, en_hp := 0\<rparr>)
            else (p, step_toward (p_target p) step e)))"

text \<open>The virtual \<open>Tick\<close>.\<close>

definition ent_tick :: "(f32 \<Rightarrow> f32 \<Rightarrow> f32) \<Rightarrow> u32 \<Rightarrow> entity \<Rightarrow> entity" where
  "ent_tick at2 delta e = (case en_sub e of
      SHero h \<Rightarrow> (let (h', e') = hero_tick at2 delta h e in e'\<lparr>en_sub := SHero h'\<rparr>)
    | SMinion m \<Rightarrow> (let (m', e') = minion_tick at2 delta m e in e'\<lparr>en_sub := SMinion m'\<rparr>)
    | STower t \<Rightarrow> e\<lparr>en_sub := STower (tower_tick delta t e)\<rparr>
    | SProjectile p \<Rightarrow> (let (p', e') = projectile_tick delta p e in e'\<lparr>en_sub := SProjectile p'\<rparr>))"

section \<open>EntityManager\<close>

record entity_mgr =
  em_entities :: "(u64 \<times> entity) list"
  em_next :: u64

definition em_init :: entity_mgr where
  "em_init = \<lparr>em_entities = [], em_next = 1\<rparr>"

definition em_put :: "u64 \<Rightarrow> entity \<Rightarrow> entity_mgr \<Rightarrow> entity_mgr" where
  "em_put eid e m = m\<lparr>em_entities := AList.update eid e (em_entities m)\<rparr>"

definition create_hero :: "u64 \<Rightarrow> team_side \<Rightarrow> u64 \<Rightarrow> entity_mgr \<Rightarrow> entity_mgr" where
  "create_hero eid team owner m = em_put eid (new_hero eid team owner) m"

definition create_minion :: "u64 \<Rightarrow> team_side \<Rightarrow> minion_type \<Rightarrow> entity_mgr \<Rightarrow> entity_mgr" where
  "create_minion eid team ty m = em_put eid (new_minion eid team ty) m"

definition create_tower :: "u64 \<Rightarrow> team_side \<Rightarrow> tower_grade \<Rightarrow> entity_mgr \<Rightarrow> entity_mgr" where
  "create_tower eid team g m = em_put eid (new_tower eid team g) m"

definition create_projectile ::
  "u64 \<Rightarrow> team_side \<Rightarrow> u64 \<Rightarrow> vec3 \<Rightarrow> vec3 \<Rightarrow> f32 \<Rightarrow> u32 \<Rightarrow> f32 \<Rightarrow> entity_mgr \<Rightarrow> entity_mgr" where
  "create_projectile eid team caster start target speed dmg radius m =
     em_put eid (new_projectile eid team caster start target speed dmg radius) m"

definition find_entity :: "entity_mgr \<Rightarrow> u64 \<Rightarrow> entity option" where
  "find_entity m eid = map_of (em_entities m) eid"

definition find_hero_by_player :: "entity_mgr \<Rightarrow> u64 \<Rightarrow> entity option" where
  "find_hero_by_player m pid =
     List.find (\<lambda>e. case en_sub e of SHero h \<Rightarrow> h_owner h = pid | _ \<Rightarrow> False) (map snd (em_entities m))"

definition remove_entity :: "u64 \<Rightarrow> entity_mgr \<Rightarrow> entity_mgr" where
  "remove_entity eid m = m\<lparr>em_entities := AList.delete eid (em_entities m)\<rparr>"

definition tick_all :: "(f32 \<Rightarrow> f32 \<Rightarrow> f32) \<Rightarrow> u32 \<Rightarrow> entity_mgr \<Rightarrow> entity_mgr" where
  "tick_all at2 delta m = m\<lparr>em_entities := map (\<lambda>(k, e). (k, ent_tick at2 delta e)) (em_entities m)\<rparr>"

text \<open>The pointers of \<open>GetByTeam\<close> and \<open>GetByType\<close> are the keys of the entities.\<close>

definition get_by_team :: "entity_mgr \<Rightarrow> team_side \<Rightarrow> u64 list" where
  "get_by_team m team = map fst (filter (\<lambda>(_, e). en_team e = team) (em_entities m))"

definition get_by_type :: "entity_mgr \<Rightarrow> entity_type \<Rightarrow> u64 list" where
  "get_by_type m ty = map fst (filter (\<lambda>(_, e). ent_type e = ty) (em_entities m))"

definition next_entity_id :: "entity_mgr \<Rightarrow> u64 \<times> entity_mgr" where
  "next_entity_id m = (em_next m, m\<lparr>em_next := em_next m + 1\<rparr>)"

text \<open>A method call through a pointer to the entity of that key.\<close>

definition em_upd :: "u64 \<Rightarrow> (entity \<Rightarrow> entity) \<Rightarrow> entity_mgr \<Rightarrow> entity_mgr" where
  "em_upd eid f m = (case find_entity m eid of None \<Rightarrow> m | Some e \<Rightarrow> em_put eid (f e) m)"

section \<open>Well-formed entities\<close>

text \<open>Hit points stay between zero and the maximum; a hero has four cooldowns, a level of 1 to 15
  and the maximum its level gives.\<close>

definition hero_ok :: "hero \<Rightarrow> entity \<Rightarrow> bool" where
  "hero_ok h e \<longleftrightarrow> length (h_cooldowns h) = 4 \<and> 1 \<le> uint (h_level h) \<and> uint (h_level h) \<le> 15 \<and>
     sint (en_max_hp e) = 950 + 50 * uint (h_level h)"

definition ent_ok :: "entity \<Rightarrow> bool" where
  "ent_ok e \<longleftrightarrow> 0 \<le> sint (en_hp e) \<and> sint (en_hp e) \<le> sint (en_max_hp e) \<and> sint (en_max_hp e) \<le> 4000 \<and>
     (case en_sub e of SHero h \<Rightarrow> hero_ok h e | _ \<Rightarrow> True)"

lemma sint32_add: "- (2 ^ 31) \<le> sint a + sint b \<Longrightarrow> sint a + sint b < 2 ^ 31 \<Longrightarrow> sint (a + b) = sint a + sint (b :: i32)"
  by (simp add: sint_word_ariths signed_take_bit_int_eq_self)

lemma sint32_sub: "- (2 ^ 31) \<le> sint a - sint b \<Longrightarrow> sint a - sint b < 2 ^ 31 \<Longrightarrow> sint (a - b) = sint a - sint (b :: i32)"
  by (simp add: sint_word_ariths signed_take_bit_int_eq_self)

lemma sint32_bounds: "- (2 ^ 31) \<le> sint (a :: i32)" "sint (a :: i32) < 2 ^ 31"
  using sint_ge [of a] sint_lt [of a] by simp_all

lemma take_damage_hp:
  assumes "0 \<le> sint (en_hp e)" "0 \<le> sint d"
  shows "sint (en_hp (take_damage d e)) = max 0 (sint (en_hp e) - sint d)"
  using sint32_sub [of "en_hp e" d] assms sint32_bounds [of d] sint32_bounds [of "en_hp e"]
  by (simp add: take_damage_def max_def)

lemma heal_hp:
  assumes "0 \<le> sint (en_hp e)" "sint (en_hp e) \<le> sint (en_max_hp e)" "sint (en_max_hp e) \<le> 4000"
    "0 \<le> sint n" "sint n \<le> 2000000000"
  shows "sint (en_hp (heal n e)) = min (sint (en_max_hp e)) (sint (en_hp e) + sint n)"
  using sint32_add [of "en_hp e" n] assms by (simp add: heal_def min_def)

lemma level_up_ok:
  "hero_ok h e \<Longrightarrow> level_up h e = (h', e') \<Longrightarrow>
   hero_ok h' e' \<and> (en_hp e' = en_hp e \<and> en_max_hp e' = en_max_hp e \<or> en_hp e' = en_max_hp e') \<and>
   (uint (h_exp h') < 100 * uint (h_level h') \<or> h_level h' = 15) \<and>
   50 * uint (h_level h') * (uint (h_level h') - 1) + uint (h_exp h') =
   50 * uint (h_level h) * (uint (h_level h) - 1) + uint (h_exp h)"
proof (induction h e arbitrary: h' e' rule: level_up.induct)
  case (1 h e)
  have ok: "1 \<le> uint (h_level h)" "uint (h_level h) \<le> 15" "sint (en_max_hp e) = 950 + 50 * uint (h_level h)"
    using "1.prems"(1) by (auto simp: hero_ok_def)
  have nx: "uint (exp_to_next h) = 100 * uint (h_level h)"
    using ok by (simp add: exp_to_next_def uint_word_ariths)
  show ?case
  proof (cases "exp_to_next h \<le> h_exp h \<and> h_level h < 15")
    case True
    define h1 where "h1 = h\<lparr>h_exp := h_exp h - exp_to_next h, h_level := h_level h + 1\<rparr>"
    define e1 where "e1 = e\<lparr>en_max_hp := en_max_hp e + 50, en_hp := en_max_hp e + 50\<rparr>"
    have lt: "uint (h_level h) < 15" using True by (simp add: word_less_def)
    have l1: "uint (h_level h1) = uint (h_level h) + 1"
      using lt by (simp add: h1_def uint_word_ariths)
    have x1: "uint (h_exp h1) = uint (h_exp h) - 100 * uint (h_level h)"
      using True nx by (simp add: h1_def uint_sub_if' word_le_def)
    have m1: "sint (en_max_hp e1) = sint (en_max_hp e) + 50"
      using ok lt by (simp add: e1_def sint32_add)
    have "hero_ok h1 e1" using "1.prems"(1) l1 lt m1 ok by (simp add: hero_ok_def) (simp add: h1_def)
    moreover have "level_up h1 e1 = (h', e')" using "1.prems"(2) True
      by (subst (asm) level_up.simps) (simp add: h1_def e1_def)
    ultimately have IH: "hero_ok h' e' \<and> (en_hp e' = en_hp e1 \<and> en_max_hp e' = en_max_hp e1 \<or> en_hp e' = en_max_hp e') \<and>
       (uint (h_exp h') < 100 * uint (h_level h') \<or> h_level h' = 15) \<and>
       50 * uint (h_level h') * (uint (h_level h') - 1) + uint (h_exp h') =
       50 * uint (h_level h1) * (uint (h_level h1) - 1) + uint (h_exp h1)"
      using "1.IH" [OF True] by (simp add: h1_def e1_def)
    have "50 * uint (h_level h1) * (uint (h_level h1) - 1) + uint (h_exp h1) =
       50 * uint (h_level h) * (uint (h_level h) - 1) + uint (h_exp h)"
      by (simp add: l1 x1 algebra_simps)
    moreover have "en_hp e1 = en_max_hp e1" by (simp add: e1_def)
    ultimately show ?thesis using IH by auto
  next
    case False
    then have e: "h' = h" "e' = e" using "1.prems"(2) by (auto simp: level_up.simps [of h e] split: if_splits)
    have "uint (h_exp h) < 100 * uint (h_level h) \<or> h_level h = 15"
    proof (cases "h_level h < 15")
      case True
      then show ?thesis using False nx by (simp add: word_le_def)
    next
      case ge: False
      then have "uint (h_level h) = uint (15 :: u32)" using ok by (simp add: word_less_def)
      then show ?thesis by (simp add: word_uint_eq_iff)
    qed
    then show ?thesis using "1.prems"(1) e by simp
  qed
qed

lemma level_up_frame:
  "level_up h e = (h', e') \<Longrightarrow> h_cooldowns h' = h_cooldowns h \<and> h_kills h' = h_kills h \<and>
     h_deaths h' = h_deaths h \<and> h_respawn h' = h_respawn h \<and> en_id e' = en_id e \<and> en_team e' = en_team e \<and> en_sub e' = en_sub e"
proof (induction h e arbitrary: h' e' rule: level_up.induct)
  case (1 h e)
  then show ?case
    by (subst (asm) level_up.simps [of h e]) (auto split: if_splits)
qed

lemma hero_ok_cong:
  "hero_ok h e \<Longrightarrow> length (h_cooldowns h') = length (h_cooldowns h) \<Longrightarrow> h_level h' = h_level h \<Longrightarrow>
   en_max_hp e' = en_max_hp e \<Longrightarrow> hero_ok h' e'"
  by (simp add: hero_ok_def)

lemma ent_ok_new:
  "ent_ok (new_hero eid team owner)" "ent_ok (new_minion eid team mt)" "ent_ok (new_tower eid team g)"
  "ent_ok (new_projectile eid team c st ta sp d r)"
  by (simp_all add: ent_ok_def hero_ok_def new_hero_def new_minion_def minion_stats_def new_tower_def
      tower_stats_def new_projectile_def default_entity_def split: minion_type.split tower_grade.split)

lemma ent_ok_set [gm_inv]:
  "ent_ok e \<Longrightarrow> ent_ok (set_pos p e)" "ent_ok e \<Longrightarrow> ent_ok (set_vel p e)" "ent_ok e \<Longrightarrow> ent_ok (set_yaw y e)"
  "ent_ok e \<Longrightarrow> ent_ok (set_pos_fixed q e)" "ent_ok e \<Longrightarrow> ent_ok (ent_move_to q e)"
  "ent_ok e \<Longrightarrow> ent_ok (set_waypoints ws e)"
  by (auto simp: ent_ok_def set_pos_def set_vel_def set_yaw_def set_pos_fixed_def ent_move_to_def
      set_waypoints_def hero_ok_def split: entity_sub.splits)

lemma ent_ok_damage [gm_inv]: "ent_ok e \<Longrightarrow> 0 \<le> sint d \<Longrightarrow> ent_ok (take_damage d e)"
  using take_damage_hp [of e d] by (auto simp: ent_ok_def take_damage_def hero_ok_def split: entity_sub.splits)

lemma ent_ok_heal [gm_inv]: "ent_ok e \<Longrightarrow> 0 \<le> sint n \<Longrightarrow> sint n \<le> 2000000000 \<Longrightarrow> ent_ok (heal n e)"
  using heal_hp [of e n] by (auto simp: ent_ok_def heal_def hero_ok_def split: entity_sub.splits)

lemma ent_ok_kill [gm_inv]: "ent_ok e \<Longrightarrow> ent_ok (kill e)"
  by (auto simp: ent_ok_def kill_def hero_ok_def split: entity_sub.splits)

text \<open>Methods of the hero that leave level, cooldown count and hit points alone.\<close>

lemma ent_ok_on_hero:
  assumes ok: "ent_ok e"
    and f: "\<And>h h' e'. en_sub e = SHero h \<Longrightarrow> hero_ok h e \<Longrightarrow> f h e = (h', e') \<Longrightarrow>
      hero_ok h' e' \<and> (en_hp e' = en_hp e \<and> en_max_hp e' = en_max_hp e \<or> en_hp e' = en_max_hp e')"
  shows "ent_ok (on_hero f e)"
proof (cases "en_sub e")
  case (SHero h)
  obtain h' e' where fe: "f h e = (h', e')" by (cases "f h e")
  have "hero_ok h e" using ok SHero by (simp add: ent_ok_def)
  from f [OF SHero this fe] have r: "hero_ok h' e'" "en_hp e' = en_hp e \<and> en_max_hp e' = en_max_hp e \<or> en_hp e' = en_max_hp e'"
    by auto
  have "sint (en_max_hp e') \<le> 4000" "0 \<le> sint (en_max_hp e')" using r(1) by (auto simp: hero_ok_def)
  then show ?thesis using ok r SHero by (auto simp: on_hero_def fe ent_ok_def hero_ok_def)
qed (use ok in \<open>simp_all add: on_hero_def\<close>)

lemma add_exp_ok:
  assumes "hero_ok h e" "add_exp x h e = (h', e')"
  shows "hero_ok h' e' \<and> (en_hp e' = en_hp e \<and> en_max_hp e' = en_max_hp e \<or> en_hp e' = en_max_hp e')"
proof -
  have "hero_ok (h\<lparr>h_exp := h_exp h + x\<rparr>) e" using assms(1) by (simp add: hero_ok_def)
  from level_up_ok [OF this] assms(2) show ?thesis by (auto simp: add_exp_def)
qed

lemma ent_ok_add_exp [gm_inv]: "ent_ok e \<Longrightarrow> ent_ok (on_hero (add_exp x) e)"
  by (rule ent_ok_on_hero, assumption) (rule add_exp_ok)

lemma ent_ok_add_kill [gm_inv]: "ent_ok e \<Longrightarrow> ent_ok (on_hero add_kill e)"
proof (rule ent_ok_on_hero, assumption)
  fix h h' e' assume "hero_ok h e" "add_kill h e = (h', e')"
  then show "hero_ok h' e' \<and> (en_hp e' = en_hp e \<and> en_max_hp e' = en_max_hp e \<or> en_hp e' = en_max_hp e')"
    using add_exp_ok [of "h\<lparr>h_kills := h_kills h + 1, h_gold := h_gold h + 200\<rparr>" e 200]
    by (simp add: add_kill_def hero_ok_def)
qed

lemma ent_ok_hero_fields [gm_inv]:
  "ent_ok e \<Longrightarrow> ent_ok (on_hero add_death e)" "ent_ok e \<Longrightarrow> ent_ok (on_hero add_assist e)"
  "ent_ok e \<Longrightarrow> ent_ok (on_hero (add_gold g) e)" "ent_ok e \<Longrightarrow> ent_ok (on_hero (trigger_respawn ms) e)"
  "ent_ok e \<Longrightarrow> ent_ok (on_hero (set_fountain p) e)" "ent_ok e \<Longrightarrow> ent_ok (on_hero (set_skills ss) e)"
  "ent_ok e \<Longrightarrow> ent_ok (on_hero (set_control_mode c) e)" "ent_ok e \<Longrightarrow> ent_ok (on_hero (hero_move_to p) e)"
  by (rule ent_ok_on_hero, assumption, auto simp: add_death_def add_assist_def add_gold_def trigger_respawn_def
      set_fountain_def set_skills_def set_control_mode_def hero_move_to_def hero_ok_def)+

lemma ent_ok_cast:
  "ent_ok e \<Longrightarrow> en_sub e = SHero h \<Longrightarrow> cast_skill slot h e = Some (b, h', e') \<Longrightarrow> ent_ok (e'\<lparr>en_sub := SHero h'\<rparr>)"
  by (auto simp: cast_skill_def ent_ok_def hero_ok_def split: if_splits)

lemma ent_ok_tick [gm_inv]: "ent_ok e \<Longrightarrow> ent_ok (ent_tick at2 delta e)"
  by (cases "en_sub e")
     (auto simp: ent_tick_def hero_tick_def minion_tick_def projectile_tick_def step_toward_def Let_def
        ent_ok_def hero_ok_def)

section \<open>The entity manager\<close>

definition mgr_ok :: "entity_mgr \<Rightarrow> bool" where
  "mgr_ok m \<longleftrightarrow> um_ok (em_entities m) \<and> (\<forall>k e. map_of (em_entities m) k = Some e \<longrightarrow> en_id e = k \<and> ent_ok e)"

lemma find_em_put: "find_entity (em_put k e m) k' = (if k' = k then Some e else find_entity m k')"
  by (simp add: find_entity_def em_put_def um_get_update)

lemma find_remove: "find_entity (remove_entity k m) k' = (if k' = k then None else find_entity m k')"
  by (simp add: find_entity_def remove_entity_def um_get_delete)

lemma em_next_put [simp]: "em_next (em_put k e m) = em_next m"
  by (simp add: em_put_def)

lemma find_em_upd: "find_entity (em_upd k f m) k' = (if k' = k then map_option f (find_entity m k) else find_entity m k')"
  by (auto simp: em_upd_def find_em_put split: option.split)

lemma find_tick_all: "find_entity (tick_all at2 d m) k = map_option (ent_tick at2 d) (find_entity m k)"
  by (simp add: find_entity_def tick_all_def map_of_map_snd)

lemma mgr_ok_init: "mgr_ok em_init"
  by (simp add: mgr_ok_def em_init_def um_ok_def)

lemma mgr_ok_put [gm_inv]: "mgr_ok m \<Longrightarrow> ent_ok e \<Longrightarrow> en_id e = k \<Longrightarrow> mgr_ok (em_put k e m)"
  by (auto simp: mgr_ok_def em_put_def um_get_update intro: um_ok_update split: if_splits)

lemma mgr_ok_find: "mgr_ok m \<Longrightarrow> find_entity m k = Some e \<Longrightarrow> en_id e = k \<and> ent_ok e"
  by (auto simp: mgr_ok_def find_entity_def)

lemma mgr_ok_upd [gm_inv]:
  "mgr_ok m \<Longrightarrow> (\<And>e. ent_ok e \<Longrightarrow> ent_ok (f e) \<and> en_id (f e) = en_id e) \<Longrightarrow> mgr_ok (em_upd k f m)"
  by (auto simp: em_upd_def dest: mgr_ok_find intro!: mgr_ok_put split: option.split)

lemma mgr_ok_remove [gm_inv]: "mgr_ok m \<Longrightarrow> mgr_ok (remove_entity k m)"
  by (auto simp: mgr_ok_def remove_entity_def um_get_delete intro: um_ok_delete split: if_splits)

lemma ent_tick_id: "en_id (ent_tick at2 d e) = en_id e" "ent_type (ent_tick at2 d e) = ent_type e"
  "en_team (ent_tick at2 d e) = en_team e" "en_max_hp (ent_tick at2 d e) = en_max_hp e"
  by (auto simp: ent_tick_def ent_type_def hero_tick_def minion_tick_def projectile_tick_def step_toward_def Let_def
      split: entity_sub.split)

lemma mgr_ok_tick_all [gm_inv]: "mgr_ok m \<Longrightarrow> mgr_ok (tick_all at2 d m)"
  by (auto simp: mgr_ok_def tick_all_def map_of_map_snd um_ok_def comp_def case_prod_beta
      ent_tick_id intro: ent_ok_tick)

lemma mgr_ok_create [gm_inv]:
  "mgr_ok m \<Longrightarrow> mgr_ok (create_hero k team o1 m)" "mgr_ok m \<Longrightarrow> mgr_ok (create_minion k team mt m)"
  "mgr_ok m \<Longrightarrow> mgr_ok (create_tower k team g m)"
  "mgr_ok m \<Longrightarrow> mgr_ok (create_projectile k team c st ta sp dm r m)"
  by (auto simp: create_hero_def create_minion_def create_tower_def create_projectile_def intro!: mgr_ok_put ent_ok_new)
     (auto simp: new_hero_def new_minion_def new_tower_def new_projectile_def split: prod.split)

section \<open>Properties\<close>

text \<open>Every value an entity can take: built by a constructor and changed by any sequence of its
  public operations, with damage and healing that are not negative.\<close>

inductive ent_hist :: "entity \<Rightarrow> bool" where
  eh_hero: "ent_hist (new_hero eid team owner)"
| eh_minion: "ent_hist (new_minion eid team mt)"
| eh_tower: "ent_hist (new_tower eid team g)"
| eh_projectile: "ent_hist (new_projectile eid team c st ta sp d r)"
| eh_tick: "ent_hist e \<Longrightarrow> ent_hist (ent_tick at2 delta e)"
| eh_damage: "ent_hist e \<Longrightarrow> 0 \<le> sint d \<Longrightarrow> ent_hist (take_damage d e)"
| eh_heal: "ent_hist e \<Longrightarrow> 0 \<le> sint n \<Longrightarrow> sint n \<le> 2000000000 \<Longrightarrow> ent_hist (heal n e)"
| eh_kill: "ent_hist e \<Longrightarrow> ent_hist (kill e)"
| eh_pos: "ent_hist e \<Longrightarrow> ent_hist (set_pos p e)"
| eh_pos_fixed: "ent_hist e \<Longrightarrow> ent_hist (set_pos_fixed q e)"
| eh_move: "ent_hist e \<Longrightarrow> ent_hist (ent_move_to q e)"
| eh_waypoints: "ent_hist e \<Longrightarrow> ent_hist (set_waypoints ws e)"
| eh_kills: "ent_hist e \<Longrightarrow> ent_hist (on_hero add_kill e)"
| eh_death: "ent_hist e \<Longrightarrow> ent_hist (on_hero add_death e)"
| eh_assist: "ent_hist e \<Longrightarrow> ent_hist (on_hero add_assist e)"
| eh_exp: "ent_hist e \<Longrightarrow> ent_hist (on_hero (add_exp x) e)"
| eh_gold: "ent_hist e \<Longrightarrow> ent_hist (on_hero (add_gold x) e)"
| eh_respawn: "ent_hist e \<Longrightarrow> ent_hist (on_hero (trigger_respawn x) e)"
| eh_target: "ent_hist e \<Longrightarrow> ent_hist (on_hero (hero_move_to p) e)"
| eh_skills: "ent_hist e \<Longrightarrow> ent_hist (on_hero (set_skills ss) e)"
| eh_cast: "ent_hist e \<Longrightarrow> en_sub e = SHero h \<Longrightarrow> cast_skill slot h e = Some (b, h', e') \<Longrightarrow>
    ent_hist (e'\<lparr>en_sub := SHero h'\<rparr>)"

lemma ent_hist_ok: "ent_hist e \<Longrightarrow> ent_ok e"
  by (induction rule: ent_hist.induct) (auto intro: ent_ok_new ent_ok_tick ent_ok_damage ent_ok_heal ent_ok_kill
      ent_ok_set ent_ok_add_kill ent_ok_hero_fields ent_ok_add_exp ent_ok_cast)

text \<open>After any sequence of ticks, damage, healing, kills, experience, skills and moves, the hit
  points of an entity lie between zero and its maximum, and a hero has a level of 1 to 15, the
  maximum hit points of that level and its four cooldowns.\<close>

theorem entity_stays_ok:
  assumes "ent_hist e"
  shows "0 \<le> sint (en_hp e) \<and> sint (en_hp e) \<le> sint (en_max_hp e) \<and>
    (\<forall>h. en_sub e = SHero h \<longrightarrow> 1 \<le> uint (h_level h) \<and> uint (h_level h) \<le> 15 \<and>
       sint (en_max_hp e) = 1000 + 50 * (uint (h_level h) - 1) \<and> length (h_cooldowns h) = 4)"
  using ent_hist_ok [OF assms] by (auto simp: ent_ok_def hero_ok_def)

lemma entity_stays_ok_witness:
  "let e = take_damage 300 (on_hero add_kill (new_hero 1 TeamBlue 7)) in
     0 \<le> sint (en_hp e) \<and> sint (en_hp e) \<le> sint (en_max_hp e)"
  unfolding Let_def
  using entity_stays_ok [OF eh_damage [OF eh_kills [OF eh_hero [of 1 TeamBlue 7]], of 300]] by simp

text \<open>\<open>AddExp\<close> ends, and spends exactly the experience of the levels it gives: the experience
  of all levels below plus the rest is what it was plus the amount, the rest is less than the
  next level costs unless the hero is at level 15, and a hero that levels up has full hit points.\<close>

theorem add_exp_correct:
  assumes "hero_ok h e" "uint (h_exp h) + uint x < 2 ^ 32" "add_exp x h e = (h', e')"
  shows "50 * uint (h_level h') * (uint (h_level h') - 1) + uint (h_exp h') =
      50 * uint (h_level h) * (uint (h_level h) - 1) + uint (h_exp h) + uint x \<and>
    (uint (h_exp h') < 100 * uint (h_level h') \<or> h_level h' = 15) \<and>
    (en_hp e' = en_hp e \<and> en_max_hp e' = en_max_hp e \<or> en_hp e' = en_max_hp e') \<and> hero_ok h' e'"
proof -
  define h1 where "h1 = h\<lparr>h_exp := h_exp h + x\<rparr>"
  have "hero_ok h1 e" using assms(1) by (simp add: h1_def hero_ok_def)
  moreover have "level_up h1 e = (h', e')" using assms(3) by (simp add: add_exp_def h1_def)
  moreover have "h_level h1 = h_level h" "uint (h_exp h1) = uint (h_exp h) + uint x"
    using assms(2) by (simp_all add: h1_def uint_word_ariths)
  ultimately show ?thesis using level_up_ok [of h1 e h' e'] by simp
qed

lemma add_exp_correct_witness:
  "\<exists>h' e'. (case en_sub (new_hero 1 TeamBlue 7) of SHero h \<Rightarrow> add_exp 350 h (new_hero 1 TeamBlue 7) = (h', e'))
     \<and> 50 * uint (h_level h') * (uint (h_level h') - 1) + uint (h_exp h') = 350"
proof -
  obtain h where h: "en_sub (new_hero 1 TeamBlue 7) = SHero h" "h_level h = 1" "h_exp h = 0"
    by (simp add: new_hero_def default_entity_def)
  have ok: "hero_ok h (new_hero 1 TeamBlue 7)" using ent_ok_new(1) [of 1 TeamBlue 7] h(1) by (simp add: ent_ok_def)
  obtain h' e' where r: "add_exp 350 h (new_hero 1 TeamBlue 7) = (h', e')" by fastforce
  show ?thesis using add_exp_correct [OF ok _ r] h r by auto
qed

lemma unat32_lt: "unat (x :: u32) < 2 ^ 32"
  using unsigned_less [of x] by simp

lemma dead_hero_ticks:
  assumes "\<not> is_alive e" "en_sub e = SHero h" "n * unat d < unat (h_respawn h)"
  shows "(ent_tick at2 d ^^ n) e = e\<lparr>en_sub := SHero (h\<lparr>h_respawn := h_respawn h - of_nat n * d\<rparr>)\<rparr>"
  using assms(3)
proof (induction n)
  case 0
  then show ?case using assms(2) by simp
next
  case (Suc n)
  define r where "r = h_respawn h - of_nat n * d"
  have nd: "unat (of_nat n * d) = n * unat d"
    using Suc.prems unat32_lt [of "h_respawn h"]
    by (simp add: unat_word_ariths unat_of_nat mod_mult_left_eq)
  have r: "unat r = unat (h_respawn h) - n * unat d"
    unfolding r_def using nd Suc.prems by (simp add: unat_sub_if_size)
  then have dr: "unat d < unat r" using Suc.prems by simp
  have "min r d = d" "r - d \<noteq> 0" "0 < r"
    using dr by (auto simp: min_def word_le_nat_alt word_less_nat_alt)
  then have t: "ent_tick at2 d (e\<lparr>en_sub := SHero (h\<lparr>h_respawn := r\<rparr>)\<rparr>) = e\<lparr>en_sub := SHero (h\<lparr>h_respawn := r - d\<rparr>)\<rparr>"
    using assms(1) by (simp add: ent_tick_def hero_tick_def is_alive_def Let_def)
  have "(ent_tick at2 d ^^ n) e = e\<lparr>en_sub := SHero (h\<lparr>h_respawn := r\<rparr>)\<rparr>"
    using Suc by (simp add: r_def)
  then show ?case using t by (simp add: r_def algebra_simps)
qed

text \<open>A dead hero with a respawn timer of ms milliseconds stays dead while fewer than ms
  milliseconds have been ticked, and the tick that reaches them brings it back with full hit
  points at its fountain.\<close>

theorem respawn_on_time:
  assumes dead: "\<not> is_alive e" and h: "en_sub e = SHero h"
    and n: "n * unat d < unat (h_respawn h)" "unat (h_respawn h) \<le> Suc n * unat d"
  shows "(\<forall>k \<le> n. \<not> is_alive ((ent_tick at2 d ^^ k) e)) \<and>
    (let e' = (ent_tick at2 d ^^ Suc n) e
     in en_hp e' = en_max_hp e \<and> en_pos e' = h_fountain h \<and> en_state e' = ESIdle)"
proof (rule conjI)
  show "\<forall>k \<le> n. \<not> is_alive ((ent_tick at2 d ^^ k) e)"
  proof (intro allI impI)
    fix k assume "k \<le> n"
    then have "k * unat d < unat (h_respawn h)" using n(1) by (meson le_less_trans mult_le_mono1)
    from dead_hero_ticks [OF dead h this] show "\<not> is_alive ((ent_tick at2 d ^^ k) e)"
      using dead by (simp add: is_alive_def)
  qed
  define r where "r = h_respawn h - of_nat n * d"
  have nd: "unat (of_nat n * d) = n * unat d"
    using n(1) unat32_lt [of "h_respawn h"] by (simp add: unat_word_ariths unat_of_nat mod_mult_left_eq)
  then have "unat r = unat (h_respawn h) - n * unat d"
    unfolding r_def using n(1) by (simp add: unat_sub_if_size)
  then have "0 < r" "min r d = r" using n by (auto simp: word_less_nat_alt word_le_nat_alt min_def)
  then have "ent_tick at2 d (e\<lparr>en_sub := SHero (h\<lparr>h_respawn := r\<rparr>)\<rparr>) =
      e\<lparr>en_hp := en_max_hp e, en_state := ESIdle, en_pos := h_fountain h, en_sub := SHero (h\<lparr>h_respawn := 0\<rparr>)\<rparr>"
    using dead by (simp add: ent_tick_def hero_tick_def is_alive_def Let_def)
  then show "let e' = (ent_tick at2 d ^^ Suc n) e
     in en_hp e' = en_max_hp e \<and> en_pos e' = h_fountain h \<and> en_state e' = ESIdle"
    using dead_hero_ticks [OF dead h n(1), of at2] by (simp add: r_def)
qed

lemma respawn_on_time_witness:
  "let e = on_hero (trigger_respawn 10000) (kill (new_hero 1 TeamBlue 7)) in
     \<not> is_alive ((ent_tick (\<lambda>a b. 0) 33 ^^ 303) e) \<and> en_hp ((ent_tick (\<lambda>a b. 0) 33 ^^ 304) e) = 1000"
proof -
  define e where "e = on_hero (trigger_respawn 10000) (kill (new_hero 1 TeamBlue 7))"
  obtain h where h: "en_sub e = SHero h" "h_respawn h = 10000"
    by (simp add: e_def on_hero_def trigger_respawn_def kill_def new_hero_def default_entity_def)
  have "\<not> is_alive e" "en_max_hp e = 1000"
    by (simp_all add: e_def is_alive_def on_hero_def trigger_respawn_def kill_def new_hero_def default_entity_def)
  moreover have "303 * unat (33 :: u32) < unat (h_respawn h)" "unat (h_respawn h) \<le> Suc 303 * unat (33 :: u32)"
    using h(2) by simp_all
  moreover have "Suc 303 = 304" by simp
  ultimately show ?thesis using respawn_on_time [of e h 303 33 "\<lambda>a b. 0"] h(1)
    unfolding e_def [symmetric] Let_def by (metis order_refl)
qed

end
