(* ===== verification/GM_Room.thy ===== *)
theory GM_Room
  imports GM_Entity
begin

text \<open>
  Rooms: the messages (\<open>message.hpp\<close>, \<open>battle_message.hpp\<close>), the grid index (\<open>aoi.hpp/.cpp\<close>) and the
  plain room (\<open>room.hpp/.cpp\<close>). Hash maps are association lists, iterated in list order. The
  broadcast callback is a sequence of calls (a snapshot and the connections it is for). A
  \<open>static_cast\<close> of a message to a class it does not have is undefined and gives \<open>None\<close>.
\<close>

section \<open>Messages\<close>

datatype msg_type = MsgInvalid | MsgPlayerEnter | MsgPlayerLeave | MsgPlayerMove | MsgPlayerAction
  | MsgRoomBroadcast | MsgSyncState | MsgAsyncIOComplete | MsgRoomTick

record player_state =
  ps_player :: u64
  ps_pos :: vec3
  ps_vel :: vec3
  ps_yaw :: f32
  ps_hp :: u32
  ps_anim :: u32

record room_snapshot =
  sn_room :: u32
  sn_frame :: u32
  sn_time :: u64
  sn_players :: "player_state list"
  sn_payload :: bytes

text \<open>One constructor per message class, with the fields of the class.\<close>

datatype message =
    PlayerEnterMsg u64 vec3 u64
  | PlayerLeaveMsg u64
  | PlayerMoveMsg u64 vec3 f32
  | PlayerActionMsg u64 u32 vec3
  | RoomBroadcastMsg bytes
  | SyncStateMsg room_snapshot "u64 list"
  | AsyncIOCompleteMsg u64 bool bytes
  | RoomTickMsg u64
  | BattleReadyMsg u64
  | HeroMoveInputMsg u64 f32 f32 u32
  | HeroCastSkillMsg u64 u8 vec3 u64 u32
  | PlayerDisconnectMsg u64
  | PlayerReconnectMsg u64 u64

definition msg_type_of :: "message \<Rightarrow> msg_type" where
  "msg_type_of m = (case m of
      PlayerEnterMsg _ _ _ \<Rightarrow> MsgPlayerEnter
    | PlayerLeaveMsg _ \<Rightarrow> MsgPlayerLeave
    | PlayerMoveMsg _ _ _ \<Rightarrow> MsgPlayerMove
    | PlayerActionMsg _ _ _ \<Rightarrow> MsgPlayerAction
    | RoomBroadcastMsg _ \<Rightarrow> MsgRoomBroadcast
    | SyncStateMsg _ _ \<Rightarrow> MsgSyncState
    | AsyncIOCompleteMsg _ _ _ \<Rightarrow> MsgAsyncIOComplete
    | RoomTickMsg _ \<Rightarrow> MsgRoomTick
    | BattleReadyMsg _ \<Rightarrow> MsgPlayerAction
    | HeroMoveInputMsg _ _ _ _ \<Rightarrow> MsgPlayerMove
    | HeroCastSkillMsg _ _ _ _ _ \<Rightarrow> MsgPlayerAction
    | PlayerDisconnectMsg _ \<Rightarrow> MsgPlayerLeave
    | PlayerReconnectMsg _ _ \<Rightarrow> MsgPlayerEnter)"

type_synonym broadcast = "room_snapshot \<times> u64 list"

section \<open>GridSpatialIndex\<close>

record grid =
  gr_cell :: f32
  gr_cols :: int
  gr_rows :: int
  gr_cells :: "u64 list list"

text \<open>The product of rows and columns is an \<open>int\<close>: beyond its range the constructor is undefined.\<close>

definition grid_new :: "f32 \<Rightarrow> f32 \<Rightarrow> f32 \<Rightarrow> grid option" where
  "grid_new map_w map_h cell =
     (let c0 = sint (f32_ceil_i32 (f32_div map_w cell)); r0 = sint (f32_ceil_i32 (f32_div map_h cell));
          cols = (if c0 < 1 then 1 else c0); rows = (if r0 < 1 then 1 else r0)
      in if cols * rows < 2 ^ 31
         then Some \<lparr>gr_cell = cell, gr_cols = cols, gr_rows = rows, gr_cells = replicate (nat (cols * rows)) []\<rparr>
         else None)"

definition grid_clear :: "grid \<Rightarrow> grid" where
  "grid_clear g = g\<lparr>gr_cells := map (\<lambda>_. []) (gr_cells g)\<rparr>"

definition coord_to_cell :: "grid \<Rightarrow> f32 \<Rightarrow> int" where
  "coord_to_cell g v = sint (f32_to_i32 (f32_div v (gr_cell g)))"

definition cell_index :: "grid \<Rightarrow> int \<Rightarrow> int \<Rightarrow> int" where
  "cell_index g cx cz =
     (if cx < 0 \<or> gr_cols g \<le> cx \<or> cz < 0 \<or> gr_rows g \<le> cz then - 1 else cz * gr_cols g + cx)"

definition grid_insert :: "u64 \<Rightarrow> f32 \<Rightarrow> f32 \<Rightarrow> grid \<Rightarrow> grid" where
  "grid_insert pid x z g =
     (let idx = cell_index g (coord_to_cell g x) (coord_to_cell g z)
      in if 0 \<le> idx \<and> idx < int (length (gr_cells g))
         then g\<lparr>gr_cells := (gr_cells g)[nat idx := gr_cells g ! nat idx @ [pid]]\<rparr> else g)"

text \<open>The two nested loops collect the cells of a rectangle clipped to the grid.\<close>

definition query_range :: "grid \<Rightarrow> f32 \<Rightarrow> f32 \<Rightarrow> f32 \<Rightarrow> u64 list" where
  "query_range g x z radius =
     (let min_cx = max 0 (coord_to_cell g (f32_sub x radius));
          max_cx = min (gr_cols g - 1) (coord_to_cell g (f32_add x radius));
          min_cz = max 0 (coord_to_cell g (f32_sub z radius));
          max_cz = min (gr_rows g - 1) (coord_to_cell g (f32_add z radius))
      in concat (map (\<lambda>cz. concat (map (\<lambda>cx. gr_cells g ! nat (cell_index g cx cz)) [min_cx..max_cx]))
                     [min_cz..max_cz]))"

section \<open>Room\<close>

record room_config =
  rc_room_id :: u32
  rc_max_players :: u32
  rc_map_x :: f32
  rc_map_z :: f32
  rc_tick_hz :: u32
  rc_enable_aoi :: bool
  rc_aoi_radius :: f32

definition default_room_config :: room_config where
  "default_room_config = \<lparr>rc_room_id = 0, rc_max_players = 20, rc_map_x = f32_lit 1000, rc_map_z = f32_lit 1000,
     rc_tick_hz = 60, rc_enable_aoi = True, rc_aoi_radius = f32_lit 200\<rparr>"

record room =
  rm_cfg :: room_config
  rm_frame_seq :: u32
  rm_last_tick :: u64
  rm_players :: "(u64 \<times> player_state) list"
  rm_conns :: "(u64 \<times> u64) list"
  rm_spatial :: "grid option"
  rm_has_cb :: bool

definition room_new :: "room_config \<Rightarrow> room option" where
  "room_new cfg =
     (let r = \<lparr>rm_cfg = cfg, rm_frame_seq = 0, rm_last_tick = 0, rm_players = [], rm_conns = [],
               rm_spatial = None, rm_has_cb = False\<rparr>
      in if rc_enable_aoi cfg
         then map_option (\<lambda>g. r\<lparr>rm_spatial := Some g\<rparr>) (grid_new (rc_map_x cfg) (rc_map_z cfg) (rc_aoi_radius cfg))
         else Some r)"

definition set_broadcast_callback :: "room \<Rightarrow> room" where
  "set_broadcast_callback r = r\<lparr>rm_has_cb := True\<rparr>"

definition room_is_full :: "room \<Rightarrow> bool" where
  "room_is_full r \<longleftrightarrow> unat (rc_max_players (rm_cfg r)) \<le> length (rm_players r)"

definition room_player_enter :: "u64 \<Rightarrow> vec3 \<Rightarrow> u64 \<Rightarrow> room \<Rightarrow> room" where
  "room_player_enter pid spawn conn r =
     (if room_is_full r then r
      else r\<lparr>rm_players := AList.update pid \<lparr>ps_player = pid, ps_pos = spawn, ps_vel = V3 0 0 0, ps_yaw = 0,
                             ps_hp = 100, ps_anim = 0\<rparr> (rm_players r),
             rm_conns := AList.update pid conn (rm_conns r)\<rparr>)"

definition room_player_leave :: "u64 \<Rightarrow> room \<Rightarrow> room" where
  "room_player_leave pid r = r\<lparr>rm_players := AList.delete pid (rm_players r), rm_conns := AList.delete pid (rm_conns r)\<rparr>"

definition room_player_move :: "u64 \<Rightarrow> vec3 \<Rightarrow> f32 \<Rightarrow> room \<Rightarrow> room" where
  "room_player_move pid pos yaw r =
     (case map_of (rm_players r) pid of None \<Rightarrow> r
      | Some s \<Rightarrow> r\<lparr>rm_players := AList.update pid (s\<lparr>ps_pos := pos, ps_yaw := yaw\<rparr>) (rm_players r)\<rparr>)"

definition room_player_action :: "u64 \<Rightarrow> u32 \<Rightarrow> room \<Rightarrow> room" where
  "room_player_action pid act r =
     (case map_of (rm_players r) pid of None \<Rightarrow> r
      | Some s \<Rightarrow> r\<lparr>rm_players := AList.update pid (s\<lparr>ps_anim := act\<rparr>) (rm_players r)\<rparr>)"

definition room_broadcast :: "bytes \<Rightarrow> room \<Rightarrow> broadcast list" where
  "room_broadcast payload r =
     (if \<not> rm_has_cb r then []
      else let conns = map snd (rm_conns r)
           in if conns = [] then []
              else [(\<lparr>sn_room = rc_room_id (rm_cfg r), sn_frame = rm_frame_seq r, sn_time = rm_last_tick r,
                      sn_players = [], sn_payload = payload\<rparr>, conns)])"

text \<open>With AOI on, the snapshot of what a player sees goes to the connections of the players near it.\<close>

definition broadcast_snapshot :: "room \<Rightarrow> broadcast list" where
  "broadcast_snapshot r =
     (if rm_players r = [] \<or> \<not> rm_has_cb r then []
      else let snap = \<lparr>sn_room = rc_room_id (rm_cfg r), sn_frame = rm_frame_seq r, sn_time = rm_last_tick r,
                       sn_players = map snd (rm_players r), sn_payload = []\<rparr>
           in case (if rc_enable_aoi (rm_cfg r) then rm_spatial r else None) of
                None \<Rightarrow> [(snap, map snd (rm_conns r))]
              | Some g \<Rightarrow>
                  map (\<lambda>(pid, s).
                        let near = query_range g (vx (ps_pos s)) (vz (ps_pos s)) (rc_aoi_radius (rm_cfg r))
                        in (snap\<lparr>sn_players := List.map_filter (map_of (rm_players r)) near\<rparr>,
                            List.map_filter (map_of (rm_conns r)) near))
                      (rm_players r))"

definition room_tick :: "u64 \<Rightarrow> room \<Rightarrow> room \<times> broadcast list" where
  "room_tick now r =
     (if rm_last_tick r = 0 then (r\<lparr>rm_last_tick := now\<rparr>, [])
      else let r1 = r\<lparr>rm_last_tick := now, rm_frame_seq := rm_frame_seq r + 1\<rparr>;
               r2 = r1\<lparr>rm_spatial := map_option (\<lambda>g.
                        foldl (\<lambda>g (pid, s). grid_insert pid (vx (ps_pos s)) (vz (ps_pos s)) g)
                          (grid_clear g) (rm_players r1)) (rm_spatial r1)\<rparr>
           in (r2, broadcast_snapshot r2))"

definition room_on_message :: "message \<Rightarrow> room \<Rightarrow> (room \<times> broadcast list) option" where
  "room_on_message m r = (case msg_type_of m of
      MsgPlayerEnter \<Rightarrow> (case m of PlayerEnterMsg pid pos conn \<Rightarrow> Some (room_player_enter pid pos conn r, []) | _ \<Rightarrow> None)
    | MsgPlayerLeave \<Rightarrow> (case m of PlayerLeaveMsg pid \<Rightarrow> Some (room_player_leave pid r, []) | _ \<Rightarrow> None)
    | MsgPlayerMove \<Rightarrow> (case m of PlayerMoveMsg pid pos yaw \<Rightarrow> Some (room_player_move pid pos yaw r, []) | _ \<Rightarrow> None)
    | MsgPlayerAction \<Rightarrow> (case m of PlayerActionMsg pid act pos \<Rightarrow> Some (room_player_action pid act r, []) | _ \<Rightarrow> None)
    | MsgRoomBroadcast \<Rightarrow> (case m of RoomBroadcastMsg payload \<Rightarrow> Some (r, room_broadcast payload r) | _ \<Rightarrow> None)
    | MsgRoomTick \<Rightarrow> (case m of RoomTickMsg now \<Rightarrow> Some (room_tick now r) | _ \<Rightarrow> None)
    | _ \<Rightarrow> Some (r, []))"

section \<open>The grid finds what was put in it\<close>

definition grid_ok :: "grid \<Rightarrow> bool" where
  "grid_ok g \<longleftrightarrow> 1 \<le> gr_cols g \<and> 1 \<le> gr_rows g \<and> int (length (gr_cells g)) = gr_cols g * gr_rows g"

definition in_grid :: "grid \<Rightarrow> int \<Rightarrow> int \<Rightarrow> bool" where
  "in_grid g cx cz \<longleftrightarrow> 0 \<le> cx \<and> cx < gr_cols g \<and> 0 \<le> cz \<and> cz < gr_rows g"

lemma cell_index_in: "in_grid g cx cz \<Longrightarrow> cell_index g cx cz = cz * gr_cols g + cx"
  by (auto simp: in_grid_def cell_index_def)

lemma cell_index_out: "\<not> in_grid g cx cz \<Longrightarrow> cell_index g cx cz = - 1"
  by (auto simp: in_grid_def cell_index_def)

lemma cell_index_cells [simp]: "cell_index (g\<lparr>gr_cells := cs\<rparr>) cx cz = cell_index g cx cz"
  by (simp add: cell_index_def)

lemma cell_index_bound:
  assumes "grid_ok g" "in_grid g cx cz"
  shows "0 \<le> cell_index g cx cz" "nat (cell_index g cx cz) < length (gr_cells g)"
proof -
  have c: "0 \<le> cx" "cx < gr_cols g" "0 \<le> cz" "cz \<le> gr_rows g - 1" using assms(2) by (auto simp: in_grid_def)
  then have "cz * gr_cols g \<le> (gr_rows g - 1) * gr_cols g" by (intro mult_right_mono) auto
  then have "cz * gr_cols g + cx < int (length (gr_cells g))" "0 \<le> cz * gr_cols g"
    using c assms(1) by (auto simp: grid_ok_def algebra_simps)
  then show "0 \<le> cell_index g cx cz" "nat (cell_index g cx cz) < length (gr_cells g)"
    using c by (simp_all add: cell_index_in [OF assms(2)] nat_less_iff)
qed

lemma cell_index_inj:
  assumes "in_grid g cx cz" "in_grid g cx' cz'" "cell_index g cx cz = cell_index g cx' cz'"
  shows "cx = cx' \<and> cz = cz'"
proof -
  have e: "cz * gr_cols g + cx = cz' * gr_cols g + cx'" using assms by (simp add: cell_index_in)
  have b: "0 \<le> cx" "cx < gr_cols g" "0 \<le> cx'" "cx' < gr_cols g" using assms by (auto simp: in_grid_def)
  have "(cz * gr_cols g + cx) div gr_cols g = cz" "(cz' * gr_cols g + cx') div gr_cols g = cz'"
    using b by (simp_all add: mult.commute)
  then show ?thesis using e by simp
qed

lemma grid_ok_clear: "grid_ok g \<Longrightarrow> grid_ok (grid_clear g)"
  by (simp add: grid_ok_def grid_clear_def)

lemma grid_ok_insert: "grid_ok g \<Longrightarrow> grid_ok (grid_insert pid x z g)"
  by (simp add: grid_ok_def grid_insert_def Let_def)

lemma grid_insert_frame [simp]:
  "gr_cols (grid_insert pid x z g) = gr_cols g" "gr_rows (grid_insert pid x z g) = gr_rows g"
  "gr_cell (grid_insert pid x z g) = gr_cell g"
  by (simp_all add: grid_insert_def Let_def)

lemma grid_insert_coord [simp]:
  "coord_to_cell (grid_insert pid x z g) v = coord_to_cell g v"
  "cell_index (grid_insert pid x z g) cx cz = cell_index g cx cz"
  "in_grid (grid_insert pid x z g) cx cz = in_grid g cx cz"
  by (simp_all add: coord_to_cell_def cell_index_def in_grid_def)

lemma grid_new_ok: "grid_new w h c = Some g \<Longrightarrow> grid_ok g"
  by (auto simp: grid_new_def grid_ok_def Let_def split: if_splits)

definition cell_at :: "grid \<Rightarrow> int \<Rightarrow> int \<Rightarrow> u64 list" where
  "cell_at g cx cz = gr_cells g ! nat (cell_index g cx cz)"

lemma cell_at_clear: "grid_ok g \<Longrightarrow> in_grid g cx cz \<Longrightarrow> cell_at (grid_clear g) cx cz = []"
  using cell_index_bound [of g cx cz]
  by (simp add: cell_at_def grid_clear_def cell_index_def in_grid_def)

lemma cell_at_insert:
  assumes ok: "grid_ok g" and i: "in_grid g cx cz"
  shows "cell_at (grid_insert pid x z g) cx cz =
    cell_at g cx cz @ (if coord_to_cell g x = cx \<and> coord_to_cell g z = cz then [pid] else [])"
proof (cases "in_grid g (coord_to_cell g x) (coord_to_cell g z)")
  case True
  define k where "k = cell_index g (coord_to_cell g x) (coord_to_cell g z)"
  have k: "0 \<le> k" "k < int (length (gr_cells g))" using cell_index_bound [OF ok True] by (auto simp: k_def)
  have "nat (cell_index g cx cz) = nat k \<longleftrightarrow> coord_to_cell g x = cx \<and> coord_to_cell g z = cz"
    using cell_index_inj [OF i True] cell_index_bound(1) [OF ok i] k(1)
    by (auto simp: k_def eq_nat_nat_iff)
  then show ?thesis using k cell_index_bound [OF ok i]
    by (auto simp: cell_at_def grid_insert_def Let_def k_def [symmetric])
next
  case False
  then show ?thesis using i by (auto simp: cell_at_def grid_insert_def Let_def cell_index_out)
qed

definition grid_fill :: "(u64 \<times> f32 \<times> f32) list \<Rightarrow> grid \<Rightarrow> grid" where
  "grid_fill ps g = foldl (\<lambda>g (pid, x, z). grid_insert pid x z g) g ps"

lemma grid_fill_props:
  "grid_ok g \<Longrightarrow> grid_ok (grid_fill ps g) \<and> gr_cols (grid_fill ps g) = gr_cols g \<and>
     gr_rows (grid_fill ps g) = gr_rows g \<and> gr_cell (grid_fill ps g) = gr_cell g \<and>
     (in_grid g cx cz \<longrightarrow> cell_at (grid_fill ps g) cx cz =
        cell_at g cx cz @ map fst (filter (\<lambda>(_, x, z). coord_to_cell g x = cx \<and> coord_to_cell g z = cz) ps))"
proof (induction ps arbitrary: g)
  case (Cons p ps)
  obtain pid x z where p: "p = (pid, x, z)" by (cases p)
  show ?case using Cons.IH [OF grid_ok_insert [OF Cons.prems, of pid x z]] cell_at_insert [OF Cons.prems, of cx cz pid x z]
    by (auto simp: grid_fill_def p)
qed (simp add: grid_fill_def)

lemma set_query_range:
  "set (query_range g x z r) =
     {pid. \<exists>cx cz. in_grid g cx cz \<and> pid \<in> set (cell_at g cx cz) \<and>
        coord_to_cell g (f32_sub x r) \<le> cx \<and> cx \<le> coord_to_cell g (f32_add x r) \<and>
        coord_to_cell g (f32_sub z r) \<le> cz \<and> cz \<le> coord_to_cell g (f32_add z r)}"
    (is "_ = ?R")
proof (intro set_eqI iffI)
  fix pid assume "pid \<in> set (query_range g x z r)"
  then show "pid \<in> ?R" by (auto simp: query_range_def Let_def in_grid_def cell_at_def) blast
next
  fix pid assume "pid \<in> ?R"
  then obtain cx cz where "in_grid g cx cz" "pid \<in> set (cell_at g cx cz)"
    "coord_to_cell g (f32_sub x r) \<le> cx" "cx \<le> coord_to_cell g (f32_add x r)"
    "coord_to_cell g (f32_sub z r) \<le> cz" "cz \<le> coord_to_cell g (f32_add z r)" by auto
  then show "pid \<in> set (query_range g x z r)"
    by (simp add: query_range_def Let_def in_grid_def cell_at_def)
       (rule bexI [of _ cz], rule bexI [of _ cx], auto)
qed

text \<open>After a room has rebuilt its grid, a range query returns exactly the players whose cell
  lies on the map and in the rectangle of cells from the range's lower corner to its upper one.\<close>

theorem query_range_exact:
  assumes "grid_new w h c = Some g"
  shows "set (query_range (foldl (\<lambda>g (pid, s). grid_insert pid (vx (ps_pos s)) (vz (ps_pos s)) g) (grid_clear g) players) x z r) =
    {pid. \<exists>s. (pid, s) \<in> set players \<and>
       (let cx = coord_to_cell g (vx (ps_pos s)); cz = coord_to_cell g (vz (ps_pos s)) in
        0 \<le> cx \<and> cx < gr_cols g \<and> 0 \<le> cz \<and> cz < gr_rows g \<and>
        coord_to_cell g (f32_sub x r) \<le> cx \<and> cx \<le> coord_to_cell g (f32_add x r) \<and>
        coord_to_cell g (f32_sub z r) \<le> cz \<and> cz \<le> coord_to_cell g (f32_add z r))}"
proof -
  define ps where "ps = map (\<lambda>(pid, s). (pid, vx (ps_pos s), vz (ps_pos s))) players"
  define G where "G = grid_fill ps (grid_clear g)"
  have ok: "grid_ok (grid_clear g)" using grid_new_ok [OF assms] by (rule grid_ok_clear)
  have f: "foldl (\<lambda>g (pid, s). grid_insert pid (vx (ps_pos s)) (vz (ps_pos s)) g) (grid_clear g) players = G"
    unfolding G_def grid_fill_def ps_def foldl_map by (simp add: split_def)
  have cc: "coord_to_cell (grid_clear g) = coord_to_cell g" "in_grid (grid_clear g) = in_grid g"
    by (simp_all add: fun_eq_iff coord_to_cell_def grid_clear_def in_grid_def)
  have G: "coord_to_cell G = coord_to_cell g" "in_grid G = in_grid g"
    using grid_fill_props [OF ok, of ps] by (simp_all add: fun_eq_iff G_def coord_to_cell_def in_grid_def grid_clear_def)
  have cell: "cell_at G cx cz = map fst (filter (\<lambda>(_, x, z). coord_to_cell g x = cx \<and> coord_to_cell g z = cz) ps)"
    if "in_grid g cx cz" for cx cz
    using grid_fill_props [OF ok, of ps cx cz] cell_at_clear [OF grid_new_ok [OF assms] that] that cc
    by (simp add: G_def)
  show ?thesis unfolding f set_query_range G Let_def
    by (auto simp: cell ps_def in_grid_def case_prod_beta) (force simp: cell ps_def in_grid_def image_iff case_prod_beta)+
qed

definition demo_player :: "u64 \<Rightarrow> int \<Rightarrow> int \<Rightarrow> u64 \<times> player_state" where
  "demo_player pid x z = (pid, \<lparr>ps_player = pid, ps_pos = V3 (f32_lit x) 0 (f32_lit z), ps_vel = V3 0 0 0,
     ps_yaw = 0, ps_hp = 100, ps_anim = 0\<rparr>)"

definition demo_grid :: grid where
  "demo_grid = \<lparr>gr_cell = f32_lit 50, gr_cols = 2, gr_rows = 2, gr_cells = [[], [], [], []]\<rparr>"

lemma demo_grid_cells:
  "coord_to_cell demo_grid (f32_lit 10) = 0" "coord_to_cell demo_grid (f32_lit 90) = 1"
  "coord_to_cell demo_grid (f32_sub (f32_lit 10) (f32_lit 20)) = 0"
  "coord_to_cell demo_grid (f32_add (f32_lit 10) (f32_lit 20)) = 0"
  by code_simp+

lemma query_range_exact_witness:
  "set (query_range (foldl (\<lambda>g (pid, s). grid_insert pid (vx (ps_pos s)) (vz (ps_pos s)) g) (grid_clear demo_grid)
     [demo_player 1 10 10, demo_player 2 90 90]) (f32_lit 10) (f32_lit 10) (f32_lit 20)) = {1}"
proof -
  have new: "grid_new (f32_lit 100) (f32_lit 100) (f32_lit 50) = Some demo_grid" by code_simp
  have d: "gr_cols demo_grid = 2" "gr_rows demo_grid = 2" by (simp_all add: demo_grid_def)
  show ?thesis unfolding query_range_exact [OF new] d Let_def
    by (simp add: demo_grid_cells demo_player_def V3_def conj_disj_distribR ex_disj_distrib)
qed

section \<open>The room's invariant\<close>

definition room_ok :: "room \<Rightarrow> bool" where
  "room_ok r \<longleftrightarrow> um_ok (rm_players r) \<and> um_ok (rm_conns r) \<and> um_keys (rm_conns r) = um_keys (rm_players r) \<and>
     (\<forall>pid s. map_of (rm_players r) pid = Some s \<longrightarrow> ps_player s = pid) \<and>
     length (rm_players r) \<le> unat (rc_max_players (rm_cfg r)) \<and>
     (rm_spatial r \<noteq> None \<longleftrightarrow> rc_enable_aoi (rm_cfg r))"

lemma um_keys_update_cong:
  "um_keys m = um_keys m' \<Longrightarrow> um_keys (AList.update k v m) = um_keys (AList.update k v' m')"
  by (simp add: update_keys)

lemma um_keys_delete_cong:
  "um_keys m = um_keys m' \<Longrightarrow> um_keys (AList.delete k m) = um_keys (AList.delete k m')"
  by (simp add: delete_keys)

lemma um_length_delete: "length (AList.delete k m) \<le> length m"
  by (simp add: length_delete_le)

lemma room_ok_new: "room_new cfg = Some r \<Longrightarrow> room_ok r"
  by (auto simp: room_new_def room_ok_def Let_def split: if_splits)

lemma room_ok_callback [gm_inv]: "room_ok r \<Longrightarrow> room_ok (set_broadcast_callback r)"
  by (simp add: room_ok_def set_broadcast_callback_def)

lemma room_ok_enter [gm_inv]: "room_ok r \<Longrightarrow> room_ok (room_player_enter pid pos conn r)"
  by (auto simp: room_ok_def room_player_enter_def room_is_full_def um_get_update um_length_update
      intro: um_keys_update_cong split: if_splits)

lemma room_ok_leave [gm_inv]: "room_ok r \<Longrightarrow> room_ok (room_player_leave pid r)"
  using um_length_delete [of pid "rm_players r"]
  by (auto simp: room_ok_def room_player_leave_def um_get_delete intro: um_keys_delete_cong split: if_splits)

lemma room_ok_update:
  "room_ok r \<Longrightarrow> map_of (rm_players r) pid = Some s \<Longrightarrow> ps_player s' = ps_player s \<Longrightarrow>
   room_ok (r\<lparr>rm_players := AList.update pid s' (rm_players r)\<rparr>)"
  by (auto simp: room_ok_def um_get_update um_length_update um_keys_update_mem [of pid]
      dest: map_of_SomeD split: if_splits) (force dest: map_of_SomeD simp: um_keys_update_mem)+

lemma room_ok_move [gm_inv]: "room_ok r \<Longrightarrow> room_ok (room_player_move pid pos yaw r)"
  by (auto simp: room_player_move_def intro: room_ok_update split: option.split)

lemma room_ok_action [gm_inv]: "room_ok r \<Longrightarrow> room_ok (room_player_action pid act r)"
  by (auto simp: room_player_action_def intro: room_ok_update split: option.split)

lemma room_ok_tick [gm_inv]: "room_ok r \<Longrightarrow> room_ok (fst (room_tick now r))"
  by (auto simp: room_tick_def room_ok_def Let_def)

lemma room_ok_tick_result: "room_ok r \<Longrightarrow> room_tick now r = (r', out) \<Longrightarrow> room_ok r'"
  by (metis fst_conv room_ok_tick)

lemma room_ok_message:
  "room_ok r \<Longrightarrow> room_on_message m r = Some (r', out) \<Longrightarrow> room_ok r'"
  by (cases m) (auto simp: room_on_message_def msg_type_of_def
      intro: room_ok_enter room_ok_leave room_ok_move room_ok_action room_ok_tick_result)

lemma map_of_snd: "map_of m k = Some y \<Longrightarrow> y \<in> snd ` set m"
  by (force dest: map_of_SomeD)

lemma broadcast_targets:
  "(sn, cs) \<in> set (broadcast_snapshot r) \<Longrightarrow> set cs \<subseteq> set (map snd (rm_conns r))"
  by (auto simp: broadcast_snapshot_def Let_def List.map_filter_def split: if_splits option.splits)
     (erule map_of_snd)

lemma message_targets:
  "room_on_message m r = Some (r', out) \<Longrightarrow> (sn, cs) \<in> set out \<Longrightarrow> set cs \<subseteq> set (map snd (rm_conns r'))"
  using broadcast_targets [of sn cs r']
  by (cases m) (auto simp: room_on_message_def msg_type_of_def room_broadcast_def room_tick_def Let_def split: if_splits)

text \<open>A room and the messages it has handled.\<close>

inductive room_run :: "room \<Rightarrow> broadcast list \<Rightarrow> room \<Rightarrow> bool" where
  rr_start: "room_run r [] r"
| rr_step: "room_run r0 out r \<Longrightarrow> room_on_message m r = Some (r', out') \<Longrightarrow> room_run r0 (out @ out') r'"

text \<open>C14: whatever messages a room handles, it never holds more than \<open>max_players\<close> players, every
  player has exactly one connection entry and every connection entry a player, each state is
  filed under its own player, and every broadcast goes to connections of players in the room.\<close>

theorem room_invariant:
  assumes "room_new cfg = Some r0" and "room_run (set_broadcast_callback r0) out r"
    and "room_on_message m r = Some (r', out')"
  shows "length (rm_players r') \<le> unat (rc_max_players (rm_cfg r')) \<and>
    distinct (um_keys (rm_players r')) \<and> um_keys (rm_conns r') = um_keys (rm_players r') \<and>
    (\<forall>pid s. map_of (rm_players r') pid = Some s \<longrightarrow> ps_player s = pid) \<and>
    (\<forall>(sn, cs) \<in> set out'. set cs \<subseteq> set (map snd (rm_conns r')))"
proof -
  have "room_ok r"
    using assms(2)
  proof (induction "set_broadcast_callback r0" out r rule: room_run.induct)
    case rr_start
    show ?case using assms(1) by (intro room_ok_callback room_ok_new)
  qed (rule room_ok_message)
  then have "room_ok r'" using assms(3) by (rule room_ok_message)
  then show ?thesis using message_targets [OF assms(3)] by (auto simp: room_ok_def um_ok_def)
qed

definition demo_room :: room where
  "demo_room = the (room_new (default_room_config\<lparr>rc_enable_aoi := False\<rparr>))"

lemma room_invariant_witness:
  "\<exists>r' out'. room_on_message (PlayerEnterMsg 5 (V3 0 0 0) 77) (set_broadcast_callback demo_room) = Some (r', out')
     \<and> um_keys (rm_players r') = [5] \<and> length (rm_players r') \<le> 20"
proof -
  have new: "room_new (default_room_config\<lparr>rc_enable_aoi := False\<rparr>) = Some demo_room"
    by (simp add: demo_room_def room_new_def Let_def)
  obtain r' out' where m: "room_on_message (PlayerEnterMsg 5 (V3 0 0 0) 77) (set_broadcast_callback demo_room) = Some (r', out')"
    by (simp add: room_on_message_def msg_type_of_def)
  then have r': "um_keys (rm_players r') = [5]" "unat (rc_max_players (rm_cfg r')) = 20"
    by (auto simp: room_on_message_def msg_type_of_def room_player_enter_def room_is_full_def demo_room_def
        room_new_def Let_def set_broadcast_callback_def default_room_config_def)
  show ?thesis using room_invariant [OF new rr_start m] m r' by auto
qed

end
