(* ===== verification/GM_Checkpoint.thy ===== *)
theory GM_Checkpoint
  imports GM_Entity
begin

text \<open>
  Battle snapshots (\<open>checkpoint.hpp/.cpp\<close>): what is copied out of an entity, the scores of a
  snapshot, and the bounded buffer of the last ones.
\<close>

section \<open>Data\<close>

datatype battle_state = BSWaiting | BSLoading | BSCountdown | BSFighting | BSPaused | BSFinished

record entity_snapshot =
  es_id :: u64
  es_type :: entity_type
  es_team :: team_side
  es_pos :: vec3
  es_vel :: vec3
  es_yaw :: f32
  es_hp :: i32
  es_max_hp :: i32
  es_state :: entity_state
  es_owner :: u64
  es_kills :: u32
  es_deaths :: u32
  es_assists :: u32
  es_gold :: u32
  es_level :: u32
  es_grade :: tower_grade
  es_minion :: minion_type
  es_caster :: u64
  es_reached :: bool

record battle_checkpoint =
  cp_frame :: u32
  cp_time :: u64
  cp_state :: battle_state
  cp_entities :: "entity_snapshot list"
  cp_blue_kills :: u32
  cp_red_kills :: u32
  cp_blue_towers :: u32
  cp_red_towers :: u32

record checkpoint_mgr =
  cm_interval :: u32
  cm_max :: u32
  cm_list :: "battle_checkpoint list"

section \<open>Operations\<close>

definition checkpoint_new :: "u32 \<Rightarrow> u32 \<Rightarrow> checkpoint_mgr" where
  "checkpoint_new interval mx = \<lparr>cm_interval = interval, cm_max = mx, cm_list = []\<rparr>"

definition snapshot_from_entity :: "entity \<Rightarrow> entity_snapshot" where
  "snapshot_from_entity e =
     (let s = \<lparr>es_id = en_id e, es_type = ent_type e, es_team = en_team e, es_pos = en_pos e, es_vel = en_vel e,
               es_yaw = en_yaw e, es_hp = en_hp e, es_max_hp = en_max_hp e, es_state = en_state e,
               es_owner = 0, es_kills = 0, es_deaths = 0, es_assists = 0, es_gold = 0, es_level = 1,
               es_grade = TGOuter, es_minion = MTMelee, es_caster = 0, es_reached = False\<rparr>
      in case en_sub e of
           SHero h \<Rightarrow> s\<lparr>es_owner := h_owner h, es_kills := h_kills h, es_deaths := h_deaths h,
                        es_assists := h_assists h, es_gold := h_gold h, es_level := h_level h\<rparr>
         | STower t \<Rightarrow> s\<lparr>es_grade := t_grade t\<rparr>
         | SMinion m \<Rightarrow> s\<lparr>es_minion := m_type m\<rparr>
         | SProjectile p \<Rightarrow> s\<lparr>es_caster := p_caster p, es_reached := p_reached p\<rparr>)"

text \<open>The scores: blue kills, red kills, blue towers, red towers.\<close>

definition score_step :: "u32 \<times> u32 \<times> u32 \<times> u32 \<Rightarrow> entity \<Rightarrow> u32 \<times> u32 \<times> u32 \<times> u32" where
  "score_step c e = (case c of (bk, rk, bt, rt) \<Rightarrow>
     (case en_sub e of
        SHero h \<Rightarrow> (if en_team e = TeamBlue then (bk + h_kills h, rk, bt, rt) else (bk, rk + h_deaths h, bt, rt))
      | STower t \<Rightarrow> if is_alive e then (if en_team e = TeamBlue then (bk, rk, bt + 1, rt) else (bk, rk, bt, rt + 1))
                    else (bk, rk, bt, rt)
      | _ \<Rightarrow> (bk, rk, bt, rt)))"

definition make_snapshot :: "u32 \<Rightarrow> u64 \<Rightarrow> battle_state \<Rightarrow> entity_mgr \<Rightarrow> battle_checkpoint" where
  "make_snapshot frame ts st m =
     (let es = map snd (em_entities m); (bk, rk, bt, rt) = foldl score_step (0, 0, 0, 0) es
      in \<lparr>cp_frame = frame, cp_time = ts, cp_state = st, cp_entities = map snapshot_from_entity es,
          cp_blue_kills = bk, cp_red_kills = rk, cp_blue_towers = bt, cp_red_towers = rt\<rparr>)"

fun trim_front :: "nat \<Rightarrow> 'a list \<Rightarrow> 'a list" where
  "trim_front n [] = []"
| "trim_front n (x # xs) = (if n < length (x # xs) then trim_front n xs else x # xs)"

definition save_snapshot :: "battle_checkpoint \<Rightarrow> checkpoint_mgr \<Rightarrow> checkpoint_mgr" where
  "save_snapshot cp cm = cm\<lparr>cm_list := trim_front (unat (cm_max cm)) (cm_list cm @ [cp])\<rparr>"

definition get_latest_checkpoint :: "checkpoint_mgr \<Rightarrow> battle_checkpoint option" where
  "get_latest_checkpoint cm = (if cm_list cm = [] then None else Some (last (cm_list cm)))"

definition get_checkpoint_after :: "checkpoint_mgr \<Rightarrow> u32 \<Rightarrow> battle_checkpoint option" where
  "get_checkpoint_after cm f = List.find (\<lambda>cp. f \<le> cp_frame cp) (cm_list cm)"

definition get_checkpoint :: "checkpoint_mgr \<Rightarrow> u32 \<Rightarrow> battle_checkpoint option" where
  "get_checkpoint cm f = List.find (\<lambda>cp. cp_frame cp = f) (cm_list cm)"

definition checkpoint_clear :: "checkpoint_mgr \<Rightarrow> checkpoint_mgr" where
  "checkpoint_clear cm = cm\<lparr>cm_list := []\<rparr>"

text \<open>What \<open>RestoreEntityFromSnapshot\<close> restores.\<close>

definition restore_entity :: "entity_snapshot \<Rightarrow> entity \<Rightarrow> entity" where
  "restore_entity s e = set_yaw (es_yaw s) (set_vel (es_vel s) (set_pos (es_pos s) e))"

section \<open>The buffer keeps the newest snapshots\<close>

lemma trim_front_drop: "trim_front n xs = drop (length xs - n) xs"
proof (induction xs)
  case (Cons x xs)
  then show ?case by (cases "length xs - n") (auto simp: Suc_diff_le drop_Cons' not_less)
qed simp

lemma foldl_save:
  "cm_list cm = trim_front (unat (cm_max cm)) xs \<Longrightarrow>
   cm_list (foldl (\<lambda>cm cp. save_snapshot cp cm) cm cps) = trim_front (unat (cm_max cm)) (xs @ cps)"
proof (induction cps arbitrary: cm xs)
  case (Cons cp cps)
  have "trim_front n (trim_front n xs @ [cp]) = trim_front n (xs @ [cp])" for n
    by (cases "n \<le> length xs") (auto simp: trim_front_drop Suc_diff_le)
  then have "cm_list (save_snapshot cp cm) = trim_front (unat (cm_max (save_snapshot cp cm))) (xs @ [cp])"
    using Cons.prems by (simp add: save_snapshot_def)
  from Cons.IH [OF this] show ?case by (simp add: save_snapshot_def)
qed simp

section \<open>Properties\<close>

definition save_all :: "battle_checkpoint list \<Rightarrow> checkpoint_mgr \<Rightarrow> checkpoint_mgr" where
  "save_all cps cm = foldl (\<lambda>cm cp. save_snapshot cp cm) cm cps"

text \<open>After any sequence of saves the buffer holds exactly the newest \<open>max_checkpoints\<close> of them,
  oldest first; the latest is the last one saved, and a lookup by frame finds a stored snapshot
  of that frame exactly when one of those is of that frame.\<close>

theorem checkpoint_buffer_newest:
  assumes "0 < mx"
  shows "cm_list (save_all cps (checkpoint_new iv mx)) = drop (length cps - unat mx) cps \<and>
    (cps \<noteq> [] \<longrightarrow> get_latest_checkpoint (save_all cps (checkpoint_new iv mx)) = Some (last cps)) \<and>
    (get_checkpoint (save_all cps (checkpoint_new iv mx)) f \<noteq> None \<longleftrightarrow>
       (\<exists>cp \<in> set (drop (length cps - unat mx) cps). cp_frame cp = f))"
proof -
  define cm where "cm = save_all cps (checkpoint_new iv mx)"
  have l: "cm_list cm = drop (length cps - unat mx) cps"
    using foldl_save [of "checkpoint_new iv mx" "[]" cps]
    by (simp add: cm_def save_all_def checkpoint_new_def trim_front_drop)
  have "0 < unat mx" using assms by (simp add: word_less_nat_alt)
  then have "cps \<noteq> [] \<longrightarrow> length cps - unat mx < length cps" by simp
  then have "cps \<noteq> [] \<longrightarrow> get_latest_checkpoint cm = Some (last cps)"
    by (auto simp: get_latest_checkpoint_def l last_drop)
  moreover have "get_checkpoint cm f \<noteq> None \<longleftrightarrow> (\<exists>cp \<in> set (cm_list cm). cp_frame cp = f)"
    unfolding get_checkpoint_def find_None_iff by blast
  ultimately show ?thesis using l by (simp add: cm_def)
qed

definition demo_cp :: "u32 \<Rightarrow> battle_checkpoint" where
  "demo_cp f = make_snapshot f 0 BSFighting em_init"

lemma checkpoint_buffer_newest_witness:
  "cm_list (save_all [demo_cp 60, demo_cp 120, demo_cp 180] (checkpoint_new 60 2)) = [demo_cp 120, demo_cp 180]"
  using checkpoint_buffer_newest [of 2 "[demo_cp 60, demo_cp 120, demo_cp 180]" 60] by simp

text \<open>The red score of a snapshot is the number of deaths of the heroes that are not blue, while
  the blue score is the number of kills of the blue heroes.\<close>

theorem snapshot_scores:
  "cp_blue_kills (make_snapshot f ts st m) =
     sum_list (map (\<lambda>e. case en_sub e of SHero h \<Rightarrow> if en_team e = TeamBlue then h_kills h else 0 | _ \<Rightarrow> 0)
       (map snd (em_entities m))) \<and>
   cp_red_kills (make_snapshot f ts st m) =
     sum_list (map (\<lambda>e. case en_sub e of SHero h \<Rightarrow> if en_team e = TeamBlue then 0 else h_deaths h | _ \<Rightarrow> 0)
       (map snd (em_entities m)))"
proof -
  have "foldl score_step (bk, rk, bt, rt) es = (bk', rk', bt', rt') \<Longrightarrow>
    bk' = bk + sum_list (map (\<lambda>e. case en_sub e of SHero h \<Rightarrow> if en_team e = TeamBlue then h_kills h else 0 | _ \<Rightarrow> 0) es) \<and>
    rk' = rk + sum_list (map (\<lambda>e. case en_sub e of SHero h \<Rightarrow> if en_team e = TeamBlue then 0 else h_deaths h | _ \<Rightarrow> 0) es)"
    for bk rk bt rt bk' rk' bt' rt' es
  proof (induction es arbitrary: bk rk bt rt)
    case (Cons e es)
    obtain bk1 rk1 bt1 rt1 where s: "score_step (bk, rk, bt, rt) e = (bk1, rk1, bt1, rt1)" by (metis prod_cases4)
    show ?case using Cons.IH [of bk1 rk1 bt1 rt1] Cons.prems s
      by (auto simp: score_step_def split: entity_sub.splits if_splits)
  qed simp
  then show ?thesis by (simp add: make_snapshot_def Let_def split: prod.split) fastforce
qed

end
