(* ===== verification/GM_Battle.thy ===== *)
theory GM_Battle
  imports GM_Room GM_Lockstep GM_Determ GM_Checkpoint "HOL-Library.Monad_Syntax"
begin

text \<open>
  The battle room (\<open>battle_room.hpp/.cpp\<close>): its life cycle, the frame loop, combat, the messages of
  players, reconnection and what it broadcasts. An operation returns \<open>None\<close> where the code is
  undefined or throws: a \<open>static_cast\<close> to a class the object does not have, a remainder by
  zero, an access past an array. Pointers to entities are the keys of the entity manager.
  The protobuf serialiser (generated code) and \<open>std::atan2\<close> are the fields of \<open>battle_env\<close>; the
  serialiser is asked for the bytes of the message the code builds and may fail.
\<close>

section \<open>Data\<close>

record tower_def =
  td_id :: u64
  td_team :: team_side
  td_grade :: tower_grade
  td_pos :: vec3

record minion_wave_def =
  mw_team :: team_side
  mw_waypoints :: "vec3 list"
  mw_melee :: u8
  mw_ranged :: u8
  mw_siege :: u8

record battle_config =
  bc_base :: room_config
  bc_team_size :: u32
  bc_spawn_sec :: u32
  bc_checkpoint :: u32
  bc_reconnect_sec :: u32
  bc_lockstep_ms :: u32
  bc_towers :: "tower_def list"
  bc_blue_spawn :: "vec3 list"
  bc_red_spawn :: "vec3 list"
  bc_waves :: "minion_wave_def list"

definition default_battle_config :: battle_config where
  "default_battle_config = \<lparr>bc_base = default_room_config, bc_team_size = 5, bc_spawn_sec = 30, bc_checkpoint = 60,
     bc_reconnect_sec = 60, bc_lockstep_ms = 200, bc_towers = [], bc_blue_spawn = [], bc_red_spawn = [], bc_waves = []\<rparr>"

record player_info =
  pf_player :: u64
  pf_conn :: u64
  pf_team :: team_side
  pf_hero :: u64
  pf_connected :: bool
  pf_ready :: bool
  pf_spawn :: vec3

record disconnect_info =
  dc_frame :: u32
  dc_hero :: u64

record battle =
  br_cfg :: battle_config
  br_has_cb :: bool
  br_state :: battle_state
  br_players :: "(u64 \<times> player_info) list"
  br_conn_player :: "(u64 \<times> u64) list"
  br_em :: entity_mgr
  br_ls :: lockstep
  br_cm :: checkpoint_mgr
  br_start_frame :: u32
  br_countdown :: u32
  br_spawn_timer :: u32
  br_waves :: u32
  br_frame :: u32
  br_last_tick :: u64
  br_blue :: "u64 list"
  br_red :: "u64 list"
  br_disc :: "(u64 \<times> disconnect_info) list"
  br_history :: "frame_inputs list"
  br_hashes :: "u64 list"

record entity_sync =
  sy_id :: u64
  sy_type :: entity_type
  sy_team :: team_side
  sy_x :: f32
  sy_y :: f32
  sy_z :: f32
  sy_yaw :: f32
  sy_hp :: u32
  sy_max_hp :: u32
  sy_state :: entity_state
  sy_kills :: u32
  sy_deaths :: u32
  sy_gold :: u32

text \<open>The three messages of \<open>BattleDownstream\<close>.\<close>

datatype downstream =
    DsStart u32 u32 "u64 list" "u64 list"
  | DsEnd team_side u32 u32 u32
  | DsState u32 u64 battle_state "entity_sync list"

record battle_env =
  ev_atan2 :: "f32 \<Rightarrow> f32 \<Rightarrow> f32"
  ev_serialize :: "downstream \<Rightarrow> bytes option"

definition battle_new :: "battle_config \<Rightarrow> battle" where
  "battle_new cfg = \<lparr>br_cfg = cfg, br_has_cb = False, br_state = BSWaiting, br_players = [], br_conn_player = [],
     br_em = em_init, br_ls = set_timeout_frames (bc_lockstep_ms cfg div 33) lockstep_init,
     br_cm = checkpoint_new (bc_checkpoint cfg) 10, br_start_frame = 0, br_countdown = 3, br_spawn_timer = 0,
     br_waves = 0, br_frame = 0, br_last_tick = 0, br_blue = [], br_red = [], br_disc = [], br_history = [],
     br_hashes = []\<rparr>"

definition battle_set_callback :: "battle \<Rightarrow> battle" where
  "battle_set_callback b = b\<lparr>br_has_cb := True\<rparr>"

definition battle_room_id :: "battle \<Rightarrow> u32" where
  "battle_room_id b = rc_room_id (bc_base (br_cfg b))"

section \<open>Byte formats\<close>

definition append_u32 :: "bytes \<Rightarrow> u32 \<Rightarrow> bytes" where
  "append_u32 buf v = buf @ [ucast (drop_bit 24 v AND 0xFF), ucast (drop_bit 16 v AND 0xFF),
     ucast (drop_bit 8 v AND 0xFF), ucast (v AND 0xFF)]"

definition append_u64 :: "bytes \<Rightarrow> u64 \<Rightarrow> bytes" where
  "append_u64 buf v = append_u32 (append_u32 buf (ucast (drop_bit 32 v))) (ucast (v AND 0xFFFFFFFF))"

definition append_f32 :: "bytes \<Rightarrow> f32 \<Rightarrow> bytes" where
  "append_f32 buf v = append_u32 buf v"

definition append_u8 :: "bytes \<Rightarrow> u8 \<Rightarrow> bytes" where
  "append_u8 buf v = buf @ [v]"

definition team_code :: "team_side \<Rightarrow> u8" where
  "team_code t = (case t of TeamNone \<Rightarrow> 0 | TeamBlue \<Rightarrow> 1 | TeamRed \<Rightarrow> 2)"

definition type_code :: "entity_type \<Rightarrow> u8" where
  "type_code t = (case t of ETInvalid \<Rightarrow> 0 | ETHero \<Rightarrow> 1 | ETMinion \<Rightarrow> 2 | ETTower \<Rightarrow> 3 | ETProjectile \<Rightarrow> 4 | ETBase \<Rightarrow> 5)"

definition state_code :: "entity_state \<Rightarrow> u8" where
  "state_code s = (case s of ESIdle \<Rightarrow> 0 | ESMoving \<Rightarrow> 1 | ESAttacking \<Rightarrow> 2 | ESCasting \<Rightarrow> 3 | ESDead \<Rightarrow> 4)"

definition battle_state_code :: "battle_state \<Rightarrow> u8" where
  "battle_state_code s = (case s of BSWaiting \<Rightarrow> 0 | BSLoading \<Rightarrow> 1 | BSCountdown \<Rightarrow> 2 | BSFighting \<Rightarrow> 3
     | BSPaused \<Rightarrow> 4 | BSFinished \<Rightarrow> 5)"

definition serialize_input :: "bytes \<Rightarrow> player_input \<Rightarrow> bytes" where
  "serialize_input buf i =
     append_u64 (append_f32 (append_f32 (append_u8 (append_f32 (append_f32 buf (fx_to_float (pi_move_x i)))
       (fx_to_float (pi_move_z i))) (pi_skill_slot i)) (fx_to_float (pi_target_x i))) (fx_to_float (pi_target_z i)))
       (pi_target_eid i)"

definition serialize_frame_sync :: "frame_inputs \<Rightarrow> bytes" where
  "serialize_frame_sync fi =
     foldl (\<lambda>buf (pid, i). serialize_input (append_u8 (append_u64 buf pid) (if pi_has_input i then 1 else 0)) i)
       (append_u32 (append_u32 [] (fi_frame fi)) (of_nat (length (fi_inputs fi)))) (fi_inputs fi)"

definition serialize_reconnect_ack :: "battle \<Rightarrow> battle_checkpoint \<Rightarrow> u32 \<Rightarrow> u32 \<Rightarrow> bytes" where
  "serialize_reconnect_ack b cp from_frame to_frame =
     (let b1 = append_u32 (append_u8 (append_u32 (append_u32 [] (battle_room_id b)) (ls_current (br_ls b)))
                 (battle_state_code (br_state b))) (cp_frame cp);
          b2 = foldl (\<lambda>buf e. append_u32 (append_f32 (append_f32 (append_u8 (append_u8 (append_u64 buf (es_id e))
                   (type_code (es_type e))) (team_code (es_team e))) (vx (es_pos e))) (vz (es_pos e))) (es_hp e))
                 (append_u32 b1 (of_nat (length (cp_entities cp)))) (cp_entities cp);
          fs = filter (\<lambda>fi. from_frame < fi_frame fi \<and> fi_frame fi \<le> to_frame) (br_history b)
      in foldl (\<lambda>buf fi. foldl (\<lambda>buf (pid, i). serialize_input (append_u64 buf pid) i)
                   (append_u32 (append_u32 buf (fi_frame fi)) (of_nat (length (fi_inputs fi)))) (fi_inputs fi))
           (append_u32 b2 (of_nat (length fs))) fs)"

text \<open>A failed serialisation gives the empty payload.\<close>

definition ds_bytes :: "battle_env \<Rightarrow> downstream \<Rightarrow> bytes" where
  "ds_bytes env d = (case ev_serialize env d of None \<Rightarrow> [] | Some bs \<Rightarrow> bs)"

definition serialize_battle_start :: "battle_env \<Rightarrow> battle \<Rightarrow> bytes" where
  "serialize_battle_start env b =
     ds_bytes env (DsStart (battle_room_id b) (br_countdown b) (br_blue b) (br_red b))"

definition hero_kills :: "battle \<Rightarrow> (team_side \<Rightarrow> bool) \<Rightarrow> u32" where
  "hero_kills b P = sum_list (map (\<lambda>(_, e). case en_sub e of SHero h \<Rightarrow> if P (en_team e) then h_kills h else 0 | _ \<Rightarrow> 0)
     (em_entities (br_em b)))"

definition serialize_battle_end :: "battle_env \<Rightarrow> battle \<Rightarrow> team_side \<Rightarrow> bytes" where
  "serialize_battle_end env b winner =
     ds_bytes env (DsEnd winner ((br_frame b - br_start_frame b) div 30)
       (hero_kills b (\<lambda>t. t = TeamBlue)) (hero_kills b (\<lambda>t. t \<noteq> TeamBlue)))"

definition sync_of :: "entity \<Rightarrow> entity_sync" where
  "sync_of e =
     (let s = \<lparr>sy_id = en_id e, sy_type = ent_type e, sy_team = en_team e, sy_x = vx (en_pos e), sy_y = vy (en_pos e),
               sy_z = vz (en_pos e), sy_yaw = en_yaw e, sy_hp = en_hp e, sy_max_hp = en_max_hp e,
               sy_state = en_state e, sy_kills = 0, sy_deaths = 0, sy_gold = 0\<rparr>
      in case en_sub e of
           SHero h \<Rightarrow> s\<lparr>sy_kills := h_kills h, sy_deaths := h_deaths h, sy_gold := h_gold h\<rparr>
         | _ \<Rightarrow> s)"

definition serialize_battle_state_sync :: "battle_env \<Rightarrow> battle \<Rightarrow> bytes" where
  "serialize_battle_state_sync env b =
     ds_bytes env (DsState (ls_current (br_ls b)) (br_last_tick b) (br_state b)
       (map (\<lambda>(_, e). sync_of e) (em_entities (br_em b))))"

section \<open>Players and broadcasts\<close>

definition battle_snapshot :: "battle \<Rightarrow> bytes \<Rightarrow> room_snapshot" where
  "battle_snapshot b data = \<lparr>sn_room = battle_room_id b, sn_frame = ls_current (br_ls b), sn_time = br_last_tick b,
     sn_players = [], sn_payload = data\<rparr>"

definition connected_conns :: "(player_info \<Rightarrow> bool) \<Rightarrow> battle \<Rightarrow> u64 list" where
  "connected_conns P b = map (\<lambda>(_, i). pf_conn i) (filter (\<lambda>(_, i). pf_connected i \<and> P i) (br_players b))"

definition broadcast_to_all :: "bytes \<Rightarrow> battle \<Rightarrow> broadcast list" where
  "broadcast_to_all data b =
     (if \<not> br_has_cb b then []
      else let conns = connected_conns (\<lambda>_. True) b
           in if conns = [] then [] else [(battle_snapshot b data, conns)])"

definition broadcast_to_team :: "team_side \<Rightarrow> bytes \<Rightarrow> battle \<Rightarrow> broadcast list" where
  "broadcast_to_team team data b =
     (if \<not> br_has_cb b then []
      else let conns = connected_conns (\<lambda>i. pf_team i = team) b
           in if conns = [] then []
              else [(\<lparr>sn_room = battle_room_id b, sn_frame = 0, sn_time = 0, sn_players = [], sn_payload = data\<rparr>, conns)])"

definition broadcast_frame_sync :: "frame_inputs \<Rightarrow> battle \<Rightarrow> broadcast list" where
  "broadcast_frame_sync fi b = broadcast_to_all (serialize_frame_sync fi) b"

definition broadcast_battle_state :: "battle_env \<Rightarrow> battle \<Rightarrow> broadcast list" where
  "broadcast_battle_state env b = broadcast_to_all (serialize_battle_state_sync env b) b"

definition add_player_to_team :: "u64 \<Rightarrow> team_side \<Rightarrow> vec3 \<Rightarrow> battle \<Rightarrow> battle" where
  "add_player_to_team pid team spawn b =
     (let info = \<lparr>pf_player = pid, pf_conn = 0, pf_team = team, pf_hero = 0, pf_connected = True, pf_ready = False,
                  pf_spawn = spawn\<rparr>;
          b1 = b\<lparr>br_players := AList.update pid info (br_players b)\<rparr>
      in if team = TeamBlue then b1\<lparr>br_blue := br_blue b1 @ [pid]\<rparr> else b1\<lparr>br_red := br_red b1 @ [pid]\<rparr>)"

definition remove_player :: "u64 \<Rightarrow> battle \<Rightarrow> battle" where
  "remove_player pid b =
     (case map_of (br_players b) pid of None \<Rightarrow> b
      | Some info \<Rightarrow>
          let b1 = b\<lparr>br_conn_player := AList.delete (pf_conn info) (br_conn_player b)\<rparr>;
              b2 = (if pf_team info = TeamBlue then b1\<lparr>br_blue := removeAll pid (br_blue b1)\<rparr>
                    else b1\<lparr>br_red := removeAll pid (br_red b1)\<rparr>)
          in b2\<lparr>br_players := AList.delete pid (br_players b2)\<rparr>)"

definition get_player_team :: "battle \<Rightarrow> u64 \<Rightarrow> team_side" where
  "get_player_team b pid = (case map_of (br_players b) pid of None \<Rightarrow> TeamNone | Some i \<Rightarrow> pf_team i)"

text \<open>\<open>GetPlayerHero\<close>: no hero, the key of the hero, or an entity that is not a hero, which the
  cast turns into undefined behaviour.\<close>

datatype hero_ref = NoHero | HeroAt u64 hero entity | NotAHero

definition get_player_hero :: "battle \<Rightarrow> u64 \<Rightarrow> hero_ref" where
  "get_player_hero b pid =
     (case map_of (br_players b) pid of None \<Rightarrow> NoHero
      | Some info \<Rightarrow>
          (case find_entity (br_em b) (pf_hero info) of None \<Rightarrow> NoHero
           | Some e \<Rightarrow> (case en_sub e of SHero h \<Rightarrow> HeroAt (pf_hero info) h e | _ \<Rightarrow> NotAHero)))"

definition spawn_point :: "vec3 list \<Rightarrow> nat \<Rightarrow> vec3" where
  "spawn_point pts n = (if pts = [] then V3 0 0 0 else pts ! (n mod length pts))"

definition battle_full :: "battle \<Rightarrow> bool" where
  "battle_full b \<longleftrightarrow> unat (bc_team_size (br_cfg b) * 2) \<le> length (br_players b)"

definition on_player_enter :: "u64 \<Rightarrow> u64 \<Rightarrow> battle \<Rightarrow> battle" where
  "on_player_enter pid conn b =
     (if battle_full b then b
      else let team = (if length (br_blue b) \<le> length (br_red b) then TeamBlue else TeamRed);
               spawn = (if team = TeamBlue then spawn_point (bc_blue_spawn (br_cfg b)) (length (br_blue b))
                        else spawn_point (bc_red_spawn (br_cfg b)) (length (br_red b)));
               b1 = add_player_to_team pid team spawn b
           in case map_of (br_players b1) pid of None \<Rightarrow> b1
              | Some info \<Rightarrow> b1\<lparr>br_players := AList.update pid (info\<lparr>pf_conn := conn\<rparr>) (br_players b1),
                                br_conn_player := AList.update conn pid (br_conn_player b1)\<rparr>)"

definition set_disconnected :: "u64 \<Rightarrow> player_info \<Rightarrow> battle \<Rightarrow> battle" where
  "set_disconnected pid info b =
     b\<lparr>br_disc := AList.update pid \<lparr>dc_frame = br_frame b, dc_hero = pf_hero info\<rparr> (br_disc b),
       br_players := AList.update pid (info\<lparr>pf_connected := False\<rparr>) (br_players b),
       br_ls := player_disconnected pid (br_ls b)\<rparr>"

definition on_player_leave :: "u64 \<Rightarrow> battle \<Rightarrow> battle" where
  "on_player_leave pid b =
     (if br_state b = BSFighting
      then (case map_of (br_players b) pid of None \<Rightarrow> b | Some info \<Rightarrow> set_disconnected pid info b)
      else remove_player pid b)"

definition on_player_disconnect :: "u64 \<Rightarrow> battle \<Rightarrow> battle" where
  "on_player_disconnect pid b =
     (case map_of (br_players b) pid of None \<Rightarrow> b | Some info \<Rightarrow> set_disconnected pid info b)"

definition on_battle_ready :: "u64 \<Rightarrow> battle \<Rightarrow> battle" where
  "on_battle_ready pid b =
     (case map_of (br_players b) pid of None \<Rightarrow> b
      | Some info \<Rightarrow> b\<lparr>br_players := AList.update pid (info\<lparr>pf_ready := True\<rparr>) (br_players b)\<rparr>)"

definition battle_submit :: "u64 \<Rightarrow> player_input \<Rightarrow> battle \<Rightarrow> battle" where
  "battle_submit pid inp b =
     (if br_state b \<noteq> BSFighting then b else b\<lparr>br_ls := snd (submit_input pid inp (br_ls b))\<rparr>)"

definition on_hero_move_input :: "u64 \<Rightarrow> f32 \<Rightarrow> f32 \<Rightarrow> u32 \<Rightarrow> battle \<Rightarrow> battle" where
  "on_hero_move_input pid mx mz seq b =
     battle_submit pid (default_input\<lparr>pi_player := pid, pi_seq := seq, pi_move_x := fx_from_float mx,
       pi_move_z := fx_from_float mz, pi_has_input := True\<rparr>) b"

definition on_hero_cast_skill :: "u64 \<Rightarrow> u8 \<Rightarrow> vec3 \<Rightarrow> u64 \<Rightarrow> u32 \<Rightarrow> battle \<Rightarrow> battle" where
  "on_hero_cast_skill pid slot target eid seq b =
     battle_submit pid (default_input\<lparr>pi_player := pid, pi_seq := seq, pi_skill_slot := slot,
       pi_target_x := fx_from_float (vx target), pi_target_z := fx_from_float (vz target), pi_target_eid := eid,
       pi_has_input := True\<rparr>) b"

text \<open>The acknowledgement is built, but the snapshot that is sent carries no payload.\<close>

definition handle_reconnect :: "u64 \<Rightarrow> u64 \<Rightarrow> battle \<Rightarrow> battle \<times> broadcast list" where
  "handle_reconnect pid conn b =
     (case map_of (br_players b) pid of None \<Rightarrow> (b, [])
      | Some info \<Rightarrow>
          let b1 = b\<lparr>br_players := AList.update pid (info\<lparr>pf_conn := conn, pf_connected := True\<rparr>) (br_players b),
                     br_conn_player := AList.update conn pid (br_conn_player b),
                     br_ls := player_reconnected pid (br_ls b),
                     br_disc := AList.delete pid (br_disc b)\<rparr>
          in case get_latest_checkpoint (br_cm b1) of
               None \<Rightarrow> (b1, [])
             | Some cp \<Rightarrow>
                 let data = serialize_reconnect_ack b1 cp (cp_frame cp) (ls_current (br_ls b1))
                 in (b1, if br_has_cb b1 then [(battle_snapshot b1 [], [conn])] else []))"

section \<open>Inputs of a confirmed frame\<close>

definition input_step :: "fixed option" where
  "input_step = fx_div (fx_from_int 5) (fx_from_int 30)"

definition move_hero :: "player_input \<Rightarrow> entity \<Rightarrow> entity option" where
  "move_hero i e =
     (if pi_has_input i \<and> (pi_move_x i \<noteq> 0 \<or> pi_move_z i \<noteq> 0) then
        do { let len = fixed_sqrt (fx_add (fx_mul (pi_move_x i) (pi_move_x i)) (fx_mul (pi_move_z i) (pi_move_z i)));
             (mx, mz) \<leftarrow> (if fx_lt FX_ONE len
                         then do { x \<leftarrow> fx_div (pi_move_x i) len; z \<leftarrow> fx_div (pi_move_z i) len; Some (x, z) }
                         else Some (pi_move_x i, pi_move_z i));
             step \<leftarrow> input_step;
             Some (ent_move_to \<lparr>fv_x = fx_add (fv_x (pos_fixed e)) (fx_mul mx step), fv_y = 0,
                                 fv_z = fx_add (fv_z (pos_fixed e)) (fx_mul mz step)\<rparr> e) }
      else Some e)"

definition cast_effect :: "player_input \<Rightarrow> vec3 \<Rightarrow> skill_def \<Rightarrow> entity \<Rightarrow> entity_mgr \<Rightarrow> entity_mgr" where
  "cast_effect i target skill e m =
     (if f32_lt 0 (sk_speed skill) then
        let (eid, m1) = next_entity_id m
        in create_projectile eid (en_team e) (en_id e) (en_pos e) target (sk_speed skill) (sk_damage skill) (sk_radius skill) m1
      else if pi_target_eid i \<noteq> 0 then
        (case find_entity m (pi_target_eid i) of None \<Rightarrow> m
         | Some t \<Rightarrow> if is_alive t then em_upd (pi_target_eid i) (take_damage (sk_damage skill)) m else m)
      else m)"

definition process_hero_input :: "u64 \<Rightarrow> player_input \<Rightarrow> battle \<Rightarrow> battle option" where
  "process_hero_input pid i b =
     (case get_player_hero b pid of
        NotAHero \<Rightarrow> None
      | NoHero \<Rightarrow> Some b
      | HeroAt eid h e \<Rightarrow>
          if \<not> is_alive e then Some b
          else do {
            e1 \<leftarrow> move_hero i e;
            if pi_has_input i \<and> pi_skill_slot i \<noteq> 0xFF then do {
              let target = V3 (fx_to_float (pi_target_x i)) 0 (fx_to_float (pi_target_z i));
              (ok, h2, e2) \<leftarrow> cast_skill (pi_skill_slot i) h e1;
              let e3 = e2\<lparr>en_sub := SHero h2\<rparr>;
              let m = em_put eid e3 (br_em b);
              Some (b\<lparr>br_em := if ok then cast_effect i target (h_skills h2 ! unat (pi_skill_slot i)) e3 m else m\<rparr>) }
            else Some (b\<lparr>br_em := em_put eid e1 (br_em b)\<rparr>) })"

fun process_inputs :: "(u64 \<times> player_input) list \<Rightarrow> battle \<Rightarrow> battle option" where
  "process_inputs [] b = Some b"
| "process_inputs ((pid, i) # is) b = do { b1 \<leftarrow> process_hero_input pid i b; process_inputs is b1 }"

definition process_frame_inputs :: "frame_inputs \<Rightarrow> battle \<Rightarrow> battle option" where
  "process_frame_inputs fi b = process_inputs (fi_inputs fi) b"

section \<open>The scene\<close>

definition default_skills :: "skill_def list" where
  "default_skills =
     [\<lparr>sk_slot = 0, sk_id = 1001, sk_range = f32_lit 6, sk_radius = 0, sk_damage = 80, sk_cooldown = 0,
       sk_speed = f32_lit 15, sk_aoe = False\<rparr>,
      \<lparr>sk_slot = 1, sk_id = 1002, sk_range = f32_lit 8, sk_radius = f32_lit 3, sk_damage = 120, sk_cooldown = 2000,
       sk_speed = f32_lit 12, sk_aoe = True\<rparr>,
      \<lparr>sk_slot = 2, sk_id = 1003, sk_range = f32_lit 10, sk_radius = 0, sk_damage = 200, sk_cooldown = 5000,
       sk_speed = f32_lit 20, sk_aoe = False\<rparr>,
      \<lparr>sk_slot = 3, sk_id = 1004, sk_range = f32_lit 15, sk_radius = f32_lit 5, sk_damage = 300, sk_cooldown = 10000,
       sk_speed = 0, sk_aoe = True\<rparr>]"

definition init_hero :: "u64 \<Rightarrow> player_info \<Rightarrow> entity_mgr \<Rightarrow> player_info \<times> entity_mgr" where
  "init_hero pid info m =
     (let (eid, m1) = next_entity_id m;
          m2 = create_hero eid (pf_team info) pid m1;
          m3 = em_upd eid (set_pos (pf_spawn info)) m2;
          m4 = em_upd eid (on_hero (set_skills default_skills)) m3;
          fountain = (if pf_team info = TeamBlue then V3 (f32_lit 10) 0 (f32_lit 10) else V3 (f32_lit 90) 0 (f32_lit 90))
      in (info\<lparr>pf_hero := eid\<rparr>, em_upd eid (on_hero (set_fountain fountain)) m4))"

fun init_heroes :: "(u64 \<times> player_info) list \<Rightarrow> entity_mgr \<Rightarrow> (u64 \<times> player_info) list \<times> entity_mgr" where
  "init_heroes [] m = ([], m)"
| "init_heroes ((pid, info) # ps) m =
     (let (info1, m1) = init_hero pid info m; (ps1, m2) = init_heroes ps m1 in ((pid, info1) # ps1, m2))"

definition default_tower :: "entity_mgr \<Rightarrow> team_side \<times> tower_grade \<Rightarrow> entity_mgr" where
  "default_tower m tg = (let (eid, m1) = next_entity_id m in create_tower eid (fst tg) (snd tg) m1)"

definition init_battle_scene :: "battle \<Rightarrow> battle" where
  "init_battle_scene b =
     (let (ps, m) = init_heroes (br_players b) (br_em b);
          defs = bc_towers (br_cfg b);
          m1 = foldl (\<lambda>m d. create_tower (td_id d) (td_team d) (td_grade d) m) m defs;
          m2 = (if defs = [] then foldl default_tower m1
                  [(TeamBlue, TGOuter), (TeamBlue, TGInner), (TeamBlue, TGBase), (TeamBlue, TGCrystal),
                   (TeamRed, TGOuter), (TeamRed, TGInner), (TeamRed, TGBase), (TeamRed, TGCrystal)]
                else m1)
      in b\<lparr>br_players := ps, br_em := m2\<rparr>)"

definition ground :: "int \<Rightarrow> vec3" where "ground x = V3 (f32_lit x) 0 (f32_lit x)"

definition team_waypoints :: "team_side \<Rightarrow> vec3 list" where
  "team_waypoints team = (if team = TeamBlue then [ground 30, ground 50, ground 70, ground 90]
     else [ground 70, ground 50, ground 30, ground 10])"

definition spawn_minion :: "minion_type \<Rightarrow> vec3 \<Rightarrow> team_side \<Rightarrow> entity_mgr \<Rightarrow> entity_mgr" where
  "spawn_minion ty pos team m =
     (let (eid, m1) = next_entity_id m;
          m2 = em_upd eid (set_pos pos) (create_minion eid team ty m1)
      in em_upd eid (set_waypoints (team_waypoints team)) m2)"

definition spawn_team :: "entity_mgr \<Rightarrow> team_side \<Rightarrow> entity_mgr" where
  "spawn_team m team =
     (let melee = (if team = TeamBlue then V3 (f32_lit 10) 0 (f32_lit 10) else V3 (f32_lit 90) 0 (f32_lit 90));
          ranged = (if team = TeamBlue then V3 (f32_lit 12) 0 (f32_lit 8) else V3 (f32_lit 88) 0 (f32_lit 92))
      in spawn_minion MTRanged ranged team (((spawn_minion MTMelee melee team) ^^ 3) m))"

definition spawn_minions :: "battle \<Rightarrow> battle" where
  "spawn_minions b = b\<lparr>br_waves := br_waves b + 1, br_em := foldl spawn_team (br_em b) [TeamBlue, TeamRed]\<rparr>"

section \<open>Combat\<close>

text \<open>The nearest living enemy strictly closer than the bound, in the order of the candidates.\<close>

definition check_target :: "entity_mgr \<Rightarrow> entity \<Rightarrow> u64 option \<times> fixed \<Rightarrow> u64 \<Rightarrow> u64 option \<times> fixed" where
  "check_target m t acc cid =
     (case find_entity m cid of None \<Rightarrow> acc
      | Some c \<Rightarrow>
          if \<not> is_alive c \<or> en_team c = en_team t then acc
          else let dist = distance_xz_fixed (pos_fixed t) (pos_fixed c)
               in if fx_lt dist (snd acc) then (Some cid, dist) else acc)"

definition tower_attack :: "u32 \<Rightarrow> u64 list \<Rightarrow> entity_mgr \<Rightarrow> u64 \<Rightarrow> entity_mgr" where
  "tower_attack delta candidates m tid =
     (case find_entity m tid of None \<Rightarrow> m
      | Some e \<Rightarrow> (case en_sub e of
            STower t \<Rightarrow>
              if \<not> is_alive e \<or> t_grade t = TGCrystal then m
              else let t1 = tick_cooldown delta t; e1 = e\<lparr>en_sub := STower t1\<rparr>; m1 = em_put tid e1 m
                   in if \<not> can_attack t1 then m1
                      else (case fst (foldl (check_target m1 e1) (None, fx_from_float (t_range t1)) candidates) of
                              None \<Rightarrow> m1
                            | Some best \<Rightarrow>
                                let m2 = em_upd best (take_damage (t_damage t1)) m1;
                                    m3 = em_put tid (e1\<lparr>en_sub := STower (on_attack t1)\<rparr>) m2
                                in case find_entity m3 best of None \<Rightarrow> m3
                                   | Some c \<Rightarrow> if \<not> is_alive c \<and> ent_type c = ETHero
                                               then em_upd best (on_hero add_death) m3 else m3)
          | _ \<Rightarrow> m))"

definition check_hit :: "u64 \<Rightarrow> projectile \<Rightarrow> entity \<Rightarrow> team_side \<Rightarrow> entity_mgr \<Rightarrow> u64 \<Rightarrow> entity_mgr" where
  "check_hit caster p pe caster_team m cid =
     (case find_entity m cid of None \<Rightarrow> m
      | Some c \<Rightarrow>
          if \<not> is_alive c \<or> en_team c = caster_team then m
          else if fx_le (distance_xz_fixed (pos_fixed pe) (pos_fixed c)) (fx_from_float (f32_add (p_radius p) F_HALF))
          then let m1 = em_upd cid (take_damage (p_damage p)) m
               in if (case find_entity m1 cid of None \<Rightarrow> False | Some c1 \<Rightarrow> \<not> is_alive c1)
                  then em_upd caster (on_hero add_kill) m1 else m1
          else m)"

definition projectile_hit :: "u64 list \<Rightarrow> entity_mgr \<Rightarrow> u64 \<Rightarrow> entity_mgr" where
  "projectile_hit candidates m pid =
     (case find_entity m pid of None \<Rightarrow> m
      | Some pe \<Rightarrow> (case en_sub pe of
            SProjectile p \<Rightarrow>
              if p_reached p then
                let team = (case find_entity m (p_caster p) of None \<Rightarrow> TeamNone | Some c \<Rightarrow> en_team c)
                in foldl (check_hit (p_caster p) p pe team) m candidates
              else m
          | _ \<Rightarrow> m))"

definition tick_combat :: "u32 \<Rightarrow> entity_mgr \<Rightarrow> entity_mgr" where
  "tick_combat delta m =
     (let towers = get_by_type m ETTower; heroes = get_by_type m ETHero; minions = get_by_type m ETMinion;
          m1 = foldl (tower_attack delta (minions @ heroes)) m towers
      in foldl (projectile_hit (heroes @ minions @ towers)) m1 (get_by_type m1 ETProjectile))"

definition crystal_alive :: "entity_mgr \<Rightarrow> (team_side \<Rightarrow> bool) \<Rightarrow> bool" where
  "crystal_alive m P \<longleftrightarrow> list_ex (\<lambda>(_, e). case en_sub e of
     STower t \<Rightarrow> t_grade t = TGCrystal \<and> is_alive e \<and> P (en_team e) | _ \<Rightarrow> False) (em_entities m)"

definition check_win_condition :: "battle_env \<Rightarrow> battle \<Rightarrow> battle \<times> broadcast list" where
  "check_win_condition env b =
     (let blue = crystal_alive (br_em b) (\<lambda>t. t = TeamBlue); red = crystal_alive (br_em b) (\<lambda>t. t \<noteq> TeamBlue);
          winner = (if \<not> blue \<and> red then TeamRed else if blue \<and> \<not> red then TeamBlue else TeamNone)
      in if winner \<noteq> TeamNone
         then let b1 = b\<lparr>br_state := BSFinished\<rparr> in (b1, broadcast_to_all (serialize_battle_end env b1 winner) b1)
         else (b, []))"

section \<open>The frame hash\<close>

definition hash_entity :: "u64 \<Rightarrow> entity \<Rightarrow> u64" where
  "hash_entity h e =
     (let h1 = fh_update_u64 h (en_id e);
          h2 = fh_update_u64 h1 (ucast (type_code (ent_type e)));
          h3 = fh_update_u64 h2 (ucast (team_code (en_team e)));
          h4 = fh_update_i64 h3 (fx_from_float (vx (en_pos e)));
          h5 = fh_update_i64 h4 (fx_from_float (vy (en_pos e)));
          h6 = fh_update_i64 h5 (fx_from_float (vz (en_pos e)));
          h7 = fh_update_i64 h6 (fx_from_float (en_yaw e));
          h8 = fh_update_u64 h7 (scast (en_hp e));
          h9 = fh_update_u64 h8 (scast (en_max_hp e))
      in fh_update_u64 h9 (ucast (state_code (en_state e))))"

definition compute_frame_hash :: "entity_mgr \<Rightarrow> u64" where
  "compute_frame_hash m = foldl hash_entity FNV_OFFSET (sort_key en_id (map snd (em_entities m)))"

definition get_session_hash :: "battle \<Rightarrow> u64" where
  "get_session_hash b = foldl fh_update_u64 FNV_OFFSET (br_hashes b)"

section \<open>The life cycle\<close>

definition change_state :: "battle_state \<Rightarrow> battle \<Rightarrow> battle" where
  "change_state st b = b\<lparr>br_state := st\<rparr>"

definition tick_waiting :: "battle \<Rightarrow> battle" where
  "tick_waiting b = (if battle_full b then change_state BSLoading b else b)"

definition tick_loading :: "battle_env \<Rightarrow> battle \<Rightarrow> battle \<times> broadcast list" where
  "tick_loading env b =
     (if list_all (\<lambda>(_, i). pf_ready i \<or> \<not> pf_connected i) (br_players b)
      then let b1 = change_state BSCountdown ((init_battle_scene b)\<lparr>br_countdown := 3\<rparr>)
           in (b1, broadcast_to_all (serialize_battle_start env b1) b1)
      else (b, []))"

definition tick_countdown :: "u32 \<Rightarrow> battle \<Rightarrow> battle" where
  "tick_countdown frame b =
     (let b1 = (if 0 < br_countdown b then b\<lparr>br_countdown := br_countdown b - 1\<rparr> else b)
      in if br_countdown b1 = 0
         then change_state BSFighting
                (b1\<lparr>br_start_frame := frame,
                    br_ls := set_players (map fst (filter (\<lambda>(_, i). pf_connected i) (br_players b1))) (br_ls b1)\<rparr>)
         else b1)"

definition kReplayHistorySize :: nat where "kReplayHistorySize = 600"

fun process_confirmed :: "frame_inputs list \<Rightarrow> battle \<Rightarrow> battle option" where
  "process_confirmed [] b = Some b"
| "process_confirmed (fi # fis) b = do {
     b1 \<leftarrow> process_frame_inputs fi b;
     let hist = br_history b1 @ [fi];
     process_confirmed fis (b1\<lparr>br_history := if kReplayHistorySize < length hist then tl hist else hist\<rparr>) }"

text \<open>A dead hero that is not respawning counts a death and starts its respawn timer.\<close>

fun trigger_respawns :: "u64 list \<Rightarrow> battle \<Rightarrow> battle option" where
  "trigger_respawns [] b = Some b"
| "trigger_respawns (pid # ps) b =
     (case get_player_hero b pid of
        NotAHero \<Rightarrow> None
      | NoHero \<Rightarrow> trigger_respawns ps b
      | HeroAt eid h e \<Rightarrow>
          if \<not> is_alive e \<and> \<not> is_respawning h
          then trigger_respawns ps (b\<lparr>br_em := em_upd eid (on_hero (trigger_respawn 10000))
                                                  (em_upd eid (on_hero add_death) (br_em b))\<rparr>)
          else trigger_respawns ps b)"

definition spawn_timer :: "u32 \<Rightarrow> battle \<Rightarrow> battle" where
  "spawn_timer step b =
     (let t = br_spawn_timer b + step
      in if bc_spawn_sec (br_cfg b) * 1000 \<le> t then spawn_minions (b\<lparr>br_spawn_timer := 0\<rparr>)
         else b\<lparr>br_spawn_timer := t\<rparr>)"

definition reached_projectiles :: "entity_mgr \<Rightarrow> u64 list" where
  "reached_projectiles m = List.map_filter (\<lambda>(_, e). case en_sub e of
      SProjectile p \<Rightarrow> if p_reached p \<or> \<not> is_alive e then Some (en_id e) else None | _ \<Rightarrow> None) (em_entities m)"

definition clean_projectiles :: "entity_mgr \<Rightarrow> entity_mgr" where
  "clean_projectiles m = foldl (\<lambda>m eid. remove_entity eid m) m (reached_projectiles m)"

definition save_checkpoint :: "battle \<Rightarrow> battle" where
  "save_checkpoint b = b\<lparr>br_cm := save_snapshot (make_snapshot (ls_current (br_ls b)) (br_last_tick b) (br_state b) (br_em b))
     (br_cm b)\<rparr>"

definition checkpoint_due :: "u32 \<Rightarrow> battle \<Rightarrow> battle option" where
  "checkpoint_due frame b =
     (if cm_interval (br_cm b) = 0 then None
      else Some (if frame mod cm_interval (br_cm b) = 0 then save_checkpoint b else b))"

text \<open>Players gone for longer than the reconnection time are removed.\<close>

definition drop_disconnected :: "u32 \<Rightarrow> battle \<Rightarrow> battle" where
  "drop_disconnected frame b =
     (let late = bc_reconnect_sec (br_cfg b) * (1000 div 33)
      in foldl (\<lambda>b (pid, dc). if late < frame - dc_frame dc
                then (remove_player pid b)\<lparr>br_disc := AList.delete pid (br_disc b)\<rparr> else b) b (br_disc b))"

definition tick_fighting :: "battle_env \<Rightarrow> u32 \<Rightarrow> battle \<Rightarrow> (battle \<times> broadcast list) option" where
  "tick_fighting env frame b = do {
     let b1 = b\<lparr>br_ls := set_current_frame frame (br_ls b)\<rparr>;
     (ls, confirmed) \<leftarrow> try_advance (br_ls b1);
     b2 \<leftarrow> process_confirmed confirmed (b1\<lparr>br_ls := ls\<rparr>);
     let b3 = b2\<lparr>br_em := tick_combat 33 (tick_all (ev_atan2 env) 33 (br_em b2))\<rparr>;
     b4 \<leftarrow> trigger_respawns (map fst (br_players b3)) b3;
     let b5 = spawn_timer 33 b4;
     let b6 = b5\<lparr>br_em := clean_projectiles (br_em b5)\<rparr>;
     b7 \<leftarrow> checkpoint_due frame b6;
     let out1 = broadcast_battle_state env b7;
     let (b8, out2) = check_win_condition env b7;
     let b9 = drop_disconnected frame b8;
     Some (b9\<lparr>br_hashes := br_hashes b9 @ [compute_frame_hash (br_em b9)]\<rparr>, out1 @ out2) }"

definition battle_tick :: "battle_env \<Rightarrow> u64 \<Rightarrow> battle \<Rightarrow> (battle \<times> broadcast list) option" where
  "battle_tick env now b0 =
     (let frame = br_frame b0 + 1; b = b0\<lparr>br_frame := frame, br_ls := tick_frame_counter (br_ls b0)\<rparr>
      in case br_state b of
           BSWaiting \<Rightarrow> Some (tick_waiting b, [])
         | BSLoading \<Rightarrow> Some (tick_loading env b)
         | BSCountdown \<Rightarrow> Some (tick_countdown frame b, [])
         | BSFighting \<Rightarrow> tick_fighting env frame b
         | BSPaused \<Rightarrow> Some (b, [])
         | BSFinished \<Rightarrow> Some (b, []))"

text \<open>The dispatch of \<open>OnMessage\<close>: a \<open>PlayerMoveMsg\<close> is cast to the class it is not.\<close>

definition battle_on_message :: "message \<Rightarrow> battle \<Rightarrow> (battle \<times> broadcast list) option" where
  "battle_on_message m b = (case msg_type_of m of
      MsgPlayerEnter \<Rightarrow> (case m of
          PlayerReconnectMsg pid conn \<Rightarrow> Some (handle_reconnect pid conn b)
        | PlayerEnterMsg pid pos conn \<Rightarrow> Some (on_player_enter pid conn b, [])
        | _ \<Rightarrow> None)
    | MsgPlayerLeave \<Rightarrow> (case m of
          PlayerDisconnectMsg pid \<Rightarrow> Some (on_player_disconnect pid b, [])
        | PlayerLeaveMsg pid \<Rightarrow> Some (on_player_leave pid b, [])
        | _ \<Rightarrow> None)
    | MsgPlayerMove \<Rightarrow> (case m of
          HeroMoveInputMsg pid mx mz seq \<Rightarrow> Some (on_hero_move_input pid mx mz seq b, [])
        | _ \<Rightarrow> None)
    | MsgPlayerAction \<Rightarrow> (case m of
          HeroCastSkillMsg pid slot target eid seq \<Rightarrow> Some (on_hero_cast_skill pid slot target eid seq b, [])
        | BattleReadyMsg pid \<Rightarrow> Some (on_battle_ready pid b, [])
        | _ \<Rightarrow> Some (b, []))
    | MsgRoomBroadcast \<Rightarrow> (case m of RoomBroadcastMsg payload \<Rightarrow> Some (b, broadcast_to_all payload b) | _ \<Rightarrow> None)
    | _ \<Rightarrow> Some (b, []))"

section \<open>How a room drives its lockstep engine\<close>

text \<open>\<open>quiet\<close>: no frame after the current one has an input or a start time.\<close>

definition quiet :: "lockstep \<Rightarrow> bool" where
  "quiet s \<longleftrightarrow> (\<forall>f. ls_current s < f \<longrightarrow> fi_inputs (frame_of s f) = [] \<and> map_of (ls_start s) f = None)"

definition ls_inv :: "u32 \<Rightarrow> u32 \<Rightarrow> lockstep \<Rightarrow> bool" where
  "ls_inv timeout frame s \<longleftrightarrow> ls_ok s \<and> quiet s \<and> ls_timeout s = timeout \<and> ls_current s \<le> frame"

lemma frame_of_set_current [simp]: "frame_of (set_current_frame f s) g = frame_of s g"
  by (simp add: frame_of_def set_current_frame_def)

lemma ls_inv_init: "ls_inv t 0 (set_timeout_frames t lockstep_init)"
  by (simp add: ls_inv_def quiet_def ls_ok_def set_timeout_frames_def lockstep_init_def frame_of_def empty_frame_def)

lemma ls_inv_cong:
  "ls_inv t f s \<Longrightarrow> ls_ok s' \<Longrightarrow> ls_buffer s' = ls_buffer s \<Longrightarrow> ls_start s' = ls_start s \<Longrightarrow>
   ls_timeout s' = ls_timeout s \<Longrightarrow> ls_current s' = ls_current s \<Longrightarrow> ls_inv t f s'"
  by (simp add: ls_inv_def quiet_def frame_of_def)

lemma ls_inv_tick: "ls_inv t f s \<Longrightarrow> ls_inv t f (tick_frame_counter s)"
  by (rule ls_inv_cong, assumption) (auto simp: ls_inv_def tick_frame_counter_def intro: ls_ok_tick [unfolded tick_frame_counter_def])

lemma ls_inv_players: "ls_inv t f s \<Longrightarrow> ls_inv t f (set_players ids s)"
  by (rule ls_inv_cong, assumption) (auto simp: ls_inv_def set_players_def Let_def intro: ls_ok_set_players [unfolded set_players_def Let_def])

lemma ls_inv_disconnected: "ls_inv t f s \<Longrightarrow> ls_inv t f (player_disconnected p s)"
  by (rule ls_inv_cong, assumption) (auto simp: ls_inv_def player_disconnected_def
      intro: ls_ok_disconnected [unfolded player_disconnected_def])

lemma ls_inv_reconnected: "ls_inv t f s \<Longrightarrow> ls_inv t f (player_reconnected p s)"
  using ls_ok_reconnected [of s p]
  by (intro ls_inv_cong [of t f s "player_reconnected p s"]) (auto simp: ls_inv_def player_reconnected_def)

lemma ls_inv_submit: "ls_inv t f s \<Longrightarrow> ls_inv t f (snd (submit_input p i s))"
proof -
  assume inv: "ls_inv t f s"
  then have "om_ok (ls_buffer s)" by (simp add: ls_inv_def ls_ok_def)
  then have "frame_of (snd (submit_input p i s)) g = frame_of s g" if "ls_current s < g" for g
    using that by (auto simp: submit_input_def Let_def frame_of_def om_get_put split: option.splits)
  moreover have "ls_start (snd (submit_input p i s)) = ls_start s" "ls_current (snd (submit_input p i s)) = ls_current s"
    "ls_timeout (snd (submit_input p i s)) = ls_timeout s"
    by (simp_all add: submit_input_def Let_def)
  ultimately show ?thesis using inv ls_ok_submit [of s p i] by (simp add: ls_inv_def quiet_def)
qed

lemma advance_frame_start:
  "advance_frame f s = (s', a) \<Longrightarrow> map_of (ls_start s') g = map_of (ls_start s) g \<or> map_of (ls_start s') g = None"
  by (auto simp: advance_frame_def confirm_frame_def Let_def delete_conv' split: option.splits if_splits)

text \<open>Frames without inputs that have not timed out are released without inputs.\<close>

definition idle_from :: "u32 \<Rightarrow> lockstep \<Rightarrow> bool" where
  "idle_from f s \<longleftrightarrow> (\<forall>g \<ge> f. fi_inputs (frame_of s g) = [] \<and>
     (\<forall>t. map_of (ls_start s) g = Some t \<longrightarrow> ls_counter s - t < ls_timeout s))"

lemma advance_frame_idle:
  assumes ok: "ls_ok s" and idle: "idle_from f0 s" and f0: "f0 \<le> f" and a: "advance_frame f s = (s', a)"
  shows "case a of AdvConfirm fi \<Rightarrow> fi_inputs fi = [] | _ \<Rightarrow> True"
    and "idle_from f0 s'"
proof -
  have e: "fi_inputs (frame_of s f) = []" using idle f0 by (simp add: idle_from_def)
  have nt: "\<not> (\<exists>t. map_of (ls_start s) f = Some t \<and> ls_timeout s \<le> ls_counter s - t)"
    using idle f0 by (auto simp: idle_from_def not_le)
  have "ls_active s = [] \<or> a = AdvSkip \<or> a = AdvStop"
    using ok a
  proof (cases rule: advance_frame_cases)
    case (confirm s1 fi)
    then show ?thesis using nt e by (cases "ls_active s") auto
  qed auto
  then show c: "case a of AdvConfirm fi \<Rightarrow> fi_inputs fi = [] | _ \<Rightarrow> True"
    using a e by (auto simp: advance_frame_alt [OF ok] Let_def fill_missing_def split: if_splits option.splits
        dest!: confirm_frame_result)
  have i: "fi_inputs (frame_of s' g) = []" if "f0 \<le> g" for g
    using advance_frame_get [OF ok a, of g] c that idle e
    by (auto simp: frame_of_def idle_from_def empty_frame_def split: if_splits adv.splits option.splits)
  show "idle_from f0 s'"
    using i advance_frame_start [OF a] advance_frame_frame [OF a] idle
    unfolding idle_from_def by (metis option.distinct(1))
qed

lemma advance_upto_idle:
  "ls_ok s \<Longrightarrow> idle_from f0 s \<Longrightarrow> f0 \<le> f \<Longrightarrow> unat f + n < 2 ^ 32 \<Longrightarrow> advance_upto n f s = (s', out) \<Longrightarrow>
   (\<forall>fi \<in> set out. fi_inputs fi = []) \<and> idle_from f0 s' \<and>
   (\<forall>g. map_of (ls_start s') g = map_of (ls_start s) g \<or> map_of (ls_start s') g = None)"
proof (induction n arbitrary: f s s' out)
  case (Suc n)
  obtain s1 a where a: "advance_frame f s = (s1, a)" by (cases "advance_frame f s")
  obtain s2 o2 where r: "advance_upto n (f + 1) s1 = (s2, o2)" by (cases "advance_upto n (f + 1) s1")
  have f1: "unat (f + 1) = unat f + 1" using Suc.prems(4) by (simp add: unat_word_ariths)
  then have le: "f0 \<le> f + 1" using Suc.prems(3) by (simp add: word_le_nat_alt)
  have ok1: "ls_ok s1" using Suc.prems(1) a by (rule ls_ok_advance_frame)
  note id1 = advance_frame_idle [OF Suc.prems(1,2,3) a]
  note IH = Suc.IH [OF ok1 id1(2) le _ r]
  have st: "\<forall>g. map_of (ls_start s1) g = map_of (ls_start s) g \<or> map_of (ls_start s1) g = None"
    using advance_frame_start [OF a] by auto
  show ?case
  proof (cases "a = AdvStop")
    case True
    then show ?thesis using Suc.prems(5) id1(2) st by (simp add: a)
  next
    case False
    then have "s' = s2" "\<forall>fi \<in> set out. fi_inputs fi = []"
      using Suc.prems(4,5) IH id1(1) f1 by (auto simp: a r split: adv.splits)
    then show ?thesis using IH st Suc.prems(4) f1 by (auto split: if_splits) (metis option.distinct(1))
  qed
qed simp

lemma set_current_idle:
  assumes "ls_inv t f s" "ls_current s < g" "0 < t"
  shows "idle_from g (set_current_frame g s)"
proof -
  have "om_ok (ls_start s)" using assms(1) by (simp add: ls_inv_def ls_ok_def)
  then show ?thesis using assms
    by (auto simp: idle_from_def ls_inv_def quiet_def frame_of_def set_current_frame_def om_get_put split: if_splits)
qed

lemma try_advance_room:
  assumes inv: "ls_inv t f s" and g: "f < g" "unat g + 33 < 2 ^ 32" and t: "0 < t"
  shows "\<exists>s' out. try_advance (set_current_frame g s) = Some (s', out) \<and> ls_inv t g s' \<and>
    (\<forall>fi \<in> set out. fi_inputs fi = [])"
proof -
  have lt: "ls_current s < g" using inv g by (auto simp: ls_inv_def)
  define s0 where "s0 = set_current_frame g s"
  have s0: "ls_ok s0" "ls_current s0 = g" "ls_timeout s0 = t" "idle_from g s0"
    using inv lt set_current_idle [OF inv lt t] ls_ok_set_current [of s g]
    by (auto simp: s0_def ls_inv_def) (simp_all add: set_current_frame_def)
  obtain s' out where up: "advance_upto 33 g s0 = (s', out)" by (cases "advance_upto 33 g s0")
  have b: "unat (ls_current s0) + 33 < 2 ^ 32" using g s0 by simp
  have ta: "try_advance s0 = Some (s', out)" using try_advance_upto [OF b] s0 up by simp
  have i: "\<forall>fi \<in> set out. fi_inputs fi = []" "idle_from g s'"
     "\<forall>h. map_of (ls_start s') h = map_of (ls_start s0) h \<or> map_of (ls_start s') h = None"
    using advance_upto_idle [OF s0(1,4) order_refl g(2) up] by auto
  have ok': "ls_ok s'" using ls_ok_advance_upto [OF s0(1), of 33 g] up by simp
  have fr: "ls_current s' = g" "ls_timeout s' = t" using advance_upto_frame [OF up] s0 by auto
  have "om_ok (ls_start s)" using inv by (simp add: ls_inv_def ls_ok_def)
  then have "map_of (ls_start s0) h = None" if "g < h" for h
    using inv lt that by (auto simp: s0_def set_current_frame_def om_get_put ls_inv_def quiet_def)
  then have "quiet s'" using i fr by (auto simp: quiet_def idle_from_def) (metis order_less_imp_le)+
  then show ?thesis using ta i ok' fr by (auto simp: s0_def ls_inv_def)
qed

section \<open>What the steps of a battle do to the entities\<close>

definition sub_ok :: "entity \<Rightarrow> bool" where
  "sub_ok e \<longleftrightarrow> (case en_sub e of STower t \<Rightarrow> 0 \<le> sint (t_damage t) | SProjectile p \<Rightarrow> 0 \<le> sint (p_damage p) | _ \<Rightarrow> True)"

text \<open>The manager's invariant: keys are the ids, were given out by \<open>NextEntityId\<close> and are not zero.\<close>

definition em_inv :: "entity_mgr \<Rightarrow> bool" where
  "em_inv m \<longleftrightarrow> mgr_ok m \<and> 0 < em_next m \<and> (\<forall>k e. find_entity m k = Some e \<longrightarrow> 0 < k \<and> k < em_next m \<and> sub_ok e)"

text \<open>\<open>hero_of m k pid\<close>: the entity at \<open>k\<close> is the hero of the player \<open>pid\<close>.\<close>

definition ent_owner :: "entity \<Rightarrow> u64 option" where
  "ent_owner e = (case en_sub e of SHero h \<Rightarrow> Some (h_owner h) | _ \<Rightarrow> None)"

definition hero_of :: "entity_mgr \<Rightarrow> u64 \<Rightarrow> u64 \<Rightarrow> bool" where
  "hero_of m k pid \<longleftrightarrow> (\<exists>e. find_entity m k = Some e \<and> ent_owner e = Some pid)"

lemma owner_hero: "ent_owner e = Some pid \<longleftrightarrow> (\<exists>h. en_sub e = SHero h \<and> h_owner h = pid)"
  by (auto simp: ent_owner_def split: entity_sub.splits)

text \<open>\<open>em_le n m m'\<close>: from a well-formed manager with room for n more ids, m' is well formed, has
  used at most n ids, and every player's hero is still there.\<close>

definition em_le :: "int \<Rightarrow> entity_mgr \<Rightarrow> entity_mgr \<Rightarrow> bool" where
  "em_le n m m' \<longleftrightarrow> (em_inv m \<and> uint (em_next m) + n < 2 ^ 64 \<longrightarrow>
     em_inv m' \<and> uint (em_next m') \<le> uint (em_next m) + n \<and> (\<forall>k p. hero_of m k p \<longrightarrow> hero_of m' k p))"

lemma em_le_refl: "em_le 0 m m"
  by (simp add: em_le_def)

lemma em_le_trans: "em_le a m1 m2 \<Longrightarrow> em_le b m2 m3 \<Longrightarrow> 0 \<le> a \<Longrightarrow> 0 \<le> b \<Longrightarrow> em_le (a + b) m1 m3"
  by (auto simp: em_le_def)

lemma em_le_trans0: "em_le 0 m1 m2 \<Longrightarrow> em_le 0 m2 m3 \<Longrightarrow> em_le 0 m1 m3"
  using em_le_trans [of 0 m1 m2 0 m3] by simp

lemma em_le_foldl: "(\<And>m x. x \<in> set xs \<Longrightarrow> em_le 0 m (f m x)) \<Longrightarrow> em_le 0 m (foldl f m xs)"
proof (induction xs arbitrary: m)
  case (Cons x xs)
  then have "em_le 0 m (f m x)" "em_le 0 (f m x) (foldl f (f m x) xs)" by auto
  then show ?case using em_le_trans0 by auto
qed (simp add: em_le_refl)

definition benign :: "(entity \<Rightarrow> entity) \<Rightarrow> entity \<Rightarrow> bool" where
  "benign f e \<longleftrightarrow> (ent_ok e \<and> sub_ok e \<longrightarrow> ent_ok (f e) \<and> sub_ok (f e) \<and> en_id (f e) = en_id e \<and>
     ent_owner (f e) = ent_owner e)"

lemma em_le_upd: "(\<And>e. find_entity m k = Some e \<Longrightarrow> benign f e) \<Longrightarrow> em_le 0 m (em_upd k f m)"
proof (cases "find_entity m k")
  case None
  then show ?thesis by (simp add: em_upd_def em_le_refl)
next
  case (Some e)
  assume b: "\<And>e. find_entity m k = Some e \<Longrightarrow> benign f e"
  show ?thesis
    unfolding em_le_def
  proof (intro impI)
    assume "em_inv m \<and> uint (em_next m) + 0 < 2 ^ 64"
    then have inv: "em_inv m" "mgr_ok m" "sub_ok e" using Some by (auto simp: em_inv_def)
    have f: "ent_ok (f e)" "sub_ok (f e)" "en_id (f e) = k" "ent_owner (f e) = ent_owner e"
      using b [OF Some] inv mgr_ok_find [OF inv(2) Some] by (auto simp: benign_def)
    have "mgr_ok (em_upd k f m)" using inv f Some by (auto simp: em_upd_def intro: mgr_ok_put)
    then show "em_inv (em_upd k f m) \<and> uint (em_next (em_upd k f m)) \<le> uint (em_next m) + 0 \<and>
      (\<forall>j p. hero_of m j p \<longrightarrow> hero_of (em_upd k f m) j p)"
      using inv f Some by (auto simp: em_inv_def hero_of_def find_em_upd em_upd_def find_em_put split: if_splits)
  qed
qed

lemma sub_ok_frame: "en_sub (take_damage d e) = en_sub e" "ent_type (take_damage d e) = ent_type e" "en_id (take_damage d e) = en_id e"
  "ent_owner (take_damage d e) = ent_owner e"
  by (simp_all add: take_damage_def ent_type_def ent_owner_def)

lemma benign_damage: "0 \<le> sint d \<Longrightarrow> benign (take_damage d) e"
  by (simp add: benign_def ent_ok_damage sub_ok_frame sub_ok_def)

lemma on_hero_frame:
  assumes "\<And>h h' e'. f h e = (h', e') \<Longrightarrow> en_id e' = en_id e \<and> h_owner h' = h_owner h"
  shows "en_id (on_hero f e) = en_id e" "ent_owner (on_hero f e) = ent_owner e" "sub_ok e \<Longrightarrow> sub_ok (on_hero f e)"
  using assms by (auto simp: on_hero_def ent_owner_def sub_ok_def split: entity_sub.split prod.split)

lemma level_up_owner: "level_up h e = (h', e') \<Longrightarrow> h_owner h' = h_owner h"
proof (induction h e arbitrary: h' e' rule: level_up.induct)
  case (1 h e)
  then show ?case by (subst (asm) level_up.simps [of h e]) (auto split: if_splits)
qed

lemma benign_add_kill: "benign (on_hero add_kill) e"
proof -
  have "en_id e' = en_id e \<and> h_owner h' = h_owner h" if "add_kill h e = (h', e')" for h h' e'
    using that by (auto simp: add_kill_def add_exp_def dest: level_up_frame level_up_owner)
  from on_hero_frame [of add_kill e, OF this] show ?thesis by (simp add: benign_def ent_ok_add_kill)
qed

lemma benign_add_death: "benign (on_hero add_death) e"
  using on_hero_frame [of add_death e] by (simp add: benign_def ent_ok_hero_fields add_death_def)

lemma benign_respawn: "benign (on_hero (trigger_respawn ms)) e"
  using on_hero_frame [of "trigger_respawn ms" e] by (simp add: benign_def ent_ok_hero_fields trigger_respawn_def)

lemma benign_hero_setup:
  "benign (on_hero (set_skills ss)) e" "benign (on_hero (set_fountain p)) e" "benign (set_pos p) e" "benign (set_waypoints ws) e"
  using on_hero_frame [of "set_skills ss" e] on_hero_frame [of "set_fountain p" e]
  by (simp_all add: benign_def ent_ok_hero_fields set_skills_def set_fountain_def ent_ok_set)
     (auto simp: set_pos_def set_waypoints_def ent_owner_def sub_ok_def split: entity_sub.split)

lemma owner_tick: "ent_owner (ent_tick at2 d e) = ent_owner e"
  by (auto simp: ent_tick_def ent_owner_def hero_tick_def Let_def split: entity_sub.split prod.split)

lemma benign_tick: "benign (ent_tick at2 d) e"
  by (auto simp: benign_def ent_ok_tick ent_tick_id owner_tick)
     (auto simp: ent_tick_def sub_ok_def tower_tick_def projectile_tick_def Let_def split: entity_sub.splits prod.splits if_splits)

lemma em_le_tick_all: "em_le 0 m (tick_all at2 d m)"
  unfolding em_le_def
proof (intro impI)
  assume "em_inv m \<and> uint (em_next m) + 0 < 2 ^ 64"
  then have inv: "em_inv m" "mgr_ok m" by (auto simp: em_inv_def)
  have b: "sub_ok (ent_tick at2 d e)" if "find_entity m k = Some e" for k e
    using benign_tick [of at2 d e] mgr_ok_find [OF inv(2) that] inv(1) that by (auto simp: benign_def em_inv_def)
  show "em_inv (tick_all at2 d m) \<and> uint (em_next (tick_all at2 d m)) \<le> uint (em_next m) + 0 \<and>
      (\<forall>k p. hero_of m k p \<longrightarrow> hero_of (tick_all at2 d m) k p)"
    using inv b mgr_ok_tick_all [OF inv(2), of at2 d]
    by (auto simp: em_inv_def find_tick_all hero_of_def ent_tick_id owner_tick) (auto simp: tick_all_def)
qed

lemma em_leI: "(em_inv m \<Longrightarrow> em_le n m m') \<Longrightarrow> em_le n m m'"
  by (auto simp: em_le_def)

lemma em_inv_find:
  "em_inv m \<Longrightarrow> find_entity m k = Some e \<Longrightarrow> ent_ok e \<and> sub_ok e \<and> en_id e = k \<and> 0 < k \<and> k < em_next m"
  using mgr_ok_find [of m k e] by (auto simp: em_inv_def)

lemma em_le_put:
  assumes "find_entity m k = Some e0" "ent_ok e" "sub_ok e" "en_id e = k" "ent_owner e = ent_owner e0"
  shows "em_le 0 m (em_put k e m)"
proof (rule em_leI)
  assume "em_inv m"
  then have "en_id e0 = k" using em_inv_find [OF _ assms(1)] by simp
  then have "em_le 0 m (em_upd k (\<lambda>_. e) m)" using assms by (intro em_le_upd) (simp add: benign_def)
  then show "em_le 0 m (em_put k e m)" using assms(1) by (simp add: em_upd_def)
qed

definition tower_ok :: "entity \<Rightarrow> u64 \<Rightarrow> bool" where
  "tower_ok e k \<longleftrightarrow> ent_ok e \<and> sub_ok e \<and> en_id e = k \<and> ent_owner e = None"

lemma tower_ok_sub: "tower_ok e k \<Longrightarrow> 0 \<le> sint (t_damage t) \<Longrightarrow> tower_ok (e\<lparr>en_sub := STower t\<rparr>) k"
  by (auto simp: tower_ok_def ent_ok_def sub_ok_def ent_owner_def split: entity_sub.splits)

lemma em_le_tower_attack: "em_le 0 m (tower_attack d cs m tid)"
proof (rule em_leI)
  assume inv: "em_inv m"
  show ?thesis
  proof (cases "\<exists>e t. find_entity m tid = Some e \<and> en_sub e = STower t \<and> is_alive e \<and> t_grade t \<noteq> TGCrystal")
    case False
    then have "tower_attack d cs m tid = m" by (auto simp: tower_attack_def split: option.split entity_sub.split)
    then show ?thesis by (simp add: em_le_refl)
  next
    case True
    then obtain e t where e: "find_entity m tid = Some e" "en_sub e = STower t" "is_alive e" "t_grade t \<noteq> TGCrystal" by blast
    define t1 where "t1 = tick_cooldown d t"
    define e1 where "e1 = e\<lparr>en_sub := STower t1\<rparr>"
    define m1 where "m1 = em_put tid e1 m"
    have tok: "tower_ok e tid" "0 \<le> sint (t_damage t)"
      using em_inv_find [OF inv e(1)] e(2) by (auto simp: tower_ok_def ent_owner_def sub_ok_def)
    then have e1: "tower_ok e1 tid" by (auto simp: e1_def t1_def tick_cooldown_def intro: tower_ok_sub)
    have l1: "em_le 0 m m1" using e1 e(1) tok(1) by (auto simp: m1_def tower_ok_def intro: em_le_put)
    show ?thesis
    proof (cases "fst (foldl (check_target m1 e1) (None, fx_from_float (t_range t1)) cs)")
      case None
      then have "tower_attack d cs m tid = m1"
        using e by (simp add: tower_attack_def Let_def t1_def [symmetric] e1_def [symmetric] m1_def [symmetric])
      then show ?thesis using l1 by simp
    next
      case (Some best)
      define m2 where "m2 = em_upd best (take_damage (t_damage t1)) m1"
      define m3 where "m3 = em_put tid (e1\<lparr>en_sub := STower (on_attack t1)\<rparr>) m2"
      have td: "t_damage t1 = t_damage t" by (simp add: t1_def tick_cooldown_def)
      have l2: "em_le 0 m1 m2" unfolding m2_def td by (intro em_le_upd benign_damage tok(2))
      have "find_entity m2 tid = Some (if tid = best then take_damage (t_damage t1) e1 else e1)"
        by (simp add: m2_def find_em_upd m1_def find_em_put)
      moreover have "tower_ok (e1\<lparr>en_sub := STower (on_attack t1)\<rparr>) tid"
        using e1 tok(2) td by (auto simp: on_attack_def intro: tower_ok_sub)
      ultimately have l3: "em_le 0 m2 m3" using e1
        by (auto simp: m3_def tower_ok_def sub_ok_frame intro!: em_le_put split: if_splits)
      have l4: "em_le 0 m3 (em_upd best (on_hero add_death) m3)" by (intro em_le_upd benign_add_death)
      have "tower_attack d cs m tid = m1 \<or> tower_attack d cs m tid = m3 \<or>
          tower_attack d cs m tid = em_upd best (on_hero add_death) m3"
        using e Some by (simp add: tower_attack_def Let_def t1_def [symmetric] e1_def [symmetric]
            m1_def [symmetric] m2_def [symmetric] m3_def [symmetric] split: option.split)
      then show ?thesis using l1 l2 l3 l4 em_le_trans0 by metis
    qed
  qed
qed

lemma em_le_check_hit: "0 \<le> sint (p_damage p) \<Longrightarrow> em_le 0 m (check_hit caster p pe team m cid)"
  using em_le_trans0 [OF em_le_upd em_le_upd, of m cid "take_damage (p_damage p)" caster "on_hero add_kill"]
    em_le_upd [of m cid "take_damage (p_damage p)"]
  by (auto simp: check_hit_def Let_def benign_damage benign_add_kill em_le_refl split: option.split)

lemma em_le_projectile_hit: "em_le 0 m (projectile_hit cs m pid)"
proof (rule em_leI)
  assume inv: "em_inv m"
  show ?thesis
  proof (cases "\<exists>pe p. find_entity m pid = Some pe \<and> en_sub pe = SProjectile p")
    case True
    then obtain pe p where pe: "find_entity m pid = Some pe" "en_sub pe = SProjectile p" by blast
    then have "0 \<le> sint (p_damage p)" using em_inv_find [OF inv] by (fastforce simp: sub_ok_def)
    then show ?thesis by (auto simp: projectile_hit_def pe Let_def em_le_refl intro!: em_le_foldl em_le_check_hit)
  qed (auto simp: projectile_hit_def em_le_refl split: option.split entity_sub.split)
qed

lemma em_le_tick_combat: "em_le 0 m (tick_combat d m)"
  unfolding tick_combat_def Let_def
  by (rule em_le_trans0 [OF em_le_foldl em_le_foldl]) (rule em_le_tower_attack em_le_projectile_hit)+

lemma em_next_remove [simp]: "em_next (remove_entity k m) = em_next m"
  by (simp add: remove_entity_def)

lemma remove_projectile: "find_entity m k = Some e \<Longrightarrow> ent_owner e = None \<Longrightarrow> em_le 0 m (remove_entity k m)"
  unfolding em_le_def by (auto simp: em_inv_def mgr_ok_remove find_remove hero_of_def split: if_splits)

lemma em_le_clean: "em_le 0 m (clean_projectiles m)"
proof (rule em_leI)
  assume inv: "em_inv m"
  have r: "\<exists>e. find_entity m k = Some e \<and> ent_owner e = None" if "k \<in> set (reached_projectiles m)" for k
  proof -
    have "\<exists>k' e p. (k', e) \<in> set (em_entities m) \<and> en_id e = k \<and> en_sub e = SProjectile p"
      using that by (force simp: reached_projectiles_def List.map_filter_def split: entity_sub.splits if_splits)
    then obtain k' e where e: "(k', e) \<in> set (em_entities m)" "en_id e = k" "ent_owner e = None"
      by (auto simp: ent_owner_def)
    then have "find_entity m k' = Some e" using inv by (auto simp: em_inv_def mgr_ok_def find_entity_def um_in_set_get [symmetric])
    then show ?thesis using e inv by (auto simp: em_inv_def dest: mgr_ok_find)
  qed
  have "em_le 0 m (foldl (\<lambda>m eid. remove_entity eid m) m ks)"
    if "\<forall>k \<in> set ks. find_entity m k = None \<or> (\<exists>e. find_entity m k = Some e \<and> ent_owner e = None)" for ks
    using that
  proof (induction ks arbitrary: m)
    case (Cons k ks)
    have "em_le 0 m (remove_entity k m)"
    proof (cases "find_entity m k")
      case None
      then have "find_entity (remove_entity k m) = find_entity m" by (auto simp: fun_eq_iff find_remove)
      then show ?thesis
        by (auto simp: em_le_def em_inv_def mgr_ok_remove hero_of_def)
    next
      case (Some e)
      then show ?thesis using Cons.prems by (auto intro: remove_projectile)
    qed
    moreover have "em_le 0 (remove_entity k m) (foldl (\<lambda>m eid. remove_entity eid m) (remove_entity k m) ks)"
      using Cons.prems by (intro Cons.IH) (auto simp: find_remove)
    ultimately show ?case using em_le_trans0 by auto
  qed (simp add: em_le_refl)
  then show ?thesis using r by (auto simp: clean_projectiles_def)
qed

section \<open>Creating entities\<close>

lemma em_le_mono: "em_le a m m' \<Longrightarrow> a \<le> b \<Longrightarrow> em_le b m m'"
  by (auto simp: em_le_def)

text \<open>A new entity under the next id.\<close>

lemma em_le_create:
  assumes "next_entity_id m = (eid, m1)" "ent_ok e" "sub_ok e" "en_id e = eid"
  shows "em_le 1 m (em_put eid e m1)"
  unfolding em_le_def
proof (intro impI)
  assume inv: "em_inv m \<and> uint (em_next m) + 1 < 2 ^ 64"
  have n: "eid = em_next m" "em_next m1 = em_next m + 1" "find_entity m1 = find_entity m" "em_entities m1 = em_entities m"
    using assms(1) by (auto simp: next_entity_id_def find_entity_def fun_eq_iff)
  have u: "uint (em_next m + 1) = uint (em_next m) + 1" using inv by (simp add: uint_word_ariths)
  have "mgr_ok m1" using inv n by (simp add: em_inv_def mgr_ok_def)
  then have "mgr_ok (em_put eid e m1)" using assms by (intro mgr_ok_put)
  moreover have "k < em_next m + 1" if "k \<le> em_next m" for k using that u by (simp add: word_le_def word_less_def)
  moreover have "0 < em_next m + 1" using u uint64_bounds [of "em_next m"] by (simp add: word_less_def)
  moreover have "find_entity m (em_next m) = None" using inv
    by (cases "find_entity m (em_next m)") (auto dest: em_inv_find)
  ultimately show "em_inv (em_put eid e m1) \<and> uint (em_next (em_put eid e m1)) \<le> uint (em_next m) + 1 \<and>
      (\<forall>k p. hero_of m k p \<longrightarrow> hero_of (em_put eid e m1) k p)"
    using inv assms n u by (auto simp: em_inv_def find_em_put hero_of_def order_less_imp_le split: if_splits)
qed

lemma em_le_upd_all: "(\<And>e. benign f e) \<Longrightarrow> em_le 0 m (em_upd k f m)"
  by (intro em_le_upd) simp

lemma em_le_step0: "em_le n m1 m2 \<Longrightarrow> em_le 0 m2 m3 \<Longrightarrow> 0 \<le> n \<Longrightarrow> em_le n m1 m3"
  using em_le_trans [of n m1 m2 0 m3] by simp

lemma new_entity_props:
  "en_id (new_hero eid team o1) = eid" "ent_owner (new_hero eid team o1) = Some o1" "sub_ok (new_hero eid team o1)"
  "en_id (new_minion eid team mt) = eid" "sub_ok (new_minion eid team mt)"
  "en_id (new_tower eid team g) = eid" "sub_ok (new_tower eid team g)"
  by (auto simp: new_hero_def new_minion_def new_tower_def default_entity_def ent_owner_def sub_ok_def tower_stats_def
      split: prod.split tower_grade.split)

lemma init_hero_le:
  assumes "init_hero pid info m = (info', m')"
  shows "em_le 1 m m' \<and> hero_of m' (pf_hero info') pid \<and> info' = info\<lparr>pf_hero := pf_hero info'\<rparr>"
proof -
  obtain eid m1 where n: "next_entity_id m = (eid, m1)" by (cases "next_entity_id m")
  define m2 where "m2 = create_hero eid (pf_team info) pid m1"
  have "em_le 1 m m2" unfolding m2_def create_hero_def
    by (rule em_le_create [OF n]) (simp_all add: ent_ok_new new_entity_props)
  moreover have "hero_of m2 eid pid" by (simp add: m2_def create_hero_def hero_of_def find_em_put new_entity_props)
  ultimately show ?thesis using assms n em_le_step0 [OF _ em_le_upd_all] benign_hero_setup
    by (auto simp: init_hero_def m2_def [symmetric] Let_def hero_of_def find_em_upd benign_def on_hero_frame
        set_skills_def set_fountain_def intro!: em_le_step0 [OF _ em_le_upd_all])
       (auto simp: set_pos_def ent_owner_def on_hero_def set_skills_def set_fountain_def split: entity_sub.splits)
qed

lemma init_heroes_le:
  "init_heroes ps m = (ps', m') \<Longrightarrow> em_inv m \<Longrightarrow> uint (em_next m) + int (length ps) < 2 ^ 64 \<Longrightarrow>
   em_le (int (length ps)) m m' \<and> map fst ps' = map fst ps \<and> (\<forall>(pid, i) \<in> set ps'. hero_of m' (pf_hero i) pid) \<and>
   length ps' = length ps"
proof (induction ps arbitrary: m ps' m')
  case (Cons p ps)
  obtain pid info where p: "p = (pid, info)" by (cases p)
  obtain info1 m1 where h: "init_hero pid info m = (info1, m1)" by (cases "init_hero pid info m")
  obtain ps1 m2 where r: "init_heroes ps m1 = (ps1, m2)" by (cases "init_heroes ps m1")
  have l1: "em_le 1 m m1" "hero_of m1 (pf_hero info1) pid" using init_hero_le [OF h] by auto
  have i1: "em_inv m1" "uint (em_next m1) \<le> uint (em_next m) + 1" using l1(1) Cons.prems by (auto simp: em_le_def)
  have l2: "em_le (int (length ps)) m1 m2" "map fst ps1 = map fst ps" "\<forall>(pid, i) \<in> set ps1. hero_of m2 (pf_hero i) pid" "length ps1 = length ps"
    using Cons.IH [OF r i1(1)] i1(2) Cons.prems(3) by auto
  have "hero_of m2 (pf_hero info1) pid" using l2(1) l1(2) i1 Cons.prems(3) by (auto simp: em_le_def)
  moreover have "em_le (int (length (p # ps))) m m2" using em_le_trans [OF l1(1) l2(1)] by (simp add: add.commute)
  ultimately show ?case using Cons.prems(1) l2 by (auto simp: p h r)
qed (auto simp: em_le_refl)

lemma em_le_foldl_n:
  "(\<And>m x. x \<in> set xs \<Longrightarrow> em_le n m (f m x)) \<Longrightarrow> 0 \<le> n \<Longrightarrow> em_le (n * int (length xs)) m (foldl f m xs)"
proof (induction xs arbitrary: m)
  case (Cons x xs)
  then have "em_le n m (f m x)" "em_le (n * int (length xs)) (f m x) (foldl f (f m x) xs)" by auto
  then have "em_le (n + n * int (length xs)) m (foldl f (f m x) xs)" using Cons.prems(2) by (intro em_le_trans) auto
  then show ?case by (simp add: algebra_simps)
qed (simp add: em_le_refl)

lemma em_le_default_tower: "em_le 1 m (default_tower m tg)"
  by (auto simp: default_tower_def create_tower_def split: prod.split intro!: em_le_create ent_ok_new new_entity_props)

lemma em_le_spawn_minion: "em_le 1 m (spawn_minion ty pos team m)"
proof -
  obtain eid m1 where n: "next_entity_id m = (eid, m1)" by (cases "next_entity_id m")
  have "em_le 1 m (create_minion eid team ty m1)" unfolding create_minion_def
    by (rule em_le_create [OF n]) (simp_all add: ent_ok_new new_entity_props)
  then show ?thesis
    by (auto simp: spawn_minion_def n intro!: em_le_step0 [OF _ em_le_upd_all] benign_hero_setup)
qed

lemma em_le_spawn_team: "em_le 4 m (spawn_team m team)"
proof -
  have e: "em_le (int k) m ((spawn_minion ty pos team ^^ k) m)" for k ty pos
  proof (induction k)
    case (Suc k)
    then show ?case using em_le_trans [OF Suc em_le_spawn_minion] by (simp add: add.commute)
  qed (simp add: em_le_refl)
  show ?thesis unfolding spawn_team_def Let_def
    using em_le_trans [OF e [of 3] em_le_spawn_minion] by simp
qed

end
