(* ===== verification/GM_BattleInv.thy ===== *)
theory GM_BattleInv
  imports GM_Battle "HOL-Library.Multiset"
begin

text \<open>
  Every reachable state of a battle room: the invariant that messages and ticks keep, and the
  properties of the room that follow from it.
\<close>

section \<open>The room's invariant\<close>

definition players_ok :: "entity_mgr \<Rightarrow> (u64 \<times> player_info) list \<Rightarrow> bool" where
  "players_ok m ps \<longleftrightarrow> um_ok ps \<and> (\<forall>pid i. map_of ps pid = Some i \<longrightarrow> pf_hero i = 0 \<or> hero_of m (pf_hero i) pid)"

lemma players_ok_update [gm_inv]:
  "players_ok m ps \<Longrightarrow> pf_hero i = 0 \<or> hero_of m (pf_hero i) pid \<Longrightarrow> players_ok m (AList.update pid i ps)"
  by (auto simp: players_ok_def um_get_update)

lemma players_ok_change:
  "players_ok m ps \<Longrightarrow> map_of ps pid = Some i \<Longrightarrow> pf_hero i' = pf_hero i \<Longrightarrow> players_ok m (AList.update pid i' ps)"
  by (rule players_ok_update) (auto simp: players_ok_def)

lemma players_ok_delete [gm_inv]: "players_ok m ps \<Longrightarrow> players_ok m (AList.delete pid ps)"
  by (auto simp: players_ok_def um_get_delete)

lemma players_ok_mono: "players_ok m ps \<Longrightarrow> (\<And>k p. hero_of m k p \<Longrightarrow> hero_of m' k p) \<Longrightarrow> players_ok m' ps"
  by (auto simp: players_ok_def)

text \<open>The bound on the ids: none before the scene is built, then at most one per player, eight
  towers and eight minions per frame; \<open>n\<close> is the number of ids a tick may still use.\<close>

definition ids_ok :: "int \<Rightarrow> battle \<Rightarrow> bool" where
  "ids_ok n b \<longleftrightarrow> (if br_state b = BSWaiting \<or> br_state b = BSLoading then br_em b = em_init
     else uint (em_next (br_em b)) + n \<le> 4294967305 + 8 * uint (br_frame b))"

definition battle_inv :: "int \<Rightarrow> battle \<Rightarrow> bool" where
  "battle_inv n b \<longleftrightarrow> em_inv (br_em b) \<and> players_ok (br_em b) (br_players b) \<and>
     ls_inv (bc_lockstep_ms (br_cfg b) div 33) (br_frame b) (br_ls b) \<and>
     length (br_players b) \<le> unat (bc_team_size (br_cfg b) * 2) \<and>
     (\<forall>fi \<in> set (br_history b). fi_inputs fi = []) \<and> length (br_history b) \<le> kReplayHistorySize \<and>
     cm_interval (br_cm b) = bc_checkpoint (br_cfg b) \<and> cm_max (br_cm b) = 10 \<and> length (cm_list (br_cm b)) \<le> 10 \<and>
     br_state b \<noteq> BSPaused \<and> ids_ok n b"

text \<open>What a room must be configured with: a lockstep timeout of at least one frame, checkpoints
  every so many frames, and the default towers.\<close>

definition cfg_ok :: "battle_config \<Rightarrow> bool" where
  "cfg_ok cfg \<longleftrightarrow> 33 \<le> bc_lockstep_ms cfg \<and> bc_checkpoint cfg \<noteq> 0 \<and> bc_towers cfg = []"

lemma battle_inv_new: "battle_inv 0 (battle_new cfg)"
  by (simp add: battle_inv_def battle_new_def em_inv_def mgr_ok_init ls_inv_init players_ok_def ids_ok_def
      checkpoint_new_def kReplayHistorySize_def)
     (simp add: em_init_def find_entity_def)

lemma battle_inv_callback: "battle_inv n b \<Longrightarrow> battle_inv n (battle_set_callback b)"
  by (simp add: battle_inv_def battle_set_callback_def ids_ok_def)

lemma um_length_update_mem: "map_of m k = Some v \<Longrightarrow> length (AList.update k v' m) = length m"
  by (auto simp: um_length_update dest: map_of_SomeD) (force dest: map_of_SomeD)

lemma inv_remove_player: "battle_inv n b \<Longrightarrow> battle_inv n (remove_player pid b)"
  using um_length_delete [of pid "br_players b"]
  by (auto simp: remove_player_def Let_def battle_inv_def ids_ok_def players_ok_delete split: option.split)

lemma inv_set_disconnected:
  "battle_inv n b \<Longrightarrow> map_of (br_players b) pid = Some info \<Longrightarrow> battle_inv n (set_disconnected pid info b)"
  using players_ok_change [of "br_em b" "br_players b" pid info "info\<lparr>pf_connected := False\<rparr>"]
  by (simp add: set_disconnected_def battle_inv_def ids_ok_def ls_inv_disconnected um_length_update_mem)

lemma inv_on_player_enter: "battle_inv n b \<Longrightarrow> battle_inv n (on_player_enter pid conn b)"
  by (auto simp: on_player_enter_def battle_full_def add_player_to_team_def Let_def battle_inv_def ids_ok_def
      um_get_update um_length_update players_ok_update split: option.split)

lemma inv_on_battle_ready: "battle_inv n b \<Longrightarrow> battle_inv n (on_battle_ready pid b)"
  by (auto simp: on_battle_ready_def battle_inv_def ids_ok_def um_length_update_mem
      intro: players_ok_change split: option.split)

lemma inv_battle_submit: "battle_inv n b \<Longrightarrow> battle_inv n (battle_submit pid i b)"
  by (auto simp: battle_submit_def battle_inv_def ids_ok_def ls_inv_submit)

lemma inv_handle_reconnect: "battle_inv n b \<Longrightarrow> battle_inv n (fst (handle_reconnect pid conn b))"
  by (auto simp: handle_reconnect_def Let_def battle_inv_def ids_ok_def um_length_update_mem ls_inv_reconnected
      intro: players_ok_change split: option.split)

lemma cfg_frame:
  "br_cfg (remove_player pid b) = br_cfg b" "br_cfg (set_disconnected pid i b) = br_cfg b"
  "br_cfg (on_player_enter pid conn b) = br_cfg b" "br_cfg (on_battle_ready pid b) = br_cfg b"
  "br_cfg (battle_submit pid inp b) = br_cfg b" "br_cfg (fst (handle_reconnect pid conn b)) = br_cfg b"
  "br_state (remove_player pid b) = br_state b" "br_state (set_disconnected pid i b) = br_state b"
  "br_state (on_player_enter pid conn b) = br_state b" "br_state (on_battle_ready pid b) = br_state b"
  "br_state (battle_submit pid inp b) = br_state b" "br_state (fst (handle_reconnect pid conn b)) = br_state b"
  "br_frame (remove_player pid b) = br_frame b" "br_frame (set_disconnected pid i b) = br_frame b"
  "br_frame (on_player_enter pid conn b) = br_frame b" "br_frame (on_battle_ready pid b) = br_frame b"
  "br_frame (battle_submit pid inp b) = br_frame b" "br_frame (fst (handle_reconnect pid conn b)) = br_frame b"
  by (auto simp: remove_player_def set_disconnected_def on_player_enter_def on_battle_ready_def battle_submit_def
      handle_reconnect_def add_player_to_team_def Let_def split: option.split)

lemma inv_on_message:
  assumes "battle_inv n b" "battle_on_message m b = Some (b', out)"
  shows "battle_inv n b' \<and> br_cfg b' = br_cfg b \<and> br_state b' = br_state b \<and> br_frame b' = br_frame b"
proof -
  have hr: "battle_inv n b'" "br_cfg b' = br_cfg b" "br_state b' = br_state b" "br_frame b' = br_frame b"
    if "handle_reconnect pid conn b = (b', out)" for pid conn
    using inv_handle_reconnect [OF assms(1), of pid conn] cfg_frame(6,12,18) [of pid conn b] that
    by simp_all
  show ?thesis using assms
    by (cases m) (auto simp: battle_on_message_def msg_type_of_def on_hero_move_input_def on_hero_cast_skill_def
        on_player_leave_def on_player_disconnect_def cfg_frame hr
        intro: inv_on_player_enter inv_remove_player inv_set_disconnected inv_on_battle_ready inv_battle_submit
        split: option.splits if_splits)
qed


section \<open>Players and their heroes\<close>

text \<open>\<open>own_hero b pid\<close>: the player is in the room and its hero key is that of a hero it owns.\<close>

definition own_hero :: "battle \<Rightarrow> u64 \<Rightarrow> bool" where
  "own_hero b pid \<longleftrightarrow> (\<exists>i e h. map_of (br_players b) pid = Some i \<and> pf_hero i \<noteq> 0 \<and>
     find_entity (br_em b) (pf_hero i) = Some e \<and> en_sub e = SHero h \<and> h_owner h = pid)"

text \<open>\<open>heroes_kept b b'\<close>: everybody in \<open>b'\<close> was in \<open>b\<close> with the same hero key.\<close>

definition heroes_kept :: "battle \<Rightarrow> battle \<Rightarrow> bool" where
  "heroes_kept b b' \<longleftrightarrow> (\<forall>pid i'. map_of (br_players b') pid = Some i' \<longrightarrow>
     (\<exists>i. map_of (br_players b) pid = Some i \<and> pf_hero i' = pf_hero i))"

lemma heroes_kept_trans: "heroes_kept b b' \<Longrightarrow> heroes_kept b' b'' \<Longrightarrow> heroes_kept b b''"
  by (fastforce simp: heroes_kept_def)

lemma heroes_kept_same: "br_players b' = br_players b \<Longrightarrow> heroes_kept b b'"
  by (simp add: heroes_kept_def)

lemma heroes_kept_remove: "heroes_kept b (remove_player pid b)"
  by (auto simp: heroes_kept_def remove_player_def Let_def um_get_delete split: option.split if_splits)

lemma heroes_kept_drop: "heroes_kept b (drop_disconnected frame b)"
proof -
  have d: "heroes_kept b (b'\<lparr>br_disc := x\<rparr>)" if "heroes_kept b b'" for b' x
    using that by (rule heroes_kept_trans) (simp add: heroes_kept_same)
  have r: "heroes_kept b (remove_player pid b')" if "heroes_kept b b'" for b' pid
    using that heroes_kept_remove by (rule heroes_kept_trans)
  show ?thesis
    unfolding drop_disconnected_def Let_def
    by (rule foldl_invariant [where P = "heroes_kept b"]) (auto simp: heroes_kept_same intro: d r split: prod.split)
qed

lemma own_hero_kept:
  assumes "battle_inv n b'" "own_hero b pid" "map_of (br_players b') pid = Some i'"
    "\<exists>i. map_of (br_players b) pid = Some i \<and> pf_hero i' = pf_hero i"
  shows "own_hero b' pid"
  using assms by (fastforce simp: own_hero_def battle_inv_def players_ok_def hero_of_def owner_hero)

lemma own_hero_message:
  assumes "battle_inv n b" "battle_on_message m b = Some (b', out)" "own_hero b pid" "\<forall>pos conn. m \<noteq> PlayerEnterMsg pid pos conn"
    "map_of (br_players b') pid = Some i'"
  shows "own_hero b' pid"
proof -
  have k: "\<exists>i. map_of (br_players b) pid = Some i \<and> pf_hero i' = pf_hero i"
    using assms(2,4,5)
    by (cases m) (auto simp: battle_on_message_def msg_type_of_def on_hero_move_input_def on_hero_cast_skill_def
        on_player_leave_def on_player_disconnect_def battle_submit_def set_disconnected_def remove_player_def Let_def
        on_player_enter_def add_player_to_team_def on_battle_ready_def handle_reconnect_def um_get_update um_get_delete
        split: option.splits if_splits)
  show ?thesis using inv_on_message [OF assms(1,2)] by (blast intro: own_hero_kept assms k)
qed

section \<open>A tick\<close>

lemma ls_inv_later: "ls_inv t f s \<Longrightarrow> f \<le> g \<Longrightarrow> ls_inv t g s"
  by (auto simp: ls_inv_def)

lemma inv_em:
  assumes "battle_inv n b" "em_le k (br_em b) m" "0 \<le> k" "k \<le> n" "br_state b \<noteq> BSWaiting" "br_state b \<noteq> BSLoading"
  shows "battle_inv (n - k) (b\<lparr>br_em := m\<rparr>)"
proof -
  have "uint (em_next (br_em b)) + n \<le> 4294967305 + 8 * uint (br_frame b)" using assms by (simp add: battle_inv_def ids_ok_def)
  moreover have "uint (br_frame b) < 2 ^ 32" using uint_bounded [of "br_frame b"] by simp
  ultimately have "em_inv m" "uint (em_next m) \<le> uint (em_next (br_em b)) + k" "\<And>j p. hero_of (br_em b) j p \<Longrightarrow> hero_of m j p"
    using assms by (auto simp: em_le_def battle_inv_def)
  then show ?thesis using assms players_ok_mono [of "br_em b" "br_players b" m]
    by (auto simp: battle_inv_def ids_ok_def)
qed

lemma inv_em0:
  "battle_inv n b \<Longrightarrow> em_le 0 (br_em b) m \<Longrightarrow> 0 \<le> n \<Longrightarrow> br_state b \<noteq> BSWaiting \<Longrightarrow> br_state b \<noteq> BSLoading \<Longrightarrow>
   battle_inv n (b\<lparr>br_em := m\<rparr>)"
  using inv_em [of n b 0 m] by simp

lemma process_confirmed_empty:
  "\<forall>fi \<in> set fis. fi_inputs fi = [] \<Longrightarrow> battle_inv n b \<Longrightarrow>
   \<exists>h. process_confirmed fis b = Some (b\<lparr>br_history := h\<rparr>) \<and> battle_inv n (b\<lparr>br_history := h\<rparr>)"
proof (induction fis arbitrary: b)
  case Nil
  then show ?case by (intro exI [of _ "br_history b"]) simp
next
  case (Cons fi fis)
  define h where "h = (if kReplayHistorySize < length (br_history b @ [fi]) then tl (br_history b @ [fi]) else br_history b @ [fi])"
  have "battle_inv n (b\<lparr>br_history := h\<rparr>)"
    using Cons.prems by (cases "br_history b") (auto simp: battle_inv_def h_def ids_ok_def)
  moreover have "process_confirmed (fi # fis) b = process_confirmed fis (b\<lparr>br_history := h\<rparr>)"
    using Cons.prems by (simp add: process_frame_inputs_def h_def Let_def)
  ultimately show ?case using Cons.IH [of "b\<lparr>br_history := h\<rparr>"] Cons.prems by auto
qed

lemma get_player_hero_ok:
  assumes "battle_inv n b"
  shows "get_player_hero b pid \<noteq> NotAHero"
    and "get_player_hero b pid = HeroAt eid h e \<Longrightarrow> find_entity (br_em b) eid = Some e \<and> en_sub e = SHero h"
proof -
  have z: "find_entity (br_em b) 0 = None"
    using assms by (cases "find_entity (br_em b) 0") (auto simp: battle_inv_def dest: em_inv_find)
  have p: "pf_hero i = 0 \<or> hero_of (br_em b) (pf_hero i) pid" if "map_of (br_players b) pid = Some i" for i
    using assms that by (auto simp: battle_inv_def players_ok_def)
  show "get_player_hero b pid \<noteq> NotAHero"
    using z p by (fastforce simp: get_player_hero_def hero_of_def ent_owner_def split: option.splits entity_sub.splits)
  show "get_player_hero b pid = HeroAt eid h e \<Longrightarrow> find_entity (br_em b) eid = Some e \<and> en_sub e = SHero h"
    by (auto simp: get_player_hero_def split: option.splits entity_sub.splits)
qed

lemma trigger_respawns_ok:
  "battle_inv n b \<Longrightarrow> 0 \<le> n \<Longrightarrow> br_state b \<noteq> BSWaiting \<Longrightarrow> br_state b \<noteq> BSLoading \<Longrightarrow>
   \<exists>m. trigger_respawns ps b = Some (b\<lparr>br_em := m\<rparr>) \<and> battle_inv n (b\<lparr>br_em := m\<rparr>)"
proof (induction ps arbitrary: b)
  case Nil
  then show ?case by (intro exI [of _ "br_em b"]) simp
next
  case (Cons pid ps)
  show ?case
  proof (cases "get_player_hero b pid")
    case (HeroAt eid h e)
    define m1 where "m1 = em_upd eid (on_hero (trigger_respawn 10000)) (em_upd eid (on_hero add_death) (br_em b))"
    have "em_le 0 (br_em b) m1"
      unfolding m1_def by (rule em_le_trans0 [OF em_le_upd_all em_le_upd_all]) (rule benign_add_death benign_respawn)+
    then have "battle_inv n (b\<lparr>br_em := m1\<rparr>)" using Cons.prems by (intro inv_em0)
    then show ?thesis using Cons.IH [of "b\<lparr>br_em := m1\<rparr>"] Cons.IH [of b] Cons.prems
      by (auto simp: HeroAt m1_def [symmetric])
  qed (use Cons get_player_hero_ok [OF Cons.prems(1), of pid] in auto)
qed

lemma inv_spawn_timer:
  assumes "battle_inv 8 b" "br_state b \<noteq> BSWaiting" "br_state b \<noteq> BSLoading"
  shows "battle_inv 0 (spawn_timer step b)"
proof -
  have "em_le (4 * int (length [TeamBlue, TeamRed])) (br_em b) (foldl spawn_team (br_em b) [TeamBlue, TeamRed])"
    by (rule em_le_foldl_n) (simp_all add: em_le_spawn_team)
  then have "battle_inv (8 - 8) (b\<lparr>br_em := foldl spawn_team (br_em b) [TeamBlue, TeamRed]\<rparr>)"
    using assms by (intro inv_em) simp_all
  moreover have "battle_inv 0 b" using assms by (simp add: battle_inv_def ids_ok_def)
  ultimately show ?thesis using assms(2,3)
    by (simp add: spawn_timer_def spawn_minions_def Let_def battle_inv_def ids_ok_def)
qed

lemma inv_checkpoint_due:
  assumes "battle_inv n b" "bc_checkpoint (br_cfg b) \<noteq> 0"
  shows "\<exists>b'. checkpoint_due frame b = Some b' \<and> battle_inv n b' \<and> br_cfg b' = br_cfg b \<and> br_state b' = br_state b \<and>
    br_frame b' = br_frame b \<and> br_players b' = br_players b"
  using assms by (auto simp: checkpoint_due_def save_checkpoint_def save_snapshot_def trim_front_drop battle_inv_def ids_ok_def)

lemma inv_check_win:
  assumes "battle_inv n b" "br_state b = BSFighting" "check_win_condition env b = (b', out)"
  shows "battle_inv n b' \<and> br_cfg b' = br_cfg b \<and> br_state b' \<in> {BSFighting, BSFinished} \<and>
    br_frame b' = br_frame b \<and> br_players b' = br_players b"
  using assms by (auto simp: check_win_condition_def Let_def battle_inv_def ids_ok_def split: if_splits)

lemma inv_disc: "battle_inv n b \<Longrightarrow> battle_inv n (b\<lparr>br_disc := x\<rparr>)"
  by (simp add: battle_inv_def ids_ok_def)

lemma inv_drop_disconnected:
  assumes "battle_inv n b"
  shows "battle_inv n (drop_disconnected frame b) \<and> br_cfg (drop_disconnected frame b) = br_cfg b \<and>
     br_state (drop_disconnected frame b) = br_state b \<and> br_frame (drop_disconnected frame b) = br_frame b"
proof -
  define P where "P b' \<longleftrightarrow> battle_inv n b' \<and> br_cfg b' = br_cfg b \<and> br_state b' = br_state b \<and> br_frame b' = br_frame b" for b'
  have d: "P (b'\<lparr>br_disc := x\<rparr>)" if "P b'" for b' x
    using that by (simp add: P_def inv_disc)
  have r: "P (remove_player pid b')" if "P b'" for b' pid
    using that by (simp add: P_def inv_remove_player cfg_frame)
  have "P (drop_disconnected frame b)"
    unfolding drop_disconnected_def Let_def
    by (rule foldl_invariant [where P = P]) (use assms in \<open>auto simp: P_def [of b] intro: d r split: prod.split\<close>)
  then show ?thesis by (simp add: P_def)
qed


lemma inv_hashes: "battle_inv n b \<Longrightarrow> battle_inv n (b\<lparr>br_hashes := x\<rparr>)"
  by (simp add: battle_inv_def ids_ok_def)

lemma inv_weaken: "battle_inv n b \<Longrightarrow> 0 \<le> n \<Longrightarrow> battle_inv 0 b"
  by (auto simp: battle_inv_def ids_ok_def split: if_splits)

text \<open>The start of a tick makes room for eight ids more.\<close>

lemma inv_next_frame:
  assumes "battle_inv 0 b" "unat (br_frame b) + 34 < 2 ^ 32"
  shows "battle_inv 8 (b\<lparr>br_frame := br_frame b + 1, br_ls := tick_frame_counter (br_ls b)\<rparr>)"
proof -
  have "unat (br_frame b) + 34 < 4294967296" using assms(2) by simp
  then have "uint (br_frame b) + 34 < 4294967296" unfolding uint_nat by linarith
  then have "uint (br_frame b + 1) = uint (br_frame b) + 1" by (simp add: uint_word_ariths)
  then have f: "br_frame b \<le> br_frame b + 1" "uint (br_frame b + 1) = uint (br_frame b) + 1" by (simp_all add: word_le_def)
  have l: "ls_inv (bc_lockstep_ms (br_cfg b) div 33) (br_frame b + 1) (tick_frame_counter (br_ls b))"
    using assms(1) f(1) by (intro ls_inv_later [OF ls_inv_tick]) (simp_all add: battle_inv_def)
  have i: "ids_ok 8 (b\<lparr>br_frame := br_frame b + 1, br_ls := tick_frame_counter (br_ls b)\<rparr>)"
    using assms(1) f(2) by (auto simp: battle_inv_def ids_ok_def split: if_splits)
  show ?thesis using assms(1) l i by (simp add: battle_inv_def)
qed

lemma inv_tick_fighting:
  assumes inv: "battle_inv 8 b" and st: "br_state b = BSFighting" and cfg: "cfg_ok (br_cfg b)"
    and ls: "ls_inv (bc_lockstep_ms (br_cfg b) div 33) f (br_ls b)" "f < br_frame b" "unat (br_frame b) + 33 < 2 ^ 32"
  shows "\<exists>b' out. tick_fighting env (br_frame b) b = Some (b', out) \<and> battle_inv 0 b' \<and> br_cfg b' = br_cfg b \<and>
    br_state b' \<in> {BSFighting, BSFinished} \<and> br_frame b' = br_frame b \<and> heroes_kept b b'"
proof -
  define t where "t = bc_lockstep_ms (br_cfg b) div 33"
  have "0 < t"
    using cfg by (simp add: cfg_ok_def t_def word_less_nat_alt unat_div word_le_nat_alt div_greater_zero_iff)
  then obtain ls' out where a: "try_advance (set_current_frame (br_frame b) (br_ls b)) = Some (ls', out)"
      "ls_inv t (br_frame b) ls'" "\<forall>fi \<in> set out. fi_inputs fi = []"
    using try_advance_room [of t f "br_ls b" "br_frame b"] ls unfolding t_def by blast
  define b1 where "b1 = b\<lparr>br_ls := ls'\<rparr>"
  have b1: "battle_inv 8 b1" using inv a(2) by (simp add: b1_def battle_inv_def ids_ok_def t_def)
  obtain h where p: "process_confirmed out b1 = Some (b1\<lparr>br_history := h\<rparr>)" "battle_inv 8 (b1\<lparr>br_history := h\<rparr>)"
    using process_confirmed_empty [OF a(3) b1] by blast
  define b2 where "b2 = b1\<lparr>br_history := h\<rparr>"
  define b3 where "b3 = b2\<lparr>br_em := tick_combat 33 (tick_all (ev_atan2 env) 33 (br_em b2))\<rparr>"
  have s2: "br_state b2 = BSFighting" "br_cfg b2 = br_cfg b" "br_frame b2 = br_frame b"
    using st by (simp_all add: b2_def b1_def)
  have b3: "battle_inv 8 b3" unfolding b3_def
    using p(2) s2 by (intro inv_em0 em_le_trans0 [OF em_le_tick_all em_le_tick_combat]) (simp_all add: b2_def)
  have s3: "br_state b3 = BSFighting" "br_cfg b3 = br_cfg b" "br_frame b3 = br_frame b" using s2 by (simp_all add: b3_def)
  obtain m where r: "trigger_respawns (map fst (br_players b3)) b3 = Some (b3\<lparr>br_em := m\<rparr>)" "battle_inv 8 (b3\<lparr>br_em := m\<rparr>)"
    using trigger_respawns_ok [OF b3, of "map fst (br_players b3)"] s3 by auto
  define b5 where "b5 = spawn_timer 33 (b3\<lparr>br_em := m\<rparr>)"
  have b5: "battle_inv 0 b5" unfolding b5_def using r(2) s3 by (intro inv_spawn_timer) simp_all
  have s5: "br_state b5 = BSFighting" "br_cfg b5 = br_cfg b" "br_frame b5 = br_frame b" "br_players b5 = br_players b"
    using s3 by (simp_all add: b5_def spawn_timer_def spawn_minions_def Let_def b3_def b2_def b1_def)
  define b6 where "b6 = b5\<lparr>br_em := clean_projectiles (br_em b5)\<rparr>"
  have b6: "battle_inv 0 b6" unfolding b6_def using b5 s5 by (intro inv_em0 em_le_clean) simp_all
  have s6: "br_state b6 = BSFighting" "br_cfg b6 = br_cfg b" "br_frame b6 = br_frame b" "br_players b6 = br_players b"
    using s5 by (simp_all add: b6_def)
  obtain b7 where c: "checkpoint_due (br_frame b) b6 = Some b7" "battle_inv 0 b7" "br_cfg b7 = br_cfg b"
      "br_state b7 = BSFighting" "br_frame b7 = br_frame b" "br_players b7 = br_players b"
    using inv_checkpoint_due [OF b6, of "br_frame b"] cfg s6 by (auto simp: cfg_ok_def)
  obtain b8 out2 where w: "check_win_condition env b7 = (b8, out2)" by (cases "check_win_condition env b7")
  note w' = inv_check_win [OF c(2,4) w]
  define b9 where "b9 = drop_disconnected (br_frame b) b8"
  have b9: "battle_inv 0 b9" "br_cfg b9 = br_cfg b" "br_state b9 \<in> {BSFighting, BSFinished}" "br_frame b9 = br_frame b"
    using inv_drop_disconnected [of 0 b8 "br_frame b"] w' c by (auto simp: b9_def)
  have "heroes_kept b b8" using w' c by (simp add: heroes_kept_same)
  then have kept: "heroes_kept b (b9\<lparr>br_hashes := br_hashes b9 @ [compute_frame_hash (br_em b9)]\<rparr>)"
    using heroes_kept_trans [OF _ heroes_kept_drop] by (simp add: b9_def heroes_kept_def)
  have r2: "trigger_respawns (map fst (br_players b2)) b3 = Some (b3\<lparr>br_em := m\<rparr>)"
    using r(1) by (simp add: b3_def)
  have "tick_fighting env (br_frame b) b = Some (b9\<lparr>br_hashes := br_hashes b9 @ [compute_frame_hash (br_em b9)]\<rparr>,
      broadcast_battle_state env b7 @ out2)"
    using a(1) p(1) r2 c(1) w
    by (simp add: tick_fighting_def b1_def [symmetric] b2_def [symmetric] b3_def [symmetric] b5_def [symmetric]
        b6_def [symmetric] b9_def [symmetric] Let_def)
  then show ?thesis using b9 kept by (auto intro: inv_hashes)
qed

lemma inv_scene:
  assumes inv: "battle_inv 8 b" and st: "br_state b = BSLoading" and cfg: "bc_towers (br_cfg b) = []"
  shows "battle_inv 0 (change_state BSCountdown ((init_battle_scene b)\<lparr>br_countdown := 3\<rparr>)) \<and>
    (\<forall>pid \<in> dom (map_of (br_players (init_battle_scene b))). own_hero (init_battle_scene b) pid) \<and>
    map fst (br_players (init_battle_scene b)) = map fst (br_players b)"
proof -
  obtain ps m where h: "init_heroes (br_players b) em_init = (ps, m)" by (cases "init_heroes (br_players b) em_init")
  have em: "br_em b = em_init" using inv st by (simp add: battle_inv_def ids_ok_def)
  have ei: "em_inv em_init" using inv em by (simp add: battle_inv_def)
  have n1: "uint (em_next em_init) = 1" by (simp add: em_init_def)
  have "unat (bc_team_size (br_cfg b) * 2) < 4294967296" using unat32_lt [of "bc_team_size (br_cfg b) * 2"] by simp
  then have len: "int (length (br_players b)) < 4294967296" using inv by (simp add: battle_inv_def)
  then have ih: "em_le (int (length (br_players b))) em_init m" "map fst ps = map fst (br_players b)"
      "\<forall>(pid, i) \<in> set ps. hero_of m (pf_hero i) pid" "length ps = length (br_players b)"
    using init_heroes_le [OF h ei] n1 by auto
  define grades where "grades = [(TeamBlue, TGOuter), (TeamBlue, TGInner), (TeamBlue, TGBase), (TeamBlue, TGCrystal),
    (TeamRed, TGOuter), (TeamRed, TGInner), (TeamRed, TGBase), (TeamRed, TGCrystal)]"
  define m2 where "m2 = foldl default_tower m grades"
  have "em_le (1 * int (length grades)) m m2" unfolding m2_def by (rule em_le_foldl_n) (simp_all add: em_le_default_tower)
  then have t8: "em_le 8 m m2" by (simp add: grades_def)
  from em_le_trans [OF ih(1) this] have "em_le (8 + int (length (br_players b))) em_init m2"
    by (simp add: add.commute)
  then have m2: "em_inv m2" "uint (em_next m2) \<le> 9 + int (length (br_players b))"
    using ei n1 len by (auto simp: em_le_def)
  have "em_inv m" "uint (em_next m) \<le> 1 + int (length (br_players b))" using ih(1) ei n1 len by (auto simp: em_le_def)
  then have hm: "hero_of m2 k p" if "hero_of m k p" for k p
    using t8 that len by (auto simp: em_le_def)
  have "players_ok m2 ps" using inv ih(2,3) hm
    by (auto simp: players_ok_def um_ok_def battle_inv_def dest!: map_of_SomeD)
  moreover have "init_battle_scene b = b\<lparr>br_players := ps, br_em := m2\<rparr>"
    by (simp add: init_battle_scene_def em h cfg m2_def grades_def)
  moreover have "0 \<le> uint (br_frame b)" by simp
  then have "uint (em_next m2) \<le> 4294967305 + 8 * uint (br_frame b)" using m2(2) len by linarith
  moreover have "own_hero (b\<lparr>br_players := ps, br_em := m2\<rparr>) pid" if p: "map_of ps pid = Some i" for pid i
  proof -
    have "hero_of m2 (pf_hero i) pid" using ih(3) hm map_of_SomeD [OF p] by auto
    moreover from this obtain e where "find_entity m2 (pf_hero i) = Some e" by (auto simp: hero_of_def)
    then have "0 < pf_hero i" using em_inv_find [OF m2(1)] by blast
    ultimately show ?thesis using p by (auto simp: own_hero_def hero_of_def owner_hero)
  qed
  ultimately show ?thesis using inv m2(1) ih(2,4)
    by (auto simp: battle_inv_def change_state_def ids_ok_def)
qed

text \<open>The tick that builds the scene gives every player its own hero; the others keep the keys.\<close>

lemma tick_heroes:
  assumes inv: "battle_inv 0 b" and cfg: "cfg_ok (br_cfg b)" and fr: "unat (br_frame b) + 34 < 2 ^ 32"
    and t: "battle_tick env now b = Some (b', out)"
  shows "if br_state b = BSLoading \<and> br_state b' = BSCountdown
    then (\<forall>pid \<in> dom (map_of (br_players b')). own_hero b' pid) \<and> map fst (br_players b') = map fst (br_players b)
    else heroes_kept b b'"
proof -
  define b1 where "b1 = b\<lparr>br_frame := br_frame b + 1, br_ls := tick_frame_counter (br_ls b)\<rparr>"
  have b1: "battle_inv 8 b1" using inv_next_frame [OF inv fr] by (simp add: b1_def)
  have f: "br_cfg b1 = br_cfg b" "br_state b1 = br_state b" "br_frame b1 = br_frame b + 1" "br_players b1 = br_players b"
    by (simp_all add: b1_def)
  have un: "unat (br_frame b + 1) = unat (br_frame b) + 1" using fr by (simp add: unat_word_ariths)
  have tick: "battle_tick env now b = (case br_state b1 of
           BSWaiting \<Rightarrow> Some (tick_waiting b1, []) | BSLoading \<Rightarrow> Some (tick_loading env b1)
         | BSCountdown \<Rightarrow> Some (tick_countdown (br_frame b1) b1, []) | BSFighting \<Rightarrow> tick_fighting env (br_frame b1) b1
         | BSPaused \<Rightarrow> Some (b1, []) | BSFinished \<Rightarrow> Some (b1, []))"
    unfolding b1_def battle_tick_def Let_def by (cases "br_state b") simp_all
  show ?thesis
  proof (cases "br_state b")
    case BSLoading
    have "\<forall>pid \<in> dom (map_of (br_players (init_battle_scene b1))).
        own_hero (change_state BSCountdown ((init_battle_scene b1)\<lparr>br_countdown := 3\<rparr>)) pid"
      using inv_scene [OF b1] BSLoading f cfg by (simp add: cfg_ok_def own_hero_def change_state_def)
    moreover have "map fst (br_players (init_battle_scene b1)) = map fst (br_players b)"
      using inv_scene [OF b1] BSLoading f cfg by (simp add: cfg_ok_def)
    ultimately show ?thesis using t f BSLoading
      by (simp add: tick tick_loading_def Let_def heroes_kept_same split: if_splits) (auto simp: change_state_def)
  next
    case BSFighting
    have "ls_inv (bc_lockstep_ms (br_cfg b1) div 33) (br_frame b) (br_ls b1)"
      using inv by (simp add: b1_def battle_inv_def ls_inv_tick)
    moreover have "br_frame b < br_frame b1" using un f by (simp add: word_less_nat_alt)
    ultimately have "heroes_kept b1 b'"
      using inv_tick_fighting [OF b1, of "br_frame b" env] BSFighting f cfg fr un t by (auto simp: tick)
    then show ?thesis using BSFighting f by (auto simp: heroes_kept_def)
  qed (use t f in \<open>auto simp: tick tick_waiting_def tick_countdown_def change_state_def Let_def heroes_kept_def split: if_splits\<close>)
qed

lemma inv_tick:
  assumes inv: "battle_inv 0 b" and cfg: "cfg_ok (br_cfg b)" and fr: "unat (br_frame b) + 34 < 2 ^ 32"
  shows "\<exists>b' out. battle_tick env now b = Some (b', out) \<and> battle_inv 0 b' \<and> br_cfg b' = br_cfg b \<and>
    br_frame b' = br_frame b + 1 \<and> (br_state b, br_state b') \<in>
      {(s, s) | s. True} \<union> {(BSWaiting, BSLoading), (BSLoading, BSCountdown), (BSCountdown, BSFighting), (BSFighting, BSFinished)}"
proof -
  define b1 where "b1 = b\<lparr>br_frame := br_frame b + 1, br_ls := tick_frame_counter (br_ls b)\<rparr>"
  have b1: "battle_inv 8 b1" using inv_next_frame [OF inv fr] by (simp add: b1_def)
  then have w: "battle_inv 0 b1" by (rule inv_weaken) simp
  have f: "br_cfg b1 = br_cfg b" "br_state b1 = br_state b" "br_frame b1 = br_frame b + 1" by (simp_all add: b1_def)
  have un: "unat (br_frame b + 1) = unat (br_frame b) + 1" using fr by (simp add: unat_word_ariths)
  have tick: "battle_tick env now b = (case br_state b1 of
           BSWaiting \<Rightarrow> Some (tick_waiting b1, []) | BSLoading \<Rightarrow> Some (tick_loading env b1)
         | BSCountdown \<Rightarrow> Some (tick_countdown (br_frame b1) b1, []) | BSFighting \<Rightarrow> tick_fighting env (br_frame b1) b1
         | BSPaused \<Rightarrow> Some (b1, []) | BSFinished \<Rightarrow> Some (b1, []))"
    unfolding b1_def battle_tick_def Let_def by (cases "br_state b") simp_all
  show ?thesis
  proof (cases "br_state b")
    case BSWaiting
    then show ?thesis using w f
      by (auto simp: tick tick_waiting_def change_state_def) (auto simp: battle_inv_def ids_ok_def)
  next
    case BSLoading
    have "battle_inv 0 (change_state BSCountdown ((init_battle_scene b1)\<lparr>br_countdown := 3\<rparr>))"
      using inv_scene [OF b1] BSLoading f cfg by (simp add: cfg_ok_def)
    moreover have "br_cfg (init_battle_scene b1) = br_cfg b" "br_frame (init_battle_scene b1) = br_frame b + 1"
      using f by (simp_all add: init_battle_scene_def Let_def split: prod.split)
    ultimately show ?thesis using w f BSLoading
      by (auto simp: tick tick_loading_def Let_def) (simp_all add: change_state_def)
  next
    case BSCountdown
    then show ?thesis using w f
      by (auto simp: tick tick_countdown_def Let_def change_state_def battle_inv_def ids_ok_def ls_inv_players)
  next
    case BSFighting
    have "ls_inv (bc_lockstep_ms (br_cfg b1) div 33) (br_frame b) (br_ls b1)"
      using inv by (simp add: b1_def battle_inv_def ls_inv_tick)
    moreover have "br_frame b < br_frame b1" using un f by (simp add: word_less_nat_alt)
    ultimately show ?thesis
      using inv_tick_fighting [OF b1, of "br_frame b" env] BSFighting f cfg fr un by (auto simp: tick)
  qed (use w f inv in \<open>auto simp: tick battle_inv_def\<close>)
qed

lemma tick_own_heroes:
  assumes "battle_inv 0 b" "cfg_ok (br_cfg b)" "unat (br_frame b) + 34 < 2 ^ 32" "battle_tick env now b = Some (b', out)"
  shows "(br_state b = BSLoading \<and> br_state b' = BSCountdown \<longrightarrow> (\<forall>pid \<in> dom (map_of (br_players b)). own_hero b' pid)) \<and>
    (\<forall>pid \<in> dom (map_of (br_players b')). own_hero b pid \<longrightarrow> own_hero b' pid)"
proof (cases "br_state b = BSLoading \<and> br_state b' = BSCountdown")
  case True
  then show ?thesis using tick_heroes [OF assms] by (simp add: dom_map_of_conv_image_fst set_map [symmetric] del: set_map)
next
  case False
  have "battle_inv 0 b'" using inv_tick [OF assms(1-3), of env now] assms(4) by auto
  moreover have "heroes_kept b b'" using tick_heroes [OF assms] False by (simp split: if_splits)
  ultimately show ?thesis using False by (auto simp: heroes_kept_def intro: own_hero_kept)
qed

section \<open>Runs of a room\<close>

inductive battle_run :: "battle_env \<Rightarrow> battle_config \<Rightarrow> battle \<Rightarrow> bool" for env cfg where
  run_start: "battle_run env cfg (battle_set_callback (battle_new cfg))"
| run_message: "battle_run env cfg b \<Longrightarrow> battle_on_message m b = Some (b', out) \<Longrightarrow> battle_run env cfg b'"
| run_tick: "battle_run env cfg b \<Longrightarrow> unat (br_frame b) + 34 < 2 ^ 32 \<Longrightarrow> battle_tick env now b = Some (b', out) \<Longrightarrow>
    battle_run env cfg b'"

lemma run_inv: "battle_run env cfg b \<Longrightarrow> cfg_ok cfg \<Longrightarrow> battle_inv 0 b \<and> br_cfg b = cfg"
proof (induction rule: battle_run.induct)
  case run_start
  then show ?case using battle_inv_callback [OF battle_inv_new [of cfg]] by (simp add: battle_set_callback_def battle_new_def)
next
  case (run_message b m b' out)
  then show ?case using inv_on_message by auto
next
  case (run_tick b now b' out)
  then show ?case using inv_tick [of b env now] by auto
qed

section \<open>Properties\<close>


text \<open>C6: the life cycle. A tick leaves the state or takes it one step along Waiting, Loading,
  Countdown, Fighting, Finished; no message changes it; Paused is never reached.\<close>

theorem battle_lifecycle:
  assumes "cfg_ok cfg" and "battle_run env cfg b" and "unat (br_frame b) + 34 < 2 ^ 32"
  shows "br_state b \<noteq> BSPaused \<and>
    (\<exists>b' out. battle_tick env now b = Some (b', out) \<and> br_frame b' = br_frame b + 1 \<and>
       (br_state b' = br_state b \<or> (br_state b, br_state b') \<in>
         {(BSWaiting, BSLoading), (BSLoading, BSCountdown), (BSCountdown, BSFighting), (BSFighting, BSFinished)})) \<and>
    (\<forall>b' out. battle_on_message m b = Some (b', out) \<longrightarrow> br_state b' = br_state b)"
proof -
  have inv: "battle_inv 0 b" "br_cfg b = cfg" using run_inv [OF assms(2,1)] by auto
  obtain b' out where t: "battle_tick env now b = Some (b', out)" "br_frame b' = br_frame b + 1"
    "(br_state b, br_state b') \<in> {(s, s) | s. True} \<union>
       {(BSWaiting, BSLoading), (BSLoading, BSCountdown), (BSCountdown, BSFighting), (BSFighting, BSFinished)}"
    using inv_tick [OF inv(1), of env now] assms(1,3) inv(2) by blast
  have "br_state b \<noteq> BSPaused" using inv(1) by (simp add: battle_inv_def)
  moreover have "br_state b' = br_state b \<or> (br_state b, br_state b') \<in>
         {(BSWaiting, BSLoading), (BSLoading, BSCountdown), (BSCountdown, BSFighting), (BSFighting, BSFinished)}"
    using t(3) by auto
  moreover have "\<forall>b' out. battle_on_message m b = Some (b', out) \<longrightarrow> br_state b' = br_state b"
    using inv_on_message [OF inv(1), of m] by blast
  ultimately show ?thesis using t(1,2) by blast
qed

text \<open>C7: in every state a room reaches, each entity is filed under its own id, ids are not zero and
  below the next one, hit points lie between zero and the maximum, and the room holds no more players
  than two teams. A player has either no hero key (it came before the scene was built, or entered
  after that) or the key of an entity that is a hero and owned by it. The tick that builds the
  scene gives every player in the room its own hero, and from then on no tick and no message takes it
  away from a player that stays, unless that player enters again, which clears its key.\<close>

theorem battle_entities_ok:
  assumes "cfg_ok cfg" and "battle_run env cfg b"
  shows "(\<forall>k e. find_entity (br_em b) k = Some e \<longrightarrow> en_id e = k \<and> 0 < k \<and> k < em_next (br_em b) \<and>
      0 \<le> sint (en_hp e) \<and> sint (en_hp e) \<le> sint (en_max_hp e)) \<and>
    length (br_players b) \<le> unat (bc_team_size cfg * 2) \<and>
    (\<forall>pid i. map_of (br_players b) pid = Some i \<longrightarrow> pf_hero i = 0 \<or> own_hero b pid) \<and>
    (\<forall>now b' out. unat (br_frame b) + 34 < 2 ^ 32 \<longrightarrow> battle_tick env now b = Some (b', out) \<longrightarrow>
       (br_state b = BSLoading \<and> br_state b' = BSCountdown \<longrightarrow>
          (\<forall>pid \<in> dom (map_of (br_players b)). own_hero b' pid)) \<and>
       (\<forall>pid \<in> dom (map_of (br_players b')). own_hero b pid \<longrightarrow> own_hero b' pid)) \<and>
    (\<forall>m b' out. battle_on_message m b = Some (b', out) \<longrightarrow>
       (\<forall>pid \<in> dom (map_of (br_players b')). own_hero b pid \<longrightarrow>
          (\<forall>pos conn. m \<noteq> PlayerEnterMsg pid pos conn) \<longrightarrow> own_hero b' pid))"
proof (intro conjI)
  have inv: "battle_inv 0 b" "br_cfg b = cfg" using run_inv [OF assms(2,1)] by auto
  show "\<forall>k e. find_entity (br_em b) k = Some e \<longrightarrow> en_id e = k \<and> 0 < k \<and> k < em_next (br_em b) \<and>
      0 \<le> sint (en_hp e) \<and> sint (en_hp e) \<le> sint (en_max_hp e)"
    using inv em_inv_find [of "br_em b"] by (auto simp: battle_inv_def ent_ok_def)
  show "length (br_players b) \<le> unat (bc_team_size cfg * 2)" using inv by (simp add: battle_inv_def)
  show "\<forall>pid i. map_of (br_players b) pid = Some i \<longrightarrow> pf_hero i = 0 \<or> own_hero b pid"
    using inv by (fastforce simp: battle_inv_def players_ok_def own_hero_def hero_of_def owner_hero)
  show "\<forall>now b' out. unat (br_frame b) + 34 < 2 ^ 32 \<longrightarrow> battle_tick env now b = Some (b', out) \<longrightarrow>
       (br_state b = BSLoading \<and> br_state b' = BSCountdown \<longrightarrow>
          (\<forall>pid \<in> dom (map_of (br_players b)). own_hero b' pid)) \<and>
       (\<forall>pid \<in> dom (map_of (br_players b')). own_hero b pid \<longrightarrow> own_hero b' pid)"
    using tick_own_heroes [OF inv(1)] assms(1) inv(2) by blast
  show "\<forall>m b' out. battle_on_message m b = Some (b', out) \<longrightarrow>
       (\<forall>pid \<in> dom (map_of (br_players b')). own_hero b pid \<longrightarrow>
          (\<forall>pos conn. m \<noteq> PlayerEnterMsg pid pos conn) \<longrightarrow> own_hero b' pid)"
    using own_hero_message [OF inv(1)] by fast
qed

text \<open>C8: no input of a player is ever applied. \<open>TickFighting\<close> moves the engine to the new frame before
  it asks for confirmed frames, inputs are only filed under the frame the engine is at, and so
  every frame that is processed, in any state a room reaches, has no input at all.\<close>

theorem inputs_never_applied:
  assumes "cfg_ok cfg" and "battle_run env cfg b"
  shows "\<forall>fi \<in> set (br_history b). fi_inputs fi = []"
  using run_inv [OF assms(2,1)] by (simp add: battle_inv_def)

text \<open>A room that two players have just entered, with a stand-in for the protobuf encoder.\<close>

definition demo_env :: battle_env where
  "demo_env = \<lparr>ev_atan2 = (\<lambda>a b. 0), ev_serialize = (\<lambda>d. Some [])\<rparr>"

definition demo_cfg :: battle_config where
  "demo_cfg = default_battle_config\<lparr>bc_team_size := 1\<rparr>"

lemma demo_cfg_ok: "cfg_ok demo_cfg"
  by (simp add: cfg_ok_def demo_cfg_def default_battle_config_def word_le_nat_alt)

definition demo_battle :: battle where
  "demo_battle = on_player_enter 2 12 (on_player_enter 1 11 (battle_set_callback (battle_new demo_cfg)))"

lemma demo_run: "battle_run demo_env demo_cfg demo_battle"
proof -
  have "battle_on_message (PlayerEnterMsg pid (V3 0 0 0) conn) b = Some (on_player_enter pid conn b, [])" for pid conn b
    by (simp add: battle_on_message_def msg_type_of_def)
  then show ?thesis unfolding demo_battle_def by (meson run_start run_message)
qed

lemma demo_frame: "br_frame demo_battle = 0" "br_state demo_battle = BSWaiting" "length (br_players demo_battle) = 2"
  by (simp_all add: demo_battle_def cfg_frame) 
     (simp_all add: battle_set_callback_def battle_new_def on_player_enter_def battle_full_def demo_cfg_def
        add_player_to_team_def Let_def)


lemma battle_lifecycle_witness:
  "\<exists>b' out. battle_tick demo_env 0 demo_battle = Some (b', out) \<and> br_frame b' = 1"
proof -
  have "unat (br_frame demo_battle) + 34 < 2 ^ 32" by (simp add: demo_frame)
  from battle_lifecycle [OF demo_cfg_ok demo_run this, of 0 "PlayerLeaveMsg 1"] show ?thesis by (auto simp: demo_frame)
qed

text \<open>The same room one tick and two ready messages later: its next tick builds the scene.\<close>

definition demo_loaded :: battle where
  "demo_loaded = on_battle_ready 2 (on_battle_ready 1
     (tick_waiting (demo_battle\<lparr>br_frame := br_frame demo_battle + 1, br_ls := tick_frame_counter (br_ls demo_battle)\<rparr>)))"

lemma demo_loaded_run: "battle_run demo_env demo_cfg demo_loaded"
proof -
  have r: "battle_on_message (BattleReadyMsg pid) b = Some (on_battle_ready pid b, [])" for pid b
    by (simp add: battle_on_message_def msg_type_of_def)
  have "unat (br_frame demo_battle) + 34 < 2 ^ 32" by (simp add: demo_frame)
  moreover have "battle_tick demo_env 0 demo_battle = Some (tick_waiting (demo_battle\<lparr>br_frame := br_frame demo_battle + 1,
      br_ls := tick_frame_counter (br_ls demo_battle)\<rparr>), [])"
    by (simp add: battle_tick_def demo_frame)
  ultimately show ?thesis unfolding demo_loaded_def by (meson demo_run run_tick run_message r)
qed

lemma demo_keys: "map fst (br_players demo_battle) = [1, 2]"
proof -
  define b0 where "b0 = battle_set_callback (battle_new demo_cfg)"
  have k: "map fst (br_players (on_player_enter pid conn b)) = (if battle_full b then map fst (br_players b)
      else map fst (AList.update pid undefined (br_players b)))" for pid conn b
    by (auto simp: on_player_enter_def add_player_to_team_def Let_def update_keys split: option.split)
  have "br_players b0 = []" "br_cfg b0 = demo_cfg" by (simp_all add: b0_def battle_set_callback_def battle_new_def)
  moreover from this have k1: "map fst (br_players (on_player_enter 1 11 b0)) = [1]" by (simp add: k battle_full_def demo_cfg_def)
  then have "\<not> battle_full (on_player_enter 1 11 b0)" using calculation
    by (auto simp: battle_full_def cfg_frame demo_cfg_def map_eq_Cons_conv)
  then show ?thesis using k1 by (simp add: demo_battle_def b0_def [symmetric] k update_keys)
qed

lemma demo_loaded_frame:
  "br_state demo_loaded = BSLoading" "br_frame demo_loaded = 1" "map fst (br_players demo_loaded) = [1, 2]"
  "list_all (\<lambda>(_, i). pf_ready i \<or> \<not> pf_connected i) (br_players demo_loaded)"
proof -
  obtain i j where p: "br_players demo_battle = [(1, i), (2, j)]"
    using demo_keys by (auto simp: map_eq_Cons_conv)
  have "br_cfg demo_battle = demo_cfg" using run_inv [OF demo_run demo_cfg_ok] by simp
  then have t: "tick_waiting (demo_battle\<lparr>br_frame := 1, br_ls := l\<rparr>) = demo_battle\<lparr>br_frame := 1, br_ls := l, br_state := BSLoading\<rparr>" for l
    by (simp add: tick_waiting_def battle_full_def p demo_cfg_def change_state_def)
  show "br_state demo_loaded = BSLoading" "br_frame demo_loaded = 1" "map fst (br_players demo_loaded) = [1, 2]"
    "list_all (\<lambda>(_, i). pf_ready i \<or> \<not> pf_connected i) (br_players demo_loaded)"
    by (simp_all add: demo_loaded_def cfg_frame demo_frame t) (simp_all add: on_battle_ready_def p)
qed

lemma battle_entities_ok_witness:
  "\<exists>b' out. battle_tick demo_env 0 demo_loaded = Some (b', out) \<and> own_hero b' 1 \<and> own_hero b' 2"
proof -
  have fr: "unat (br_frame demo_loaded) + 34 < 2 ^ 32" by (simp add: demo_loaded_frame)
  obtain b' out where t: "battle_tick demo_env 0 demo_loaded = Some (b', out)"
    using inv_tick [of demo_loaded demo_env 0] run_inv [OF demo_loaded_run demo_cfg_ok] demo_cfg_ok fr by auto
  then have "br_state b' = BSCountdown"
    using demo_loaded_frame by (auto simp: battle_tick_def tick_loading_def change_state_def Let_def)
  moreover have "{1, 2} = dom (map_of (br_players demo_loaded))"
    using demo_loaded_frame(3) by (simp add: dom_map_of_conv_image_fst set_map [symmetric] del: set_map)
  ultimately have "own_hero b' 1 \<and> own_hero b' 2"
    using battle_entities_ok [OF demo_cfg_ok demo_loaded_run, THEN conjunct2, THEN conjunct2, THEN conjunct2, THEN conjunct1,
        rule_format, OF fr t, THEN conjunct1] demo_loaded_frame(1) by auto
  then show ?thesis using t by blast
qed

lemma inputs_never_applied_witness:
  "\<exists>b' out. battle_tick demo_env 0 demo_battle = Some (b', out) \<and> list_all (\<lambda>fi. fi_inputs fi = []) (br_history b')"
proof -
  have fr: "unat (br_frame demo_battle) + 34 < 2 ^ 32" by (simp add: demo_frame)
  obtain b' out where t: "battle_tick demo_env 0 demo_battle = Some (b', out)"
    using inv_tick [of demo_battle demo_env 0] run_inv [OF demo_run demo_cfg_ok] demo_cfg_ok fr by auto
  from inputs_never_applied [OF demo_cfg_ok run_tick [OF demo_run fr t]]
  show ?thesis using t by (auto simp: list_all_iff)
qed

section \<open>Single steps\<close>

text \<open>The frame hash depends on the entities only, not on the order in which the hash map
  happens to hold them.\<close>

theorem frame_hash_order_free:
  assumes "mset (map snd (em_entities m)) = mset (map snd (em_entities m'))"
    and "distinct (map (en_id \<circ> snd) (em_entities m))"
  shows "compute_frame_hash m = compute_frame_hash m'"
proof -
  define xs where "xs = map snd (em_entities m)"
  define ys where "ys = map snd (em_entities m')"
  have "distinct (map en_id xs)" using assms(2) by (simp add: xs_def comp_def)
  then have "inj_on en_id (set xs)" by (simp add: distinct_map)
  moreover have "mset xs = mset (sort_key en_id ys)" using assms(1) by (simp add: xs_def ys_def)
  ultimately have "sort_key en_id xs = sort_key en_id ys" by (intro sort_key_inj_key_eq) simp_all
  then show ?thesis by (simp add: compute_frame_hash_def xs_def ys_def)
qed

lemma frame_hash_order_free_witness:
  "compute_frame_hash (create_tower 2 TeamRed TGInner (create_tower 1 TeamBlue TGOuter em_init)) =
   compute_frame_hash (create_tower 1 TeamBlue TGOuter (create_tower 2 TeamRed TGInner em_init))"
  by (rule frame_hash_order_free)
     (simp_all add: create_tower_def em_put_def em_init_def new_entity_props add_mset_commute)

lemma find_remove_player:
  "map_of (br_players (remove_player p b)) q = (if q = p then None else map_of (br_players b) q)"
  by (auto simp: remove_player_def Let_def um_get_delete split: option.split)

text \<open>A player that is disconnected is removed by the first tick that finds it gone for more
  than \<open>max_reconnect_wait_sec\<close> times 30 frames, and not before; nobody else is.\<close>

theorem disconnected_removed_in_time:
  assumes "um_ok (br_disc b)"
  shows "map_of (br_players (drop_disconnected frame b)) pid =
    (case map_of (br_disc b) pid of
       Some dc \<Rightarrow> if bc_reconnect_sec (br_cfg b) * 30 < frame - dc_frame dc then None else map_of (br_players b) pid
     | None \<Rightarrow> map_of (br_players b) pid)"
proof -
  define late where "late = bc_reconnect_sec (br_cfg b) * 30"
  have "um_ok xs \<Longrightarrow> map_of (br_players (foldl (\<lambda>b (pid, dc). if late < frame - dc_frame dc
                then (remove_player pid b)\<lparr>br_disc := AList.delete pid (br_disc b)\<rparr> else b) b xs)) pid =
    (case map_of xs pid of
       Some dc \<Rightarrow> if late < frame - dc_frame dc then None else map_of (br_players b) pid
     | None \<Rightarrow> map_of (br_players b) pid)" for xs
  proof (induction xs arbitrary: b)
    case (Cons x xs)
    obtain p dc where x: "x = (p, dc)" by (cases x)
    have "map_of xs p = None" "um_ok xs" using Cons.prems by (auto simp: x um_ok_def map_of_eq_None_iff)
    then show ?case using Cons.IH by (auto simp: x find_remove_player split: option.split)
  qed simp
  from this [OF assms, unfolded late_def] show ?thesis by (simp add: drop_disconnected_def Let_def)
qed

lemma disconnected_removed_in_time_witness:
  "map_of (br_players (drop_disconnected 1802 (demo_battle\<lparr>br_disc := [(1, \<lparr>dc_frame = 1, dc_hero = 0\<rparr>)]\<rparr>))) 1 = None"
  by (subst disconnected_removed_in_time)
     (simp_all add: um_ok_def demo_battle_def cfg_frame battle_set_callback_def battle_new_def demo_cfg_def default_battle_config_def)

section \<open>Towers cool down twice per frame\<close>

definition tower_cd :: "u64 \<Rightarrow> u32 \<Rightarrow> entity_mgr \<Rightarrow> bool" where
  "tower_cd tid c m \<longleftrightarrow> (\<exists>e t. find_entity m tid = Some e \<and> en_sub e = STower t \<and> t_cooldown t = c \<and>
     t_grade t \<noteq> TGCrystal \<and> is_alive e)"

lemma check_target_candidate:
  "fst (foldl (check_target m e) acc cs) = fst acc \<or> (\<exists>c \<in> set cs. fst (foldl (check_target m e) acc cs) = Some c)"
proof (induction cs arbitrary: acc)
  case (Cons c cs)
  have "fst (check_target m e acc c) = fst acc \<or> fst (check_target m e acc c) = Some c"
    by (auto simp: check_target_def Let_def split: option.split)
  then show ?case using Cons.IH [of "check_target m e acc c"] by auto
qed simp

text \<open>A tower changes nothing but itself and one of its candidates.\<close>

lemma tower_attack_other:
  assumes "tid \<noteq> k" "k \<notin> set cs"
  shows "find_entity (tower_attack d cs m tid) k = find_entity m k"
proof (cases "find_entity m tid")
  case (Some e)
  show ?thesis
  proof (cases "en_sub e")
    case (STower t)
    define t1 where "t1 = tick_cooldown d t"
    define e1 where "e1 = e\<lparr>en_sub := STower t1\<rparr>"
    define m1 where "m1 = em_put tid e1 m"
    have "fst (foldl (check_target m1 e1) (None, fx_from_float (t_range t1)) cs) \<noteq> Some k"
      using check_target_candidate [of m1 e1 "(None, fx_from_float (t_range t1))" cs] assms(2) by auto
    then show ?thesis using assms(1)
      by (auto simp: tower_attack_def Some STower Let_def t1_def [symmetric] e1_def [symmetric] m1_def [symmetric]
          find_em_upd find_em_put split: option.split) (auto simp: m1_def find_em_put)
  qed (simp_all add: tower_attack_def Some)
qed (simp add: tower_attack_def)

lemma tower_attack_self:
  assumes "tower_cd tid c m" "33 < c"
  shows "tower_cd tid (c - 33) (tower_attack 33 cs m tid)"
proof -
  have "c - 33 \<noteq> 0" using assms(2) by auto
  then show ?thesis using assms
    by (auto simp: tower_cd_def tower_attack_def Let_def tick_cooldown_def can_attack_def find_em_put is_alive_def)
qed

lemma towers_foldl:
  "distinct ts \<Longrightarrow> tid \<in> set ts \<Longrightarrow> tid \<notin> set cs \<Longrightarrow> tower_cd tid c m \<Longrightarrow> 33 < c \<Longrightarrow>
   tower_cd tid (c - 33) (foldl (tower_attack 33 cs) m ts)"
proof (induction ts arbitrary: m)
  case (Cons t ts)
  have keep: "tower_cd tid x m \<Longrightarrow> tid \<notin> set ys \<Longrightarrow> tower_cd tid x (foldl (tower_attack 33 cs) m ys)" for x m ys
    using Cons.prems(3)
    by (induction ys arbitrary: m) (auto simp: tower_cd_def tower_attack_other)
  show ?case
  proof (cases "t = tid")
    case True
    then show ?thesis using Cons.prems keep [OF tower_attack_self [OF Cons.prems(4,5)]] by simp
  next
    case False
    have "tower_cd tid c (tower_attack 33 cs m t)"
      using Cons.prems(3,4) False by (simp add: tower_cd_def tower_attack_other)
    then show ?thesis using Cons False by simp
  qed
qed simp

definition has_tower_cd :: "u64 \<Rightarrow> u32 \<Rightarrow> entity_mgr \<Rightarrow> bool" where
  "has_tower_cd tid c m \<longleftrightarrow> (\<exists>e t. find_entity m tid = Some e \<and> en_sub e = STower t \<and> t_cooldown t = c)"

lemma has_tower_upd:
  "has_tower_cd tid c m \<Longrightarrow> (\<And>e t. en_sub e = STower t \<Longrightarrow> en_sub (f e) = STower t) \<Longrightarrow> has_tower_cd tid c (em_upd k f m)"
  by (fastforce simp: has_tower_cd_def find_em_upd)

lemma has_tower_hit: "has_tower_cd tid c m \<Longrightarrow> has_tower_cd tid c (check_hit caster p pe team m cid)"
  by (auto simp: check_hit_def Let_def sub_ok_frame on_hero_def intro!: has_tower_upd split: option.split)

lemma has_tower_projectile: "has_tower_cd tid c m \<Longrightarrow> has_tower_cd tid c (projectile_hit cs m pid)"
  by (auto simp: projectile_hit_def Let_def intro!: foldl_invariant [where P = "has_tower_cd tid c"] has_tower_hit
      split: option.split entity_sub.split)

text \<open>A living tower that is not a crystal loses 66 milliseconds of its attack cooldown in a frame of
  33: \<open>TickAll\<close> ticks it, and \<open>TickCombat\<close> ticks it again, so it attacks twice as often as its
  interval says.\<close>

theorem tower_cooldown_halved:
  assumes m: "um_ok (em_entities m)" and e: "find_entity m tid = Some e" "en_sub e = STower t" "is_alive e"
    and t: "t_grade t \<noteq> TGCrystal" "66 < t_cooldown t"
  shows "\<exists>e' t'. find_entity (tick_combat 33 (tick_all at2 33 m)) tid = Some e' \<and> en_sub e' = STower t' \<and>
    t_cooldown t' = t_cooldown t - 66"
proof -
  define m1 where "m1 = tick_all at2 33 m"
  have c: "33 < t_cooldown t" "33 < t_cooldown t - 33" "t_cooldown t - 33 - 33 = t_cooldown t - 66"
    using t(2) by (simp_all add: word_less_nat_alt unat_sub_if_size)
  then have "t_cooldown t \<noteq> 0" by auto
  then have "cooldown_dec (t_cooldown t) 33 = t_cooldown t - 33"
    using c(1) by (auto simp: cooldown_dec_def min_def word_gt_0)
  then have cd: "tower_cd tid (t_cooldown t - 33) m1"
    using e t by (simp add: tower_cd_def m1_def find_tick_all ent_tick_def tower_tick_def is_alive_def)
  have k1: "map fst (em_entities m1) = map fst (em_entities m)" by (simp add: m1_def tick_all_def comp_def case_prod_beta)
  have d: "distinct (map fst (em_entities m1))" using m k1 by (simp add: um_ok_def)
  have ty: "k \<in> set (get_by_type m1 y) \<longleftrightarrow> (\<exists>e. find_entity m1 k = Some e \<and> ent_type e = y)" for k y
    using d by (force simp: get_by_type_def find_entity_def um_in_set_get [symmetric, unfolded um_ok_def])
  have dt: "distinct (get_by_type m1 ETTower)" using d by (auto simp: get_by_type_def distinct_map intro: inj_on_subset)
  have "tid \<in> set (get_by_type m1 ETTower)" "tid \<notin> set (get_by_type m1 ETMinion @ get_by_type m1 ETHero)"
    using cd by (auto simp: ty tower_cd_def ent_type_def)
  from towers_foldl [OF dt this cd c(2)] have
    "has_tower_cd tid (t_cooldown t - 66) (foldl (tower_attack 33 (get_by_type m1 ETMinion @ get_by_type m1 ETHero)) m1 (get_by_type m1 ETTower))"
    unfolding c(3) by (auto simp: tower_cd_def has_tower_cd_def)
  then have "has_tower_cd tid (t_cooldown t - 66) (tick_combat 33 m1)"
    unfolding tick_combat_def Let_def by (rule foldl_invariant) (rule has_tower_projectile)
  then show ?thesis by (simp add: has_tower_cd_def m1_def)
qed

definition demo_tower_mgr :: entity_mgr where
  "demo_tower_mgr = em_upd 1 (\<lambda>e. case en_sub e of STower t \<Rightarrow> e\<lparr>en_sub := STower (on_attack t)\<rparr> | _ \<Rightarrow> e)
     (create_tower 1 TeamBlue TGOuter em_init)"

lemma tower_cooldown_halved_witness:
  "\<exists>e' t'. find_entity (tick_combat 33 (tick_all (\<lambda>a b. 0) 33 demo_tower_mgr)) 1 = Some e' \<and> en_sub e' = STower t' \<and>
    t_cooldown t' = 1184"
proof -
  obtain e t where e: "find_entity demo_tower_mgr 1 = Some e" "en_sub e = STower t" "is_alive e" "t_grade t \<noteq> TGCrystal"
      "t_cooldown t = 1250"
    by (auto simp: demo_tower_mgr_def find_em_upd create_tower_def find_em_put new_tower_def tower_stats_def
        default_entity_def on_attack_def is_alive_def)
  have "um_ok (em_entities demo_tower_mgr)"
    by (simp add: demo_tower_mgr_def em_upd_def create_tower_def em_put_def em_init_def um_ok_def find_entity_def)
  from tower_cooldown_halved [OF this e(1,2,3,4), of "\<lambda>a b. 0"] show ?thesis by (simp add: e(5))
qed

end
