(* ===== verification/GM_Compute.thy ===== *)
theory GM_Compute
  imports GM_Battle
begin

text \<open>
  The threads that run the rooms (\<open>compute_thread.hpp/.cpp\<close>, \<open>compute_pool.hpp/.cpp\<close>). A thread
  is its queue of envelopes and its rooms; every operation takes its mutex and is one step. The
  loop of a thread alternates \<open>ProcessMessages\<close> and \<open>TickRooms\<close>; sleeping and joining are left out.
  A step is \<open>None\<close> where the code of the room it calls is undefined.
\<close>

section \<open>Rooms behind the base class\<close>

datatype any_room = PlainRoom room | BattleRoom battle

type_synonym room_factory = "room_config \<Rightarrow> any_room option"

definition any_on_message :: "message \<Rightarrow> any_room \<Rightarrow> (any_room \<times> broadcast list) option" where
  "any_on_message m r = (case r of
      PlainRoom x \<Rightarrow> map_option (\<lambda>(x', out). (PlainRoom x', out)) (room_on_message m x)
    | BattleRoom b \<Rightarrow> map_option (\<lambda>(b', out). (BattleRoom b', out)) (battle_on_message m b))"

definition any_tick :: "battle_env \<Rightarrow> u64 \<Rightarrow> any_room \<Rightarrow> (any_room \<times> broadcast list) option" where
  "any_tick env now r = (case r of
      PlainRoom x \<Rightarrow> (let (x', out) = room_tick now x in Some (PlainRoom x', out))
    | BattleRoom b \<Rightarrow> map_option (\<lambda>(b', out). (BattleRoom b', out)) (battle_tick env now b))"

definition any_set_callback :: "any_room \<Rightarrow> any_room" where
  "any_set_callback r = (case r of PlainRoom x \<Rightarrow> PlainRoom (set_broadcast_callback x)
     | BattleRoom b \<Rightarrow> BattleRoom (battle_set_callback b))"

section \<open>ComputeThread\<close>

record compute_thread =
  ct_running :: bool
  ct_started :: bool
  ct_queue :: "(u32 \<times> message) list"
  ct_rooms :: "(u32 \<times> any_room) list"
  ct_has_out :: bool
  ct_factory :: "room_factory option"

definition compute_thread_new :: compute_thread where
  "compute_thread_new = \<lparr>ct_running = False, ct_started = False, ct_queue = [], ct_rooms = [], ct_has_out = False,
     ct_factory = None\<rparr>"

definition ct_start :: "compute_thread \<Rightarrow> compute_thread" where
  "ct_start t = (if ct_running t then t else t\<lparr>ct_running := True, ct_started := True\<rparr>)"

definition ct_stop :: "compute_thread \<Rightarrow> compute_thread" where
  "ct_stop t = t\<lparr>ct_running := False\<rparr>"

definition ct_push :: "u32 \<Rightarrow> message \<Rightarrow> compute_thread \<Rightarrow> compute_thread" where
  "ct_push rid m t = t\<lparr>ct_queue := ct_queue t @ [(rid, m)]\<rparr>"

definition ct_set_output :: "compute_thread \<Rightarrow> compute_thread" where
  "ct_set_output t = t\<lparr>ct_has_out := True\<rparr>"

definition ct_set_factory :: "room_factory \<Rightarrow> compute_thread \<Rightarrow> compute_thread" where
  "ct_set_factory f t = t\<lparr>ct_factory := Some f\<rparr>"

text \<open>\<open>CreateRoom\<close> with a factory refuses a null room; with the default factory a null room is
  dereferenced.\<close>

definition ct_add_room :: "u32 \<Rightarrow> any_room \<Rightarrow> compute_thread \<Rightarrow> compute_thread" where
  "ct_add_room rid r t = t\<lparr>ct_rooms := AList.update rid (any_set_callback r) (ct_rooms t)\<rparr>"

definition ct_create_room :: "room_config \<Rightarrow> compute_thread \<Rightarrow> (bool \<times> compute_thread) option" where
  "ct_create_room cfg t =
     (if map_of (ct_rooms t) (rc_room_id cfg) \<noteq> None then Some (False, t)
      else map_option (\<lambda>r. (True, ct_add_room (rc_room_id cfg) r t))
             (case ct_factory t of Some f \<Rightarrow> f cfg | None \<Rightarrow> map_option PlainRoom (room_new cfg)))"

definition ct_create_room_with :: "room_config \<Rightarrow> room_factory \<Rightarrow> compute_thread \<Rightarrow> bool \<times> compute_thread" where
  "ct_create_room_with cfg f t =
     (if map_of (ct_rooms t) (rc_room_id cfg) \<noteq> None then (False, t)
      else case f cfg of None \<Rightarrow> (False, t) | Some r \<Rightarrow> (True, ct_add_room (rc_room_id cfg) r t))"

text \<open>What a room broadcasts is passed on with the id of the room, when there is somebody to pass it to.\<close>

definition ct_output :: "compute_thread \<Rightarrow> u32 \<Rightarrow> broadcast list \<Rightarrow> (u32 \<times> broadcast) list" where
  "ct_output t rid out = (if ct_has_out t then map (Pair rid) out else [])"

fun process_queue :: "(u32 \<times> message) list \<Rightarrow> compute_thread \<Rightarrow> (compute_thread \<times> (u32 \<times> broadcast) list) option" where
  "process_queue [] t = Some (t, [])"
| "process_queue ((rid, m) # q) t =
     (case map_of (ct_rooms t) rid of
        None \<Rightarrow> process_queue q t
      | Some r \<Rightarrow> do {
          (r', out) \<leftarrow> any_on_message m r;
          (t', outs) \<leftarrow> process_queue q (t\<lparr>ct_rooms := AList.update rid r' (ct_rooms t)\<rparr>);
          Some (t', ct_output t rid out @ outs) })"

definition process_messages :: "compute_thread \<Rightarrow> (compute_thread \<times> (u32 \<times> broadcast) list) option" where
  "process_messages t = process_queue (ct_queue t) (t\<lparr>ct_queue := []\<rparr>)"

fun tick_each :: "battle_env \<Rightarrow> u64 \<Rightarrow> (u32 \<times> any_room) list \<Rightarrow>
    ((u32 \<times> any_room) list \<times> (u32 \<times> broadcast list) list) option" where
  "tick_each env now [] = Some ([], [])"
| "tick_each env now ((rid, r) # rs) = do {
     (r', out) \<leftarrow> any_tick env now r;
     (rs', outs) \<leftarrow> tick_each env now rs;
     Some ((rid, r') # rs', (rid, out) # outs) }"

definition tick_rooms :: "battle_env \<Rightarrow> u64 \<Rightarrow> compute_thread \<Rightarrow> (compute_thread \<times> (u32 \<times> broadcast) list) option" where
  "tick_rooms env now t = do {
     (rs, outs) \<leftarrow> tick_each env now (ct_rooms t);
     Some (t\<lparr>ct_rooms := rs\<rparr>, concat (map (\<lambda>(rid, out). ct_output t rid out) outs)) }"

definition run_loop_once :: "battle_env \<Rightarrow> u64 \<Rightarrow> compute_thread \<Rightarrow> (compute_thread \<times> (u32 \<times> broadcast) list) option" where
  "run_loop_once env now t =
     (if \<not> ct_running t then Some (t, [])
      else do { (t1, o1) \<leftarrow> process_messages t; (t2, o2) \<leftarrow> tick_rooms env now t1; Some (t2, o1 @ o2) })"

section \<open>ComputePool\<close>

record compute_pool =
  cp_threads :: "compute_thread list"
  cp_count :: u32

definition compute_pool_new :: "u32 \<Rightarrow> u32 \<Rightarrow> compute_pool" where
  "compute_pool_new hw n =
     (let c = (if 0 < n then n else max 1 hw)
      in \<lparr>cp_threads = replicate (unat c) compute_thread_new, cp_count = c\<rparr>)"

definition pick_thread :: "compute_pool \<Rightarrow> u32 \<Rightarrow> nat" where
  "pick_thread p rid = unat (rid mod cp_count p)"

definition pool_upd :: "(compute_thread \<Rightarrow> compute_thread) \<Rightarrow> compute_pool \<Rightarrow> compute_pool" where
  "pool_upd f p = p\<lparr>cp_threads := map f (cp_threads p)\<rparr>"

definition pool_at :: "u32 \<Rightarrow> compute_pool \<Rightarrow> compute_thread \<Rightarrow> compute_pool" where
  "pool_at rid p t = p\<lparr>cp_threads := (cp_threads p)[pick_thread p rid := t]\<rparr>"

definition pool_push :: "u32 \<Rightarrow> message \<Rightarrow> compute_pool \<Rightarrow> compute_pool" where
  "pool_push rid m p = pool_at rid p (ct_push rid m (cp_threads p ! pick_thread p rid))"

definition pool_create_room :: "room_config \<Rightarrow> compute_pool \<Rightarrow> (bool \<times> compute_pool) option" where
  "pool_create_room cfg p =
     map_option (\<lambda>(ok, t). (ok, pool_at (rc_room_id cfg) p t))
       (ct_create_room cfg (cp_threads p ! pick_thread p (rc_room_id cfg)))"

definition pool_create_room_with :: "room_config \<Rightarrow> room_factory \<Rightarrow> compute_pool \<Rightarrow> bool \<times> compute_pool" where
  "pool_create_room_with cfg f p =
     (let (ok, t) = ct_create_room_with cfg f (cp_threads p ! pick_thread p (rc_room_id cfg))
      in (ok, pool_at (rc_room_id cfg) p t))"

definition pool_start :: "compute_pool \<Rightarrow> compute_pool" where "pool_start p = pool_upd ct_start p"

definition pool_stop :: "compute_pool \<Rightarrow> compute_pool" where "pool_stop p = pool_upd ct_stop p"

definition pool_set_output :: "compute_pool \<Rightarrow> compute_pool" where "pool_set_output p = pool_upd ct_set_output p"

definition pool_set_factory :: "room_factory \<Rightarrow> compute_pool \<Rightarrow> compute_pool" where
  "pool_set_factory f p = pool_upd (ct_set_factory f) p"

section \<open>Messages reach their room in order\<close>

fun handle_all :: "message list \<Rightarrow> any_room \<Rightarrow> any_room option" where
  "handle_all [] r = Some r"
| "handle_all (m # ms) r = do { (r', out) \<leftarrow> any_on_message m r; handle_all ms r' }"

definition msgs_for :: "u32 \<Rightarrow> (u32 \<times> message) list \<Rightarrow> message list" where
  "msgs_for rid q = map snd (filter (\<lambda>(i, _). i = rid) q)"

lemma msgs_for_simps [simp]:
  "msgs_for rid [] = []" "msgs_for rid ((i, m) # q) = (if i = rid then m # msgs_for rid q else msgs_for rid q)"
  "msgs_for rid (p @ q) = msgs_for rid p @ msgs_for rid q"
  by (simp_all add: msgs_for_def)

lemma process_queue_room:
  "process_queue q t = Some (t', outs) \<Longrightarrow>
   map_of (ct_rooms t') rid = (case map_of (ct_rooms t) rid of None \<Rightarrow> None | Some r \<Rightarrow> handle_all (msgs_for rid q) r) \<and>
   ct_queue t' = ct_queue t \<and> ct_running t' = ct_running t"
proof (induction q t arbitrary: t' outs rule: process_queue.induct)
  case (2 i m q t)
  show ?case
  proof (cases "map_of (ct_rooms t) i")
    case None
    then show ?thesis using 2 by (auto split: option.splits)
  next
    case (Some r)
    then obtain r' out outs' where s: "any_on_message m r = Some (r', out)"
      "process_queue q (t\<lparr>ct_rooms := AList.update i r' (ct_rooms t)\<rparr>) = Some (t', outs')"
      using "2.prems" by (auto split: bind_splits prod.splits)
    from "2.IH"(2) [OF Some s(1) refl s(2)] show ?thesis
      using Some s(1) by (auto simp: um_get_update split: option.split)
  qed
qed (simp split: option.split)

text \<open>C13: \<open>ProcessMessages\<close> gives every room exactly the messages that were pushed for it, in the order
  of the pushes, and leaves the queue empty; messages for other rooms, known or not, do not touch it.\<close>

theorem messages_in_order:
  assumes "process_messages (fold (\<lambda>(rid, m). ct_push rid m) q t) = Some (t', outs)" and "ct_queue t = []"
  shows "ct_queue t' = [] \<and> map_of (ct_rooms t') rid =
    (case map_of (ct_rooms t) rid of None \<Rightarrow> None
     | Some r \<Rightarrow> handle_all (map snd (filter (\<lambda>(i, _). i = rid) q)) r)"
proof -
  have "ct_queue (fold (\<lambda>(rid, m). ct_push rid m) q t) = ct_queue t @ q \<and>
      ct_rooms (fold (\<lambda>(rid, m). ct_push rid m) q t) = ct_rooms t" for t
    by (induction q arbitrary: t) (auto simp: ct_push_def)
  then show ?thesis using assms process_queue_room [of q "(fold (\<lambda>(rid, m). ct_push rid m) q t)\<lparr>ct_queue := []\<rparr>" t' outs rid]
    by (simp add: process_messages_def msgs_for_def split: option.split)
qed

lemma messages_in_order_witness:
  "\<exists>t' outs. process_messages (fold (\<lambda>(rid, m). ct_push rid m) [(1, PlayerEnterMsg 5 (V3 0 0 0) 77), (2, PlayerLeaveMsg 5)]
      (compute_thread_new\<lparr>ct_rooms := [(1, PlainRoom demo_room)]\<rparr>)) = Some (t', outs) \<and>
    map_of (ct_rooms t') 1 = Some (PlainRoom (room_player_enter 5 (V3 0 0 0) 77 demo_room))"
proof -
  let ?q = "[(1, PlayerEnterMsg 5 (V3 0 0 0) 77), (2, PlayerLeaveMsg 5)]"
  let ?t = "compute_thread_new\<lparr>ct_rooms := [(1, PlainRoom demo_room)]\<rparr>"
  obtain t' outs where p: "process_messages (fold (\<lambda>(rid, m). ct_push rid m) ?q ?t) = Some (t', outs)"
    by (simp add: process_messages_def ct_push_def compute_thread_new_def any_on_message_def room_on_message_def msg_type_of_def)
  from messages_in_order [OF p, of 1] show ?thesis using p
    by (simp add: compute_thread_new_def any_on_message_def room_on_message_def msg_type_of_def)
qed

section \<open>Every room lives on one thread\<close>

definition thread_ok :: "u32 \<Rightarrow> nat \<Rightarrow> compute_thread \<Rightarrow> bool" where
  "thread_ok c i t \<longleftrightarrow> (\<forall>rid. map_of (ct_rooms t) rid \<noteq> None \<or> rid \<in> set (map fst (ct_queue t)) \<longrightarrow> unat (rid mod c) = i)"

definition pool_ok :: "compute_pool \<Rightarrow> bool" where
  "pool_ok p \<longleftrightarrow> 0 < cp_count p \<and> length (cp_threads p) = unat (cp_count p) \<and>
     (\<forall>i < length (cp_threads p). thread_ok (cp_count p) i (cp_threads p ! i))"

lemma pick_thread_bound: "pool_ok p \<Longrightarrow> pick_thread p rid < length (cp_threads p)"
  by (simp add: pool_ok_def pick_thread_def unat_mod word_less_nat_alt)

lemma pool_ok_new: "pool_ok (compute_pool_new hw n)"
proof -
  have "0 < max 1 hw" by (metis max.strict_coboundedI1 zero_neq_one word_gt_0)
  then show ?thesis by (simp add: pool_ok_def compute_pool_new_def Let_def compute_thread_new_def thread_ok_def)
qed

lemma pool_ok_set:
  "pool_ok p \<Longrightarrow> thread_ok (cp_count p) i t \<Longrightarrow> pool_ok (p\<lparr>cp_threads := (cp_threads p)[i := t]\<rparr>)"
proof -
  assume p: "pool_ok p" and t: "thread_ok (cp_count p) i t"
  have "thread_ok (cp_count p) j ((cp_threads p)[i := t] ! j)" if "j < length (cp_threads p)" for j
    using p t that by (cases "i = j") (simp_all add: pool_ok_def)
  then show ?thesis using p by (simp add: pool_ok_def)
qed

lemma pool_ok_at: "pool_ok p \<Longrightarrow> thread_ok (cp_count p) (pick_thread p rid) t \<Longrightarrow> pool_ok (pool_at rid p t)"
  by (simp add: pool_at_def pool_ok_set)

lemma pool_ok_upd:
  assumes "pool_ok p" "\<And>t. ct_rooms (f t) = ct_rooms t" "\<And>t. ct_queue (f t) = ct_queue t"
  shows "pool_ok (pool_upd f p)"
  using assms by (simp add: pool_ok_def pool_upd_def thread_ok_def)

lemma pool_ok_nth: "pool_ok p \<Longrightarrow> thread_ok (cp_count p) (pick_thread p rid) (cp_threads p ! pick_thread p rid)"
  using pick_thread_bound [of p rid] by (simp add: pool_ok_def)

lemma thread_ok_push: "thread_ok c i t \<Longrightarrow> unat (rid mod c) = i \<Longrightarrow> thread_ok c i (ct_push rid m t)"
  by (simp add: thread_ok_def ct_push_def)

lemma thread_ok_add: "thread_ok c i t \<Longrightarrow> unat (rid mod c) = i \<Longrightarrow> thread_ok c i (ct_add_room rid r t)"
  by (simp add: thread_ok_def ct_add_room_def um_get_update)

lemma thread_ok_create:
  "thread_ok c i t \<Longrightarrow> unat (rc_room_id cfg mod c) = i \<Longrightarrow> ct_create_room cfg t = Some (ok, t') \<Longrightarrow> thread_ok c i t'"
  by (auto simp: ct_create_room_def thread_ok_add split: if_splits)

lemma thread_ok_create_with:
  "thread_ok c i t \<Longrightarrow> unat (rc_room_id cfg mod c) = i \<Longrightarrow> thread_ok c i (snd (ct_create_room_with cfg f t))"
  by (auto simp: ct_create_room_with_def thread_ok_add split: option.split)

inductive pool_run :: "compute_pool \<Rightarrow> bool" where
  pr_new: "pool_run (compute_pool_new hw n)"
| pr_start: "pool_run p \<Longrightarrow> pool_run (pool_start p)"
| pr_stop: "pool_run p \<Longrightarrow> pool_run (pool_stop p)"
| pr_output: "pool_run p \<Longrightarrow> pool_run (pool_set_output p)"
| pr_factory: "pool_run p \<Longrightarrow> pool_run (pool_set_factory f p)"
| pr_push: "pool_run p \<Longrightarrow> pool_run (pool_push rid m p)"
| pr_create: "pool_run p \<Longrightarrow> pool_create_room cfg p = Some (ok, p') \<Longrightarrow> pool_run p'"
| pr_create_with: "pool_run p \<Longrightarrow> pool_create_room_with cfg f p = (ok, p') \<Longrightarrow> pool_run p'"
| pr_loop: "pool_run p \<Longrightarrow> i < length (cp_threads p) \<Longrightarrow> run_loop_once env now (cp_threads p ! i) = Some (t, outs) \<Longrightarrow>
    pool_run (p\<lparr>cp_threads := (cp_threads p)[i := t]\<rparr>)"

lemma tick_each_keys: "tick_each env now rs = Some (rs', outs) \<Longrightarrow> map fst rs' = map fst rs"
  by (induction rs arbitrary: rs' outs) (auto split: bind_splits prod.splits)

lemma map_of_keys_eq: "map fst m = map fst m' \<Longrightarrow> map_of m k = None \<longleftrightarrow> map_of m' k = None"
  by (simp add: map_of_eq_None_iff) (metis set_map)

lemma thread_ok_process:
  assumes "thread_ok c i t" "process_messages t = Some (t', outs)"
  shows "thread_ok c i t'"
proof -
  have q: "process_queue (ct_queue t) (t\<lparr>ct_queue := []\<rparr>) = Some (t', outs)" using assms(2) by (simp add: process_messages_def)
  have "map_of (ct_rooms t') rid \<noteq> None \<Longrightarrow> map_of (ct_rooms t) rid \<noteq> None" "ct_queue t' = []" for rid
    using process_queue_room [OF q, of rid] by (auto split: option.splits)
  then show ?thesis using assms(1) unfolding thread_ok_def by simp
qed

lemma thread_ok_tick:
  assumes "thread_ok c i t" "tick_rooms env now t = Some (t', outs)"
  shows "thread_ok c i t'"
proof -
  obtain rs os where r: "tick_each env now (ct_rooms t) = Some (rs, os)" "t' = t\<lparr>ct_rooms := rs\<rparr>"
    using assms(2) by (auto simp: tick_rooms_def split: bind_splits prod.splits)
  then show ?thesis using assms(1) map_of_keys_eq [OF tick_each_keys [OF r(1)]] by (simp add: thread_ok_def)
qed

lemma thread_ok_loop: "thread_ok c i t \<Longrightarrow> run_loop_once env now t = Some (t', outs) \<Longrightarrow> thread_ok c i t'"
  by (auto simp: run_loop_once_def split: if_splits bind_splits prod.splits intro: thread_ok_process thread_ok_tick)

lemma pool_run_ok: "pool_run p \<Longrightarrow> pool_ok p"
proof (induction rule: pool_run.induct)
  case (pr_push p rid m)
  then show ?case unfolding pool_push_def
    by (intro pool_ok_at thread_ok_push pool_ok_nth) (simp_all add: pick_thread_def)
next
  case (pr_create p cfg ok p')
  then obtain t where t: "ct_create_room cfg (cp_threads p ! pick_thread p (rc_room_id cfg)) = Some (ok, t)"
    "p' = pool_at (rc_room_id cfg) p t" by (auto simp: pool_create_room_def)
  have "unat (rc_room_id cfg mod cp_count p) = pick_thread p (rc_room_id cfg)" by (simp add: pick_thread_def)
  from thread_ok_create [OF pool_ok_nth [OF pr_create.IH] this t(1)] show ?case
    unfolding t(2) by (intro pool_ok_at pr_create.IH)
next
  case (pr_create_with p cfg f ok p')
  have "unat (rc_room_id cfg mod cp_count p) = pick_thread p (rc_room_id cfg)" by (simp add: pick_thread_def)
  from thread_ok_create_with [OF pool_ok_nth [OF pr_create_with.IH] this, of f] pr_create_with show ?case
    by (auto simp: pool_create_room_with_def split: prod.splits intro: pool_ok_at)
next
  case (pr_loop p i env now t outs)
  have "thread_ok (cp_count p) i (cp_threads p ! i)" using pr_loop.IH pr_loop.hyps(2) by (simp add: pool_ok_def)
  from pool_ok_set [OF pr_loop.IH thread_ok_loop [OF this pr_loop.hyps(3)]] show ?case .
next
  case (pr_new hw n)
  show ?case by (rule pool_ok_new)
next
  case (pr_start p)
  show ?case unfolding pool_start_def by (rule pool_ok_upd [OF pr_start.IH]) (simp_all add: ct_start_def)
next
  case (pr_stop p)
  show ?case unfolding pool_stop_def by (rule pool_ok_upd [OF pr_stop.IH]) (simp_all add: ct_stop_def)
next
  case (pr_output p)
  show ?case unfolding pool_set_output_def by (rule pool_ok_upd [OF pr_output.IH]) (simp_all add: ct_set_output_def)
next
  case (pr_factory p f)
  show ?case unfolding pool_set_factory_def by (rule pool_ok_upd [OF pr_factory.IH]) (simp_all add: ct_set_factory_def)
qed

text \<open>A pool keeps every room, and every message on its way to a room, on the one thread that
  the id selects: a message pushed for a room always arrives at the thread that runs it, and two
  threads never run rooms of the same id.\<close>

theorem rooms_stay_on_their_thread:
  assumes "pool_run p" and "i < length (cp_threads p)"
    and "map_of (ct_rooms (cp_threads p ! i)) rid \<noteq> None \<or> rid \<in> set (map fst (ct_queue (cp_threads p ! i)))"
  shows "i = unat (rid mod cp_count p) \<and> unat (rid mod cp_count p) < length (cp_threads p)"
  using pool_run_ok [OF assms(1)] pick_thread_bound [of p rid] assms(2,3)
  unfolding pool_ok_def thread_ok_def pick_thread_def by blast

lemma rooms_stay_on_their_thread_witness:
  "let p = pool_push 6 (PlayerLeaveMsg 1) (compute_pool_new 8 4) in
   2 = unat ((6 :: u32) mod 4) \<and> unat ((6 :: u32) mod 4) < length (cp_threads p)"
proof -
  define p where "p = pool_push 6 (PlayerLeaveMsg 1) (compute_pool_new 8 4)"
  have r: "pool_run p" unfolding p_def by (intro pr_push pr_new)
  have n: "cp_count p = 4" "length (cp_threads p) = 4"
    by (simp_all add: p_def pool_push_def pool_at_def compute_pool_new_def)
  have "6 \<in> set (map fst (ct_queue (cp_threads p ! 2)))"
    by (simp add: p_def pool_push_def pool_at_def pick_thread_def compute_pool_new_def ct_push_def)
  then show ?thesis using rooms_stay_on_their_thread [OF r, of 2 6] n by (simp add: p_def [symmetric])
qed

end
