(* ===== verification/GM_Buffer.thy ===== *)
theory GM_Buffer
  imports GM_Prelude
begin

text \<open>
  The reference-counted buffer (\<open>net/buffer.hpp\<close>, \<open>buffer.cpp\<close>). Vectors live in a heap, a list of
  byte sequences whose positions are the addresses; the two shared pointers of a buffer are optional
  addresses. Vectors are never freed in the model, which is what a reference count guarantees to
  whoever still holds a pointer. \<open>size_t\<close> is a 64 bit word, so the additions wrap as they do in the
  code; \<open>None\<close> is a read or write outside the vector.
\<close>

type_synonym heap = "bytes list"

record buffer =
  bf_own :: "nat option"
  bf_shared :: "nat option"
  bf_off :: u64
  bf_len :: u64

definition buf_empty :: buffer where
  "buf_empty = \<lparr>bf_own = None, bf_shared = None, bf_off = 0, bf_len = 0\<rparr>"

definition buf_allocate :: "u64 \<Rightarrow> heap \<Rightarrow> buffer \<times> heap" where
  "buf_allocate n h =
     (\<lparr>bf_own = Some (length h), bf_shared = None, bf_off = 0, bf_len = n\<rparr>, h @ [replicate (unat n) 0])"

definition buf_from_vector :: "bytes \<Rightarrow> heap \<Rightarrow> buffer \<times> heap" where
  "buf_from_vector v h =
     (\<lparr>bf_own = Some (length h), bf_shared = None, bf_off = 0, bf_len = of_nat (length v)\<rparr>, h @ [v])"

definition buf_wrap :: "nat option \<Rightarrow> u64 \<Rightarrow> u64 \<Rightarrow> heap \<Rightarrow> buffer" where
  "buf_wrap d off len h =
     (case d of None \<Rightarrow> buf_empty
      | Some a \<Rightarrow>
          let sz = of_nat (length (h ! a))
          in if off > sz then buf_empty
             else let len' = if off + len > sz then sz - off else len
                  in \<lparr>bf_own = None, bf_shared = Some a, bf_off = off, bf_len = len'\<rparr>)"

definition buf_slice :: "u64 \<Rightarrow> u64 \<Rightarrow> buffer \<Rightarrow> buffer" where
  "buf_slice off len b =
     (if off > bf_len b then buf_empty
      else let len' = if off + len > bf_len b then bf_len b - off else len;
               s = buf_empty\<lparr>bf_off := bf_off b + off, bf_len := len'\<rparr>
           in if bf_own b \<noteq> None then s\<lparr>bf_own := bf_own b\<rparr> else s\<lparr>bf_shared := bf_shared b\<rparr>)"

text \<open>The writable and the read-only \<open>Data()\<close>: a pointer is an address and an offset.\<close>

definition buf_data_mut :: "buffer \<Rightarrow> (nat \<times> nat) option" where
  "buf_data_mut b = map_option (\<lambda>a. (a, unat (bf_off b))) (bf_own b)"

definition buf_data :: "buffer \<Rightarrow> (nat \<times> nat) option" where
  "buf_data b = (if bf_own b \<noteq> None then map_option (\<lambda>a. (a, unat (bf_off b))) (bf_own b)
     else map_option (\<lambda>a. (a, unat (bf_off b))) (bf_shared b))"

definition buf_size :: "buffer \<Rightarrow> u64" where
  "buf_size b = bf_len b"

definition buf_is_empty :: "buffer \<Rightarrow> bool" where
  "buf_is_empty b \<longleftrightarrow> bf_len b = 0"

definition ptr_read :: "heap \<Rightarrow> nat \<times> nat \<Rightarrow> nat \<Rightarrow> bytes option" where
  "ptr_read h p n = (case p of (a, off) \<Rightarrow>
     if a < length h \<and> off + n \<le> length (h ! a) then Some (take n (drop off (h ! a))) else None)"

definition ptr_write :: "nat \<times> nat \<Rightarrow> bytes \<Rightarrow> heap \<Rightarrow> heap option" where
  "ptr_write p bs h = (case p of (a, off) \<Rightarrow>
     if a < length h \<and> off + length bs \<le> length (h ! a)
     then Some (h[a := take off (h ! a) @ bs @ drop (off + length bs) (h ! a)]) else None)"

definition buf_index :: "heap \<Rightarrow> buffer \<Rightarrow> nat \<Rightarrow> u8 option" where
  "buf_index h b i =
     (case buf_data b of None \<Rightarrow> Some 0
      | Some (a, off) \<Rightarrow> map_option hd (ptr_read h (a, off + i) 1))"

definition buf_to_vector :: "heap \<Rightarrow> buffer \<Rightarrow> bytes option" where
  "buf_to_vector h b =
     (if bf_len b = 0 then Some []
      else case buf_data b of None \<Rightarrow> Some [] | Some p \<Rightarrow> ptr_read h p (unat (bf_len b)))"

section \<open>Well-formed buffers\<close>

text \<open>
  A buffer has at most one pointer, and what it shows lies inside its vector; vectors are shorter
  than \<open>PTRDIFF_MAX\<close>, the limit of \<open>std::vector\<close>.
\<close>

definition heap_ok :: "heap \<Rightarrow> bool" where
  "heap_ok h \<longleftrightarrow> (\<forall>v \<in> set h. length v < 2 ^ 63)"

definition buf_vec :: "buffer \<Rightarrow> nat option" where
  "buf_vec b = (if bf_own b \<noteq> None then bf_own b else bf_shared b)"

definition buf_ok :: "heap \<Rightarrow> buffer \<Rightarrow> bool" where
  "buf_ok h b \<longleftrightarrow> heap_ok h \<and> (bf_own b = None \<or> bf_shared b = None) \<and>
     (case buf_vec b of None \<Rightarrow> bf_len b = 0
      | Some a \<Rightarrow> a < length h \<and> unat (bf_off b) + unat (bf_len b) \<le> length (h ! a))"

lemma heap_ok_nth: "heap_ok h \<Longrightarrow> a < length h \<Longrightarrow> length (h ! a) < 9223372036854775808"
  by (simp add: heap_ok_def)

lemma buf_data_vec: "buf_data b = map_option (\<lambda>a. (a, unat (bf_off b))) (buf_vec b)"
  by (simp add: buf_data_def buf_vec_def)

lemma buf_ok_empty [gm_inv]: "heap_ok h \<Longrightarrow> buf_ok h buf_empty"
  by (simp add: buf_ok_def buf_empty_def buf_vec_def)

lemma buf_ok_allocate [gm_inv]:
  "heap_ok h \<Longrightarrow> unat n < 2 ^ 63 \<Longrightarrow> buf_allocate n h = (b, h') \<Longrightarrow> buf_ok h' b \<and> heap_ok h'"
  by (auto simp: buf_allocate_def buf_ok_def heap_ok_def buf_vec_def)

lemma buf_ok_from_vector [gm_inv]:
  "heap_ok h \<Longrightarrow> length v < 2 ^ 63 \<Longrightarrow> buf_from_vector v h = (b, h') \<Longrightarrow> buf_ok h' b \<and> heap_ok h'"
  by (auto simp: buf_from_vector_def buf_ok_def heap_ok_def buf_vec_def unat_of_nat)

lemma buf_ok_extend [gm_inv]: "buf_ok h b \<Longrightarrow> length v < 2 ^ 63 \<Longrightarrow> buf_ok (h @ [v]) b"
  by (auto simp: buf_ok_def heap_ok_def nth_append split: option.splits)

lemma buf_to_vector_ok:
  assumes "buf_ok h b"
  shows "\<exists>bs. buf_to_vector h b = Some bs \<and> length bs = unat (bf_len b)"
  using assms by (auto simp: buf_ok_def buf_to_vector_def buf_data_vec ptr_read_def split: option.split)

lemma buf_to_vector_extend: "buf_ok h b \<Longrightarrow> buf_to_vector (h @ hs) b = buf_to_vector h b"
  by (auto simp: buf_ok_def buf_to_vector_def buf_data_vec ptr_read_def nth_append split: option.splits)

lemma buf_to_vector_from_vector:
  "heap_ok h \<Longrightarrow> length v < 2 ^ 63 \<Longrightarrow> buf_from_vector v h = (b, h') \<Longrightarrow> buf_to_vector h' b = Some v"
  by (auto simp: buf_from_vector_def buf_to_vector_def buf_data_vec buf_vec_def ptr_read_def unat_of_nat
      dest: arg_cong [where f = unat])

section \<open>Slices are views\<close>

lemma slice_len:
  assumes "off \<le> bf_len b" and "unat off + unat n < 2 ^ 64"
  shows "unat (if off + n > bf_len b then bf_len b - off else n) = min (unat n) (unat (bf_len b) - unat off)"
proof -
  have "unat (off + n) = unat off + unat n" using assms(2) by (simp add: unat_word_ariths)
  then show ?thesis using assms(1) by (auto simp: word_less_nat_alt word_le_nat_alt unat_sub min_def)
qed

lemma slice_fields:
  assumes "off \<le> bf_len b"
  shows "buf_vec (buf_slice off n b) = buf_vec b" "bf_off (buf_slice off n b) = bf_off b + off"
    "bf_len (buf_slice off n b) = (if off + n > bf_len b then bf_len b - off else n)"
    "bf_own (buf_slice off n b) = bf_own b"
    "bf_own b = None \<or> bf_shared b = None \<Longrightarrow> bf_own (buf_slice off n b) = None \<or> bf_shared (buf_slice off n b) = None"
  using assms by (auto simp: buf_slice_def buf_vec_def buf_empty_def Let_def)

lemma slice_off:
  assumes "buf_ok h b" and "off \<le> bf_len b" and "buf_vec b = Some a"
  shows "unat (bf_off b + off) = unat (bf_off b) + unat off"
proof -
  have "unat (bf_off b) + unat (bf_len b) < 9223372036854775808"
    using assms(1,3) heap_ok_nth [of h a] by (auto simp: buf_ok_def)
  moreover have "unat off \<le> unat (bf_len b)" using assms(2) by (simp add: word_le_nat_alt)
  ultimately show ?thesis by (simp add: unat_word_ariths)
qed

lemma slice_ok [gm_inv]:
  assumes "buf_ok h b" and "unat off + unat n < 2 ^ 64"
  shows "buf_ok h (buf_slice off n b)"
proof (cases "off \<le> bf_len b")
  case True
  have "unat off \<le> unat (bf_len b)" using True by (simp add: word_le_nat_alt)
  moreover have "unat (bf_len (buf_slice off n b)) = min (unat n) (unat (bf_len b) - unat off)"
    using slice_len [OF True assms(2)] by (simp add: slice_fields(3) [OF True])
  moreover have "bf_len (buf_slice off n b) = 0" if "bf_len b = 0"
    using that calculation(2) by (simp add: unat_eq_0)
  ultimately show ?thesis
    using assms(1) slice_off [OF assms(1) True] slice_fields [OF True, of n]
    by (auto simp: buf_ok_def split: option.split)
next
  case False
  moreover have "heap_ok h" using assms(1) by (simp add: buf_ok_def)
  ultimately show ?thesis by (simp add: buf_slice_def buf_ok_empty not_le)
qed

lemma slice_to_vector:
  assumes ok: "buf_ok h b" and nw: "unat off + unat n < 2 ^ 64" and bs: "buf_to_vector h b = Some bs"
  shows "buf_to_vector h (buf_slice off n b) = Some (take (unat n) (drop (unat off) bs))"
proof (cases "off \<le> bf_len b")
  case True
  define s where "s = buf_slice off n b"
  have len: "unat (bf_len s) = min (unat n) (unat (bf_len b) - unat off)"
    using slice_len [OF True nw] by (simp add: s_def slice_fields(3) [OF True])
  have bl: "length bs = unat (bf_len b)" using buf_to_vector_ok [OF ok] bs by auto
  have sok: "buf_ok h s" unfolding s_def by (rule slice_ok [OF ok nw])
  show ?thesis
  proof (cases "bf_len s = 0")
    case True
    then have "min (unat n) (unat (bf_len b) - unat off) = 0" using len by simp
    then show ?thesis using bl \<open>bf_len s = 0\<close> by (auto simp: buf_to_vector_def s_def [symmetric] min_def split: if_splits)
  next
    case False
    have "unat (bf_len s) \<noteq> 0" using False by (simp add: unat_eq_0)
    then have nz: "bf_len b \<noteq> 0" using len by auto
    then obtain a where a: "buf_vec b = Some a" using ok by (auto simp: buf_ok_def split: option.splits)
    have b': "bs = take (unat (bf_len b)) (drop (unat (bf_off b)) (h ! a))"
      using bs nz a ok by (auto simp: buf_to_vector_def buf_data_vec ptr_read_def buf_ok_def)
    have sv: "buf_vec s = Some a" "unat (bf_off s) = unat (bf_off b) + unat off"
      using a slice_off [OF ok True a] by (simp_all add: s_def slice_fields [OF True])
    have "buf_to_vector h s = Some (take (unat (bf_len s)) (drop (unat (bf_off s)) (h ! a)))"
      using False sok sv(1) by (auto simp: buf_to_vector_def buf_data_vec ptr_read_def buf_ok_def)
    also have "\<dots> = Some (take (unat n) (drop (unat off) bs))"
      unfolding b' len sv(2) by (simp add: drop_take add.commute min.commute)
    finally show ?thesis by (simp add: s_def)
  qed
next
  case False
  then have "buf_slice off n b = buf_empty" by (simp add: buf_slice_def not_le)
  moreover have "length bs \<le> unat off" using buf_to_vector_ok [OF ok] bs False by (auto simp: word_le_nat_alt not_le)
  ultimately show ?thesis by (simp add: buf_to_vector_def buf_empty_def)
qed

lemma ptr_write_ok:
  assumes "buf_ok h b" and "buf_data_mut b = Some (a, off)" and "ptr_write (a, off + i) bs h = Some h'"
  shows "buf_ok h' c \<longleftrightarrow> buf_ok h c"
proof -
  have "length (h' ! k) = length (h ! k)" if "k < length h" for k
    using assms(3) that by (auto simp: ptr_write_def nth_list_update split: if_splits)
  moreover have "length h' = length h" using assms(3) by (auto simp: ptr_write_def split: if_splits)
  moreover have "heap_ok h' \<longleftrightarrow> heap_ok h"
    unfolding heap_ok_def all_set_conv_all_nth using calculation by auto
  ultimately show ?thesis by (auto simp: buf_ok_def split: option.split)
qed

lemma write_to_vector:
  assumes ok: "buf_ok h b" and p: "buf_data_mut b = Some (a, off)" and i: "i < unat (bf_len b)"
    and w: "ptr_write (a, off + i) [v] h = Some h'" and bs: "buf_to_vector h b = Some bs"
  shows "buf_to_vector h' b = Some (bs[i := v])"
proof -
  have a: "buf_vec b = Some a" "off = unat (bf_off b)" using p by (auto simp: buf_data_mut_def buf_vec_def)
  have nz: "bf_len b \<noteq> 0" using i by auto
  have b': "bs = take (unat (bf_len b)) (drop off (h ! a))" "a < length h" "off + unat (bf_len b) \<le> length (h ! a)"
    using bs nz a ok by (auto simp: buf_to_vector_def buf_data_vec ptr_read_def buf_ok_def)
  have h': "h' = h[a := (h ! a)[off + i := v]]"
    using w i b'(2,3) by (simp add: ptr_write_def upd_conv_take_nth_drop split: if_splits)
  show ?thesis
    using nz a b' i by (simp add: buf_to_vector_def buf_data_vec ptr_read_def h' drop_update_swap take_update_swap)
qed

text \<open>A slice shows exactly the bytes of its range, cut off at the end of the buffer, and it is a
  view, not a copy: a byte written through the buffer the slice was made from is the byte the slice
  shows afterwards. The range must not wrap around \<open>SIZE_MAX\<close>.\<close>

theorem slice_is_view:
  assumes "buf_ok h b" and "unat off + unat n < 2 ^ 64" and "buf_to_vector h b = Some bs"
  shows "buf_to_vector h (buf_slice off n b) = Some (take (unat n) (drop (unat off) bs)) \<and>
    (\<forall>a o' i v h'. buf_data_mut b = Some (a, o') \<and> i < length bs \<and> ptr_write (a, o' + i) [v] h = Some h' \<longrightarrow>
       buf_to_vector h' (buf_slice off n b) = Some (take (unat n) (drop (unat off) (bs[i := v]))))"
proof (intro conjI allI impI)
  show "buf_to_vector h (buf_slice off n b) = Some (take (unat n) (drop (unat off) bs))"
    by (rule slice_to_vector [OF assms])
  fix a o' i v h'
  assume w: "buf_data_mut b = Some (a, o') \<and> i < length bs \<and> ptr_write (a, o' + i) [v] h = Some h'"
  have "length bs = unat (bf_len b)" using buf_to_vector_ok [OF assms(1)] assms(3) by auto
  then have "buf_to_vector h' b = Some (bs[i := v])" using write_to_vector [OF assms(1) _ _ _ assms(3)] w by auto
  moreover have "buf_ok h' b" using ptr_write_ok [OF assms(1), of a o' i "[v]" h' b] w assms(1) by auto
  ultimately show "buf_to_vector h' (buf_slice off n b) = Some (take (unat n) (drop (unat off) (bs[i := v])))"
    by (intro slice_to_vector assms(2))
qed

lemma slice_is_view_witness:
  "let b = fst (buf_from_vector [1, 2, 3, 4] []) in
   buf_to_vector [[1, 2, 3, 4]] (buf_slice 1 2 b) = Some [2, 3] \<and>
   buf_to_vector [[1, 2, 9, 4]] (buf_slice 1 2 b) = Some [2, 9]"
proof -
  define b where "b = fst (buf_from_vector [1, 2, 3, 4] [])"
  have b: "buf_from_vector [1, 2, 3, 4] [] = (b, [[1, 2, 3, 4]])" by (simp add: b_def buf_from_vector_def)
  have h: "heap_ok []" by (simp add: heap_ok_def)
  have ok: "buf_ok [[1, 2, 3, 4]] b" "buf_to_vector [[1, 2, 3, 4]] b = Some [1, 2, 3, 4]"
    using buf_ok_from_vector [OF h _ b] buf_to_vector_from_vector [OF h _ b] by simp_all
  have "buf_data_mut b = Some (0, 0)" "ptr_write (0, 0 + 2) [9] [[1, 2, 3, 4]] = Some [[1, 2, 9, 4 :: u8]]"
    by (simp_all add: b_def buf_from_vector_def buf_data_mut_def ptr_write_def)
  then show ?thesis using slice_is_view [OF ok(1) _ ok(2), of 1 2]
    by (fastforce simp: b_def [symmetric] Let_def)
qed

text \<open>
  The additions wrap: \<open>Slice(1, SIZE_MAX)\<close> of a buffer passes the check and yields a buffer that claims
  \<open>SIZE_MAX\<close> bytes, which reading it leaves the vector.
\<close>

lemma slice_wraps:
  assumes "buf_ok h b" and "buf_vec b = Some a" and "1 \<le> bf_len b"
  shows "bf_len (buf_slice 1 (- 1) b) = - 1 \<and> buf_to_vector h (buf_slice 1 (- 1) b) = None"
proof -
  have l: "bf_len (buf_slice 1 (- 1) b) = - 1" "buf_vec (buf_slice 1 (- 1) b) = Some a"
    using slice_fields(1,3) [OF assms(3), of "- 1"] assms(2) by simp_all
  moreover have "length (h ! a) < 9223372036854775808"
    using assms(1,2) heap_ok_nth [of h a] by (auto simp: buf_ok_def)
  moreover have "unat (- 1 :: u64) = 18446744073709551615"
    by (simp add: unsigned_minus_1_eq_mask mask_eq_exp_minus_1)
  ultimately show ?thesis by (auto simp: buf_to_vector_def buf_data_vec ptr_read_def)
qed

end
