(* ===== verification/GM_Packet.thy ===== *)
theory GM_Packet
  imports GM_Buffer "HOL-Library.Monad_Syntax"
begin

text \<open>
  The wire format of the C++ services (\<open>net/packet.hpp\<close>): a header of 34 bytes in big-endian order,
  followed by the payload. Encoding and decoding work on buffers of the heap of GM_Buffer; the bytes
  they produce and accept are given by the pure functions \<open>encode_bytes\<close> and \<open>decode_bytes\<close>.
\<close>

definition HEADER_SIZE :: u32 where "HEADER_SIZE = 34"
definition MAX_PACKET_LEN :: u32 where "MAX_PACKET_LEN = 16 * 1024 * 1024"
definition MAGIC_VALUE :: u16 where "MAGIC_VALUE = 0x9D7F"

lemma header_size_unat [simp]: "unat HEADER_SIZE = 34"
  by (simp add: HEADER_SIZE_def)

lemma max_packet_len_unat [simp]: "unat MAX_PACKET_LEN = 16777216"
  by (simp add: MAX_PACKET_LEN_def)

datatype flag = FlagEncrypt | FlagCompress | FlagBroadcast | FlagTrace | FlagRpcReq | FlagRpcRes | FlagRpcFf
  | FlagHeartbeat | FlagRoomBcast

definition flag_bit :: "flag \<Rightarrow> u32" where
  "flag_bit f = push_bit (case f of FlagEncrypt \<Rightarrow> 0 | FlagCompress \<Rightarrow> 1 | FlagBroadcast \<Rightarrow> 2 | FlagTrace \<Rightarrow> 3
     | FlagRpcReq \<Rightarrow> 4 | FlagRpcRes \<Rightarrow> 5 | FlagRpcFf \<Rightarrow> 6 | FlagHeartbeat \<Rightarrow> 7 | FlagRoomBcast \<Rightarrow> 8) 1"

definition has_flag :: "u32 \<Rightarrow> flag \<Rightarrow> bool" where
  "has_flag flags f \<longleftrightarrow> flags AND flag_bit f \<noteq> 0"

definition or_flag :: "u32 \<Rightarrow> flag \<Rightarrow> u32" where
  "or_flag a f = a OR flag_bit f"

record packet_header =
  ph_length :: u32
  ph_magic :: u16
  ph_cmd :: u32
  ph_seq :: u32
  ph_flags :: u32
  ph_user :: u64
  ph_zone :: u32
  ph_service :: u32

definition default_header :: packet_header where
  "default_header = \<lparr>ph_length = 0, ph_magic = MAGIC_VALUE, ph_cmd = 0, ph_seq = 0, ph_flags = 0, ph_user = 0,
     ph_zone = 0, ph_service = 0\<rparr>"

record packet =
  pk_header :: packet_header
  pk_payload :: buffer

section \<open>Big-endian integers\<close>

definition write_u32be :: "u32 \<Rightarrow> bytes" where
  "write_u32be v = [ucast (drop_bit 24 v AND 0xFF), ucast (drop_bit 16 v AND 0xFF), ucast (drop_bit 8 v AND 0xFF),
     ucast (v AND 0xFF)]"

definition write_u16be :: "u16 \<Rightarrow> bytes" where
  "write_u16be v = [ucast (drop_bit 8 v AND 0xFF), ucast (v AND 0xFF)]"

definition read_u32be :: "bytes \<Rightarrow> u32" where
  "read_u32be p = push_bit 24 (ucast (p ! 0)) OR push_bit 16 (ucast (p ! 1)) OR push_bit 8 (ucast (p ! 2)) OR ucast (p ! 3)"

definition read_f32be :: "bytes \<Rightarrow> u32" where
  "read_f32be p = read_u32be p"

definition read_u16be :: "bytes \<Rightarrow> u16" where
  "read_u16be p = push_bit 8 (ucast (p ! 0)) OR ucast (p ! 1)"

definition write_u64be :: "u64 \<Rightarrow> bytes" where
  "write_u64be v = [ucast (drop_bit 56 v AND 0xFF), ucast (drop_bit 48 v AND 0xFF), ucast (drop_bit 40 v AND 0xFF),
     ucast (drop_bit 32 v AND 0xFF), ucast (drop_bit 24 v AND 0xFF), ucast (drop_bit 16 v AND 0xFF),
     ucast (drop_bit 8 v AND 0xFF), ucast (v AND 0xFF)]"

definition read_u64be :: "bytes \<Rightarrow> u64" where
  "read_u64be p = push_bit 56 (ucast (p ! 0)) OR push_bit 48 (ucast (p ! 1)) OR push_bit 40 (ucast (p ! 2)) OR
     push_bit 32 (ucast (p ! 3)) OR push_bit 24 (ucast (p ! 4)) OR push_bit 16 (ucast (p ! 5)) OR
     push_bit 8 (ucast (p ! 6)) OR ucast (p ! 7)"

lemma ucast_and_FF: "(ucast (w AND 0xFF :: 'a::len word) :: u8) = ucast w" if "8 \<le> LENGTH('a)"
proof -
  have m: "(0xFF :: 'a word) = mask 8" by (simp add: mask_eq_exp_minus_1)
  show ?thesis unfolding m using that by (intro bit_word_eqI) (auto simp: bit_simps)
qed

lemma write_be_put: "write_u16be a = be_put 2 a" "write_u32be b = be_put 4 b" "write_u64be c = be_put 8 c"
  by (simp_all add: write_u16be_def write_u32be_def write_u64be_def ucast_and_FF eval_nat_numeral)

lemma read_be_get:
  "2 \<le> length p \<Longrightarrow> read_u16be p = be_get (take 2 p)"
  "4 \<le> length p \<Longrightarrow> read_u32be p = be_get (take 4 p)"
  "8 \<le> length p \<Longrightarrow> read_u64be p = be_get (take 8 p)"
proof -
  have "\<exists>a b r. p = a # b # r" if "2 \<le> length p"
    using that by (auto simp: numeral_2_eq_2 Suc_le_length_iff)
  then show "2 \<le> length p \<Longrightarrow> read_u16be p = be_get (take 2 p)"
    by (auto simp: read_u16be_def be_get_def be_step_def)
  have "\<exists>a b c d r. p = a # b # c # d # r" if "4 \<le> length p"
    using that by (auto simp: eval_nat_numeral Suc_le_length_iff)
  then show "4 \<le> length p \<Longrightarrow> read_u32be p = be_get (take 4 p)"
    by (auto simp: read_u32be_def be_get_def be_step_def push_bit_or or.assoc)
  have "\<exists>a b c d a' b' c' d' r. p = a # b # c # d # a' # b' # c' # d' # r" if "8 \<le> length p"
    using that by (auto simp: eval_nat_numeral Suc_le_length_iff)
  then show "8 \<le> length p \<Longrightarrow> read_u64be p = be_get (take 8 p)"
    by (auto simp: read_u64be_def be_get_def be_step_def push_bit_or or.assoc)
qed

section \<open>Encoding and decoding\<close>

text \<open>The bytes \<open>EncodePacket\<close> writes for a header and the bytes of the payload.\<close>

definition encode_bytes :: "packet_header \<Rightarrow> bytes \<Rightarrow> bytes" where
  "encode_bytes h pl = write_u32be (HEADER_SIZE + of_nat (length pl)) @ write_u16be (ph_magic h) @ write_u32be (ph_cmd h)
     @ write_u32be (ph_seq h) @ write_u32be (ph_flags h) @ write_u64be (ph_user h) @ write_u32be (ph_zone h)
     @ write_u32be (ph_service h) @ pl"

definition encode_packet :: "packet \<Rightarrow> heap \<Rightarrow> (buffer \<times> heap) option" where
  "encode_packet pkt h =
     (let n = buf_size (pk_payload pkt)
      in do { pl \<leftarrow> (case (if n > 0 then buf_data (pk_payload pkt) else None) of
                       Some p \<Rightarrow> ptr_read h p (unat n) | None \<Rightarrow> Some (replicate (unat n) 0));
              Some (buf_from_vector (encode_bytes (pk_header pkt) pl) h) })"

definition decode_header :: "bytes \<Rightarrow> packet_header" where
  "decode_header d = \<lparr>ph_length = read_u32be d, ph_magic = read_u16be (drop 4 d), ph_cmd = read_u32be (drop 6 d),
     ph_seq = read_u32be (drop 10 d), ph_flags = read_u32be (drop 14 d), ph_user = read_u64be (drop 18 d),
     ph_zone = read_u32be (drop 26 d), ph_service = read_u32be (drop 30 d)\<rparr>"

text \<open>\<open>DecodePacket\<close>: the outer \<open>None\<close> is a read outside the vector, the inner one the result false.\<close>

definition decode_packet :: "buffer \<Rightarrow> heap \<Rightarrow> (packet \<times> heap) option option" where
  "decode_packet data h =
     (let n = buf_size data
      in if n < ucast HEADER_SIZE \<or> n > ucast MAX_PACKET_LEN then Some None
         else case buf_data data of
           None \<Rightarrow> Some None
         | Some p \<Rightarrow> do {
             d \<leftarrow> ptr_read h p 34;
             let hd = decode_header d;
             if ph_magic hd \<noteq> MAGIC_VALUE \<or> ucast (ph_length hd) \<noteq> n then Some None
             else if ph_length hd < HEADER_SIZE \<or> ph_length hd > MAX_PACKET_LEN then Some None
             else let len = n - ucast HEADER_SIZE
                  in if len > 0
                     then do { pl \<leftarrow> ptr_read h (fst p, snd p + 34) (unat len);
                               let (b, h1) = buf_allocate len h;
                               h2 \<leftarrow> ptr_write (length h, 0) pl h1;
                               Some (Some (\<lparr>pk_header = hd, pk_payload = b\<rparr>, h2)) }
                     else Some (Some (\<lparr>pk_header = hd, pk_payload = buf_empty\<rparr>, h)) })"

definition decode_bytes :: "bytes \<Rightarrow> (packet_header \<times> bytes) option" where
  "decode_bytes d =
     (let h = decode_header d
      in if length d < 34 \<or> 16777216 < length d \<or> ph_magic h \<noteq> MAGIC_VALUE \<or> unat (ph_length h) \<noteq> length d then None
         else Some (h, drop 34 d))"

lemma length_encode_bytes [simp]: "length (encode_bytes h pl) = 34 + length pl"
  by (simp add: encode_bytes_def write_be_put)

lemma decode_header_take: "34 \<le> length d \<Longrightarrow> decode_header (take 34 d) = decode_header d"
  by (simp add: decode_header_def read_be_get drop_take)

lemma decode_encode_header:
  "decode_header (encode_bytes h pl) = h\<lparr>ph_length := HEADER_SIZE + of_nat (length pl)\<rparr>"
  by (simp add: decode_header_def read_be_get encode_bytes_def write_be_put be_get_put)

lemma split_header:
  assumes "34 \<le> length d"
  shows "d = take 4 d @ take 2 (drop 4 d) @ take 4 (drop 6 d) @ take 4 (drop 10 d) @ take 4 (drop 14 d) @
    take 8 (drop 18 d) @ take 4 (drop 26 d) @ take 4 (drop 30 d) @ drop 34 d"
proof -
  have s: "drop n d = take k (drop n d) @ drop (n + k) d" for n k
    by (metis append_take_drop_id drop_drop add.commute)
  show ?thesis
    using s [of 0 4] s [of 4 2] s [of 6 4] s [of 10 4] s [of 14 4] s [of 18 8] s [of 26 4] s [of 30 4] by simp
qed

lemma encode_decode_header:
  assumes "34 \<le> length d" and "unat (ph_length (decode_header d)) = length d"
  shows "encode_bytes (decode_header d) (drop 34 d) = d"
proof -
  have "of_nat (length d) = ph_length (decode_header d)"
    unfolding assms(2) [symmetric] by simp
  moreover have "length d = 34 + length (drop 34 d)" using assms(1) by simp
  ultimately have "HEADER_SIZE + of_nat (length (drop 34 d)) = ph_length (decode_header d)"
    by (metis HEADER_SIZE_def of_nat_add of_nat_numeral)
  then show ?thesis
    using assms(1) by (subst (2) split_header) (simp_all add: encode_bytes_def decode_header_def write_be_put read_be_get be_put_get)
qed

lemma decode_bytes_iff:
  "decode_bytes d = Some (h, pl) \<longleftrightarrow> d = encode_bytes h pl \<and> ph_magic h = MAGIC_VALUE \<and> length pl \<le> 16777182 \<and>
     ph_length h = HEADER_SIZE + of_nat (length pl)"
proof
  assume a: "decode_bytes d = Some (h, pl)"
  then have d: "34 \<le> length d" "length d \<le> 16777216" "h = decode_header d" "pl = drop 34 d" "ph_magic h = MAGIC_VALUE"
    "unat (ph_length h) = length d"
    by (auto simp: decode_bytes_def Let_def split: if_splits)
  have e: "encode_bytes h pl = d" using encode_decode_header d by simp
  have "h = h\<lparr>ph_length := HEADER_SIZE + of_nat (length pl)\<rparr>"
    using decode_encode_header [of h pl] unfolding e by (subst d(3))
  then have "ph_length h = HEADER_SIZE + of_nat (length pl)" by (metis packet_header.select_convs(1) packet_header.surjective packet_header.update_convs(1))
  then show "d = encode_bytes h pl \<and> ph_magic h = MAGIC_VALUE \<and> length pl \<le> 16777182 \<and>
     ph_length h = HEADER_SIZE + of_nat (length pl)"
    using e d by auto
next
  assume a: "d = encode_bytes h pl \<and> ph_magic h = MAGIC_VALUE \<and> length pl \<le> 16777182 \<and>
     ph_length h = HEADER_SIZE + of_nat (length pl)"
  then have "decode_header d = h" by (simp add: decode_encode_header)
  moreover have "unat (ph_length h) = 34 + length pl"
    using a by (simp add: HEADER_SIZE_def unat_word_ariths unat_of_nat)
  moreover have "drop 34 d = pl" using a by (simp add: encode_bytes_def write_be_put)
  ultimately show "decode_bytes d = Some (h, pl)" using a by (simp add: decode_bytes_def)
qed

lemma buf_payload_read:
  assumes "buf_ok h b" and "buf_to_vector h b = Some pl"
  shows "(case (if buf_size b > 0 then buf_data b else None) of
      Some p \<Rightarrow> ptr_read h p (unat (buf_size b)) | None \<Rightarrow> Some (replicate (unat (buf_size b)) 0)) = Some pl"
  using assms by (auto simp: buf_size_def buf_to_vector_def buf_ok_def word_gt_0 buf_data_vec split: option.splits)

lemma encode_packet_bytes:
  assumes "buf_ok h (pk_payload pkt)" and "buf_to_vector h (pk_payload pkt) = Some pl"
  shows "encode_packet pkt h = Some (buf_from_vector (encode_bytes (pk_header pkt) pl) h)"
  using buf_payload_read [OF assms] by (simp add: encode_packet_def)

lemma ucast_sizes [simp]: "unat (ucast HEADER_SIZE :: u64) = 34" "unat (ucast MAX_PACKET_LEN :: u64) = 16777216"
  by (simp_all add: HEADER_SIZE_def MAX_PACKET_LEN_def)

lemma ucast_eq_u64: "ucast (a :: u32) = (n :: u64) \<longleftrightarrow> unat a = unat n"
proof -
  have "unat a < 2 ^ 64" using unsigned_less [of a, where ?'a = nat] by simp
  then show ?thesis by (simp add: word_unat_eq_iff unsigned_ucast_eq take_bit_nat_eq_self)
qed

lemma decode_packet_bytes:
  assumes ok: "buf_ok h b" and d: "buf_to_vector h b = Some d"
  shows "case decode_bytes d of None \<Rightarrow> decode_packet b h = Some None
    | Some (hh, pl) \<Rightarrow> \<exists>pk h'. decode_packet b h = Some (Some (pk, h')) \<and> pk_header pk = hh \<and>
        buf_ok h' (pk_payload pk) \<and> buf_to_vector h' (pk_payload pk) = Some pl"
proof -
  define n where "n = buf_size b"
  have len: "length d = unat n" using buf_to_vector_ok [OF ok] d by (auto simp: n_def buf_size_def)
  have small: "n < ucast HEADER_SIZE \<longleftrightarrow> length d < 34" "n > ucast MAX_PACKET_LEN \<longleftrightarrow> 16777216 < length d"
    by (simp_all add: len word_less_nat_alt)
  show ?thesis
  proof (cases "length d < 34 \<or> 16777216 < length d")
    case True
    then show ?thesis using small by (auto simp: decode_packet_def decode_bytes_def Let_def n_def [symmetric])
  next
    case False
    then have r: "34 \<le> length d" "length d \<le> 16777216" by auto
    then have nz: "bf_len b \<noteq> 0" using len by (auto simp: n_def buf_size_def)
    then obtain a where a: "buf_vec b = Some a" using ok by (auto simp: buf_ok_def split: option.splits)
    define o' where "o' = unat (bf_off b)"
    have data: "buf_data b = Some (a, o')" by (simp add: buf_data_vec a o'_def)
    have v: "d = take (unat n) (drop o' (h ! a))" "a < length h" "o' + unat n \<le> length (h ! a)"
      using d nz a ok by (auto simp: buf_to_vector_def buf_data_vec ptr_read_def buf_ok_def o'_def n_def buf_size_def)
    have hd: "ptr_read h (a, o') 34 = Some (take 34 d)"
      using v r len by (simp add: ptr_read_def)
    have pl: "ptr_read h (a, o' + 34) (unat n - 34) = Some (drop 34 d)"
      using v r len by (simp add: ptr_read_def drop_take add.commute)
    have hdr: "decode_header (take 34 d) = decode_header d" by (rule decode_header_take [OF r(1)])
    define k where "k = n - ucast HEADER_SIZE"
    have k: "unat k = unat n - 34" "0 < k \<longleftrightarrow> drop 34 d \<noteq> []"
    proof -
      have "ucast HEADER_SIZE \<le> n" using r(1) by (simp add: word_le_nat_alt len)
      then show u: "unat k = unat n - 34" by (simp add: k_def unat_sub)
      show "0 < k \<longleftrightarrow> drop 34 d \<noteq> []" using u len by (auto simp: word_less_nat_alt)
    qed
    show ?thesis
    proof (cases "ph_magic (decode_header d) \<noteq> MAGIC_VALUE \<or> unat (ph_length (decode_header d)) \<noteq> length d")
      case True
      then have "decode_bytes d = None" by (auto simp: decode_bytes_def Let_def)
      moreover have "decode_packet b h = Some None"
        using False True small by (auto simp: decode_packet_def Let_def n_def [symmetric] data hd hdr ucast_eq_u64 len)
      ultimately show ?thesis by simp
    next
      case ok2: False
      then have db: "decode_bytes d = Some (decode_header d, drop 34 d)" using r by (simp add: decode_bytes_def Let_def)
      have lb: "\<not> ph_length (decode_header d) < HEADER_SIZE" "\<not> ph_length (decode_header d) > MAX_PACKET_LEN"
        using ok2 r by (simp_all add: word_less_nat_alt)
      have hok: "heap_ok h" using ok by (simp add: buf_ok_def)
      show ?thesis
      proof (cases "drop 34 d = []")
        case True
        then have "decode_packet b h = Some (Some (\<lparr>pk_header = decode_header d, pk_payload = buf_empty\<rparr>, h))"
          using False ok2 small lb k by (simp add: decode_packet_def Let_def n_def [symmetric] data hd hdr ucast_eq_u64 len k_def)
        then show ?thesis using True hok
          by (simp add: db buf_ok_empty) (simp add: buf_to_vector_def buf_empty_def)
      next
        case ne: False
        define b' where "b' = fst (buf_allocate k h)"
        have al: "buf_allocate k h = (b', h @ [replicate (unat k) 0])" by (simp add: b'_def buf_allocate_def)
        have w: "ptr_write (length h, 0) (drop 34 d) (h @ [replicate (unat k) 0]) = Some (h @ [drop 34 d])"
          using len k(1) by (simp add: ptr_write_def)
        have "decode_packet b h = Some (Some (\<lparr>pk_header = decode_header d, pk_payload = b'\<rparr>, h @ [drop 34 d]))"
          using False ok2 small lb k ne pl al w
          by (simp add: decode_packet_def Let_def n_def [symmetric] data hd hdr ucast_eq_u64 len k_def [symmetric])
        moreover have "buf_from_vector (drop 34 d) h = (b', h @ [drop 34 d])"
        proof -
          have "length (drop 34 d) = unat k" using k(1) len by simp
          then have "of_nat (length (drop 34 d)) = k" by (metis word_unat_eq_iff of_nat_unat ucast_id)
          then show ?thesis by (simp only: buf_from_vector_def b'_def buf_allocate_def fst_conv)
        qed
        then have "buf_ok (h @ [drop 34 d]) b'" "buf_to_vector (h @ [drop 34 d]) b' = Some (drop 34 d)"
          using buf_ok_from_vector [OF hok] buf_to_vector_from_vector [OF hok] r by force+
        ultimately show ?thesis by (simp add: db)
      qed
    qed
  qed
qed

text \<open>A packet of at most 16 MB is read back from its encoding: \<open>DecodePacket\<close> of what
  \<open>EncodePacket\<close> produced succeeds and yields the header, with the length the encoder filled in, and
  the bytes of the payload, for every payload buffer, slices included.\<close>

theorem packet_roundtrip:
  assumes "buf_ok h (pk_payload pkt)" and "buf_to_vector h (pk_payload pkt) = Some pl"
    and "length pl + 34 \<le> 16777216" and "ph_magic (pk_header pkt) = MAGIC_VALUE"
  shows "\<exists>b h1 pkt' h2. encode_packet pkt h = Some (b, h1) \<and> decode_packet b h1 = Some (Some (pkt', h2)) \<and>
    pk_header pkt' = (pk_header pkt)\<lparr>ph_length := of_nat (34 + length pl)\<rparr> \<and>
    buf_to_vector h2 (pk_payload pkt') = Some pl"
proof -
  define d where "d = encode_bytes (pk_header pkt) pl"
  obtain b h1 where f: "buf_from_vector d h = (b, h1)" by fastforce
  have e: "encode_packet pkt h = Some (b, h1)" using encode_packet_bytes [OF assms(1,2)] f by (simp add: d_def)
  have hok: "heap_ok h" using assms(1) by (simp add: buf_ok_def)
  have b: "buf_ok h1 b" "buf_to_vector h1 b = Some d"
    using buf_ok_from_vector [OF hok _ f] buf_to_vector_from_vector [OF hok _ f] assms(3) by (simp_all add: d_def)
  let ?hd = "(pk_header pkt)\<lparr>ph_length := HEADER_SIZE + of_nat (length pl)\<rparr>"
  have "d = encode_bytes ?hd pl" by (simp add: d_def encode_bytes_def)
  then have "decode_bytes d = Some (?hd, pl)" using assms(3,4) by (simp add: decode_bytes_iff)
  then show ?thesis using decode_packet_bytes [OF b] e by (auto simp: HEADER_SIZE_def)
qed

text \<open>C18: \<open>DecodePacket\<close> never reads outside its buffer, and it accepts exactly the buffers whose bytes
  are the encoding of some packet with the right magic number and a payload that keeps the packet
  within 16 MB; everything else is refused.\<close>

theorem decode_accepts_encodings:
  assumes "buf_ok h b" and "buf_to_vector h b = Some d"
  shows "decode_packet b h \<noteq> None \<and>
    ((\<exists>pkt h'. decode_packet b h = Some (Some (pkt, h'))) \<longleftrightarrow>
      (\<exists>hd pl. ph_magic hd = MAGIC_VALUE \<and> length pl + 34 \<le> 16777216 \<and> d = encode_bytes hd pl))"
proof (cases "decode_bytes d")
  case None
  have "\<nexists>hd pl. ph_magic hd = MAGIC_VALUE \<and> length pl + 34 \<le> 16777216 \<and> d = encode_bytes hd pl"
  proof clarify
    fix hd :: packet_header and pl
    assume a: "ph_magic hd = MAGIC_VALUE" "length pl + 34 \<le> 16777216" "d = encode_bytes hd pl"
    let ?hd = "hd\<lparr>ph_length := HEADER_SIZE + of_nat (length pl)\<rparr>"
    have "d = encode_bytes ?hd pl" using a(3) by (simp add: encode_bytes_def)
    then have "decode_bytes d = Some (?hd, pl)" using a(1,2) by (simp add: decode_bytes_iff)
    then show False using None by simp
  qed
  then show ?thesis using decode_packet_bytes [OF assms] None by auto
next
  case (Some r)
  obtain hh pl where r: "r = (hh, pl)" by (cases r)
  then have "d = encode_bytes hh pl \<and> ph_magic hh = MAGIC_VALUE \<and> length pl \<le> 16777182"
    using Some by (simp add: decode_bytes_iff)
  then have "\<exists>hd pl. ph_magic hd = MAGIC_VALUE \<and> length pl + 34 \<le> 16777216 \<and> d = encode_bytes hd pl" by fastforce
  then show ?thesis using decode_packet_bytes [OF assms] Some by (auto simp: r)
qed

definition demo_packet :: packet where
  "demo_packet = \<lparr>pk_header = default_header\<lparr>ph_cmd := 7\<rparr>, pk_payload = fst (buf_from_vector [1, 2, 3] [])\<rparr>"

lemma demo_packet_ok: "buf_ok [[1, 2, 3]] (pk_payload demo_packet)"
  "buf_to_vector [[1, 2, 3]] (pk_payload demo_packet) = Some [1, 2, 3]"
  using buf_ok_from_vector [of "[]" "[1, 2, 3]"] buf_to_vector_from_vector [of "[]" "[1, 2, 3]"]
  by (simp_all add: demo_packet_def buf_from_vector_def heap_ok_def)

lemma packet_roundtrip_witness:
  "\<exists>b h1 pkt' h2. encode_packet demo_packet [[1, 2, 3]] = Some (b, h1) \<and> decode_packet b h1 = Some (Some (pkt', h2)) \<and>
    ph_cmd (pk_header pkt') = 7 \<and> ph_length (pk_header pkt') = 37 \<and> buf_to_vector h2 (pk_payload pkt') = Some [1, 2, 3]"
  using packet_roundtrip [OF demo_packet_ok] by (fastforce simp: demo_packet_def default_header_def)

lemma decode_accepts_encodings_witness:
  "decode_packet (pk_payload demo_packet) [[1, 2, 3]] \<noteq> None"
  using decode_accepts_encodings [OF demo_packet_ok] by simp

end
