(* ===== verification/GM_RingBuffer.thy ===== *)
theory GM_RingBuffer
  imports GM_Prelude "HOL-Library.Monad_Syntax"
begin

text \<open>
  The ring buffer of the read path (\<open>net/ring_buffer.hpp\<close>, \<open>ring_buffer.cpp\<close>) and the interface its
  clients rely on, a first-in first-out store of bytes. The loops of the code are partial functions,
  so that a loop that does not end is \<open>None\<close>; so is the remainder by a capacity of zero. Positions
  are natural numbers: they stay below the length of a vector, far from the wrap of \<open>size_t\<close>.
\<close>

record ring =
  rb_buf :: bytes
  rb_rpos :: nat
  rb_wpos :: nat
  rb_size :: nat

definition ring_new :: "nat \<Rightarrow> ring" where
  "ring_new cap = \<lparr>rb_buf = replicate cap 0, rb_rpos = 0, rb_wpos = 0, rb_size = 0\<rparr>"

text \<open>\<open>memcpy\<close> into a vector.\<close>

definition blit :: "bytes \<Rightarrow> nat \<Rightarrow> bytes \<Rightarrow> bytes" where
  "blit dst pos src = take pos dst @ src @ drop (pos + length src) dst"

partial_function (option) grow_cap :: "nat \<Rightarrow> nat \<Rightarrow> nat option" where
  "grow_cap cap need = (if cap < need then grow_cap (cap * 2) need else Some cap)"

text \<open>The two copying loops: from the ring, and (in \<open>Append\<close>) into it.\<close>

partial_function (option) copy_out :: "bytes \<Rightarrow> nat \<Rightarrow> nat \<Rightarrow> bytes option" where
  "copy_out buf start len =
     (if len = 0 then Some []
      else let chunk = min len (length buf - start)
           in do { rest \<leftarrow> copy_out buf 0 (len - chunk); Some (take chunk (drop start buf) @ rest) })"

definition ensure_space :: "nat \<Rightarrow> ring \<Rightarrow> ring option" where
  "ensure_space len r =
     (if rb_size r + len \<le> length (rb_buf r) then Some r
      else do { cap \<leftarrow> grow_cap (length (rb_buf r)) (rb_size r + len);
                old \<leftarrow> copy_out (rb_buf r) (rb_rpos r) (rb_size r);
                Some \<lparr>rb_buf = blit (replicate cap 0) 0 old, rb_rpos = 0, rb_wpos = rb_size r, rb_size = rb_size r\<rparr> })"

partial_function (option) append_loop :: "bytes \<Rightarrow> nat \<Rightarrow> bytes \<Rightarrow> (bytes \<times> nat) option" where
  "append_loop buf pos data =
     (if data = [] then Some (buf, pos)
      else if buf = [] then None
      else let chunk = min (length data) (length buf - pos)
           in append_loop (blit buf pos (take chunk data)) ((pos + chunk) mod length buf) (drop chunk data))"

definition ring_append :: "bytes \<Rightarrow> ring \<Rightarrow> ring option" where
  "ring_append data r = do {
     r1 \<leftarrow> ensure_space (length data) r;
     (buf, pos) \<leftarrow> append_loop (rb_buf r1) (rb_wpos r1) data;
     Some (r1\<lparr>rb_buf := buf, rb_wpos := pos, rb_size := rb_size r1 + length data\<rparr>) }"

definition ring_readable :: "ring \<Rightarrow> nat" where
  "ring_readable r = rb_size r"

definition ring_is_contiguous :: "nat \<Rightarrow> nat \<Rightarrow> ring \<Rightarrow> bool option" where
  "ring_is_contiguous off len r =
     (if off + len > rb_size r then Some False
      else if rb_buf r = [] then None
      else Some ((rb_rpos r + off) mod length (rb_buf r) + len \<le> length (rb_buf r)))"

text \<open>\<open>DataAt\<close>: what the pointer shows, from the position to the end of the vector.\<close>

definition ring_data_at :: "nat \<Rightarrow> ring \<Rightarrow> bytes option" where
  "ring_data_at off r =
     (if rb_buf r = [] then None else Some (drop ((rb_rpos r + off) mod length (rb_buf r)) (rb_buf r)))"

definition ring_read_at :: "nat \<Rightarrow> nat \<Rightarrow> ring \<Rightarrow> bytes option" where
  "ring_read_at off len r =
     (if rb_buf r = [] then None else copy_out (rb_buf r) ((rb_rpos r + off) mod length (rb_buf r)) len)"

definition ring_consume :: "nat \<Rightarrow> ring \<Rightarrow> ring option" where
  "ring_consume len r =
     (if rb_buf r = [] then None
      else let n = min len (rb_size r)
           in Some (r\<lparr>rb_rpos := (rb_rpos r + n) mod length (rb_buf r), rb_size := rb_size r - n\<rparr>))"

section \<open>The byte queue interface\<close>

text \<open>What a client of the ring may rely on.\<close>

locale byte_queue =
  fixes ok :: "'q \<Rightarrow> bool"
    and contents :: "'q \<Rightarrow> bytes"
    and push :: "bytes \<Rightarrow> 'q \<Rightarrow> 'q option"
    and peek :: "nat \<Rightarrow> nat \<Rightarrow> 'q \<Rightarrow> bytes option"
    and pop :: "nat \<Rightarrow> 'q \<Rightarrow> 'q option"
    and readable :: "'q \<Rightarrow> nat"
  assumes readable_ok: "ok q \<Longrightarrow> readable q = length (contents q)"
    and push_ok: "ok q \<Longrightarrow> \<exists>q'. push bs q = Some q' \<and> ok q' \<and> contents q' = contents q @ bs"
    and peek_ok: "ok q \<Longrightarrow> off + n \<le> length (contents q) \<Longrightarrow> peek off n q = Some (take n (drop off (contents q)))"
    and pop_ok: "ok q \<Longrightarrow> \<exists>q'. pop n q = Some q' \<and> ok q' \<and> contents q' = drop n (contents q)"
begin

text \<open>A client that pushes pieces and, after each, pops some bytes it has read.\<close>

fun session :: "(bytes \<times> nat) list \<Rightarrow> 'q \<Rightarrow> (bytes \<times> 'q) option" where
  "session [] q = Some ([], q)"
| "session ((bs, n) # xs) q = do {
     q1 \<leftarrow> push bs q;
     out \<leftarrow> peek 0 (min n (readable q1)) q1;
     q2 \<leftarrow> pop (min n (readable q1)) q1;
     (rest, q3) \<leftarrow> session xs q2;
     Some (out @ rest, q3) }"

lemma session_fifo:
  "ok q \<Longrightarrow> \<exists>out q'. session xs q = Some (out, q') \<and> ok q' \<and> contents q @ concat (map fst xs) = out @ contents q'"
proof (induction xs arbitrary: q)
  case (Cons x xs)
  obtain bs n where x: "x = (bs, n)" by (cases x)
  obtain q1 where q1: "push bs q = Some q1" "ok q1" "contents q1 = contents q @ bs" using push_ok [OF Cons.prems] by blast
  define k where "k = min n (readable q1)"
  have rd: "readable q1 = length (contents q1)" by (rule readable_ok [OF q1(2)])
  have "k \<le> length (contents q1)" by (simp add: k_def rd)
  then have p: "peek 0 k q1 = Some (take k (contents q1))" using peek_ok [OF q1(2), of 0 k] by simp
  obtain q2 where q2: "pop k q1 = Some q2" "ok q2" "contents q2 = drop k (contents q1)" using pop_ok [OF q1(2)] by blast
  obtain out q' where r: "session xs q2 = Some (out, q')" "ok q'" "contents q2 @ concat (map fst xs) = out @ contents q'"
    using Cons.IH [OF q2(2)] by blast
  have "contents q @ concat (map fst (x # xs)) = take k (contents q1) @ contents q2 @ concat (map fst xs)"
    by (simp add: x q2(3) flip: q1(3))
  then have "contents q @ concat (map fst (x # xs)) = (take k (contents q1) @ out) @ contents q'" by (simp add: r(3))
  then show ?case using q1(1) p q2(1) r(1,2) by (auto simp: x k_def [symmetric])
qed simp

lemma push_pop_fifo:
  assumes "ok q" and "push a q = Some q1" and "n \<le> length (contents q)" and "pop n q1 = Some q2"
  shows "contents q2 = drop n (contents q) @ a"
  using push_ok [OF assms(1), of a] pop_ok [of q1 n] assms by auto

end

section \<open>The ring implements the byte queue\<close>

definition ring_ok :: "ring \<Rightarrow> bool" where
  "ring_ok r \<longleftrightarrow> rb_buf r \<noteq> [] \<and> rb_rpos r < length (rb_buf r) \<and> rb_size r \<le> length (rb_buf r) \<and>
     rb_wpos r = (rb_rpos r + rb_size r) mod length (rb_buf r)"

text \<open>The abstraction: the stored bytes are the first \<open>rb_size\<close> ones of the vector rotated to the read position.\<close>

definition ring_bytes :: "ring \<Rightarrow> bytes" where
  "ring_bytes r = take (rb_size r) (rotate (rb_rpos r) (rb_buf r))"

lemma ring_new_ok: "0 < cap \<Longrightarrow> ring_ok (ring_new cap) \<and> ring_bytes (ring_new cap) = []"
  by (simp add: ring_ok_def ring_new_def ring_bytes_def)

lemma length_ring_bytes [simp]: "ring_ok r \<Longrightarrow> length (ring_bytes r) = rb_size r"
  by (simp add: ring_ok_def ring_bytes_def)

lemma rotate_less: "n < length xs \<Longrightarrow> rotate n xs = drop n xs @ take n xs"
  by (simp add: rotate_drop_take)

lemma grow_cap_some: "0 < cap \<Longrightarrow> \<exists>c. grow_cap cap need = Some c \<and> need \<le> c \<and> cap \<le> c"
proof (induction "need - cap" arbitrary: cap rule: less_induct)
  case less
  show ?case
  proof (cases "cap < need")
    case True
    then have "need - cap * 2 < need - cap" using less.prems by simp
    from less.hyps [OF this] less.prems obtain c where "grow_cap (cap * 2) need = Some c" "need \<le> c" "cap * 2 \<le> c" by auto
    then show ?thesis using True by (subst grow_cap.simps) auto
  qed (subst grow_cap.simps, simp)
qed

text \<open>An empty vector never grows: the doubling loop does not end.\<close>

lemma grow_cap_zero: "0 < need \<Longrightarrow> grow_cap 0 need = c \<Longrightarrow> c = None"
proof -
  have "cap = 0 \<longrightarrow> need = 0" if g: "grow_cap cap need = Some c" for cap c
    by (rule grow_cap.raw_induct [OF _ g]) (auto split: if_splits)
  then show "0 < need \<Longrightarrow> grow_cap 0 need = c \<Longrightarrow> c = None" by (cases c) auto
qed

lemma copy_out_front: "len \<le> length buf \<Longrightarrow> copy_out buf 0 len = Some (take len buf)"
proof (cases "len = 0")
  case False
  assume "len \<le> length buf"
  then have "copy_out buf 0 (len - min len (length buf)) = Some []" by (subst copy_out.simps) simp
  then show ?thesis using False \<open>len \<le> length buf\<close> by (subst copy_out.simps) (simp add: min_def)
qed (subst copy_out.simps, simp)

lemma copy_out_rotate:
  assumes "start < length buf" and "len \<le> length buf"
  shows "copy_out buf start len = Some (take len (rotate start buf))"
proof (cases "len = 0")
  case False
  define k where "k = min len (length buf - start)"
  have "copy_out buf 0 (len - k) = Some (take (len - k) buf)" using assms by (intro copy_out_front) simp
  then have "copy_out buf start len = Some (take k (drop start buf) @ take (len - k) buf)"
    using False by (subst copy_out.simps) (simp add: k_def [symmetric])
  also have "take k (drop start buf) @ take (len - k) buf = take len (rotate start buf)"
    using assms by (auto simp: rotate_less k_def min_def)
  finally show ?thesis .
qed (subst copy_out.simps, simp)

lemma length_blit [simp]: "pos + length src \<le> length dst \<Longrightarrow> length (blit dst pos src) = length dst"
  by (simp add: blit_def)

lemma nth_blit:
  "pos + length src \<le> length dst \<Longrightarrow> j < length dst \<Longrightarrow>
   blit dst pos src ! j = (if pos \<le> j \<and> j < pos + length src then src ! (j - pos) else dst ! j)"
  by (auto simp: blit_def nth_append min_def)

lemma append_loop_one:
  assumes "pos < length buf" and "length data \<le> length buf - pos"
  shows "append_loop buf pos data = Some (blit buf pos data, (pos + length data) mod length buf)"
proof (cases "data = []")
  case True
  then show ?thesis using assms by (subst append_loop.simps) (simp add: blit_def)
next
  case False
  have "append_loop b p [] = Some (b, p)" for b p by (subst append_loop.simps) simp
  moreover have "buf \<noteq> []" "min (length data) (length buf - pos) = length data" using assms by auto
  ultimately show ?thesis using False by (subst append_loop.simps) (simp add: Let_def)
qed

lemma append_loop_nth:
  assumes pos: "pos < length buf" and len: "length data \<le> length buf"
  shows "\<exists>buf'. append_loop buf pos data = Some (buf', (pos + length data) mod length buf) \<and> length buf' = length buf \<and>
    (\<forall>j < length buf. buf' ! j =
       (if pos \<le> j \<and> j < pos + length data then data ! (j - pos)
        else if j + length buf < pos + length data then data ! (j + length buf - pos) else buf ! j))"
proof (cases "length data \<le> length buf - pos")
  case True
  then show ?thesis using append_loop_one [OF pos True] pos by (auto simp: nth_blit)
next
  case False
  define k where "k = length buf - pos"
  define buf1 where "buf1 = blit buf pos (take k data)"
  have k: "length (take k data) = k" "pos + k = length buf" "length buf1 = length buf" "k < length data"
    using False pos by (simp_all add: k_def buf1_def)
  have ne: "data \<noteq> []" "buf \<noteq> []" using False pos by auto
  have "append_loop buf pos data = append_loop buf1 0 (drop k data)"
    using ne False k(2) by (subst append_loop.simps) (simp add: Let_def k_def [symmetric] buf1_def min_def)
  also have "\<dots> = Some (blit buf1 0 (drop k data), length (drop k data) mod length buf1)"
    using append_loop_one [of 0 buf1 "drop k data"] ne(2) len pos k by simp
  also have "length (drop k data) mod length buf1 = (pos + length data) mod length buf"
  proof -
    have "pos + length data = length (drop k data) + length buf" using k(2,4) by simp
    then show ?thesis by (simp add: k(3))
  qed
  finally have "append_loop buf pos data = Some (blit buf1 0 (drop k data), (pos + length data) mod length buf)" .
  moreover have "blit buf1 0 (drop k data) ! j =
      (if pos \<le> j \<and> j < pos + length data then data ! (j - pos)
       else if j + length buf < pos + length data then data ! (j + length buf - pos) else buf ! j)" if j: "j < length buf" for j
  proof -
    have "blit buf1 0 (drop k data) ! j = (if j < length data - k then drop k data ! j else buf1 ! j)"
      using nth_blit [of 0 "drop k data" buf1 j] j k len by simp
    moreover have "buf1 ! j = (if pos \<le> j then data ! (j - pos) else buf ! j)"
      using nth_blit [of pos "take k data" buf j] j k by (simp add: buf1_def)
    moreover have "j + length buf - pos = k + j" using k(2) by simp
    moreover have "\<not> (pos \<le> j \<and> j < length data - k)" using k(2) len by linarith
    ultimately show ?thesis using k j by auto
  qed
  ultimately show ?thesis using k len by auto
qed

lemma ring_append_fits:
  assumes ok: "ring_ok r" and fits: "rb_size r + length data \<le> length (rb_buf r)"
  shows "\<exists>r'. ring_append data r = Some r' \<and> ring_ok r' \<and> ring_bytes r' = ring_bytes r @ data"
proof -
  define n where "n = length (rb_buf r)"
  define pos where "pos = rb_wpos r"
  have n: "rb_rpos r < n" "rb_size r + length data \<le> n" "pos = (rb_rpos r + rb_size r) mod n" "pos < n"
    using ok fits by (auto simp: ring_ok_def n_def pos_def)
  have len: "length data \<le> length (rb_buf r)" using fits by simp
  obtain buf' where b: "append_loop (rb_buf r) pos data = Some (buf', (pos + length data) mod n)" "length buf' = n"
    "\<forall>j < n. buf' ! j = (if pos \<le> j \<and> j < pos + length data then data ! (j - pos)
        else if j + n < pos + length data then data ! (j + n - pos) else rb_buf r ! j)"
    using append_loop_nth [OF n(4) [unfolded n_def] len] unfolding n_def by blast
  define r' where "r' = r\<lparr>rb_buf := buf', rb_wpos := (pos + length data) mod n, rb_size := rb_size r + length data\<rparr>"
  have "ring_append data r = Some r'"
    using fits b(1) by (simp add: ring_append_def ensure_space_def r'_def pos_def)
  moreover have "ring_ok r'"
    using n b(2) ok by (auto simp: ring_ok_def r'_def n_def [symmetric] mod_add_left_eq add.assoc)
  moreover have "ring_bytes r' = ring_bytes r @ data"
  proof (rule nth_equalityI)
    show "length (ring_bytes r') = length (ring_bytes r @ data)" using calculation(2) ok by (simp add: r'_def)
    fix i assume "i < length (ring_bytes r')"
    then have i: "i < rb_size r + length data" using calculation(2) by (simp add: r'_def)
    define j where "j = (rb_rpos r + i) mod n"
    have j: "j < n" "j = (if rb_rpos r + i < n then rb_rpos r + i else rb_rpos r + i - n)"
      using n i by (auto simp: j_def mod_if)
    have p: "pos = (if rb_rpos r + rb_size r < n then rb_rpos r + rb_size r else rb_rpos r + rb_size r - n)"
      using n by (auto simp: mod_if)
    have "ring_bytes r' ! i = buf' ! j"
      using i n b(2) by (simp add: ring_bytes_def r'_def nth_rotate j_def)
    also have "\<dots> = (if i < rb_size r then rb_buf r ! j else data ! (i - rb_size r))"
    proof (cases "i < rb_size r")
      case True
      have "\<not> (pos \<le> j \<and> j < pos + length data)" "\<not> j + n < pos + length data"
        using True j p n(1,2) by (auto split: if_splits)
      with b(3) [rule_format, OF j(1)] show ?thesis using True by (simp only: if_False if_True)
    next
      case False
      have "(pos \<le> j \<and> j < pos + length data \<and> j - pos = i - rb_size r) \<or>
          (\<not> pos \<le> j \<and> j + n < pos + length data \<and> j + n - pos = i - rb_size r)"
        using False j p n(1,2) i by (auto split: if_splits)
      then show ?thesis using False b(3) j(1) by auto
    qed
    also have "\<dots> = (ring_bytes r @ data) ! i"
      using n i by (simp add: ring_bytes_def nth_append nth_rotate j_def n_def)
    finally show "ring_bytes r' ! i = (ring_bytes r @ data) ! i" .
  qed
  ultimately show ?thesis by blast
qed

lemma ensure_space_ok:
  assumes ok: "ring_ok r"
  shows "\<exists>r'. ensure_space len r = Some r' \<and> ring_ok r' \<and> ring_bytes r' = ring_bytes r \<and> rb_size r' = rb_size r \<and>
    rb_size r + len \<le> length (rb_buf r')"
proof (cases "rb_size r + len \<le> length (rb_buf r)")
  case True
  then show ?thesis using ok by (simp add: ensure_space_def)
next
  case False
  have "0 < length (rb_buf r)" using ok by (simp add: ring_ok_def)
  from grow_cap_some [OF this, of "rb_size r + len"] obtain cap where cap: "grow_cap (length (rb_buf r)) (rb_size r + len) = Some cap"
    "rb_size r + len \<le> cap" "length (rb_buf r) \<le> cap" by blast
  have c: "copy_out (rb_buf r) (rb_rpos r) (rb_size r) = Some (ring_bytes r)"
    using ok copy_out_rotate [of "rb_rpos r" "rb_buf r" "rb_size r"] by (simp add: ring_ok_def ring_bytes_def)
  define r' where "r' = \<lparr>rb_buf = blit (replicate cap 0) 0 (ring_bytes r), rb_rpos = 0, rb_wpos = rb_size r, rb_size = rb_size r\<rparr>"
  have l: "length (ring_bytes r) = rb_size r" using ok by simp
  have "ensure_space len r = Some r'" using False cap(1) c by (simp add: ensure_space_def r'_def)
  moreover have "length (rb_buf r') = cap" using l cap(2) by (simp add: r'_def)
  moreover have "rb_size r < cap" using False cap(2) ok by (auto simp: ring_ok_def)
  ultimately show ?thesis using l cap(2) by (auto simp: ring_ok_def ring_bytes_def r'_def blit_def)
qed

lemma ring_append_ok:
  assumes "ring_ok r"
  shows "\<exists>r'. ring_append data r = Some r' \<and> ring_ok r' \<and> ring_bytes r' = ring_bytes r @ data"
proof -
  obtain r1 where r1: "ensure_space (length data) r = Some r1" "ring_ok r1" "ring_bytes r1 = ring_bytes r" "rb_size r1 = rb_size r"
    "rb_size r + length data \<le> length (rb_buf r1)" using ensure_space_ok [OF assms] by blast
  have "ring_append data r = ring_append data r1" using r1(1,4,5) by (simp add: ring_append_def ensure_space_def)
  then show ?thesis using ring_append_fits [OF r1(2)] r1(3-5) by simp
qed

lemma ring_read_at_ok:
  assumes ok: "ring_ok r" and "off + n \<le> length (ring_bytes r)"
  shows "ring_read_at off n r = Some (take n (drop off (ring_bytes r)))"
proof -
  define c where "c = length (rb_buf r)"
  have c: "0 < c" "rb_rpos r < c" "off + n \<le> rb_size r" "rb_size r \<le> c" using assms by (auto simp: ring_ok_def c_def)
  have "copy_out (rb_buf r) ((rb_rpos r + off) mod c) n = Some (take n (rotate ((rb_rpos r + off) mod c) (rb_buf r)))"
    using c by (intro copy_out_rotate) (simp_all add: c_def [symmetric])
  also have "rotate ((rb_rpos r + off) mod c) (rb_buf r) = rotate (rb_rpos r + off) (rb_buf r)"
    by (simp add: c_def rotate_conv_mod [symmetric])
  also have "take n (rotate (rb_rpos r + off) (rb_buf r)) = take n (drop off (ring_bytes r))"
  proof (rule nth_equalityI)
    show "length (take n (rotate (rb_rpos r + off) (rb_buf r))) = length (take n (drop off (ring_bytes r)))"
      using c ok by (simp add: c_def [symmetric])
    fix i assume "i < length (take n (rotate (rb_rpos r + off) (rb_buf r)))"
    then show "take n (rotate (rb_rpos r + off) (rb_buf r)) ! i = take n (drop off (ring_bytes r)) ! i"
      using c by (simp add: ring_bytes_def nth_rotate c_def [symmetric] add.assoc)
  qed
  finally show ?thesis using c by (auto simp: ring_read_at_def c_def)
qed

lemma ring_consume_ok:
  assumes ok: "ring_ok r"
  shows "\<exists>r'. ring_consume n r = Some r' \<and> ring_ok r' \<and> ring_bytes r' = drop n (ring_bytes r)"
proof -
  define k where "k = min n (rb_size r)"
  define c where "c = length (rb_buf r)"
  have c: "0 < c" "rb_rpos r < c" "rb_size r \<le> c" "k \<le> rb_size r" using ok by (auto simp: ring_ok_def c_def k_def)
  define r' where "r' = r\<lparr>rb_rpos := (rb_rpos r + k) mod c, rb_size := rb_size r - k\<rparr>"
  have e: "ring_consume n r = Some r'" using c by (auto simp: ring_consume_def r'_def c_def k_def Let_def)
  have "((rb_rpos r + k) mod c + (rb_size r - k)) mod c = (rb_rpos r + rb_size r) mod c"
    by (subst mod_add_left_eq) (use c(4) in simp)
  then have ok': "ring_ok r'"
    using ok c by (auto simp: ring_ok_def r'_def c_def [symmetric])
  have "ring_bytes r' = drop k (ring_bytes r)"
  proof (rule nth_equalityI)
    show "length (ring_bytes r') = length (drop k (ring_bytes r))" using ok ok' by (simp add: r'_def)
    fix i assume "i < length (ring_bytes r')"
    then have i: "i < rb_size r - k" using ok' by (simp add: r'_def)
    then show "ring_bytes r' ! i = drop k (ring_bytes r) ! i"
      using c by (simp add: ring_bytes_def r'_def nth_rotate c_def [symmetric] mod_add_left_eq add.assoc)
  qed
  also have "drop k (ring_bytes r) = drop n (ring_bytes r)" using ok by (simp add: k_def min_def)
  finally show ?thesis using e ok' by blast
qed

interpretation rq: byte_queue ring_ok ring_bytes ring_append ring_read_at ring_consume ring_readable
  by unfold_locales (simp add: ring_readable_def, blast intro: ring_append_ok, blast intro: ring_read_at_ok,
     blast intro: ring_consume_ok)

lemma ring_contiguous_data:
  assumes ok: "ring_ok r"
  shows "\<exists>b. ring_is_contiguous off n r = Some b \<and>
    (b \<longrightarrow> off + n \<le> rb_size r \<and> map_option (take n) (ring_data_at off r) = Some (take n (drop off (ring_bytes r))))"
proof (cases "off + n \<le> rb_size r \<and> (rb_rpos r + off) mod length (rb_buf r) + n \<le> length (rb_buf r)")
  case True
  define s where "s = (rb_rpos r + off) mod length (rb_buf r)"
  have ne: "rb_buf r \<noteq> []" using ok by (simp add: ring_ok_def)
  then have s: "s < length (rb_buf r)" "s + n \<le> length (rb_buf r)" using True by (simp_all add: s_def)
  have "ring_read_at off n r = Some (take n (drop off (ring_bytes r)))" using ring_read_at_ok [OF ok] True ok by simp
  moreover have "ring_read_at off n r = Some (take n (drop s (rb_buf r)))"
    using ne s copy_out_rotate [of s "rb_buf r" n] by (simp add: ring_read_at_def s_def [symmetric] rotate_less)
  moreover have "ring_is_contiguous off n r = Some True" using True ne by (simp add: ring_is_contiguous_def)
  ultimately show ?thesis using True ne by (auto simp: ring_data_at_def s_def)
next
  case False
  then show ?thesis using ok by (auto simp: ring_is_contiguous_def ring_ok_def)
qed

section \<open>A ring is a queue of bytes\<close>

text \<open>The states of a ring after a history of appends and consumes: \<open>w\<close> is everything appended so far
  and \<open>k\<close> the number of bytes consumed.\<close>

inductive ring_run :: "nat \<Rightarrow> bytes \<Rightarrow> nat \<Rightarrow> ring \<Rightarrow> bool" for cap where
  ring_start: "ring_run cap [] 0 (ring_new cap)"
| ring_push: "ring_run cap w k r \<Longrightarrow> ring_append d r = Some r' \<Longrightarrow> ring_run cap (w @ d) k r'"
| ring_pop: "ring_run cap w k r \<Longrightarrow> ring_consume n r = Some r' \<Longrightarrow> ring_run cap w (k + min n (ring_readable r)) r'"

lemma ring_run_bytes:
  assumes "ring_run cap w k r" and "0 < cap"
  shows "ring_ok r \<and> k \<le> length w \<and> ring_bytes r = drop k w"
  using assms
proof induction
  case ring_start
  then show ?case using ring_new_ok [of cap] by simp
next
  case (ring_push w k r d r')
  then show ?case using rq.push_ok [of r d] by auto
next
  case (ring_pop w k r n r')
  then have r: "ring_ok r" "k \<le> length w" "ring_bytes r = drop k w" by auto
  have "ring_readable r = length w - k" using rq.readable_ok [OF r(1)] r(3) by simp
  moreover have "ring_ok r' \<and> ring_bytes r' = drop n (drop k w)"
    using rq.pop_ok [OF r(1), of n] ring_pop.hyps(2) r(3) by auto
  ultimately show ?case using r(2) by (auto simp: min_def add.commute)
qed

text \<open>C22: a ring buffer is a queue of bytes. After any history of appends and consumes the readable
  bytes are the appended ones without the consumed ones, every range of them can be read back, an
  append or a consume always succeeds, and where the ring says a range is contiguous the pointer
  of \<open>DataAt\<close> shows that range.\<close>

theorem ring_refines_queue:
  assumes "0 < cap" and "ring_run cap w k r"
  shows "k \<le> length w \<and> ring_readable r = length w - k \<and> ring_append d r \<noteq> None \<and> ring_consume n r \<noteq> None \<and>
    (off + n \<le> length w - k \<longrightarrow> ring_read_at off n r = Some (take n (drop (k + off) w)) \<and>
      (ring_is_contiguous off n r = Some True \<longrightarrow>
         map_option (take n) (ring_data_at off r) = Some (take n (drop (k + off) w))))"
proof -
  have r: "ring_ok r" "k \<le> length w" "ring_bytes r = drop k w" using ring_run_bytes [OF assms(2,1)] by auto
  have "ring_append d r \<noteq> None" "ring_consume n r \<noteq> None"
    using rq.push_ok [OF r(1), of d] rq.pop_ok [OF r(1), of n] by auto
  then show ?thesis
    using r rq.readable_ok [OF r(1)] rq.peek_ok [OF r(1), of off n] ring_contiguous_data [OF r(1), of off n]
    by (auto simp: add.commute)
qed

lemma ring_refines_queue_witness:
  "\<exists>r. ring_run 2 [1, 2, 3] 1 r \<and> ring_readable r = 2 \<and> ring_read_at 0 2 r = Some [2, 3]"
proof -
  obtain r1 where r1: "ring_append [1, 2, 3] (ring_new 2) = Some r1" using rq.push_ok ring_new_ok [of 2] by fastforce
  have h1: "ring_run 2 [1, 2, 3] 0 r1" using ring_push [OF ring_start r1] by simp
  from ring_refines_queue [OF _ h1] obtain r2 where r2: "ring_consume 1 r1 = Some r2" by fastforce
  have "ring_readable r1 = 3" using ring_refines_queue [OF _ h1] by simp
  then have h2: "ring_run 2 [1, 2, 3] 1 r2" using ring_pop [OF h1 r2] by simp
  then show ?thesis using ring_refines_queue [OF _ h2, of "[]" 2 0] by auto
qed

end
