(* ===== verification/GM_TcpConn.thy ===== *)
theory GM_TcpConn
  imports GM_Packet GM_RingBuffer
begin

text \<open>
  The TCP connection (\<open>net/async/tcp_connection.hpp\<close>, \<open>tcp_connection.cpp\<close>). The state is that of the
  C++ object together with what libuv keeps for it: whether the handle is closing, whether it is being
  read, the tasks posted to the loop and the buffers of the write in flight. Each operation is one step;
  the locks and the atomic exchanges of the code make them so. The exception is the \<open>uv_read_stop\<close> of a send on another
  thread, which comes after the lock was released and is a step of its own. (The \<open>uv_read_start\<close> of \<open>ProcessWriteQueue\<close>, also
  after the lock, is not: a flag another thread sets in between is left out. libuv allows neither call from another thread.)

  \<open>AsyncEventLoop::Post\<close> runs its task at once when the caller is on the loop's thread and queues it
  otherwise. Whether the current operation runs there is the field \<open>tc_here\<close>, set by every step. What
  libuv answers to the next \<open>uv_write\<close> is the field \<open>tc_uv_ok\<close>, also set by every step: an operation
  calls \<open>uv_write\<close> at most once, since a successful call leaves a write in flight and a failed one closes
  the connection. The batches given to \<open>uv_write\<close> are logged in \<open>tc_sent\<close>.

  Buffers in the write queue and payloads are given by their bytes: the payload of a packet is a fresh
  vector, and a queued buffer is not written to after it was handed over. The data callback is code of the
  application. It is a function of its own state \<open>tc_user\<close> and of the packet that says which public
  operations it calls on the connection. AES-GCM, a cryptography library's, is a pair of parameters.
\<close>

datatype tcp_task = TaskWrite | TaskClose

record 'u tcp =
  tc_handle :: bool
  tc_uv_closing :: bool
  tc_reading :: bool
  tc_closed :: bool
  tc_closing :: bool
  tc_caw :: bool
  tc_connected :: bool
  tc_ring :: ring
  tc_paused :: bool
  tc_queue :: "bytes list"
  tc_qbytes :: nat
  tc_writing :: bool
  tc_inflight :: "bytes list option"
  tc_key :: bytes
  tc_keep_alive :: bool
  tc_posted :: "tcp_task list"
  tc_stops :: nat
  tc_here :: bool
  tc_uv_ok :: bool
  tc_sent :: "bytes list list"
  tc_user :: 'u

type_synonym tcp_packet = "packet_header \<times> bytes"

text \<open>The public operations a callback may call.\<close>

datatype tcp_call = CallSend bytes | CallSendBatch "bytes list" | CallSendPacket packet_header bytes
  | CallClose | CallCloseAfterWrite | CallSetKey bytes

record 'u tcp_env =
  te_encrypt :: "bytes \<Rightarrow> bytes \<Rightarrow> bytes option"
  te_decrypt :: "bytes \<Rightarrow> bytes \<Rightarrow> bytes option"
  te_on_data :: "('u \<Rightarrow> tcp_packet \<Rightarrow> 'u \<times> tcp_call list) option"

text \<open>What can be seen from outside: packets given to the callback, data accepted for sending, the
  connect and the close callback.\<close>

datatype tcp_out = OutPacket packet_header bytes | OutAccept "bytes list"
  | OutConnect bool | OutClosed

definition MAX_READ_BUF_BYTES :: nat where "MAX_READ_BUF_BYTES = 64 * 1024 * 1024"
definition MAX_WRITE_QUEUE_BYTES :: nat where "MAX_WRITE_QUEUE_BYTES = 16 * 1024 * 1024"
definition WRITE_RESUME_THRESHOLD :: nat where "WRITE_RESUME_THRESHOLD = 8 * 1024 * 1024"

definition tcp_new :: "'u \<Rightarrow> 'u tcp" where
  "tcp_new u = \<lparr>tc_handle = False, tc_uv_closing = False, tc_reading = False, tc_closed = False, tc_closing = False,
     tc_caw = False, tc_connected = False, tc_ring = ring_new (1024 * 1024), tc_paused = False, tc_queue = [],
     tc_qbytes = 0, tc_writing = False, tc_inflight = None, tc_key = [], tc_keep_alive = False, tc_posted = [], tc_stops = 0,
     tc_here = True, tc_uv_ok = True, tc_sent = [], tc_user = u\<rparr>"

section \<open>Opening and closing\<close>

definition start_read :: "'u tcp \<Rightarrow> 'u tcp" where
  "start_read c = (if tc_handle c then c\<lparr>tc_reading := True\<rparr> else c)"

definition init_from_accepted :: "'u tcp \<Rightarrow> 'u tcp" where
  "init_from_accepted c = (start_read (c\<lparr>tc_handle := True\<rparr>))\<lparr>tc_connected := True\<rparr>"

definition tcp_connect :: "bool \<Rightarrow> bool \<Rightarrow> bool \<Rightarrow> 'u tcp \<Rightarrow> bool \<times> 'u tcp" where
  "tcp_connect loop_ok addr_ok uv_ok c =
     (if \<not> loop_ok then (False, c)
      else if \<not> addr_ok then (False, c\<lparr>tc_handle := False\<rparr>)
      else if \<not> uv_ok then (False, c\<lparr>tc_handle := False\<rparr>)
      else (True, c\<lparr>tc_handle := True\<rparr>))"

definition set_session_key :: "bytes \<Rightarrow> 'u tcp \<Rightarrow> 'u tcp" where
  "set_session_key key c = c\<lparr>tc_key := key\<rparr>"

definition do_close :: "'u tcp \<Rightarrow> 'u tcp" where
  "do_close c = (if tc_handle c \<and> \<not> tc_uv_closing c then c\<lparr>tc_uv_closing := True, tc_reading := False\<rparr> else c)"

text \<open>\<open>AsyncEventLoop::Post\<close>: \<open>run\<close> is what the task does, \<open>t\<close> its name in the queue.\<close>

definition tcp_post :: "tcp_task \<Rightarrow> ('u tcp \<Rightarrow> 'u tcp) \<Rightarrow> 'u tcp \<Rightarrow> 'u tcp" where
  "tcp_post t run c = (if tc_here c then run c else c\<lparr>tc_posted := tc_posted c @ [t]\<rparr>)"

definition tcp_close :: "'u tcp \<Rightarrow> 'u tcp" where
  "tcp_close c =
     (if tc_closed c then c
      else let c1 = c\<lparr>tc_closed := True\<rparr>
           in if tc_closing c1 then c1
              else tcp_post TaskClose do_close (c1\<lparr>tc_closing := True, tc_keep_alive := True\<rparr>))"

definition on_connect :: "bool \<Rightarrow> 'u tcp \<Rightarrow> 'u tcp \<times> tcp_out list" where
  "on_connect ok c =
     (if \<not> ok then (tcp_close c, [OutConnect False])
      else (start_read (c\<lparr>tc_connected := True\<rparr>), [OutConnect True]))"

definition on_close_done :: "'u tcp \<Rightarrow> 'u tcp \<times> tcp_out list" where
  "on_close_done c = (c\<lparr>tc_handle := False, tc_uv_closing := False, tc_keep_alive := False\<rparr>, [OutClosed])"

section \<open>Writing\<close>

text \<open>\<open>ProcessWriteQueue\<close>: up to 64 buffers go into one \<open>uv_write\<close>.\<close>

definition process_write_queue :: "'u tcp \<Rightarrow> 'u tcp" where
  "process_write_queue c =
     (if \<not> tc_handle c \<or> tc_uv_closing c then c
      else let batch = take 64 (tc_queue c);
               c1 = c\<lparr>tc_queue := drop 64 (tc_queue c), tc_qbytes := tc_qbytes c - sum_list (map length batch)\<rparr>
           in if batch = []
              then let c2 = c1\<lparr>tc_writing := False\<rparr>
                   in if tc_caw c2 then tcp_close (c2\<lparr>tc_caw := False\<rparr>) else c2
              else let c2 = (if tc_paused c1 \<and> tc_qbytes c1 < WRITE_RESUME_THRESHOLD
                             then c1\<lparr>tc_paused := False, tc_reading := True\<rparr> else c1);
                       c3 = c2\<lparr>tc_sent := tc_sent c2 @ [batch]\<rparr>
                   in if tc_uv_ok c3 then c3\<lparr>tc_inflight := Some batch\<rparr>
                      else tcp_close (c3\<lparr>tc_writing := False\<rparr>))"

definition trigger_write :: "'u tcp \<Rightarrow> 'u tcp" where
  "trigger_write c = (if tc_writing c then c else tcp_post TaskWrite process_write_queue (c\<lparr>tc_writing := True\<rparr>))"

definition close_after_write :: "'u tcp \<Rightarrow> 'u tcp" where
  "close_after_write c =
     (if tc_closed c \<or> tc_closing c \<or> tc_caw c \<or> \<not> tc_handle c then c
      else trigger_write (c\<lparr>tc_keep_alive := True, tc_closed := True, tc_caw := True\<rparr>))"

definition not_writable :: "'u tcp \<Rightarrow> bool" where
  "not_writable c \<longleftrightarrow> tc_closed c \<or> tc_closing c \<or> tc_caw c \<or> \<not> tc_handle c"

text \<open>The body both \<open>Send\<close> and \<open>SendBatch\<close> share: queue, back-pressure, trigger. The flag is set under the lock, and
  \<open>uv_read_stop\<close> is called after it was released. On the loop's thread nothing comes between; another thread
  may be overtaken by the loop, so its call is a step of its own, \<open>late_stop\<close>, and \<open>tc_stops\<close> counts those still to come.\<close>

definition pause_read :: "'u tcp \<Rightarrow> 'u tcp" where
  "pause_read c =
     (if tc_here c then c\<lparr>tc_paused := True, tc_reading := False\<rparr> else c\<lparr>tc_paused := True, tc_stops := Suc (tc_stops c)\<rparr>)"

definition late_stop :: "'u tcp \<Rightarrow> 'u tcp" where
  "late_stop c = c\<lparr>tc_stops := tc_stops c - 1, tc_reading := tc_reading c \<and> \<not> tc_handle c\<rparr>"

definition enqueue_all :: "bytes list \<Rightarrow> 'u tcp \<Rightarrow> 'u tcp" where
  "enqueue_all bs c =
     (let c1 = c\<lparr>tc_queue := tc_queue c @ bs, tc_qbytes := tc_qbytes c + sum_list (map length bs)\<rparr>;
          c2 = (if tc_qbytes c1 > MAX_WRITE_QUEUE_BYTES \<and> \<not> tc_paused c1
                then pause_read c1 else c1)
      in trigger_write c2)"

definition tcp_send :: "bytes \<Rightarrow> 'u tcp \<Rightarrow> bool \<times> 'u tcp" where
  "tcp_send d c = (if not_writable c then (False, c) else (True, enqueue_all [d] c))"

definition tcp_send_batch :: "bytes list \<Rightarrow> 'u tcp \<Rightarrow> bool \<times> 'u tcp" where
  "tcp_send_batch bs c = (if not_writable c \<or> bs = [] then (False, c) else (True, enqueue_all bs c))"

definition packet_bytes :: "'u tcp_env \<Rightarrow> bytes \<Rightarrow> packet_header \<Rightarrow> bytes \<Rightarrow> bytes option" where
  "packet_bytes env key hdr pl =
     (if key \<noteq> [] \<and> pl \<noteq> []
      then map_option (encode_bytes (hdr\<lparr>ph_flags := or_flag (ph_flags hdr) FlagEncrypt\<rparr>)) (te_encrypt env key pl)
      else Some (encode_bytes hdr pl))"

definition tcp_send_packet :: "'u tcp_env \<Rightarrow> packet_header \<Rightarrow> bytes \<Rightarrow> 'u tcp \<Rightarrow> bool \<times> 'u tcp" where
  "tcp_send_packet env hdr pl c =
     (case packet_bytes env (tc_key c) hdr pl of None \<Rightarrow> (False, c) | Some d \<Rightarrow> tcp_send d c)"

definition on_write_done :: "bool \<Rightarrow> 'u tcp \<Rightarrow> 'u tcp" where
  "on_write_done status_ok c =
     (let c1 = c\<lparr>tc_inflight := None\<rparr> in if \<not> status_ok then tcp_close c1 else process_write_queue c1)"

text \<open>A public operation called by the data callback.\<close>

definition exec_call :: "'u tcp_env \<Rightarrow> tcp_call \<Rightarrow> 'u tcp \<Rightarrow> 'u tcp \<times> tcp_out list" where
  "exec_call env k c = (case k of
      CallSend d \<Rightarrow> (case tcp_send d c of (ok, c') \<Rightarrow> (c', if ok then [OutAccept [d]] else []))
    | CallSendBatch bs \<Rightarrow> (case tcp_send_batch bs c of (ok, c') \<Rightarrow> (c', if ok then [OutAccept bs] else []))
    | CallSendPacket hdr pl \<Rightarrow>
        (case tcp_send_packet env hdr pl c of
           (ok, c') \<Rightarrow> (c', if ok then [OutAccept [the (packet_bytes env (tc_key c) hdr pl)]] else []))
    | CallClose \<Rightarrow> (tcp_close c, [])
    | CallCloseAfterWrite \<Rightarrow> (close_after_write c, [])
    | CallSetKey key \<Rightarrow> (set_session_key key c, []))"

fun exec_calls :: "'u tcp_env \<Rightarrow> tcp_call list \<Rightarrow> 'u tcp \<Rightarrow> 'u tcp \<times> tcp_out list" where
  "exec_calls env [] c = (c, [])"
| "exec_calls env (k # ks) c =
     (let (c1, o1) = exec_call env k c; (c2, o2) = exec_calls env ks c1 in (c2, o1 @ o2))"

section \<open>Reading\<close>

text \<open>The part of the loop after a frame was cut out: decrypt and call the callback. The flag says
  whether the loop goes on.\<close>

definition deliver :: "'u tcp_env \<Rightarrow> tcp_packet \<Rightarrow> 'u tcp \<Rightarrow> bool \<times> 'u tcp \<times> tcp_out list" where
  "deliver env p c =
     (let (hdr, pl) = p;
          dec = (if tc_key c \<noteq> [] \<and> has_flag (ph_flags hdr) FlagEncrypt
                 then map_option (\<lambda>pl'. (hdr\<lparr>ph_flags := ph_flags hdr AND NOT (flag_bit FlagEncrypt)\<rparr>, pl'))
                        (te_decrypt env (tc_key c) pl)
                 else Some (hdr, pl))
      in case dec of None \<Rightarrow> (False, tcp_close c, [])
         | Some (hdr', pl') \<Rightarrow>
            (case te_on_data env of None \<Rightarrow> (True, c, [])
             | Some cb \<Rightarrow> (let (u, calls) = cb (tc_user c) (hdr', pl');
                               (c', outs) = exec_calls env calls (c\<lparr>tc_user := u\<rparr>)
                           in (True, c', OutPacket hdr' pl' # outs))))"

text \<open>The fast path looks at the magic number before it consumes the frame, the slow paths (a buffer of
  64 KB on the stack, or a vector) after. Both give the frame or close the connection.\<close>

definition fast_path :: "nat \<Rightarrow> 'u tcp \<Rightarrow> ('u tcp + 'u tcp \<times> tcp_packet) option" where
  "fast_path len c = do {
     p \<leftarrow> ring_data_at 0 (tc_ring c);
     if read_u16be (drop 4 p) \<noteq> MAGIC_VALUE then Some (Inl (tcp_close c))
     else do { r \<leftarrow> ring_consume len (tc_ring c);
               Some (Inr (c\<lparr>tc_ring := r\<rparr>,
                 ((decode_header p)\<lparr>ph_length := of_nat len\<rparr>, take (len - 34) (drop 34 p)))) } }"

definition slow_path :: "nat \<Rightarrow> 'u tcp \<Rightarrow> ('u tcp + 'u tcp \<times> tcp_packet) option" where
  "slow_path len c = do {
     d \<leftarrow> ring_read_at 0 len (tc_ring c);
     r \<leftarrow> ring_consume len (tc_ring c);
     let c1 = c\<lparr>tc_ring := r\<rparr>;
     if read_u16be (drop 4 d) \<noteq> MAGIC_VALUE then Some (Inl (tcp_close c1))
     else Some (Inr (c1, ((decode_header d)\<lparr>ph_length := of_nat len\<rparr>, take (len - 34) (drop 34 d)))) }"

text \<open>One turn of the loop; the flag says whether it goes round again.\<close>

definition read_turn :: "'u tcp_env \<Rightarrow> 'u tcp \<Rightarrow> (bool \<times> 'u tcp \<times> tcp_out list) option" where
  "read_turn env c =
     (if ring_readable (tc_ring c) < 4 then Some (False, c, [])
      else do {
        lb \<leftarrow> ring_read_at 0 4 (tc_ring c);
        let len = read_u32be lb;
        if len < HEADER_SIZE \<or> len > MAX_PACKET_LEN then Some (False, tcp_close c, [])
        else if ring_readable (tc_ring c) < unat len then Some (False, c, [])
        else do {
          contiguous \<leftarrow> ring_is_contiguous 0 (unat len) (tc_ring c);
          f \<leftarrow> (if contiguous then fast_path (unat len) c else slow_path (unat len) c);
          Some (case f of Inl c' \<Rightarrow> (False, c', []) | Inr (c', p) \<Rightarrow> deliver env p c') } })"

partial_function (option) process_read_buffer :: "'u tcp_env \<Rightarrow> 'u tcp \<Rightarrow> ('u tcp \<times> tcp_out list) option" where
  "process_read_buffer env c = do {
     (again, c1, outs) \<leftarrow> read_turn env c;
     if again then do { (c2, outs2) \<leftarrow> process_read_buffer env c1; Some (c2, outs @ outs2) }
     else Some (c1, outs) }"

definition on_read :: "'u tcp_env \<Rightarrow> bytes \<Rightarrow> 'u tcp \<Rightarrow> ('u tcp \<times> tcp_out list) option" where
  "on_read env data c =
     (if data = [] then Some (c, [])
      else do {
        r \<leftarrow> ring_append data (tc_ring c);
        let c1 = c\<lparr>tc_ring := r\<rparr>;
        if ring_readable r > MAX_READ_BUF_BYTES then Some (tcp_close c1, [])
        else process_read_buffer env c1 })"

text \<open>At the end of the stream and on an error libuv stops reading by itself, also when \<open>Close\<close> does nothing.\<close>

definition on_read_error :: "'u tcp \<Rightarrow> 'u tcp" where
  "on_read_error c = tcp_close (c\<lparr>tc_reading := False\<rparr>)"

text \<open>What libuv reads comes in pieces, each a call of \<open>OnRead\<close>, as long as the handle is being read.\<close>

fun on_reads :: "'u tcp_env \<Rightarrow> bytes list \<Rightarrow> 'u tcp \<Rightarrow> ('u tcp \<times> tcp_out list) option" where
  "on_reads env [] c = Some (c, [])"
| "on_reads env (d # ds) c =
     (if \<not> tc_reading c then Some (c, [])
      else do {
        (c1, o1) \<leftarrow> on_read env d c;
        (c2, o2) \<leftarrow> on_reads env ds c1;
        Some (c2, o1 @ o2) })"

section \<open>The event loop's view\<close>

text \<open>
  The steps a connection can take. A public operation may be called on the loop's thread or on another, and so may the
  \<open>uv_read_stop\<close> it leaves behind; everything else runs on the loop's thread. Data and errors arrive only while the handle is read and not
  closing, a write ends only when one is in flight, and libuv calls the close callback only once the
  handle is closing and the pending write has been cancelled.
\<close>

definition tcp_on :: "bool \<Rightarrow> bool \<Rightarrow> 'u tcp \<Rightarrow> 'u tcp" where
  "tcp_on here uv_ok c = c\<lparr>tc_here := here, tc_uv_ok := uv_ok\<rparr>"

inductive tcp_step :: "'u tcp_env \<Rightarrow> 'u tcp \<Rightarrow> tcp_out list \<Rightarrow> 'u tcp \<Rightarrow> bool" for env where
  step_call: "exec_call env k (tcp_on here uv_ok c) = (c', outs) \<Longrightarrow> tcp_step env c outs c'"
| step_write: "tc_posted c = TaskWrite # ts \<Longrightarrow> tcp_step env c [] (process_write_queue (tcp_on True uv_ok (c\<lparr>tc_posted := ts\<rparr>)))"
| step_close: "tc_posted c = TaskClose # ts \<Longrightarrow> tcp_step env c [] (do_close (tcp_on True uv_ok (c\<lparr>tc_posted := ts\<rparr>)))"
| step_stop: "tc_stops c \<noteq> 0 \<Longrightarrow> tcp_step env c [] (late_stop c)"
| step_read: "tc_handle c \<Longrightarrow> tc_reading c \<Longrightarrow> \<not> tc_uv_closing c \<Longrightarrow> on_read env d (tcp_on True uv_ok c) = Some (c', outs) \<Longrightarrow>
    tcp_step env c outs c'"
| step_error: "tc_handle c \<Longrightarrow> tc_reading c \<Longrightarrow> \<not> tc_uv_closing c \<Longrightarrow> tcp_step env c [] (on_read_error (tcp_on True uv_ok c))"
| step_written: "tc_inflight c \<noteq> None \<Longrightarrow> tcp_step env c [] (on_write_done status_ok (tcp_on True uv_ok c))"
| step_closed: "tc_handle c \<Longrightarrow> tc_uv_closing c \<Longrightarrow> tc_inflight c = None \<Longrightarrow> on_close_done (tcp_on True uv_ok c) = (c', outs) \<Longrightarrow>
    tcp_step env c outs c'"

inductive tcp_steps :: "'u tcp_env \<Rightarrow> 'u tcp \<Rightarrow> tcp_out list \<Rightarrow> 'u tcp \<Rightarrow> bool" for env where
  steps_none: "tcp_steps env c [] c"
| steps_more: "tcp_steps env c outs c' \<Longrightarrow> tcp_step env c' outs' c'' \<Longrightarrow> tcp_steps env c (outs @ outs') c''"

end
