(* ===== verification/GM_TcpProps.thy ===== *)
theory GM_TcpProps
  imports GM_TcpConn
begin

text \<open>
  What the TCP connection promises. Reading: the loop over the ring buffer delivers exactly the frames a
  plain parser finds in the byte stream, however the stream was cut into pieces. Writing: data leaves in
  the order it was accepted, one \<open>uv_write\<close> at a time, and back-pressure is released in time. Closing:
  \<open>Close\<close> ends with the close callback, while \<open>CloseAfterWrite\<close> never closes the handle.
\<close>

section \<open>The stream parser\<close>

text \<open>The frames of a byte string, what is left, and whether the rest may still become a frame.\<close>

function split_frames :: "bytes \<Rightarrow> tcp_packet list \<times> bytes \<times> bool" where
  "split_frames bs =
     (if length bs < 4 then ([], bs, True)
      else let len = read_u32be bs
           in if len < HEADER_SIZE \<or> len > MAX_PACKET_LEN then ([], bs, False)
              else if length bs < unat len then ([], bs, True)
              else if read_u16be (drop 4 bs) \<noteq> MAGIC_VALUE then ([], bs, False)
              else let (ps, rest, ok) = split_frames (drop (unat len) bs)
                   in ((decode_header bs, take (unat len - 34) (drop 34 bs)) # ps, rest, ok))"
  by pat_completeness auto

termination
  by (relation "measure length") (auto simp: word_less_nat_alt)

declare split_frames.simps [simp del]

fun deliver_all :: "'u tcp_env \<Rightarrow> tcp_packet list \<Rightarrow> 'u tcp \<Rightarrow> bool \<times> 'u tcp \<times> tcp_out list" where
  "deliver_all env [] c = (True, c, [])"
| "deliver_all env (p # ps) c =
     (let (go, c1, o1) = deliver env p c
      in if go then (let (go2, c2, o2) = deliver_all env ps c1 in (go2, c2, o1 @ o2)) else (False, c1, o1))"

definition read_spec :: "'u tcp_env \<Rightarrow> bytes \<Rightarrow> 'u tcp \<Rightarrow> bool \<times> 'u tcp \<times> tcp_out list" where
  "read_spec env bs c =
     (let (ps, rest, ok) = split_frames bs; (go, c1, outs) = deliver_all env ps c
      in (go \<and> ok, if go \<and> \<not> ok then tcp_close c1 else c1, outs))"

section \<open>Operations other than reading leave the ring alone\<close>

lemma ring_frame1 [simp]: "tc_ring (tcp_close c) = tc_ring c" "tc_ring (do_close c) = tc_ring c"
  by (simp_all add: tcp_close_def do_close_def tcp_post_def Let_def)

lemma ring_frame2 [simp]: "tc_ring (process_write_queue c) = tc_ring c"
  by (simp add: process_write_queue_def Let_def)

lemma ring_frame [simp]:
  "tc_ring (trigger_write c) = tc_ring c" "tc_ring (close_after_write c) = tc_ring c"
  "tc_ring (enqueue_all bs c) = tc_ring c" "tc_ring (set_session_key k c) = tc_ring c"
  by (simp_all add: trigger_write_def close_after_write_def enqueue_all_def pause_read_def set_session_key_def
      tcp_post_def Let_def)

lemma ring_update1 [simp]:
  "do_close (c\<lparr>tc_ring := r\<rparr>) = (do_close c)\<lparr>tc_ring := r\<rparr>"
  "tcp_close (c\<lparr>tc_ring := r\<rparr>) = (tcp_close c)\<lparr>tc_ring := r\<rparr>"
  by (simp_all add: tcp_close_def do_close_def tcp_post_def Let_def)

lemma ring_update2 [simp]: "process_write_queue (c\<lparr>tc_ring := r\<rparr>) = (process_write_queue c)\<lparr>tc_ring := r\<rparr>"
  by (cases c) (simp add: process_write_queue_def tcp_close_def do_close_def tcp_post_def Let_def)

lemma ring_update3 [simp]:
  "trigger_write (c\<lparr>tc_ring := r\<rparr>) = (trigger_write c)\<lparr>tc_ring := r\<rparr>"
proof -
  have e: "c\<lparr>tc_ring := r, tc_writing := True\<rparr> = (c\<lparr>tc_writing := True\<rparr>)\<lparr>tc_ring := r\<rparr>" by simp
  show ?thesis by (simp add: trigger_write_def tcp_post_def e del: tcp.surjective)
qed

lemma ring_update [simp]:
  "close_after_write (c\<lparr>tc_ring := r\<rparr>) = (close_after_write c)\<lparr>tc_ring := r\<rparr>"
  "enqueue_all bs (c\<lparr>tc_ring := r\<rparr>) = (enqueue_all bs c)\<lparr>tc_ring := r\<rparr>"
  "set_session_key k (c\<lparr>tc_ring := r\<rparr>) = (set_session_key k c)\<lparr>tc_ring := r\<rparr>"
proof -
  have e: "c\<lparr>tc_ring := r, tc_keep_alive := True, tc_closed := True, tc_caw := True\<rparr> =
      (c\<lparr>tc_keep_alive := True, tc_closed := True, tc_caw := True\<rparr>)\<lparr>tc_ring := r\<rparr>" by simp
  show "close_after_write (c\<lparr>tc_ring := r\<rparr>) = (close_after_write c)\<lparr>tc_ring := r\<rparr>"
    unfolding close_after_write_def e by simp
  define d where "d = c\<lparr>tc_queue := tc_queue c @ bs, tc_qbytes := tc_qbytes c + sum_list (map length bs)\<rparr>"
  have d: "c\<lparr>tc_ring := r\<rparr>\<lparr>tc_queue := tc_queue (c\<lparr>tc_ring := r\<rparr>) @ bs, tc_qbytes := tc_qbytes (c\<lparr>tc_ring := r\<rparr>) + sum_list (map length bs)\<rparr> = d\<lparr>tc_ring := r\<rparr>"
    "pause_read (d\<lparr>tc_ring := r\<rparr>) = (pause_read d)\<lparr>tc_ring := r\<rparr>"
    by (simp_all add: d_def pause_read_def)
  have "enqueue_all bs (c\<lparr>tc_ring := r\<rparr>) = trigger_write (let c1 = d\<lparr>tc_ring := r\<rparr> in
      if tc_qbytes c1 > MAX_WRITE_QUEUE_BYTES \<and> \<not> tc_paused c1 then pause_read c1 else c1)"
    by (simp only: enqueue_all_def Let_def d(1))
  also have "\<dots> = (trigger_write (if tc_qbytes d > MAX_WRITE_QUEUE_BYTES \<and> \<not> tc_paused d then pause_read d else d))\<lparr>tc_ring := r\<rparr>"
    unfolding Let_def d(2) by simp
  finally show "enqueue_all bs (c\<lparr>tc_ring := r\<rparr>) = (enqueue_all bs c)\<lparr>tc_ring := r\<rparr>" by (simp add: enqueue_all_def Let_def d_def)
qed (simp add: set_session_key_def)

lemma exec_call_ring:
  "exec_call env k (c\<lparr>tc_ring := r\<rparr>) = (fst (exec_call env k c)\<lparr>tc_ring := r\<rparr>, snd (exec_call env k c))"
  by (cases k) (auto simp: exec_call_def tcp_send_def tcp_send_batch_def tcp_send_packet_def not_writable_def
      split: option.split)

lemma exec_calls_ring:
  "exec_calls env ks (c\<lparr>tc_ring := r\<rparr>) = (fst (exec_calls env ks c)\<lparr>tc_ring := r\<rparr>, snd (exec_calls env ks c))"
  by (induction ks arbitrary: c) (simp_all add: exec_call_ring split_beta)

lemma exec_call_frame [simp]: "tc_ring (fst (exec_call env k c)) = tc_ring c"
  by (cases k) (auto simp: exec_call_def tcp_send_def tcp_send_batch_def tcp_send_packet_def split: option.split)

lemma exec_calls_frame [simp]: "tc_ring (fst (exec_calls env ks c)) = tc_ring c"
  by (induction ks arbitrary: c) (simp_all add: split_beta)

lemma deliver_ring:
  "deliver env p (c\<lparr>tc_ring := r\<rparr>) = (case deliver env p c of (go, c', outs) \<Rightarrow> (go, c'\<lparr>tc_ring := r\<rparr>, outs))"
proof -
  have "c\<lparr>tc_ring := r, tc_user := u\<rparr> = c\<lparr>tc_user := u, tc_ring := r\<rparr>" for u by simp
  then have "exec_calls env ks (c\<lparr>tc_ring := r, tc_user := u\<rparr>) =
      (fst (exec_calls env ks (c\<lparr>tc_user := u\<rparr>))\<lparr>tc_ring := r\<rparr>, snd (exec_calls env ks (c\<lparr>tc_user := u\<rparr>)))" for ks u
    using exec_calls_ring [where c = "c\<lparr>tc_user := u\<rparr>" and r = r and env = env and ks = ks] by metis
  then show ?thesis by (simp add: deliver_def split_beta split: option.split)
qed

lemma deliver_frame: "deliver env p c = (go, c', outs) \<Longrightarrow> tc_ring c' = tc_ring c"
  by (auto simp: deliver_def split_beta Let_def split: option.splits if_splits)

lemma deliver_all_ring:
  "deliver_all env ps (c\<lparr>tc_ring := r\<rparr>) = (case deliver_all env ps c of (go, c', outs) \<Rightarrow> (go, c'\<lparr>tc_ring := r\<rparr>, outs))"
  by (induction ps arbitrary: c) (simp_all add: deliver_ring split_beta Let_def)

lemma deliver_all_append:
  "deliver_all env (ps @ qs) c = (case deliver_all env ps c of (go, c1, o1) \<Rightarrow>
     if go then (case deliver_all env qs c1 of (go2, c2, o2) \<Rightarrow> (go2, c2, o1 @ o2)) else (False, c1, o1))"
  by (induction ps arbitrary: c) (simp_all add: split_beta Let_def)

section \<open>One turn of the loop\<close>

lemma header_of_prefix:
  assumes "34 \<le> n" and "take n p = take n bs" and "n \<le> length bs" and "n \<le> length p"
  shows "decode_header p = decode_header bs" "read_u16be (drop 4 p) = read_u16be (drop 4 bs)"
proof -
  have "take 34 p = take 34 bs"
    using arg_cong [OF assms(2), of "take 34"] assms(1) by (simp add: min_def)
  moreover have "34 \<le> length p" "34 \<le> length bs" using assms by simp_all
  ultimately show h: "decode_header p = decode_header bs" by (metis decode_header_take)
  show "read_u16be (drop 4 p) = read_u16be (drop 4 bs)" using arg_cong [OF h, of ph_magic] by (simp add: decode_header_def)
qed

lemma header_length: "(decode_header bs)\<lparr>ph_length := read_u32be bs\<rparr> = decode_header bs"
  by (simp add: decode_header_def)

text \<open>Both ways to take a frame out of the ring do the same when the magic number is right.\<close>

lemma frame_paths:
  assumes ok: "ring_ok (tc_ring c)" and bs: "ring_bytes (tc_ring c) = bs" and n: "34 \<le> unat len" "unat len \<le> length bs"
    and len: "len = read_u32be bs" and b: "ring_is_contiguous 0 (unat len) (tc_ring c) = Some b"
  shows "\<exists>r'. ring_ok r' \<and>
    (if b then fast_path (unat len) c else slow_path (unat len) c) =
      Some (if read_u16be (drop 4 bs) \<noteq> MAGIC_VALUE then Inl (tcp_close (c\<lparr>tc_ring := r'\<rparr>))
            else Inr (c\<lparr>tc_ring := r'\<rparr>, decode_header bs, take (unat len - 34) (drop 34 bs))) \<and>
    (read_u16be (drop 4 bs) = MAGIC_VALUE \<longrightarrow> ring_bytes r' = drop (unat len) bs)"
proof -
  obtain r where r: "ring_consume (unat len) (tc_ring c) = Some r" "ring_ok r" "ring_bytes r = drop (unat len) bs"
    using rq.pop_ok [OF ok, of "unat len"] bs by blast
  have pl: "take (unat len - 34) (drop 34 p) = take (unat len - 34) (drop 34 bs)" if "take (unat len) p = take (unat len) bs" for p
    using arg_cong [OF that, of "drop 34"] by (simp add: drop_take)
  have hl: "(decode_header bs)\<lparr>ph_length := of_nat (unat len)\<rparr> = decode_header bs"
    using header_length [of bs] by (simp add: len)
  show ?thesis
  proof (cases b)
    case True
    obtain p where p: "ring_data_at 0 (tc_ring c) = Some p" "take (unat len) p = take (unat len) bs"
      using ring_contiguous_data [OF ok, of 0 "unat len"] b True bs by auto
    have "unat len \<le> length p" using arg_cong [OF p(2), of length] n(2) by (simp add: min_def split: if_splits)
    note h = header_of_prefix [OF n(1) p(2) n(2) this]
    show ?thesis
    proof (cases "read_u16be (drop 4 bs) = MAGIC_VALUE")
      case True
      then show ?thesis using \<open>b\<close> p(1) r h pl [OF p(2)] hl by (intro exI [of _ r]) (simp add: fast_path_def)
    next
      case False
      then show ?thesis using \<open>b\<close> p(1) h ok by (intro exI [of _ "tc_ring c"]) (simp add: fast_path_def)
    qed
  next
    case False
    have d: "ring_read_at 0 (unat len) (tc_ring c) = Some (take (unat len) bs)"
      using rq.peek_ok [OF ok, of 0 "unat len"] bs n(2) by simp
    have "take (unat len) (take (unat len) bs) = take (unat len) bs" "unat len \<le> length (take (unat len) bs)" using n(2) by simp_all
    note h = header_of_prefix [OF n(1) this(1) n(2) this(2)]
    show ?thesis
      using False d r h pl [of "take (unat len) bs"] hl by (intro exI [of _ r]) (simp add: slow_path_def)
  qed
qed

lemma read_turn_spec:
  assumes ok: "ring_ok (tc_ring c)" and bs: "ring_bytes (tc_ring c) = bs"
  shows "\<exists>r' go. ring_ok r' \<and> 
    (case split_frames bs of
       ([], rest, g) \<Rightarrow> read_turn env c = Some (False, (if g then c else tcp_close c)\<lparr>tc_ring := r'\<rparr>, []) \<and> (g \<longrightarrow> ring_bytes r' = bs)
     | (p # ps, rest, g) \<Rightarrow> \<exists>bs'. length bs' < length bs \<and> split_frames bs' = (ps, rest, g) \<and> ring_bytes r' = bs' \<and>
         read_turn env c = Some (case deliver env p c of (go, c', outs) \<Rightarrow> (go, c'\<lparr>tc_ring := r'\<rparr>, outs)))"
proof -
  define len where "len = read_u32be bs"
  have rd: "ring_readable (tc_ring c) = length bs" using rq.readable_ok [OF ok] bs by simp
  have self: "c\<lparr>tc_ring := tc_ring c\<rparr> = c" by simp
  consider (short) "length bs < 4" | (bad) "4 \<le> length bs" "len < HEADER_SIZE \<or> len > MAX_PACKET_LEN"
    | (wait) "4 \<le> length bs" "\<not> (len < HEADER_SIZE \<or> len > MAX_PACKET_LEN)" "length bs < unat len"
    | (frame) "4 \<le> length bs" "\<not> (len < HEADER_SIZE \<or> len > MAX_PACKET_LEN)" "unat len \<le> length bs"
    by linarith
  then show ?thesis
  proof cases
    case short
    then have "split_frames bs = ([], bs, True)" by (subst split_frames.simps) simp
    then show ?thesis using short ok bs rd by (intro exI [of _ "tc_ring c"]) (simp add: read_turn_def)
  next
    case bad
    have "ring_read_at 0 4 (tc_ring c) = Some (take 4 bs)" using rq.peek_ok [OF ok, of 0 4] bad(1) bs by simp
    moreover have "read_u32be (take 4 bs) = len" using bad(1) by (simp add: len_def read_be_get)
    moreover have "split_frames bs = ([], bs, False)" using bad by (subst split_frames.simps) (simp add: len_def [symmetric])
    ultimately show ?thesis using bad ok rd by (intro exI [of _ "tc_ring c"]) (simp add: read_turn_def ring_update1(2) [symmetric])
  next
    case wait
    have "ring_read_at 0 4 (tc_ring c) = Some (take 4 bs)" using rq.peek_ok [OF ok, of 0 4] wait(1) bs by simp
    moreover have "read_u32be (take 4 bs) = len" using wait(1) by (simp add: len_def read_be_get)
    moreover have "split_frames bs = ([], bs, True)" using wait by (subst split_frames.simps) (simp add: len_def [symmetric])
    ultimately show ?thesis using wait ok rd bs by (intro exI [of _ "tc_ring c"]) (simp add: read_turn_def)
  next
    case frame
    have rb: "ring_read_at 0 4 (tc_ring c) = Some (take 4 bs)" using rq.peek_ok [OF ok, of 0 4] frame(1) bs by simp
    have l4: "read_u32be (take 4 bs) = len" using frame(1) by (simp add: len_def read_be_get)
    have n: "34 \<le> unat len" using frame(2) by (simp add: word_less_nat_alt)
    obtain b where b: "ring_is_contiguous 0 (unat len) (tc_ring c) = Some b" using ring_contiguous_data [OF ok] by blast
    obtain r' where r': "ring_ok r'"
      "(if b then fast_path (unat len) c else slow_path (unat len) c) =
        Some (if read_u16be (drop 4 bs) \<noteq> MAGIC_VALUE then Inl (tcp_close (c\<lparr>tc_ring := r'\<rparr>))
            else Inr (c\<lparr>tc_ring := r'\<rparr>, decode_header bs, take (unat len - 34) (drop 34 bs)))"
      "read_u16be (drop 4 bs) = MAGIC_VALUE \<longrightarrow> ring_bytes r' = drop (unat len) bs"
      using frame_paths [OF ok bs n frame(3) len_def b] by blast
    have t: "read_turn env c = Some (if read_u16be (drop 4 bs) \<noteq> MAGIC_VALUE then (False, tcp_close (c\<lparr>tc_ring := r'\<rparr>), [])
        else deliver env (decode_header bs, take (unat len - 34) (drop 34 bs)) (c\<lparr>tc_ring := r'\<rparr>))"
      using frame(1,2,3) rd rb l4 b r'(2) by (cases b; cases "read_u16be (drop 4 bs) = MAGIC_VALUE") (simp_all add: read_turn_def Let_def)
    show ?thesis
    proof (cases "read_u16be (drop 4 bs) = MAGIC_VALUE")
      case False
      then have "split_frames bs = ([], bs, False)" using frame by (subst split_frames.simps) (simp add: len_def [symmetric])
      then show ?thesis using t False r'(1) by (intro exI [of _ r']) simp
    next
      case True
      define bs' where "bs' = drop (unat len) bs"
      obtain ps rest g where s: "split_frames bs' = (ps, rest, g)" by (cases "split_frames bs'")
      have "split_frames bs = ((decode_header bs, take (unat len - 34) (drop 34 bs)) # ps, rest, g)"
        using frame True s by (subst split_frames.simps) (simp add: len_def [symmetric] bs'_def [symmetric])
      moreover have "length bs' < length bs" using n frame(3) by (simp add: bs'_def)
      ultimately show ?thesis using t True r' s by (intro exI [of _ r']) (auto simp: bs'_def deliver_ring split: prod.split)
    qed
  qed
qed

section \<open>The loop\<close>

lemma deliver_all_frame: "deliver_all env ps c = (go, c', outs) \<Longrightarrow> tc_ring c' = tc_ring c"
  by (induction ps arbitrary: c go c' outs) (auto simp: deliver_frame Let_def split: prod.splits if_splits)

lemma process_read_buffer_spec:
  assumes "ring_ok (tc_ring c)"
  shows "\<exists>r'. ring_ok r' \<and>
    (case read_spec env (ring_bytes (tc_ring c)) c of (go, c1, outs) \<Rightarrow>
       process_read_buffer env c = Some (c1\<lparr>tc_ring := r'\<rparr>, outs) \<and>
       (go \<longrightarrow> ring_bytes r' = fst (snd (split_frames (ring_bytes (tc_ring c))))))"
  using assms
proof (induction "length (ring_bytes (tc_ring c))" arbitrary: c rule: less_induct)
  case less
  define bs where "bs = ring_bytes (tc_ring c)"
  note turn = read_turn_spec [OF less.prems bs_def [symmetric], of env]
  obtain ps rest g where s: "split_frames bs = (ps, rest, g)" by (cases "split_frames bs")
  show ?case
  proof (cases ps)
    case Nil
    then obtain r' where r': "ring_ok r'" "read_turn env c = Some (False, (if g then c else tcp_close c)\<lparr>tc_ring := r'\<rparr>, [])"
      "g \<longrightarrow> ring_bytes r' = bs" using turn s by auto
    have "g \<longrightarrow> rest = bs" using s Nil by (subst (asm) split_frames.simps) (auto simp: Let_def split: if_splits prod.splits)
    then show ?thesis using r' s Nil
      by (intro exI [of _ r']) (auto simp: bs_def [symmetric] read_spec_def process_read_buffer.simps [of env c])
  next
    case (Cons p ps')
    obtain r' bs' where r': "ring_ok r'" "length bs' < length bs" "split_frames bs' = (ps', rest, g)" "ring_bytes r' = bs'"
      "read_turn env c = Some (case deliver env p c of (go, c', outs) \<Rightarrow> (go, c'\<lparr>tc_ring := r'\<rparr>, outs))"
      using turn s Cons by auto
    obtain go c1 o1 where d: "deliver env p c = (go, c1, o1)" by (cases "deliver env p c")
    show ?thesis
    proof (cases go)
      case False
      then show ?thesis using r' d s Cons
        by (intro exI [of _ r']) (simp add: bs_def [symmetric] read_spec_def process_read_buffer.simps [of env c])
    next
      case True
      define c2 where "c2 = c1\<lparr>tc_ring := r'\<rparr>"
      have c2: "tc_ring c2 = r'" by (simp add: c2_def)
      from less.hyps [of c2] obtain r2 where r2: "ring_ok r2"
        "case read_spec env bs' c2 of (go, c3, outs) \<Rightarrow> process_read_buffer env c2 = Some (c3\<lparr>tc_ring := r2\<rparr>, outs) \<and>
          (go \<longrightarrow> ring_bytes r2 = rest)"
        using r' c2 by (auto simp: bs_def)
      obtain go2 c3 o2 where da: "deliver_all env ps' c1 = (go2, c3, o2)" by (cases "deliver_all env ps' c1")
      then have da2: "deliver_all env ps' c2 = (go2, c3\<lparr>tc_ring := r'\<rparr>, o2)" by (simp add: c2_def deliver_all_ring)
      have "process_read_buffer env c = Some ((if go2 \<and> \<not> g then tcp_close c3 else c3)\<lparr>tc_ring := r2\<rparr>, o1 @ o2)"
        using r2(2) r'(3,5) d True da2
        by (subst process_read_buffer.simps) (auto simp: read_spec_def c2_def [symmetric])
      moreover have "read_spec env bs c = (go2 \<and> g, if go2 \<and> \<not> g then tcp_close c3 else c3, o1 @ o2)"
        using s Cons d True da by (simp add: read_spec_def)
      moreover have "go2 \<and> g \<longrightarrow> ring_bytes r2 = rest" using r2(2) r'(3) da2 by (simp add: read_spec_def)
      ultimately show ?thesis using r2(1) s by (intro exI [of _ r2]) (simp add: bs_def [symmetric])
    qed
  qed
qed

section \<open>Cutting the stream\<close>

lemma prefix_reads:
  "4 \<le> length a \<Longrightarrow> read_u32be (a @ b) = read_u32be a"
  "6 \<le> length a \<Longrightarrow> read_u16be (drop 4 (a @ b)) = read_u16be (drop 4 a)"
  "34 \<le> length a \<Longrightarrow> decode_header (a @ b) = decode_header a"
proof -
  show "4 \<le> length a \<Longrightarrow> read_u32be (a @ b) = read_u32be a" by (simp add: read_be_get)
  show "6 \<le> length a \<Longrightarrow> read_u16be (drop 4 (a @ b)) = read_u16be (drop 4 a)" by (simp add: read_be_get)
  show "34 \<le> length a \<Longrightarrow> decode_header (a @ b) = decode_header a"
    using decode_header_take [of a] decode_header_take [of "a @ b"] by simp
qed

lemma split_append:
  "split_frames (a @ b) = (case split_frames a of (ps, rest, g) \<Rightarrow>
     if g then (case split_frames (rest @ b) of (qs, rest', g') \<Rightarrow> (ps @ qs, rest', g')) else (ps, rest @ b, False))"
proof (induction a rule: split_frames.induct)
  case (1 a)
  define len where "len = read_u32be a"
  have base: "split_frames (a @ b) = (case split_frames (a @ b) of (qs, rest', g') \<Rightarrow> ([] @ qs, rest', g'))" by simp
  consider (short) "length a < 4" | (bad) "4 \<le> length a" "len < HEADER_SIZE \<or> len > MAX_PACKET_LEN"
    | (wait) "4 \<le> length a" "\<not> (len < HEADER_SIZE \<or> len > MAX_PACKET_LEN)" "length a < unat len"
    | (frame) "4 \<le> length a" "\<not> (len < HEADER_SIZE \<or> len > MAX_PACKET_LEN)" "unat len \<le> length a"
    by linarith
  then show ?case
  proof cases
    case short
    then have "split_frames a = ([], a, True)" by (subst split_frames.simps) simp
    then show ?thesis using base by simp
  next
    case bad
    then have "split_frames a = ([], a, False)" "split_frames (a @ b) = ([], a @ b, False)"
      by (subst split_frames.simps, simp add: len_def [symmetric] prefix_reads)+
    then show ?thesis by simp
  next
    case wait
    then have "split_frames a = ([], a, True)" by (subst split_frames.simps) (simp add: len_def [symmetric])
    then show ?thesis using base by simp
  next
    case frame
    have n: "34 \<le> unat len" using frame(2) by (simp add: word_less_nat_alt)
    then have l: "34 \<le> length a" using frame(3) by simp
    have len': "read_u32be (a @ b) = len" using frame(1) by (simp add: prefix_reads len_def)
    have mg: "read_u16be (drop 4 (a @ b)) = read_u16be (drop 4 a)" by (rule prefix_reads(2)) (use l in simp)
    show ?thesis
    proof (cases "read_u16be (drop 4 a) = MAGIC_VALUE")
      case False
      then have "split_frames a = ([], a, False)" using frame by (subst split_frames.simps) (simp add: len_def [symmetric])
      moreover have "split_frames (a @ b) = ([], a @ b, False)"
        using frame False mg by (subst split_frames.simps) (simp add: len' del: drop_append)
      ultimately show ?thesis by simp
    next
      case True
      obtain ps rest g where s: "split_frames (drop (unat len) a) = (ps, rest, g)" by (cases "split_frames (drop (unat len) a)")
      have pl: "take (unat len - 34) (drop 34 (a @ b)) = take (unat len - 34) (drop 34 a)" using frame(3) l by simp
      have dr: "drop (unat len) (a @ b) = drop (unat len) a @ b" using frame(3) by simp
      have IH: "split_frames (drop (unat len) a @ b) = (if g then (case split_frames (rest @ b) of (qs, rest', g') \<Rightarrow> (ps @ qs, rest', g'))
          else (ps, rest @ b, False))"
        using "1.IH" [OF _ len_def _ _ ] frame True s by (simp del: drop_append)
      have "split_frames a = ((decode_header a, take (unat len - 34) (drop 34 a)) # ps, rest, g)"
        using frame True s by (subst split_frames.simps) (simp add: len_def [symmetric])
      moreover have "split_frames (a @ b) = (case split_frames (drop (unat len) a @ b) of (qs, rest', g') \<Rightarrow>
          ((decode_header a, take (unat len - 34) (drop 34 a)) # qs, rest', g'))"
        using frame True mg l by (subst split_frames.simps) (simp add: len' pl dr prefix_reads(3) del: drop_append)
      ultimately show ?thesis by (simp add: IH split: prod.split)
    qed
  qed
qed

lemma split_rest:
  "split_frames bs = (ps, rest, True) \<Longrightarrow> length rest < 16777216 \<and> split_frames rest = ([], rest, True)"
proof (induction bs arbitrary: ps rule: split_frames.induct)
  case (1 bs)
  define len where "len = read_u32be bs"
  show ?case
  proof (cases "length bs < 4 \<or> (\<not> (len < HEADER_SIZE \<or> len > MAX_PACKET_LEN) \<and> length bs < unat len)")
    case True
    then have e: "split_frames bs = ([], bs, True)" by (subst split_frames.simps) (auto simp: len_def [symmetric] Let_def)
    moreover have "length bs < 16777216" using True by (auto simp: word_less_nat_alt)
    ultimately show ?thesis using "1.prems" by simp
  next
    case False
    obtain ps' rest' g where s: "split_frames (drop (unat len) bs) = (ps', rest', g)" by (cases "split_frames (drop (unat len) bs)")
    have "\<not> (len < HEADER_SIZE \<or> len > MAX_PACKET_LEN)" "read_u16be (drop 4 bs) = MAGIC_VALUE" "rest' = rest" "g"
      using "1.prems" False s by (subst (asm) split_frames.simps, auto simp: Let_def len_def [symmetric] split: if_splits)+
    then show ?thesis using "1.IH" [OF _ len_def] False s by auto
  qed
qed

lemma on_read_ok:
  assumes ok: "ring_ok (tc_ring c)" and s: "split_frames (ring_bytes (tc_ring c) @ d) = (ps, rest, True)"
    and d: "deliver_all env ps c = (True, c1, outs)" and b: "split_frames (ring_bytes (tc_ring c)) = ([], ring_bytes (tc_ring c), True)"
    and len: "length d \<le> 48 * 1024 * 1024"
  shows "\<exists>r'. on_read env d c = Some (c1\<lparr>tc_ring := r'\<rparr>, outs) \<and> ring_ok r' \<and> ring_bytes r' = rest"
proof (cases "d = []")
  case True
  then have "ps = []" "rest = ring_bytes (tc_ring c)" using s b by simp_all
  then show ?thesis using True ok d by (intro exI [of _ "tc_ring c"]) (auto simp: on_read_def)
next
  case False
  obtain r where r: "ring_append d (tc_ring c) = Some r" "ring_ok r" "ring_bytes r = ring_bytes (tc_ring c) @ d"
    using rq.push_ok [OF ok] by blast
  have "ring_readable r = length (ring_bytes (tc_ring c)) + length d" using rq.readable_ok [OF r(2)] r(3) by simp
  then have lim: "\<not> ring_readable r > MAX_READ_BUF_BYTES"
    using split_rest [OF b] len by (simp add: MAX_READ_BUF_BYTES_def)
  define c2 where "c2 = c\<lparr>tc_ring := r\<rparr>"
  have "tc_ring c2 = r" by (simp add: c2_def)
  moreover have "deliver_all env ps c2 = (True, c1\<lparr>tc_ring := r\<rparr>, outs)" using d by (simp add: c2_def deliver_all_ring)
  ultimately show ?thesis
    using process_read_buffer_spec [of c2 env] r lim s False by (auto simp: on_read_def read_spec_def c2_def [symmetric])
qed

text \<open>The callback leaves the handle reading, after every packet: it does not close the connection, none of the
  writes it starts fails, and it does not fill the write queue.\<close>

fun stays_reading :: "'u tcp_env \<Rightarrow> tcp_packet list \<Rightarrow> 'u tcp \<Rightarrow> bool" where
  "stays_reading env [] c = tc_reading c"
| "stays_reading env (p # ps) c = (tc_reading c \<and> (case deliver env p c of (_, c1, _) \<Rightarrow> stays_reading env ps c1))"

lemma stays_reading_now: "stays_reading env ps c \<Longrightarrow> tc_reading c"
  by (cases ps) simp_all

lemma stays_reading_append:
  "stays_reading env (ps @ qs) c \<Longrightarrow> deliver_all env ps c = (True, c1, outs) \<Longrightarrow> stays_reading env qs c1"
  by (induction ps arbitrary: c outs) (auto simp: Let_def split: prod.splits if_splits)

lemma stays_reading_ring: "stays_reading env ps (c\<lparr>tc_ring := r\<rparr>) = stays_reading env ps c"
  by (induction ps arbitrary: c) (simp_all add: deliver_ring split_beta)

lemma tcp_chunking_irrelevant_aux:
  assumes "ring_ok (tc_ring c)" and "split_frames (ring_bytes (tc_ring c)) = ([], ring_bytes (tc_ring c), True)"
    and "split_frames (ring_bytes (tc_ring c) @ concat ds) = (ps, rest, True)"
    and "deliver_all env ps c = (True, c1, outs)" and "\<forall>d \<in> set ds. length d \<le> 48 * 1024 * 1024"
    and "stays_reading env ps c"
  shows "\<exists>r'. on_reads env ds c = Some (c1\<lparr>tc_ring := r'\<rparr>, outs) \<and> ring_ok r' \<and> ring_bytes r' = rest"
  using assms
proof (induction ds arbitrary: c ps outs c1)
  case Nil
  then show ?case by (intro exI [of _ "tc_ring c"]) auto
next
  case (Cons d ds)
  define B where "B = ring_bytes (tc_ring c)"
  obtain qs r1 g where s1: "split_frames (B @ d) = (qs, r1, g)" by (cases "split_frames (B @ d)")
  have whole: "split_frames ((B @ d) @ concat ds) = (ps, rest, True)" using Cons.prems(3) by (simp add: B_def)
  then have g: "g" using s1 by (subst (asm) split_append) (simp split: if_splits)
  obtain qs' where qs': "split_frames (r1 @ concat ds) = (qs', rest, True)" "ps = qs @ qs'"
    using whole s1 g by (subst (asm) split_append) (auto split: prod.splits)
  obtain c2 o1 o2 where d: "deliver_all env qs c = (True, c2, o1)" "deliver_all env qs' c2 = (True, c1, o2)" "outs = o1 @ o2"
    using Cons.prems(4) by (auto simp: qs'(2) deliver_all_append split: prod.splits if_splits)
  obtain r where r: "on_read env d c = Some (c2\<lparr>tc_ring := r\<rparr>, o1)" "ring_ok r" "ring_bytes r = r1"
    using on_read_ok [OF Cons.prems(1) _ d(1) Cons.prems(2)] s1 g Cons.prems(5) by (auto simp: B_def)
  have rd: "tc_reading c" "stays_reading env qs' c2"
    using stays_reading_now [OF Cons.prems(6)] stays_reading_append [OF Cons.prems(6) [unfolded qs'(2)] d(1)] by simp_all
  have "split_frames r1 = ([], r1, True)" using split_rest [of "B @ d" qs r1] s1 g by simp
  then obtain r' where "on_reads env ds (c2\<lparr>tc_ring := r\<rparr>) = Some ((c1\<lparr>tc_ring := r\<rparr>)\<lparr>tc_ring := r'\<rparr>, o2)"
    "ring_ok r'" "ring_bytes r' = rest"
    using Cons.IH [of "c2\<lparr>tc_ring := r\<rparr>" qs' "c1\<lparr>tc_ring := r\<rparr>" o2] r qs'(1) d(2) Cons.prems(5) rd(2)
    by (auto simp: deliver_all_ring stays_reading_ring)
  then show ?case using r(1) d(3) rd(1) by auto
qed

text \<open>C23: the packets a connection delivers, the effects of its callback and what stays in the buffer
  depend on the byte stream alone: however well-formed bytes are cut into reads (of up to 48 MB), as
  long as the callback leaves the handle reading, the connection ends in the state, and with the outputs, of
  delivering the frames of the whole stream one after the other, and the limit on the read buffer is never met.\<close>

theorem tcp_chunking_irrelevant:
  assumes "ring_ok (tc_ring c)" and "split_frames (ring_bytes (tc_ring c)) = ([], ring_bytes (tc_ring c), True)"
    and "split_frames (ring_bytes (tc_ring c) @ concat ds) = (ps, rest, True)"
    and "deliver_all env ps c = (True, c1, outs)" and "\<forall>d \<in> set ds. length d \<le> 48 * 1024 * 1024"
    and "stays_reading env ps c"
  shows "\<exists>r'. on_reads env ds c = Some (c1\<lparr>tc_ring := r'\<rparr>, outs) \<and> ring_ok r' \<and> ring_bytes r' = rest"
  by (rule tcp_chunking_irrelevant_aux [OF assms])

section \<open>From one end to the other\<close>

lemma split_encode:
  assumes "ph_magic h = MAGIC_VALUE" and "length pl + 34 \<le> 16777216"
  shows "split_frames (encode_bytes h pl @ bs) = (case split_frames bs of (ps, rest, g) \<Rightarrow>
    ((h\<lparr>ph_length := HEADER_SIZE + of_nat (length pl)\<rparr>, pl) # ps, rest, g))"
proof -
  define a where "a = encode_bytes h pl"
  have hd: "decode_header (a @ bs) = h\<lparr>ph_length := HEADER_SIZE + of_nat (length pl)\<rparr>"
    using prefix_reads(3) [of a bs] by (simp add: a_def decode_encode_header)
  have len: "read_u32be (a @ bs) = HEADER_SIZE + of_nat (length pl)"
    using arg_cong [OF hd, of ph_length] by (simp add: decode_header_def)
  have mg: "read_u16be (drop 4 (a @ bs)) = MAGIC_VALUE"
    using arg_cong [OF hd, of ph_magic] assms(1) by (simp add: decode_header_def del: drop_append)
  have u: "unat (HEADER_SIZE + of_nat (length pl)) = 34 + length pl"
    using assms(2) by (simp add: HEADER_SIZE_def unat_word_ariths unat_of_nat)
  have la: "length a = 34 + length pl" by (simp add: a_def)
  have "take (length pl) (drop 34 (a @ bs)) = pl" "drop (34 + length pl) (a @ bs) = bs"
    by (simp_all add: a_def encode_bytes_def write_be_put)
  then have "split_frames (a @ bs) = (case split_frames bs of (ps, rest, g) \<Rightarrow>
    ((h\<lparr>ph_length := HEADER_SIZE + of_nat (length pl)\<rparr>, pl) # ps, rest, g))"
    using assms(2) la u hd mg
    by (subst split_frames.simps) (simp add: len word_less_nat_alt Let_def del: drop_append)
  then show ?thesis by (simp add: a_def)
qed

text \<open>A callback that uses the connection as it likes but does not change the key.\<close>

definition keeps_key :: "'u tcp_env \<Rightarrow> bool" where
  "keeps_key env \<longleftrightarrow> (\<exists>cb. te_on_data env = Some cb \<and> (\<forall>u p key. CallSetKey key \<notin> set (snd (cb u p))))"

lemma key_frame [simp]: "tc_key (tcp_close c) = tc_key c" "tc_key (process_write_queue c) = tc_key c"
proof -
  show t: "tc_key (tcp_close c) = tc_key c" for c :: "'a tcp" by (simp add: tcp_close_def do_close_def tcp_post_def Let_def)
  show "tc_key (process_write_queue c) = tc_key c" by (simp add: process_write_queue_def t Let_def)
qed

lemma exec_call_key: "(\<forall>key. CallSetKey key \<noteq> k) \<Longrightarrow> tc_key (fst (exec_call env k c)) = tc_key c"
  by (cases k) (auto simp: exec_call_def tcp_send_def tcp_send_batch_def tcp_send_packet_def enqueue_all_def
      pause_read_def      trigger_write_def tcp_post_def close_after_write_def Let_def split: option.split)

lemma exec_calls_key: "(\<forall>key. CallSetKey key \<notin> set ks) \<Longrightarrow> tc_key (fst (exec_calls env ks c)) = tc_key c"
  by (induction ks arbitrary: c) (auto simp: split_beta exec_call_key)

definition out_packets :: "tcp_out list \<Rightarrow> tcp_packet list" where
  "out_packets outs = List.map_filter (\<lambda>x. case x of OutPacket h pl \<Rightarrow> Some (h, pl) | _ \<Rightarrow> None) outs"

lemma out_packets_simps [simp]:
  "out_packets [] = []" "out_packets (OutPacket h pl # outs) = (h, pl) # out_packets outs"
  "out_packets (a @ b) = out_packets a @ out_packets b"
  by (simp_all add: out_packets_def List.map_filter_def)

lemma exec_calls_packets: "out_packets (snd (exec_calls env ks c)) = []"
proof (induction ks arbitrary: c)
  case (Cons k ks)
  have "out_packets (snd (exec_call env k c)) = []"
    by (cases k) (auto simp: exec_call_def out_packets_def List.map_filter_def split: prod.split)
  then show ?case using Cons by (simp add: split_beta)
qed simp

lemma clear_set_flag:
  assumes "\<not> has_flag f FlagEncrypt"
  shows "or_flag f FlagEncrypt AND NOT (flag_bit FlagEncrypt) = f" "has_flag (or_flag f FlagEncrypt) FlagEncrypt"
proof -
  have b: "flag_bit FlagEncrypt = (1 :: u32)" by (simp add: flag_bit_def)
  have f0: "\<not> bit f 0" using assms by (simp add: has_flag_def b and_one_eq bit_0 odd_iff_mod_2_eq_one even_iff_mod_2_eq_zero)
  show "or_flag f FlagEncrypt AND NOT (flag_bit FlagEncrypt) = f"
    unfolding or_flag_def b
  proof (rule bit_word_eqI)
    fix n
    show "bit ((f OR 1) AND NOT 1) n = bit f n" if "n < LENGTH(32)"
      using f0 that by (cases "n = 0") (auto simp: bit_simps bit_1_iff)
  qed
  have "bit ((f OR 1) AND 1) 0" by (simp add: bit_simps)
  then show "has_flag (or_flag f FlagEncrypt) FlagEncrypt"
    unfolding has_flag_def or_flag_def b by (metis bit_0_eq bot_apply bot_bool_def)
qed

text \<open>The bytes \<open>SendPacket\<close> puts on the wire, and a packet without the length field.\<close>

definition wire :: "'u tcp_env \<Rightarrow> bytes \<Rightarrow> tcp_packet \<Rightarrow> bytes" where
  "wire env key p = the (packet_bytes env key (fst p) (snd p))"

definition app_packet :: "tcp_packet \<Rightarrow> tcp_packet" where
  "app_packet p = ((fst p)\<lparr>ph_length := 0\<rparr>, snd p)"

definition sendable :: "'u tcp_env \<Rightarrow> bytes \<Rightarrow> tcp_packet \<Rightarrow> bool" where
  "sendable env key p \<longleftrightarrow> ph_magic (fst p) = MAGIC_VALUE \<and> \<not> has_flag (ph_flags (fst p)) FlagEncrypt \<and>
     (\<exists>d. packet_bytes env key (fst p) (snd p) = Some d \<and> length d \<le> 16777216)"

lemma deliver_encoded:
  fixes env :: "'u tcp_env" and renv :: "'v tcp_env"
  assumes "sendable env (tc_key c) p" and crypto: "\<forall>x y. te_encrypt env (tc_key c) x = Some y \<longrightarrow> te_decrypt renv (tc_key c) y = Some x"
    and cb: "keeps_key renv"
  shows "\<exists>q d. packet_bytes env (tc_key c) (fst p) (snd p) = Some d \<and>
    (\<forall>bs. split_frames (d @ bs) = (case split_frames bs of (ps, rest, g) \<Rightarrow> (q # ps, rest, g))) \<and>
    (\<exists>c' outs. deliver renv q c = (True, c', outs) \<and> tc_key c' = tc_key c \<and> map app_packet (out_packets outs) = [app_packet p])"
proof -
  obtain h pl where p: "p = (h, pl)" by (cases p)
  define key where "key = tc_key c"
  obtain d where d: "packet_bytes env key h pl = Some d" "length d \<le> 16777216" "ph_magic h = MAGIC_VALUE" "\<not> has_flag (ph_flags h) FlagEncrypt"
    using assms(1) by (auto simp: sendable_def p key_def)
  obtain f where f: "te_on_data renv = Some f" "\<forall>u p key. CallSetKey key \<notin> set (snd (f u p))" using cb by (auto simp: keeps_key_def)
  have fin: "\<exists>c' outs. deliver renv q c = (True, c', outs) \<and> tc_key c' = tc_key c \<and> map app_packet (out_packets outs) = [app_packet (h, pl)]"
    if "(if tc_key c \<noteq> [] \<and> has_flag (ph_flags (fst q)) FlagEncrypt
         then map_option (\<lambda>pl'. ((fst q)\<lparr>ph_flags := ph_flags (fst q) AND NOT (flag_bit FlagEncrypt)\<rparr>, pl')) (te_decrypt renv (tc_key c) (snd q))
         else Some q) = Some (h\<lparr>ph_length := l\<rparr>, pl)" for q l
  proof -
    obtain u ks where fk: "f (tc_user c) (h\<lparr>ph_length := l\<rparr>, pl) = (u, ks)" by (cases "f (tc_user c) (h\<lparr>ph_length := l\<rparr>, pl)")
    obtain c' outs where e: "exec_calls renv ks (c\<lparr>tc_user := u\<rparr>) = (c', outs)" by fastforce
    have "\<forall>key. CallSetKey key \<notin> set ks" using f(2) fk by (metis snd_conv)
    then have "tc_key c' = tc_key c" using exec_calls_key [of ks renv "c\<lparr>tc_user := u\<rparr>"] e by simp
    moreover have "out_packets outs = []" using exec_calls_packets [of renv ks "c\<lparr>tc_user := u\<rparr>"] e by simp
    moreover have "deliver renv q c = (True, c', OutPacket (h\<lparr>ph_length := l\<rparr>) pl # outs)"
    proof -
      obtain h0 pl0 where q: "q = (h0, pl0)" by (cases q)
      show ?thesis unfolding q deliver_def prod.case Let_def that [unfolded q fst_conv snd_conv] by (simp add: f(1) fk e)
    qed
    ultimately show ?thesis by (simp add: app_packet_def)
  qed
  show ?thesis
  proof (cases "key \<noteq> [] \<and> pl \<noteq> []")
    case True
    then obtain y where y: "te_encrypt env key pl = Some y" "d = encode_bytes (h\<lparr>ph_flags := or_flag (ph_flags h) FlagEncrypt\<rparr>) y"
      using d(1) by (auto simp: packet_bytes_def)
    let ?h = "h\<lparr>ph_flags := or_flag (ph_flags h) FlagEncrypt\<rparr>"
    let ?q = "(?h\<lparr>ph_length := HEADER_SIZE + of_nat (length y)\<rparr>, y)"
    have "length y + 34 \<le> 16777216" using d(2) y(2) by simp
    then have s: "\<forall>bs. split_frames (d @ bs) = (case split_frames bs of (ps, rest, g) \<Rightarrow> (?q # ps, rest, g))"
      unfolding y(2) using d(3) by (intro allI split_encode) simp_all
    have "te_decrypt renv key y = Some pl" using crypto y(1) by (simp add: key_def)
    then show ?thesis using fin [of ?q "HEADER_SIZE + of_nat (length y)"] s d(1,4) True clear_set_flag [OF d(4)]
      by (intro exI [of _ ?q] exI [of _ d]) (simp add: p key_def)
  next
    case False
    let ?q = "(h\<lparr>ph_length := HEADER_SIZE + of_nat (length pl)\<rparr>, pl)"
    have e: "d = encode_bytes h pl" using d(1) False by (auto simp: packet_bytes_def)
    have "length pl + 34 \<le> 16777216" using d(2) e by simp
    then have s: "\<forall>bs. split_frames (d @ bs) = (case split_frames bs of (ps, rest, g) \<Rightarrow> (?q # ps, rest, g))"
      unfolding e using d(3) by (intro allI split_encode) simp_all
    then show ?thesis using fin [of ?q "HEADER_SIZE + of_nat (length pl)"] s d(1,4)
      by (intro exI [of _ ?q] exI [of _ d]) (simp add: p key_def)
  qed
qed

lemma stream_of_packets:
  fixes env :: "'u tcp_env" and renv :: "'v tcp_env"
  assumes crypto: "\<forall>x y. te_encrypt env key x = Some y \<longrightarrow> te_decrypt renv key y = Some x" and cb: "keeps_key renv"
  shows "\<lbrakk>\<forall>p \<in> set ps. sendable env key p; tc_key c = key\<rbrakk> \<Longrightarrow>
    \<exists>qs c' outs. split_frames (concat (map (wire env key) ps)) = (qs, [], True) \<and>
      deliver_all renv qs c = (True, c', outs) \<and> map app_packet (out_packets outs) = map app_packet ps"
proof (induction ps arbitrary: c)
  case Nil
  have "split_frames [] = ([], [], True)" by (subst split_frames.simps) simp
  then show ?case by (intro exI [of _ "[]"]) simp
next
  case (Cons p ps)
  have sd: "sendable env (tc_key c) p" using Cons.prems by simp
  obtain q d c1 o1 where q: "packet_bytes env key (fst p) (snd p) = Some d"
    "\<forall>bs. split_frames (d @ bs) = (case split_frames bs of (ps, rest, g) \<Rightarrow> (q # ps, rest, g))"
    "deliver renv q c = (True, c1, o1)" "tc_key c1 = key" "map app_packet (out_packets o1) = [app_packet p]"
    using deliver_encoded [OF sd _ cb, unfolded Cons.prems(2), OF crypto] by - (elim exE conjE, rule that)
  obtain qs c2 o2 where r: "split_frames (concat (map (wire env key) ps)) = (qs, [], True)"
    "deliver_all renv qs c1 = (True, c2, o2)" "map app_packet (out_packets o2) = map app_packet ps"
    using Cons.IH [OF _ q(4)] Cons.prems(1) by auto
  then show ?case using q by (intro exI [of _ "q # qs"]) (simp add: wire_def [of env key p])
qed

text \<open>C24: what one end sends with \<open>SendPacket\<close> the other end's callback receives, packet for packet in
  the same order and nothing else, however the network cuts the byte stream, as long as the receiving callback
  leaves its handle reading: with and without a session
  key, for packets of at most 16 MB on the wire that do not claim to be encrypted already. Decryption
  undoing encryption under the same key is the assumption on AES-GCM; the length field is the one the
  encoder fills in.\<close>

theorem tcp_end_to_end:
  fixes env :: "'u tcp_env" and renv :: "'v tcp_env"
  assumes crypto: "\<forall>x y. te_encrypt env key x = Some y \<longrightarrow> te_decrypt renv key y = Some x" and "keeps_key renv"
    and "\<forall>p \<in> set ps. sendable env key p"
    and "concat ds = concat (map (wire env key) ps)" and "\<forall>d \<in> set ds. length d \<le> 48 * 1024 * 1024"
    and "stays_reading renv (fst (split_frames (concat ds))) (set_session_key key (init_from_accepted (tcp_new u)))"
  shows "\<exists>c' outs. on_reads renv ds (set_session_key key (init_from_accepted (tcp_new u))) = Some (c', outs) \<and>
    map app_packet (out_packets outs) = map app_packet ps \<and> ring_bytes (tc_ring c') = []"
proof -
  define c where "c = set_session_key key (init_from_accepted (tcp_new u))"
  have c: "tc_key c = key" "tc_ring c = ring_new (1024 * 1024)"
    by (simp_all add: c_def set_session_key_def init_from_accepted_def start_read_def tcp_new_def)
  have rn: "ring_ok (tc_ring c)" "ring_bytes (tc_ring c) = []" using ring_new_ok [of "1024 * 1024"] by (simp_all add: c)
  have nil: "split_frames [] = ([], [], True)" by (subst split_frames.simps) simp
  obtain qs c' outs where q: "split_frames (concat ds) = (qs, [], True)" "deliver_all renv qs c = (True, c', outs)"
    "map app_packet (out_packets outs) = map app_packet ps"
    using stream_of_packets [of env key renv ps c] assms c(1) by auto
  then obtain r' where "on_reads renv ds c = Some (c'\<lparr>tc_ring := r'\<rparr>, outs)" "ring_bytes r' = []"
    using tcp_chunking_irrelevant_aux [of c ds qs "[]" renv c' outs] rn nil assms(5,6) by (auto simp: c_def [symmetric])
  then show ?thesis using q(3) by (simp add: c_def [symmetric])
qed


text \<open>A pair of ends whose cipher is a XOR with a constant, and a callback that calls nothing.\<close>

definition demo_tcp_env :: "unit tcp_env" where
  "demo_tcp_env = \<lparr>te_encrypt = (\<lambda>k x. Some (map (\<lambda>b. b XOR 7) x)), te_decrypt = (\<lambda>k x. Some (map (\<lambda>b. b XOR 7) x)),
     te_on_data = Some (\<lambda>u p. (u, []))\<rparr>"

definition demo_tcp_packets :: "tcp_packet list" where
  "demo_tcp_packets = [(default_header\<lparr>ph_cmd := 7\<rparr>, [1, 2, 3]), (default_header\<lparr>ph_cmd := 8\<rparr>, [])]"

lemma demo_tcp_sendable: "\<forall>p \<in> set demo_tcp_packets. sendable demo_tcp_env [1] p"
  by (simp add: demo_tcp_packets_def sendable_def demo_tcp_env_def packet_bytes_def default_header_def has_flag_def)

lemma demo_tcp_crypto: "te_encrypt demo_tcp_env key x = Some y \<Longrightarrow> te_decrypt demo_tcp_env key y = Some x"
  by (auto simp: demo_tcp_env_def comp_def xor.assoc intro: map_idI)

lemma demo_tcp_keeps: "keeps_key demo_tcp_env"
  by (simp add: keeps_key_def demo_tcp_env_def)

lemma demo_tcp_deliver: "deliver demo_tcp_env p c = (go, c1, outs) \<Longrightarrow> tc_reading c1 = tc_reading c"
  by (cases p) (auto simp: deliver_def demo_tcp_env_def Let_def split: if_splits)

lemma demo_tcp_reads: "tc_reading c \<Longrightarrow> stays_reading demo_tcp_env ps c"
  by (induction ps arbitrary: c) (auto simp: demo_tcp_deliver split: prod.split)

lemma tcp_end_to_end_witness:
  "let w = concat (map (wire demo_tcp_env [1]) demo_tcp_packets) in
   \<exists>c' outs. on_reads demo_tcp_env [take 10 w, drop 10 w] (set_session_key [1] (init_from_accepted (tcp_new ()))) = Some (c', outs) \<and>
     map (ph_cmd \<circ> fst) (map app_packet (out_packets outs)) = [7, 8] \<and> map snd (map app_packet (out_packets outs)) = [[1, 2, 3], []]"
proof -
  define w where "w = concat (map (wire demo_tcp_env [1]) demo_tcp_packets)"
  have "length w = 71" by (simp add: w_def demo_tcp_packets_def wire_def packet_bytes_def demo_tcp_env_def)
  then have l: "\<forall>d \<in> set [take 10 w, drop 10 w]. length d \<le> 48 * 1024 * 1024" by simp
  have e: "concat [take 10 w, drop 10 w] = concat (map (wire demo_tcp_env [1]) demo_tcp_packets)" by (simp add: w_def)
  have sr: "stays_reading demo_tcp_env (fst (split_frames (concat [take 10 w, drop 10 w]))) (set_session_key [1] (init_from_accepted (tcp_new ())))"
    by (rule demo_tcp_reads) (simp add: set_session_key_def init_from_accepted_def start_read_def tcp_new_def)
  obtain c' outs where r: "on_reads demo_tcp_env [take 10 w, drop 10 w] (set_session_key [1] (init_from_accepted (tcp_new ()))) = Some (c', outs)"
    "map app_packet (out_packets outs) = map app_packet demo_tcp_packets"
    using tcp_end_to_end [where renv = demo_tcp_env and u = "()", OF _ demo_tcp_keeps demo_tcp_sendable e l sr] demo_tcp_crypto by blast
  show ?thesis unfolding Let_def w_def [symmetric]
    by (rule exI [of _ c'], rule exI [of _ outs], intro conjI, rule r(1), unfold r(2))
       (simp_all add: demo_tcp_packets_def app_packet_def default_header_def)
qed

lemma tcp_chunking_irrelevant_witness:
  "let w = encode_bytes default_header [5] in
   \<exists>r'. on_reads demo_tcp_env [take 10 w, drop 10 w, [0]] (init_from_accepted (tcp_new ())) =
     Some (init_from_accepted (tcp_new ())\<lparr>tc_ring := r'\<rparr>, [OutPacket (default_header\<lparr>ph_length := 35\<rparr>) [5]]) \<and> ring_bytes r' = [0]"
proof -
  define c where "c = init_from_accepted (tcp_new ())"
  define w where "w = encode_bytes default_header [5]"
  have c: "ring_ok (tc_ring c)" "ring_bytes (tc_ring c) = []" "tc_key c = []" "tc_reading c"
    using ring_new_ok [of "1024 * 1024"] by (simp_all add: c_def init_from_accepted_def start_read_def tcp_new_def)
  have s0: "split_frames [] = ([], [], True)" "split_frames [0] = ([], [0], True)" by (subst split_frames.simps, simp)+
  have s: "split_frames (w @ [0]) = ([(default_header\<lparr>ph_length := 35\<rparr>, [5])], [0], True)"
    using split_encode [of default_header "[5]" "[0]"] s0 by (simp add: w_def default_header_def HEADER_SIZE_def)
  have d: "deliver_all demo_tcp_env [(default_header\<lparr>ph_length := 35\<rparr>, [5])] c = (True, c, [OutPacket (default_header\<lparr>ph_length := 35\<rparr>) [5]])"
    by (simp add: deliver_def demo_tcp_env_def c(3))
  have "length w = 35" by (simp add: w_def)
  then obtain r' where "on_reads demo_tcp_env [take 10 w, drop 10 w, [0]] c = Some (c\<lparr>tc_ring := r'\<rparr>, [OutPacket (default_header\<lparr>ph_length := 35\<rparr>) [5]])"
    "ring_bytes r' = [0]"
    using tcp_chunking_irrelevant [OF c(1) _ _ d _ demo_tcp_reads [OF c(4)], of "[take 10 w, drop 10 w, [0]]" "[0]"] c(2) s s0
    by (auto simp: append_assoc [symmetric] simp del: append_assoc on_reads.simps)
  then show ?thesis unfolding Let_def c_def [symmetric] w_def [symmetric] by blast
qed

end
