(* ===== verification/GM_TcpWrite.thy ===== *)
theory GM_TcpWrite
  imports GM_TcpProps
begin

text \<open>
  The write path and the closing of a connection (\<open>net/async/tcp_connection.cpp\<close>): an invariant of every
  state a connection reaches by the steps of \<open>GM_TcpConn\<close>, from which follow the order of the writes, the
  absence of lost wake-ups and the back-pressure rule; and what \<open>CloseAfterWrite\<close> does to an open
  connection.
\<close>

section \<open>The write path\<close>

definition accepted :: "tcp_out list \<Rightarrow> bytes list" where
  "accepted outs = concat (map (\<lambda>x. case x of OutAccept bs \<Rightarrow> bs | _ \<Rightarrow> []) outs)"

text \<open>What \<open>uv_write\<close> was given so far.\<close>

definition written :: "'u tcp \<Rightarrow> bytes list" where
  "written c = concat (tc_sent c)"

lemma accepted_simps [simp]:
  "accepted [] = []" "accepted (OutAccept bs # outs) = bs @ accepted outs"
  "accepted (OutPacket h pl # outs) = accepted outs" "accepted (OutConnect ok # outs) = accepted outs"
  "accepted (OutClosed # outs) = accepted outs" "accepted (a @ b) = accepted a @ accepted b"
  by (simp_all add: accepted_def)

text \<open>A write is pending when its task is posted or its request is with libuv.\<close>

definition pending_writes :: "'u tcp \<Rightarrow> nat" where
  "pending_writes c = count_list (tc_posted c) TaskWrite + (if tc_inflight c = None then 0 else 1)"

definition tcp_inv :: "bytes list \<Rightarrow> 'u tcp \<Rightarrow> bool" where
  "tcp_inv acc c \<longleftrightarrow> acc = written c @ tc_queue c \<and> tc_qbytes c = sum_list (map length (tc_queue c)) \<and>
     pending_writes c \<le> 1 \<and> (\<not> tc_writing c \<longrightarrow> pending_writes c = 0) \<and>
     (tc_writing c \<and> \<not> tc_closed c \<longrightarrow> pending_writes c = 1) \<and>
     (tc_queue c \<noteq> [] \<and> \<not> tc_closed c \<longrightarrow> tc_writing c) \<and>
     (tc_paused c \<longrightarrow> WRITE_RESUME_THRESHOLD \<le> tc_qbytes c) \<and>
     (\<not> tc_handle c \<or> tc_uv_closing c \<or> TaskClose \<in> set (tc_posted c) \<longrightarrow> tc_closing c) \<and>
     (tc_closing c \<longrightarrow> tc_closed c) \<and> ring_ok (tc_ring c)"

lemma tcp_inv_start: "tcp_inv [] (set_session_key key (init_from_accepted (tcp_new u)))"
  using ring_new_ok [of "1024 * 1024"]
  by (simp add: tcp_inv_def set_session_key_def init_from_accepted_def start_read_def tcp_new_def pending_writes_def written_def)

lemma tcp_inv_on: "tcp_inv acc (tcp_on here uv_ok c) = tcp_inv acc c"
  unfolding tcp_inv_def tcp_on_def pending_writes_def written_def by simp

text \<open>Closing, at once or by a posted task.\<close>

lemma tcp_inv_close [gm_inv]: "tcp_inv acc c \<Longrightarrow> tcp_inv acc (tcp_close c)"
  by (auto simp: tcp_inv_def tcp_close_def do_close_def tcp_post_def pending_writes_def written_def Let_def)

lemma tcp_inv_ring: "tcp_inv acc c \<Longrightarrow> ring_ok r \<Longrightarrow> tcp_inv acc (c\<lparr>tc_ring := r\<rparr>)"
  by (auto simp: tcp_inv_def pending_writes_def written_def)

lemma tcp_inv_other [gm_inv]:
  "tcp_inv acc c \<Longrightarrow> tcp_inv acc (c\<lparr>tc_user := u\<rparr>)" "tcp_inv acc c \<Longrightarrow> tcp_inv acc (set_session_key key c)"
  by (auto simp: tcp_inv_def pending_writes_def set_session_key_def written_def)

text \<open>The write queue runs with no write pending but its own.\<close>

lemma tcp_inv_process_write:
  assumes "acc = written c @ tc_queue c" and "tc_qbytes c = sum_list (map length (tc_queue c))" and "pending_writes c = 0"
    and "tc_paused c \<longrightarrow> WRITE_RESUME_THRESHOLD \<le> tc_qbytes c" and "tc_writing c"
    and "\<not> tc_handle c \<or> tc_uv_closing c \<or> TaskClose \<in> set (tc_posted c) \<longrightarrow> tc_closing c" and "tc_closing c \<longrightarrow> tc_closed c"
    and "ring_ok (tc_ring c)"
  shows "tcp_inv acc (process_write_queue c)"
proof -
  define q where "q = tc_queue c"
  have sp: "sum_list (map length q) = sum_list (map length (take 64 q)) + sum_list (map length (drop 64 q))"
    by (metis append_take_drop_id map_append sum_list_append)
  consider (off) "\<not> tc_handle c \<or> tc_uv_closing c" | (empty) "tc_handle c" "\<not> tc_uv_closing c" "q = []"
    | (batch) "tc_handle c" "\<not> tc_uv_closing c" "q \<noteq> []" by blast
  then show ?thesis
  proof cases
    case off
    then have "process_write_queue c = c" by (simp add: process_write_queue_def)
    then show ?thesis using assms off by (auto simp: tcp_inv_def)
  next
    case empty
    have "tcp_inv acc (c\<lparr>tc_queue := [], tc_qbytes := 0, tc_writing := False, tc_caw := False\<rparr>)"
      "tcp_inv acc (c\<lparr>tc_queue := [], tc_qbytes := 0, tc_writing := False\<rparr>)"
      using assms empty by (auto simp: tcp_inv_def pending_writes_def q_def WRITE_RESUME_THRESHOLD_def written_def)
    moreover have "process_write_queue c = (if tc_caw c then tcp_close (c\<lparr>tc_queue := [], tc_qbytes := 0, tc_writing := False, tc_caw := False\<rparr>)
        else c\<lparr>tc_queue := [], tc_qbytes := 0, tc_writing := False\<rparr>)"
      using assms(2) empty by (auto simp: process_write_queue_def q_def Let_def)
    ultimately show ?thesis by (auto intro: tcp_inv_close)
  next
    case batch
    define c1 where "c1 = c\<lparr>tc_queue := drop 64 q, tc_qbytes := sum_list (map length (drop 64 q))\<rparr>"
    define c2 where "c2 = (if tc_paused c1 \<and> tc_qbytes c1 < WRITE_RESUME_THRESHOLD then c1\<lparr>tc_paused := False, tc_reading := True\<rparr> else c1)"
    define c3 where "c3 = c2\<lparr>tc_sent := tc_sent c @ [take 64 q]\<rparr>"
    have ne: "take 64 q \<noteq> []" using batch(3) by simp
    have "tc_qbytes c - sum_list (map length (take 64 q)) = sum_list (map length (drop 64 q))" using assms(2) sp by (simp add: q_def)
    then have e: "process_write_queue c = (if tc_uv_ok c then c3\<lparr>tc_inflight := Some (take 64 q)\<rparr> else tcp_close (c3\<lparr>tc_writing := False\<rparr>))"
      using batch ne by (auto simp: process_write_queue_def Let_def q_def [symmetric] c1_def c2_def c3_def)
    have w: "written c3 = written c @ take 64 q" by (simp add: c3_def written_def)
    have c3: "tc_queue c3 = drop 64 q" "tc_qbytes c3 = sum_list (map length (drop 64 q))" "pending_writes c3 = 0"
      "tc_paused c3 \<longrightarrow> WRITE_RESUME_THRESHOLD \<le> tc_qbytes c3" "tc_writing c3"
      "\<not> tc_handle c3 \<or> tc_uv_closing c3 \<or> TaskClose \<in> set (tc_posted c3) \<longrightarrow> tc_closing c3" "tc_closing c3 \<longrightarrow> tc_closed c3"
      "ring_ok (tc_ring c3)"
      using assms(3-8) batch by (auto simp: pending_writes_def c1_def c2_def c3_def not_less split: if_splits)
    have acc: "acc = written c3 @ tc_queue c3" using assms(1) by (simp add: q_def w c3(1) [unfolded q_def])
    have i: "tcp_inv acc (c3\<lparr>tc_inflight := Some (take 64 q)\<rparr>)"
      using c3 acc by (auto simp: tcp_inv_def pending_writes_def written_def split: if_splits)
    have "tcp_inv acc (tcp_close (c3\<lparr>tc_writing := False\<rparr>))"
      using c3 acc by (auto simp: tcp_inv_def pending_writes_def written_def tcp_close_def do_close_def tcp_post_def Let_def split: if_splits)
    then show ?thesis using i e by simp
  qed
qed

text \<open>Starting a write, at once or by a posted task, restores what queueing broke.\<close>

lemma tcp_inv_trigger:
  assumes "acc = written c @ tc_queue c" and "tc_qbytes c = sum_list (map length (tc_queue c))" and "pending_writes c \<le> 1"
    and "\<not> tc_writing c \<longrightarrow> pending_writes c = 0" and "tc_writing c \<and> \<not> tc_closed c \<longrightarrow> pending_writes c = 1"
    and "tc_paused c \<longrightarrow> WRITE_RESUME_THRESHOLD \<le> tc_qbytes c"
    and "\<not> tc_handle c \<or> tc_uv_closing c \<or> TaskClose \<in> set (tc_posted c) \<longrightarrow> tc_closing c" and "tc_closing c \<longrightarrow> tc_closed c"
    and "ring_ok (tc_ring c)"
  shows "tcp_inv acc (trigger_write c)"
proof (cases "tc_writing c")
  case True
  then show ?thesis using assms by (auto simp: tcp_inv_def trigger_write_def)
next
  case False
  have "tcp_inv acc (process_write_queue (c\<lparr>tc_writing := True\<rparr>))"
    by (rule tcp_inv_process_write) (use assms False in \<open>auto simp: pending_writes_def written_def\<close>)
  moreover have "tcp_inv acc (c\<lparr>tc_writing := True, tc_posted := tc_posted c @ [TaskWrite]\<rparr>)"
    using assms False by (auto simp: tcp_inv_def pending_writes_def written_def)
  ultimately show ?thesis using False by (simp add: trigger_write_def tcp_post_def)
qed

lemma tcp_inv_caw [gm_inv]: "tcp_inv acc c \<Longrightarrow> tcp_inv acc (close_after_write c)"
proof (cases "tc_closed c \<or> tc_closing c \<or> tc_caw c \<or> \<not> tc_handle c")
  case False
  assume i: "tcp_inv acc c"
  have "tcp_inv acc (trigger_write (c\<lparr>tc_keep_alive := True, tc_closed := True, tc_caw := True\<rparr>))"
    by (rule tcp_inv_trigger) (use i in \<open>auto simp: tcp_inv_def pending_writes_def written_def\<close>)
  then show ?thesis using False by (simp add: close_after_write_def)
qed (auto simp: close_after_write_def)

lemma tcp_inv_enqueue [gm_inv]:
  assumes "tcp_inv acc c" and "\<not> not_writable c"
  shows "tcp_inv (acc @ bs) (enqueue_all bs c)"
proof -
  define c1 where "c1 = c\<lparr>tc_queue := tc_queue c @ bs, tc_qbytes := tc_qbytes c + sum_list (map length bs)\<rparr>"
  define c2 where "c2 = (if tc_qbytes c1 > MAX_WRITE_QUEUE_BYTES \<and> \<not> tc_paused c1 then pause_read c1 else c1)"
  have "tcp_inv (acc @ bs) (trigger_write c2)"
    by (rule tcp_inv_trigger)
      (use assms in \<open>auto simp: tcp_inv_def not_writable_def pending_writes_def written_def c2_def c1_def pause_read_def
        MAX_WRITE_QUEUE_BYTES_def WRITE_RESUME_THRESHOLD_def\<close>)
  then show ?thesis by (simp only: enqueue_all_def c1_def c2_def Let_def)
qed

lemma tcp_inv_call [gm_inv]:
  assumes "tcp_inv acc c" and "exec_call env k c = (c', outs)"
  shows "tcp_inv (acc @ accepted outs) c'"
  using assms by (cases k) (auto simp: exec_call_def tcp_send_def tcp_send_batch_def tcp_send_packet_def
      intro: gm_inv split: if_splits option.splits)

text \<open>What holds of a connection and of what it has put out, is kept by \<open>Close\<close> and by every public operation, and does not
  look at the packets delivered, is kept by reading: the callback can only call these.\<close>

locale kept_by_calls =
  fixes env :: "'u tcp_env" and P :: "tcp_out list \<Rightarrow> 'u tcp \<Rightarrow> bool"
  assumes kept_ring_ok: "P h c \<Longrightarrow> ring_ok (tc_ring c)"
    and kept_call: "P h c \<Longrightarrow> exec_call env k c = (c', outs) \<Longrightarrow> P (h @ outs) c'"
    and kept_close: "P h c \<Longrightarrow> P h (tcp_close c)"
    and kept_user: "P h c \<Longrightarrow> P h (c\<lparr>tc_user := u\<rparr>)"
    and kept_ring: "P h c \<Longrightarrow> ring_ok r \<Longrightarrow> P h (c\<lparr>tc_ring := r\<rparr>)"
    and kept_packet: "P h c \<Longrightarrow> P (h @ [OutPacket hdr pl]) c"
begin

lemma kept_calls: "P h c \<Longrightarrow> exec_calls env ks c = (c', outs) \<Longrightarrow> P (h @ outs) c'"
proof (induction ks arbitrary: h c c' outs)
  case (Cons k ks)
  obtain c1 o1 c2 o2 where k: "exec_call env k c = (c1, o1)" "exec_calls env ks c1 = (c2, o2)" "c' = c2" "outs = o1 @ o2"
    using Cons.prems(2) by (auto split: prod.splits)
  show ?case using Cons.IH [OF kept_call [OF Cons.prems(1) k(1)] k(2)] by (simp add: k(3,4))
qed simp

lemma kept_deliver:
  assumes "P h c" and "deliver env p c = (go, c', outs)"
  shows "P (h @ outs) c'"
proof -
  consider "c' = tcp_close c" "outs = []" | "c' = c" "outs = []"
    | hdr pl u calls o1 where "exec_calls env calls (c\<lparr>tc_user := u\<rparr>) = (c', o1)" "outs = OutPacket hdr pl # o1"
    using assms(2) by (auto simp: deliver_def Let_def split: if_splits option.splits prod.splits)
  then show ?thesis
  proof cases
    case 3
    then show ?thesis using kept_calls [OF kept_user [OF kept_packet [OF assms(1)]] 3(1)] by simp
  qed (use assms(1) kept_close in simp_all)
qed

lemma kept_deliver_all: "P h c \<Longrightarrow> deliver_all env ps c = (go, c', outs) \<Longrightarrow> P (h @ outs) c'"
proof (induction ps arbitrary: h c go c' outs)
  case (Cons p ps)
  obtain go1 c1 o1 where d: "deliver env p c = (go1, c1, o1)" by (cases "deliver env p c")
  obtain go2 c2 o2 where d2: "deliver_all env ps c1 = (go2, c2, o2)" by (cases "deliver_all env ps c1")
  have i1: "P (h @ o1) c1" by (rule kept_deliver [OF Cons.prems(1) d])
  show ?case using Cons.IH [OF i1 d2] i1 Cons.prems(2) d d2 by (auto simp: Let_def split: if_splits)
qed simp

lemma kept_read:
  assumes "P h c" and "on_read env d c = Some (c', outs)"
  shows "P (h @ outs) c'"
proof (cases "d = []")
  case True
  then show ?thesis using assms by (simp add: on_read_def)
next
  case False
  obtain r where r: "ring_append d (tc_ring c) = Some r" "ring_ok r" using rq.push_ok [OF kept_ring_ok [OF assms(1)]] by blast
  define c1 where "c1 = c\<lparr>tc_ring := r\<rparr>"
  have i1: "P h c1" unfolding c1_def by (rule kept_ring [OF assms(1) r(2)])
  show ?thesis
  proof (cases "ring_readable r > MAX_READ_BUF_BYTES")
    case True
    then show ?thesis using assms(2) False r(1) kept_close [OF i1] by (simp add: on_read_def c1_def)
  next
    case False
    then have p: "process_read_buffer env c1 = Some (c', outs)" using assms(2) \<open>d \<noteq> []\<close> r(1) by (simp add: on_read_def c1_def)
    have r1: "ring_ok (tc_ring c1)" using r(2) by (simp add: c1_def)
    obtain ps rest g where s: "split_frames (ring_bytes (tc_ring c1)) = (ps, rest, g)" by (cases "split_frames (ring_bytes (tc_ring c1))")
    obtain go c2 o2 where d: "deliver_all env ps c1 = (go, c2, o2)" by (cases "deliver_all env ps c1")
    obtain r' where r': "ring_ok r'" "c' = (if go \<and> \<not> g then tcp_close c2 else c2)\<lparr>tc_ring := r'\<rparr>" "outs = o2"
      using process_read_buffer_spec [OF r1, of env] p s d by (auto simp: read_spec_def)
    have "P (h @ o2) c2" by (rule kept_deliver_all [OF i1 d])
    then show ?thesis unfolding r'(2,3) by (intro kept_ring [OF _ r'(1)]) (auto intro: kept_close)
  qed
qed

end

interpretation inv_kept: kept_by_calls env "\<lambda>h c. tcp_inv (acc @ accepted h) c" for env acc
proof unfold_locales
  show "ring_ok (tc_ring c)" if "tcp_inv (acc @ accepted h) c" for h and c :: "'a tcp" using that by (simp add: tcp_inv_def)
  show "tcp_inv (acc @ accepted (h @ outs)) c'" if "tcp_inv (acc @ accepted h) c" "exec_call env k c = (c', outs)" for h k c c' outs
    using tcp_inv_call [OF that] by simp
qed (simp_all add: tcp_inv_close tcp_inv_other tcp_inv_ring)

lemma tcp_inv_step:
  assumes "tcp_inv acc c" and "tcp_step env c outs c'"
  shows "tcp_inv (acc @ accepted outs) c'"
  using assms(2)
proof cases
  case (step_call k here uv_ok)
  then show ?thesis using tcp_inv_call [OF tcp_inv_on [THEN iffD2, OF assms(1)]] by blast
next
  case (step_write ts uv_ok)
  have "tcp_inv acc (process_write_queue (tcp_on True uv_ok (c\<lparr>tc_posted := ts\<rparr>)))"
    by (rule tcp_inv_process_write)
      (use assms(1) step_write(3) in \<open>auto simp: tcp_inv_def tcp_on_def pending_writes_def written_def split: if_splits\<close>)
  then show ?thesis using step_write(1,2) by simp
next
  case (step_close ts uv_ok)
  then show ?thesis using assms(1) by (auto simp: tcp_inv_def tcp_on_def do_close_def pending_writes_def written_def)
next
  case step_stop
  have "tcp_inv acc (late_stop c) = tcp_inv acc c"
    unfolding tcp_inv_def late_stop_def pending_writes_def written_def by simp
  then show ?thesis using assms(1) step_stop(1,2) by simp
next
  case (step_read d uv_ok)
  then show ?thesis using inv_kept.kept_read [where h = "[]" and acc = acc and env = env] tcp_inv_on assms(1) by (metis accepted_simps(1) append_Nil append_Nil2)
next
  case (step_error uv_ok)
  have "tcp_inv acc ((tcp_on True uv_ok c)\<lparr>tc_reading := False\<rparr>)"
    using assms(1) by (auto simp: tcp_inv_def tcp_on_def pending_writes_def written_def)
  then show ?thesis using tcp_inv_close step_error(1,2) by (simp add: on_read_error_def)
next
  case (step_written status_ok uv_ok)
  define c1 where "c1 = (tcp_on True uv_ok c)\<lparr>tc_inflight := None\<rparr>"
  have p: "tcp_inv acc (process_write_queue c1)"
    by (rule tcp_inv_process_write)
      (use assms(1) step_written(3) in \<open>auto simp: tcp_inv_def tcp_on_def pending_writes_def written_def c1_def split: if_splits\<close>)
  have "tcp_inv acc (tcp_close c1)"
    using assms(1) step_written(3) by (auto simp: tcp_inv_def tcp_on_def pending_writes_def written_def c1_def tcp_close_def
        do_close_def tcp_post_def Let_def split: if_splits)
  then show ?thesis using p step_written(1,2) by (simp add: on_write_done_def c1_def Let_def)
next
  case (step_closed uv_ok)
  have cl: "tc_closing c" "tc_closed c" using assms(1) step_closed(2) by (simp_all add: tcp_inv_def)
  have e: "c' = (tcp_on True uv_ok c)\<lparr>tc_handle := False, tc_uv_closing := False, tc_keep_alive := False\<rparr>" "outs = [OutClosed]"
    using step_closed(4) by (simp_all add: on_close_done_def)
  show ?thesis using assms(1) cl unfolding e by (auto simp: tcp_inv_def tcp_on_def pending_writes_def written_def)
qed

lemma tcp_inv_steps:
  "tcp_steps env c outs c' \<Longrightarrow> tcp_inv acc c \<Longrightarrow> tcp_inv (acc @ accepted outs) c'"
proof (induction rule: tcp_steps.induct)
  case (steps_more c outs c' outs' c'')
  then show ?case using tcp_inv_step [of "acc @ accepted outs" c' env outs' c''] by simp
qed simp

text \<open>C25: buffers leave in the order in which they were accepted. In every state of a connection the
  buffers handed to \<open>uv_write\<close>, followed by the ones still queued, are the accepted ones; the
  byte count is that of the queue; at most one write request is in flight or about to be made, so the
  one preallocated request is never overwritten; and on an open connection a non-empty queue always
  has such a write coming, so no wake-up is lost.\<close>

theorem tcp_writes_in_order:
  assumes "tcp_steps env (set_session_key key (init_from_accepted (tcp_new u))) outs c"
  shows "accepted outs = written c @ tc_queue c \<and> tc_qbytes c = sum_list (map length (tc_queue c)) \<and>
    pending_writes c \<le> 1 \<and> (tc_queue c \<noteq> [] \<and> \<not> tc_closed c \<longrightarrow> pending_writes c = 1)"
  using tcp_inv_steps [OF assms tcp_inv_start] by (auto simp: tcp_inv_def)

section \<open>Back-pressure\<close>

text \<open>The steps of a connection whose operations are all called on the loop's thread: every state a step leaves was left there.\<close>

inductive loop_steps :: "'u tcp_env \<Rightarrow> 'u tcp \<Rightarrow> tcp_out list \<Rightarrow> 'u tcp \<Rightarrow> bool" for env where
  loop_none: "loop_steps env c [] c"
| loop_more: "loop_steps env c outs c' \<Longrightarrow> tcp_step env c' outs' c'' \<Longrightarrow> tc_here c'' \<Longrightarrow> loop_steps env c (outs @ outs') c''"

lemma loop_steps_steps: "loop_steps env c outs c' \<Longrightarrow> tcp_steps env c outs c'"
  by (induction rule: loop_steps.induct) (auto intro: tcp_steps.intros)

definition read_ok :: "'u tcp \<Rightarrow> bool" where
  "read_ok c \<longleftrightarrow> tc_here c \<and> tc_stops c = 0 \<and> tc_posted c = [] \<and> ring_ok (tc_ring c) \<and> (tc_handle c \<and> tc_reading c \<longrightarrow> \<not> tc_paused c) \<and>
     (tc_handle c \<and> \<not> tc_closed c \<longrightarrow> \<not> tc_uv_closing c \<and> tc_reading c = (\<not> tc_paused c))"

lemma exec_call_cases:
  assumes "exec_call env k c = (c', outs)"
  shows "c' = c \<or> c' = tcp_close c \<or> c' = close_after_write c \<or> (\<exists>bs. c' = enqueue_all bs c) \<or> (\<exists>key. c' = set_session_key key c)"
  using assms by (cases k) (auto simp: exec_call_def tcp_send_def tcp_send_batch_def tcp_send_packet_def split: if_splits option.splits)

lemma read_ok_close: "read_ok c \<Longrightarrow> read_ok (tcp_close c)"
  by (auto simp: read_ok_def tcp_close_def do_close_def tcp_post_def Let_def)

lemma read_ok_write:
  assumes "read_ok c"
  shows "read_ok (process_write_queue c)"
proof (cases "\<not> tc_handle c \<or> tc_uv_closing c \<or> tc_queue c = []")
  case True
  have r: "read_ok (c\<lparr>tc_queue := [], tc_writing := False\<rparr>)" "read_ok (tcp_close (c\<lparr>tc_queue := [], tc_writing := False, tc_caw := False\<rparr>))"
    using assms by (simp add: read_ok_def) (rule read_ok_close, use assms in \<open>simp add: read_ok_def\<close>)
  show ?thesis
  proof (cases "\<not> tc_handle c \<or> tc_uv_closing c")
    case True
    then show ?thesis using assms by (simp only: process_write_queue_def if_True)
  next
    case False
    then have "tc_queue c = []" using True by simp
    then show ?thesis using r False by (simp add: process_write_queue_def Let_def)
  qed
next
  case False
  define c1 where "c1 = c\<lparr>tc_queue := drop 64 (tc_queue c), tc_qbytes := tc_qbytes c - sum_list (map length (take 64 (tc_queue c)))\<rparr>"
  define c2 where "c2 = (if tc_paused c1 \<and> tc_qbytes c1 < WRITE_RESUME_THRESHOLD then c1\<lparr>tc_paused := False, tc_reading := True\<rparr> else c1)"
  define c3 where "c3 = c2\<lparr>tc_sent := tc_sent c2 @ [take 64 (tc_queue c)]\<rparr>"
  have "read_ok c3" using assms False by (auto simp: read_ok_def c1_def c2_def c3_def)
  then have "read_ok (c3\<lparr>tc_inflight := b\<rparr>)" "read_ok (tcp_close (c3\<lparr>tc_writing := False\<rparr>))" for b
    by (simp add: read_ok_def) (rule read_ok_close, use \<open>read_ok c3\<close> in \<open>simp add: read_ok_def\<close>)
  moreover have "process_write_queue c = (if tc_uv_ok c3 then c3\<lparr>tc_inflight := Some (take 64 (tc_queue c))\<rparr> else tcp_close (c3\<lparr>tc_writing := False\<rparr>))"
    using False by (auto simp: process_write_queue_def Let_def c1_def c2_def c3_def)
  ultimately show ?thesis by simp
qed

lemma read_ok_trigger: "read_ok c \<Longrightarrow> read_ok (trigger_write c)"
  using read_ok_write [of "c\<lparr>tc_writing := True\<rparr>"] by (auto simp: trigger_write_def tcp_post_def read_ok_def)

lemma read_ok_caw: "read_ok c \<Longrightarrow> read_ok (close_after_write c)"
  using read_ok_trigger [of "c\<lparr>tc_keep_alive := True, tc_closed := True, tc_caw := True\<rparr>"] by (auto simp: close_after_write_def read_ok_def)

lemma read_ok_enqueue: "read_ok c \<Longrightarrow> read_ok (enqueue_all bs c)"
  unfolding enqueue_all_def Let_def by (rule read_ok_trigger) (auto simp: read_ok_def pause_read_def)

lemma read_ok_call:
  assumes "read_ok c" and "exec_call env k c = (c', outs)"
  shows "read_ok c'"
proof -
  have "read_ok (set_session_key key c)" for key using assms(1) by (simp add: read_ok_def set_session_key_def)
  moreover have "c' = c \<or> c' = tcp_close c \<or> c' = close_after_write c \<or> (\<exists>bs. c' = enqueue_all bs c) \<or> (\<exists>key. c' = set_session_key key c)"
    using assms(2) by (rule exec_call_cases)
  ultimately show ?thesis using assms(1) read_ok_close [OF assms(1)] read_ok_caw [OF assms(1)] read_ok_enqueue [OF assms(1)] by blast
qed

interpretation read_kept: kept_by_calls env "\<lambda>h. read_ok" for env
proof unfold_locales
  show "read_ok c'" if "read_ok c" "exec_call env k c = (c', outs)" for k c c' outs by (rule read_ok_call [OF that])
qed (simp_all add: read_ok_close, simp_all add: read_ok_def)

lemma here_frame [simp]: "tc_here (do_close c) = tc_here c" "tc_here (tcp_close c) = tc_here c" "tc_here (pause_read c) = tc_here c"
  by (simp_all add: do_close_def tcp_close_def tcp_post_def pause_read_def Let_def)

lemma here_frame2 [simp]: "tc_here (process_write_queue c) = tc_here c"
  by (simp add: process_write_queue_def Let_def)

lemma here_frame3 [simp]: "tc_here (trigger_write c) = tc_here c" "tc_here (close_after_write c) = tc_here c"
  "tc_here (enqueue_all bs c) = tc_here c"
  by (simp_all add: trigger_write_def close_after_write_def tcp_post_def enqueue_all_def Let_def)

lemma exec_call_here: "exec_call env k c = (c', outs) \<Longrightarrow> tc_here c' = tc_here c"
  by (cases k) (auto simp: exec_call_def tcp_send_def tcp_send_batch_def tcp_send_packet_def set_session_key_def split: if_splits option.splits)

lemma read_ok_step:
  assumes "read_ok c" and "tcp_inv acc c" and "tcp_step env c outs c'" and "tc_here c'"
  shows "read_ok c'"
proof -
  have on: "read_ok (tcp_on True uv_ok c)" for uv_ok using assms(1) by (simp add: read_ok_def tcp_on_def)
  show ?thesis
    using assms(3)
  proof cases
    case (step_call k here uv_ok)
    have "tc_here c' = here" using exec_call_here [OF step_call] by (simp add: tcp_on_def)
    then show ?thesis using step_call read_ok_call [OF on [of uv_ok]] assms(4) by simp
  next
    case (step_write ts uv_ok)
    then show ?thesis using assms(1) by (simp add: read_ok_def)
  next
    case (step_close ts uv_ok)
    then show ?thesis using assms(1) by (simp add: read_ok_def)
  next
    case step_stop
    then show ?thesis using assms(1) by (simp add: read_ok_def)
  next
    case (step_read d uv_ok)
    then show ?thesis using read_kept.kept_read [OF on] by blast
  next
    case (step_error uv_ok)
    then show ?thesis using assms(1) by (auto simp: on_read_error_def read_ok_def tcp_on_def tcp_close_def do_close_def tcp_post_def Let_def)
  next
    case (step_written status_ok uv_ok)
    define d where "d = (tcp_on True uv_ok c)\<lparr>tc_inflight := None\<rparr>"
    have d: "read_ok d" using on [of uv_ok] by (simp add: read_ok_def d_def)
    have "c' = (if status_ok then process_write_queue d else tcp_close d)"
      using step_written(2) by (simp add: on_write_done_def d_def)
    then show ?thesis using read_ok_write [OF d] read_ok_close [OF d] by simp
  next
    case (step_closed uv_ok)
    then show ?thesis using assms(1) by (auto simp: on_close_done_def read_ok_def tcp_on_def)
  qed
qed

lemma loop_steps_read:
  "loop_steps env c outs c' \<Longrightarrow> tcp_inv acc c \<Longrightarrow> read_ok c \<Longrightarrow> read_ok c'"
proof (induction rule: loop_steps.induct)
  case (loop_more c outs c' outs' c'')
  then show ?case using read_ok_step tcp_inv_steps [OF loop_steps_steps [OF loop_more.hyps(1)]] by blast
qed simp

text \<open>C26: Back-pressure, for a connection whose operations are called on the loop's thread (the data callback runs there). The
  flag is set only while at least 8 MB are queued, and on an open connection a write is then in flight whose end will look at the
  flag again. A connection that is open, closing after its writes or closed is never read while the flag is set, and one that is
  open is read whenever it is not set: a drained queue never leaves an open connection that is not read. Sends from other threads
  break the last part, see \<open>late_stop_stalls\<close>; the first part holds for them too (\<open>flag_needs_queue\<close>).\<close>

theorem tcp_backpressure:
  assumes "loop_steps env (set_session_key key (init_from_accepted (tcp_new u))) outs c" and "tc_handle c"
  shows "(tc_paused c \<longrightarrow> 8 * 1024 * 1024 \<le> sum_list (map length (tc_queue c)) \<and> \<not> tc_reading c \<and> (\<not> tc_closed c \<longrightarrow> tc_inflight c \<noteq> None)) \<and>
    (\<not> tc_paused c \<and> \<not> tc_closed c \<longrightarrow> tc_reading c)"
proof -
  have i: "tcp_inv (accepted outs) c" using tcp_inv_steps [OF loop_steps_steps [OF assms(1)] tcp_inv_start] by simp
  have "read_ok (set_session_key key (init_from_accepted (tcp_new u)))"
    using ring_new_ok [of "1024 * 1024"] by (simp add: read_ok_def set_session_key_def init_from_accepted_def start_read_def tcp_new_def)
  then have r: "read_ok c" using loop_steps_read [OF assms(1) tcp_inv_start] by simp
  have q: "8 * 1024 * 1024 \<le> sum_list (map length (tc_queue c))" if "tc_paused c"
    using i that by (simp add: tcp_inv_def WRITE_RESUME_THRESHOLD_def)
  then have "tc_queue c \<noteq> []" if "tc_paused c" using that by force
  then have "tc_inflight c \<noteq> None" if "tc_paused c" "\<not> tc_closed c"
    using i r that by (auto simp: tcp_inv_def read_ok_def pending_writes_def split: if_splits)
  then show ?thesis using q r assms(2) by (auto simp: read_ok_def)
qed

text \<open>Whatever thread sends, the flag is set only while at least 8 MB are queued.\<close>

lemma flag_needs_queue:
  assumes "tcp_steps env (set_session_key key (init_from_accepted (tcp_new u))) outs c" and "tc_paused c"
  shows "8 * 1024 * 1024 \<le> sum_list (map length (tc_queue c))"
  using tcp_inv_steps [OF assms(1) tcp_inv_start] assms(2) by (auto simp: tcp_inv_def WRITE_RESUME_THRESHOLD_def)

section \<open>Closing\<close>

text \<open>The state \<open>CloseAfterWrite\<close> leaves behind, whatever happens next.\<close>

definition leaked :: "'u tcp \<Rightarrow> bool" where
  "leaked c \<longleftrightarrow> tc_handle c \<and> \<not> tc_uv_closing c \<and> tc_keep_alive c \<and> tc_closed c \<and> \<not> tc_closing c \<and>
     TaskClose \<notin> set (tc_posted c)"

lemma leaked_simps: "leaked c \<Longrightarrow> tcp_close c = c" "leaked c \<Longrightarrow> not_writable c" "leaked c \<Longrightarrow> close_after_write c = c"
  by (simp_all add: leaked_def tcp_close_def not_writable_def close_after_write_def)

lemma leaked_on: "leaked c \<Longrightarrow> leaked (tcp_on here uv_ok c)"
  by (simp add: leaked_def tcp_on_def)

lemma leaked_process_write: "leaked c \<Longrightarrow> leaked (process_write_queue c)"
  by (auto simp: leaked_def process_write_queue_def tcp_close_def Let_def)

lemma leaked_ring: "leaked c \<Longrightarrow> leaked (c\<lparr>tc_ring := r\<rparr>)"
  by (simp add: leaked_def)

lemma leaked_call: "leaked c \<Longrightarrow> exec_call env k c = (c', outs) \<Longrightarrow> leaked c' \<and> OutClosed \<notin> set outs \<and> tc_ring c' = tc_ring c"
  by (cases k) (auto simp: exec_call_def tcp_send_def tcp_send_batch_def tcp_send_packet_def leaked_simps
      set_session_key_def leaked_def split: option.splits)

interpretation leaked_kept: kept_by_calls env "\<lambda>h c. leaked c \<and> ring_ok (tc_ring c) \<and> OutClosed \<notin> set h" for env
proof unfold_locales
  show "leaked c' \<and> ring_ok (tc_ring c') \<and> OutClosed \<notin> set (h @ outs)"
    if "leaked c \<and> ring_ok (tc_ring c) \<and> OutClosed \<notin> set h" "exec_call env k c = (c', outs)" for h k c c' outs
    using that leaked_call [OF _ that(2)] by fastforce
qed (auto simp: leaked_simps leaked_ring, simp add: leaked_def)

lemma leaked_step:
  assumes "leaked c" and "tcp_inv acc c" and "tcp_step env c outs c'"
  shows "leaked c' \<and> OutClosed \<notin> set outs"
  using assms(3)
proof cases
  case (step_call k here uv_ok)
  then show ?thesis using leaked_call [OF leaked_on [OF assms(1)]] by blast
next
  case (step_write ts uv_ok)
  have "leaked (tcp_on True uv_ok (c\<lparr>tc_posted := ts\<rparr>))" using assms(1) step_write(3) by (simp add: leaked_def tcp_on_def)
  then show ?thesis using leaked_process_write step_write(1,2) by simp
next
  case (step_close ts uv_ok)
  then show ?thesis using assms(1) by (simp add: leaked_def)
next
  case step_stop
  then show ?thesis using assms(1) by (simp add: leaked_def late_stop_def)
next
  case (step_read d uv_ok)
  have "ring_ok (tc_ring (tcp_on True uv_ok c))" using assms(2) by (simp add: tcp_inv_def tcp_on_def)
  then show ?thesis using leaked_kept.kept_read [OF _ step_read(4), of "[]"] leaked_on [OF assms(1)] by simp
next
  case (step_error uv_ok)
  have "leaked ((tcp_on True uv_ok c)\<lparr>tc_reading := False\<rparr>)" using assms(1) by (simp add: leaked_def tcp_on_def)
  then show ?thesis using step_error(1,2) by (simp add: on_read_error_def leaked_simps)
next
  case (step_written status_ok uv_ok)
  have l: "leaked ((tcp_on True uv_ok c)\<lparr>tc_inflight := None\<rparr>)" using assms(1) by (simp add: leaked_def tcp_on_def)
  then show ?thesis using step_written(1,2) leaked_process_write [OF l] by (simp add: on_write_done_def leaked_simps Let_def)
next
  case (step_closed uv_ok)
  then show ?thesis using assms(1) by (simp add: leaked_def)
qed

lemma leaked_steps:
  "tcp_steps env c outs c' \<Longrightarrow> tcp_inv acc c \<Longrightarrow> leaked c \<Longrightarrow> leaked c' \<and> OutClosed \<notin> set outs"
proof (induction rule: tcp_steps.induct)
  case (steps_more c outs c' outs' c'')
  then have "leaked c' \<and> OutClosed \<notin> set outs" by blast
  then show ?case using leaked_step [OF _ tcp_inv_steps [OF steps_more.hyps(1) steps_more.prems(1)] steps_more.hyps(2)] by auto
qed simp

text \<open>\<open>CloseAfterWrite\<close> on an open connection never closes it. It marks the connection closed before the
  queue is drained, and the \<open>Close\<close> that \<open>ProcessWriteQueue\<close>, a read error or the application call
  afterwards returns at once because of that mark: whatever happens, the handle stays open, the
  object keeps itself alive and the close callback is never called.\<close>

theorem close_after_write_leaks:
  assumes "tcp_steps env (set_session_key key (init_from_accepted (tcp_new u))) outs c"
    and "tc_handle c" and "\<not> tc_closed c" and "\<not> tc_caw c"
    and "tcp_steps env (close_after_write c) outs' c'"
  shows "tc_handle c' \<and> \<not> tc_uv_closing c' \<and> tc_keep_alive c' \<and> OutClosed \<notin> set outs'"
proof -
  have i: "tcp_inv ([] @ accepted outs) c" by (rule tcp_inv_steps [OF assms(1) tcp_inv_start])
  then have "\<not> tc_closing c" using assms(3) by (auto simp: tcp_inv_def)
  then have "leaked (c\<lparr>tc_keep_alive := True, tc_closed := True, tc_caw := True, tc_writing := w, tc_posted := tc_posted c @ ts\<rparr>)"
    if "TaskClose \<notin> set ts" for w ts
    using i assms(2,3) that by (auto simp: tcp_inv_def leaked_def)
  from this [of "[]"] this [of "[TaskWrite]"] have "leaked (close_after_write c)"
    using leaked_process_write [of "c\<lparr>tc_keep_alive := True, tc_closed := True, tc_caw := True, tc_writing := True\<rparr>"] \<open>\<not> tc_closing c\<close> assms(2-4)
    by (simp add: close_after_write_def trigger_write_def tcp_post_def leaked_def)
  then show ?thesis using leaked_steps [OF assms(5) tcp_inv_caw [OF i]] by (simp add: leaked_def)
qed

text \<open>A connection that has accepted two buffers from another thread and has written both.\<close>

definition demo_conn :: "unit tcp" where
  "demo_conn = set_session_key [] (init_from_accepted (tcp_new ()))"

lemmas demo_conn_defs = demo_conn_def set_session_key_def init_from_accepted_def start_read_def tcp_new_def

definition demo_conn_written :: "unit tcp" where
  "demo_conn_written = demo_conn\<lparr>tc_writing := True, tc_inflight := Some [[1], [2]], tc_sent := [[[1], [2]]]\<rparr>"

lemma demo_conn_batch:
  "exec_call demo_tcp_env (CallSendBatch [[1], [2]]) (tcp_on False True demo_conn) =
     (demo_conn\<lparr>tc_queue := [[1], [2]], tc_qbytes := 2, tc_writing := True, tc_posted := [TaskWrite], tc_here := False\<rparr>, [OutAccept [[1], [2]]])"
  by (simp add: exec_call_def tcp_send_batch_def not_writable_def demo_conn_defs tcp_on_def enqueue_all_def trigger_write_def
      tcp_post_def MAX_WRITE_QUEUE_BYTES_def)

lemma demo_conn_run: "tcp_steps demo_tcp_env demo_conn [OutAccept [[1], [2]]] demo_conn_written"
proof -
  define c where "c = demo_conn\<lparr>tc_queue := [[1], [2]], tc_qbytes := 2, tc_writing := True, tc_posted := [TaskWrite], tc_here := False\<rparr>"
  have s: "tcp_steps demo_tcp_env demo_conn [OutAccept [[1], [2]]] c"
    using steps_more [OF steps_none step_call [OF demo_conn_batch]] by (simp add: c_def)
  have "tc_posted c = [TaskWrite]" by (simp add: c_def)
  moreover have "process_write_queue (tcp_on True True (c\<lparr>tc_posted := []\<rparr>)) = demo_conn_written"
    by (simp add: process_write_queue_def demo_conn_defs demo_conn_written_def c_def tcp_on_def Let_def)
  ultimately have "tcp_step demo_tcp_env c [] demo_conn_written" by (metis step_write)
  from steps_more [OF s this] show ?thesis by simp
qed

lemma tcp_writes_in_order_witness:
  "accepted [OutAccept [[1], [2]]] = written demo_conn_written @ tc_queue demo_conn_written"
  using tcp_writes_in_order [OF demo_conn_run [unfolded demo_conn_def]] by simp

text \<open>A connection on whose own thread a buffer of a byte and one of more than 16 MB are sent, and the first is written.\<close>

definition demo_big :: bytes where "demo_big = replicate (17 * 1024 * 1024) 0"

definition demo_sending :: "bool \<Rightarrow> unit tcp" where
  "demo_sending here = demo_conn\<lparr>tc_writing := True, tc_inflight := Some [[1]], tc_sent := [[[1]]], tc_here := here\<rparr>"

lemma demo_sending_step: "tcp_step demo_tcp_env demo_conn [OutAccept [[1]]] (demo_sending True)"
proof (rule step_call)
  show "exec_call demo_tcp_env (CallSend [1]) (tcp_on True True demo_conn) = (demo_sending True, [OutAccept [[1]]])"
    by (simp add: exec_call_def tcp_send_def not_writable_def demo_conn_defs tcp_on_def enqueue_all_def trigger_write_def tcp_post_def
        MAX_WRITE_QUEUE_BYTES_def process_write_queue_def demo_sending_def Let_def)
qed

lemma demo_big_length: "length demo_big = 17 * 1024 * 1024" by (simp add: demo_big_def)

lemma demo_big_call: "exec_call demo_tcp_env (CallSend demo_big) (tcp_on here True (demo_sending True)) =
  ((demo_sending here)\<lparr>tc_queue := [demo_big], tc_qbytes := 17 * 1024 * 1024, tc_paused := True, tc_reading := \<not> here,
      tc_stops := (if here then 0 else 1)\<rparr>, [OutAccept [demo_big]])"
  by (simp add: exec_call_def tcp_send_def not_writable_def demo_conn_defs tcp_on_def enqueue_all_def trigger_write_def pause_read_def
      MAX_WRITE_QUEUE_BYTES_def demo_sending_def demo_big_length)

lemma tcp_backpressure_witness:
  "\<exists>outs c. loop_steps demo_tcp_env demo_conn outs c \<and> tc_paused c \<and> \<not> tc_reading c \<and> tc_inflight c \<noteq> None"
proof -
  define c where "c = (demo_sending True)\<lparr>tc_queue := [demo_big], tc_qbytes := 17 * 1024 * 1024, tc_paused := True, tc_reading := False\<rparr>"
  have h: "tc_handle c" "\<not> tc_closed c" "tc_paused c" "tc_here c" "tc_here (demo_sending True)"
    by (simp_all add: c_def demo_sending_def demo_conn_defs)
  have "tcp_step demo_tcp_env (demo_sending True) [OutAccept [demo_big]] c"
    by (rule step_call [where here = True]) (use demo_big_call [of True] in \<open>simp add: c_def demo_sending_def demo_conn_defs\<close>)
  from loop_more [OF loop_more [OF loop_none demo_sending_step h(5)] this h(4)]
  have s: "loop_steps demo_tcp_env demo_conn [OutAccept [[1]], OutAccept [demo_big]] c" by simp
  show ?thesis using tcp_backpressure [OF s [unfolded demo_conn_def] h(1)] s h(2,3) by blast
qed

text \<open>The race. Another thread's send sets the flag; before it calls \<open>uv_read_stop\<close> the loop writes the queue out, takes the flag
  back and starts reading; then the call comes. The connection is open, has nothing to write and nothing posted, the flag is not set,
  and it is not read: nothing but a further public operation can happen to it.\<close>

lemma late_stop_stalls:
  "\<exists>outs c. tcp_steps demo_tcp_env demo_conn outs c \<and> tc_handle c \<and> \<not> tc_closed c \<and> \<not> tc_reading c \<and> \<not> tc_paused c \<and>
     tc_queue c = [] \<and> (\<forall>outs' c'. tcp_step demo_tcp_env c outs' c' \<longrightarrow>
       (\<exists>k here uv_ok. exec_call demo_tcp_env k (tcp_on here uv_ok c) = (c', outs')))"
proof -
  define c2 where "c2 = (demo_sending False)\<lparr>tc_queue := [demo_big], tc_qbytes := 17 * 1024 * 1024, tc_paused := True, tc_stops := 1\<rparr>"
  define c3 where "c3 = (demo_sending True)\<lparr>tc_sent := [[[1]], [demo_big]], tc_inflight := Some [demo_big], tc_stops := 1\<rparr>"
  define c4 where "c4 = c3\<lparr>tc_stops := 0, tc_reading := False\<rparr>"
  define c5 where "c5 = c4\<lparr>tc_inflight := None, tc_writing := False\<rparr>"
  have e2: "exec_call demo_tcp_env (CallSend demo_big) (tcp_on False True (demo_sending True)) = (c2, [OutAccept [demo_big]])"
    using demo_big_call [of False] by (simp add: c2_def demo_sending_def demo_conn_defs)
  have e3: "on_write_done True (tcp_on True True c2) = c3"
    by (simp add: on_write_done_def process_write_queue_def tcp_on_def c2_def c3_def demo_sending_def demo_conn_defs demo_big_length
        WRITE_RESUME_THRESHOLD_def Let_def)
  have e4: "late_stop c3 = c4" by (simp add: late_stop_def c4_def c3_def demo_sending_def demo_conn_defs)
  have e5: "on_write_done True (tcp_on True True c4) = c5"
    by (simp add: on_write_done_def process_write_queue_def tcp_on_def c5_def c4_def c3_def demo_sending_def demo_conn_defs Let_def)
  have s2: "tcp_steps demo_tcp_env demo_conn [OutAccept [[1]], OutAccept [demo_big]] c2"
    using steps_more [OF steps_more [OF steps_none demo_sending_step] step_call [OF e2]] by simp
  have s3: "tcp_step demo_tcp_env c2 [] c3"
    unfolding e3 [symmetric] by (rule step_written) (simp add: c2_def demo_sending_def)
  have s4: "tcp_step demo_tcp_env c3 [] c4" unfolding e4 [symmetric] by (rule step_stop) (simp add: c3_def)
  have s5: "tcp_step demo_tcp_env c4 [] c5"
    unfolding e5 [symmetric] by (rule step_written) (simp add: c4_def c3_def)
  have run: "tcp_steps demo_tcp_env demo_conn [OutAccept [[1]], OutAccept [demo_big]] c5"
    using steps_more [OF steps_more [OF steps_more [OF s2 s3] s4] s5] by simp
  have f: "tc_handle c5" "\<not> tc_closed c5" "\<not> tc_reading c5" "\<not> tc_paused c5" "tc_queue c5 = []" "tc_posted c5 = []" "tc_stops c5 = 0"
    "tc_inflight c5 = None" "\<not> tc_uv_closing c5"
    by (simp_all add: c5_def c4_def c3_def demo_sending_def demo_conn_defs)
  have "\<exists>k here uv_ok. exec_call demo_tcp_env k (tcp_on here uv_ok c5) = (c', outs')" if "tcp_step demo_tcp_env c5 outs' c'" for outs' c'
    using that by cases (use f in auto)
  then show ?thesis using run f by blast
qed

lemma close_after_write_leaks_witness:
  "\<exists>c'. tcp_steps demo_tcp_env (close_after_write demo_conn) [] c' \<and> tc_posted c' = [] \<and> tc_closed c' \<and> tc_handle c' \<and>
     \<not> tc_uv_closing c' \<and> tc_keep_alive c'"
proof -
  have "tc_handle demo_conn" "\<not> tc_closed demo_conn" "\<not> tc_caw demo_conn" by (simp_all add: demo_conn_defs)
  from close_after_write_leaks [OF steps_none [of demo_tcp_env demo_conn, unfolded demo_conn_def], folded demo_conn_def, OF this steps_none [of demo_tcp_env]]
  show ?thesis using steps_none [of demo_tcp_env "close_after_write demo_conn"]
    by (intro exI [of _ "close_after_write demo_conn"])
      (simp add: close_after_write_def trigger_write_def tcp_post_def process_write_queue_def tcp_close_def demo_conn_defs)
qed

end
