(* ===== verification/GM_Sha1.thy ===== *)
theory GM_Sha1
  imports GM_RingBuffer GM_Packet
begin

text \<open>
  SHA-1 as the WebSocket handshake computes it (\<open>net/async/ws_frame.cpp\<close>, lines 11 to 123): the 80
  unrolled rounds on five registers whose names rotate from call to call, the message words kept in a
  window of 16, the context with its partly filled block. The last part proves it equal to the standard
  (FIPS 180-4) written with its own words: padding, a schedule of 80 words, the round function.
\<close>

section \<open>The rounds\<close>

record sha1_ctx =
  sc_state :: "u32 list"
  sc_count :: u64
  sc_buffer :: bytes

definition rol :: "u32 \<Rightarrow> nat \<Rightarrow> u32" where
  "rol v n = push_bit n v OR drop_bit (32 - n) v"

definition blk :: "nat \<Rightarrow> u32 list \<Rightarrow> u32 \<times> u32 list" where
  "blk i b =
     (let v = rol (b ! ((i + 13) mod 16) XOR b ! ((i + 8) mod 16) XOR b ! ((i + 2) mod 16) XOR b ! (i mod 16)) 1
      in (v, b[i mod 16 := v]))"

text \<open>The five macros and one use of one of them: registers are numbered \<open>a\<close> = 0, \<open>b0\<close> = 1 up to \<open>b3\<close> = 4.\<close>

datatype sha1_macro = SR0 | SR1 | SR2 | SR3 | SR4

type_synonym sha1_call = "sha1_macro \<times> nat \<times> nat \<times> nat \<times> nat \<times> nat \<times> nat"

definition sha1_mix :: "sha1_macro \<Rightarrow> u32 \<Rightarrow> u32 \<Rightarrow> u32 \<Rightarrow> u32" where
  "sha1_mix m w x y = (case m of
      SR0 \<Rightarrow> (w AND (x XOR y)) XOR y
    | SR1 \<Rightarrow> (w AND (x XOR y)) XOR y
    | SR2 \<Rightarrow> w XOR x XOR y
    | SR3 \<Rightarrow> ((w OR x) AND y) OR (w AND x)
    | SR4 \<Rightarrow> w XOR x XOR y)"

definition sha1_const :: "sha1_macro \<Rightarrow> u32" where
  "sha1_const m = (case m of SR0 \<Rightarrow> 0x5A827999 | SR1 \<Rightarrow> 0x5A827999 | SR2 \<Rightarrow> 0x6ED9EBA1 | SR3 \<Rightarrow> 0x8F1BBCDC
    | SR4 \<Rightarrow> 0xCA62C1D6)"

fun sha1_round :: "sha1_call \<Rightarrow> u32 list \<times> u32 list \<Rightarrow> u32 list \<times> u32 list" where
  "sha1_round (m, v, w, x, y, z, i) (r, b) =
     (let (t, b') = (if m = SR0 then (b ! i, b) else blk i b);
          r1 = r[z := r ! z + (sha1_mix m (r ! w) (r ! x) (r ! y) + t + sha1_const m + rol (r ! v) 5)]
      in (r1[w := rol (r1 ! w) 30], b'))"

definition sha1_calls :: "sha1_call list" where
  "sha1_calls = [
    (SR0, 0, 1, 2, 3, 4, 0), (SR0, 4, 0, 1, 2, 3, 1), (SR0, 3, 4, 0, 1, 2, 2), (SR0, 2, 3, 4, 0, 1, 3),
    (SR0, 1, 2, 3, 4, 0, 4), (SR0, 0, 1, 2, 3, 4, 5), (SR0, 4, 0, 1, 2, 3, 6), (SR0, 3, 4, 0, 1, 2, 7),
    (SR0, 2, 3, 4, 0, 1, 8), (SR0, 1, 2, 3, 4, 0, 9), (SR0, 0, 1, 2, 3, 4, 10), (SR0, 4, 0, 1, 2, 3, 11),
    (SR0, 3, 4, 0, 1, 2, 12), (SR0, 2, 3, 4, 0, 1, 13), (SR0, 1, 2, 3, 4, 0, 14), (SR0, 0, 1, 2, 3, 4, 15),
    (SR1, 4, 0, 1, 2, 3, 16), (SR1, 3, 4, 0, 1, 2, 17), (SR1, 2, 3, 4, 0, 1, 18), (SR1, 1, 2, 3, 4, 0, 19),
    (SR2, 0, 1, 2, 3, 4, 20), (SR2, 4, 0, 1, 2, 3, 21), (SR2, 3, 4, 0, 1, 2, 22), (SR2, 2, 3, 4, 0, 1, 23),
    (SR2, 1, 2, 3, 4, 0, 24), (SR2, 0, 1, 2, 3, 4, 25), (SR2, 4, 0, 1, 2, 3, 26), (SR2, 3, 4, 0, 1, 2, 27),
    (SR2, 2, 3, 4, 0, 1, 28), (SR2, 1, 2, 3, 4, 0, 29), (SR2, 0, 1, 2, 3, 4, 30), (SR2, 4, 0, 1, 2, 3, 31),
    (SR2, 3, 4, 0, 1, 2, 32), (SR2, 2, 3, 4, 0, 1, 33), (SR2, 1, 2, 3, 4, 0, 34), (SR2, 0, 1, 2, 3, 4, 35),
    (SR2, 4, 0, 1, 2, 3, 36), (SR2, 3, 4, 0, 1, 2, 37), (SR2, 2, 3, 4, 0, 1, 38), (SR2, 1, 2, 3, 4, 0, 39),
    (SR3, 0, 1, 2, 3, 4, 40), (SR3, 4, 0, 1, 2, 3, 41), (SR3, 3, 4, 0, 1, 2, 42), (SR3, 2, 3, 4, 0, 1, 43),
    (SR3, 1, 2, 3, 4, 0, 44), (SR3, 0, 1, 2, 3, 4, 45), (SR3, 4, 0, 1, 2, 3, 46), (SR3, 3, 4, 0, 1, 2, 47),
    (SR3, 2, 3, 4, 0, 1, 48), (SR3, 1, 2, 3, 4, 0, 49), (SR3, 0, 1, 2, 3, 4, 50), (SR3, 4, 0, 1, 2, 3, 51),
    (SR3, 3, 4, 0, 1, 2, 52), (SR3, 2, 3, 4, 0, 1, 53), (SR3, 1, 2, 3, 4, 0, 54), (SR3, 0, 1, 2, 3, 4, 55),
    (SR3, 4, 0, 1, 2, 3, 56), (SR3, 3, 4, 0, 1, 2, 57), (SR3, 2, 3, 4, 0, 1, 58), (SR3, 1, 2, 3, 4, 0, 59),
    (SR4, 0, 1, 2, 3, 4, 60), (SR4, 4, 0, 1, 2, 3, 61), (SR4, 3, 4, 0, 1, 2, 62), (SR4, 2, 3, 4, 0, 1, 63),
    (SR4, 1, 2, 3, 4, 0, 64), (SR4, 0, 1, 2, 3, 4, 65), (SR4, 4, 0, 1, 2, 3, 66), (SR4, 3, 4, 0, 1, 2, 67),
    (SR4, 2, 3, 4, 0, 1, 68), (SR4, 1, 2, 3, 4, 0, 69), (SR4, 0, 1, 2, 3, 4, 70), (SR4, 4, 0, 1, 2, 3, 71),
    (SR4, 3, 4, 0, 1, 2, 72), (SR4, 2, 3, 4, 0, 1, 73), (SR4, 1, 2, 3, 4, 0, 74), (SR4, 0, 1, 2, 3, 4, 75),
    (SR4, 4, 0, 1, 2, 3, 76), (SR4, 3, 4, 0, 1, 2, 77), (SR4, 2, 3, 4, 0, 1, 78), (SR4, 1, 2, 3, 4, 0, 79)]"

definition sha1_transform :: "u32 list \<Rightarrow> bytes \<Rightarrow> u32 list" where
  "sha1_transform st buf =
     (let b = map (\<lambda>i. push_bit 24 (ucast (buf ! (i * 4))) OR push_bit 16 (ucast (buf ! (i * 4 + 1))) OR
                push_bit 8 (ucast (buf ! (i * 4 + 2))) OR ucast (buf ! (i * 4 + 3))) [0..<16];
          (r, b') = fold sha1_round sha1_calls (st, b)
      in map2 (+) st r)"

section \<open>The context\<close>

text \<open>The block of a new context is not initialised: its content is an argument.\<close>

definition sha1_init :: "bytes \<Rightarrow> sha1_ctx" where
  "sha1_init junk = \<lparr>sc_state = [0x67452301, 0xEFCDAB89, 0x98BADCFE, 0x10325476, 0xC3D2E1F0], sc_count = 0,
     sc_buffer = junk\<rparr>"

function sha1_blocks :: "bytes \<Rightarrow> nat \<Rightarrow> u32 list \<Rightarrow> u32 list \<times> nat" where
  "sha1_blocks d i st =
     (if i + 63 < length d then sha1_blocks d (i + 64) (sha1_transform st (take 64 (drop i d))) else (st, i))"
  by pat_completeness auto
termination by (relation "measure (\<lambda>(d, i, st). length d - i)") auto

declare sha1_blocks.simps [simp del]

definition sha1_update :: "sha1_ctx \<Rightarrow> bytes \<Rightarrow> sha1_ctx" where
  "sha1_update ctx d =
     (let len = length d;
          j = unat (drop_bit 3 (sc_count ctx) AND 63);
          count = sc_count ctx + push_bit 3 (of_nat len)
      in if j + len > 63
         then let i = 64 - j;
                  buf = blit (sc_buffer ctx) j (take i d);
                  (st, i') = sha1_blocks d i (sha1_transform (sc_state ctx) buf)
              in \<lparr>sc_state = st, sc_count = count, sc_buffer = blit buf 0 (drop i' d)\<rparr>
         else \<lparr>sc_state = sc_state ctx, sc_count = count, sc_buffer = blit (sc_buffer ctx) j d\<rparr>)"

definition sha1_final :: "sha1_ctx \<Rightarrow> bytes" where
  "sha1_final ctx =
     (let finalcount = sc_count ctx;
          i = unat (drop_bit 3 finalcount AND 63);
          buf = (sc_buffer ctx)[i := 0x80];
          i1 = i + 1;
          (st, buf1, i2) =
            (if i1 > 56
             then let b = blit buf i1 (replicate (64 - i1) 0) in (sha1_transform (sc_state ctx) b, b, 0)
             else (sc_state ctx, buf, i1));
          buf2 = blit buf1 i2 (replicate (56 - i2) 0);
          buf3 = blit buf2 56 (map (\<lambda>k. ucast (drop_bit ((7 - k) * 8) finalcount AND 0xFF)) [0..<8]);
          st1 = sha1_transform st buf3
      in map (\<lambda>k. ucast (drop_bit ((3 - k mod 4) * 8) (st1 ! (k div 4)) AND 0xFF)) [0..<20])"

definition sha1_raw :: "bytes \<Rightarrow> bytes \<Rightarrow> bytes" where
  "sha1_raw junk d = sha1_final (sha1_update (sha1_init junk) d)"

section \<open>The standard\<close>

definition fips_f :: "nat \<Rightarrow> u32 \<Rightarrow> u32 \<Rightarrow> u32 \<Rightarrow> u32" where
  "fips_f t x y z =
     (if t < 20 then (x AND y) XOR (NOT x AND z)
      else if t < 40 then x XOR y XOR z
      else if t < 60 then (x AND y) XOR (x AND z) XOR (y AND z)
      else x XOR y XOR z)"

definition fips_k :: "nat \<Rightarrow> u32" where
  "fips_k t = (if t < 20 then 0x5A827999 else if t < 40 then 0x6ED9EBA1 else if t < 60 then 0x8F1BBCDC else 0xCA62C1D6)"

function fips_w :: "bytes \<Rightarrow> nat \<Rightarrow> u32" where
  "fips_w m t =
     (if t < 16 then be_get (take 4 (drop (4 * t) m))
      else word_rotl 1 (fips_w m (t - 3) XOR fips_w m (t - 8) XOR fips_w m (t - 14) XOR fips_w m (t - 16)))"
  by pat_completeness auto
termination by (relation "measure snd") auto

declare fips_w.simps [simp del]

fun fips_vars :: "bytes \<Rightarrow> u32 list \<Rightarrow> nat \<Rightarrow> u32 list" where
  "fips_vars m h 0 = h"
| "fips_vars m h (Suc t) =
     (let v = fips_vars m h t
      in [word_rotl 5 (v ! 0) + fips_f t (v ! 1) (v ! 2) (v ! 3) + v ! 4 + fips_k t + fips_w m t,
          v ! 0, word_rotl 30 (v ! 1), v ! 2, v ! 3])"

definition fips_block :: "u32 list \<Rightarrow> bytes \<Rightarrow> u32 list" where
  "fips_block h m = map2 (+) h (fips_vars m h 80)"

function fips_hash :: "u32 list \<Rightarrow> bytes \<Rightarrow> u32 list" where
  "fips_hash h m = (if length m < 64 then h else fips_hash (fips_block h (take 64 m)) (drop 64 m))"
  by pat_completeness auto
termination by (relation "measure (\<lambda>(h, m). length m)") auto

declare fips_hash.simps [simp del]

definition fips_pad :: "bytes \<Rightarrow> bytes" where
  "fips_pad m = m @ [0x80] @ replicate ((119 - length m mod 64) mod 64) 0 @ be_put 8 (of_nat (8 * length m) :: u64)"

definition sha1_standard :: "bytes \<Rightarrow> bytes" where
  "sha1_standard m =
     concat (map (be_put 4) (fips_hash [0x67452301, 0xEFCDAB89, 0x98BADCFE, 0x10325476, 0xC3D2E1F0] (fips_pad m)))"

section \<open>One block\<close>

lemma rol_rotl: "0 < n \<Longrightarrow> n < 32 \<Longrightarrow> rol v n = word_rotl n v"
proof (rule bit_word_eqI)
  fix k assume n: "0 < n" "n < 32" and "k < LENGTH(32)"
  then have k: "k < 32" by simp
  have h: "\<not> bit v j" if "32 \<le> j" for j using that bit_imp_le_length [of v j] by auto
  have l: "bit (rol v n) k \<longleftrightarrow> (n \<le> k \<and> bit v (k - n)) \<or> bit v (32 - n + k)"
    using k by (simp add: rol_def bit_simps)
  have r: "bit (word_rotl n v) k \<longleftrightarrow> bit v ((k + (32 - n)) mod 32)"
    using n k by (simp add: bit_word_rotl_iff)
  show "bit (rol v n) k \<longleftrightarrow> bit (word_rotl n v) k"
  proof (cases "n \<le> k")
    case True
    have "(k + (32 - n)) mod 32 = k - n" "32 \<le> 32 - n + k" using True n k by (simp_all add: mod_if)
    then show ?thesis unfolding l r using True h by simp
  next
    case False
    have "(k + (32 - n)) mod 32 = k + (32 - n)" by (rule mod_less) (use False n in linarith)
    then have "(k + (32 - n)) mod 32 = 32 - n + k" by (simp only: add.commute)
    then show ?thesis unfolding l r using False by simp
  qed
qed

lemma sha1_mix_fips:
  "sha1_mix SR0 x y z = (x AND y) XOR (NOT x AND z)" "sha1_mix SR1 x y z = (x AND y) XOR (NOT x AND z)"
  "sha1_mix SR2 x y z = x XOR y XOR z" "sha1_mix SR4 x y z = x XOR y XOR z"
  "sha1_mix SR3 x y z = (x AND y) XOR (x AND z) XOR (y AND z)"
  by (auto simp: sha1_mix_def xor.assoc intro!: bit_word_eqI simp: bit_simps)

definition macro_at :: "nat \<Rightarrow> sha1_macro" where
  "macro_at t = (if t < 16 then SR0 else if t < 20 then SR1 else if t < 40 then SR2 else if t < 60 then SR3 else SR4)"

definition call_at :: "nat \<Rightarrow> sha1_call" where
  "call_at t = (macro_at t, 4 * t mod 5, (1 + 4 * t) mod 5, (2 + 4 * t) mod 5, (3 + 4 * t) mod 5, (4 + 4 * t) mod 5, t)"

lemma sha1_calls_at: "sha1_calls = map call_at [0..<80]"
  by (simp add: sha1_calls_def upt_rec call_at_def macro_at_def)

lemma sha1_mix_at: "sha1_mix (macro_at t) x y z = fips_f t x y z"
  by (simp add: macro_at_def fips_f_def sha1_mix_fips)

lemma sha1_const_at: "sha1_const (macro_at t) = fips_k t"
  by (simp add: macro_at_def fips_k_def sha1_const_def)

lemma mod_neq: "x < y \<Longrightarrow> y < x + n \<Longrightarrow> x mod n \<noteq> y mod (n :: nat)"
proof
  assume a: "x < y" "y < x + n" "x mod n = y mod n"
  then have "n dvd y - x" by (metis less_imp_le mod_eq_dvd_iff_nat)
  then show False using a nat_dvd_not_less [of "y - x" n] by simp
qed

text \<open>The registers after \<open>t\<close> rounds are those of the standard, rotated by \<open>t\<close>; the window holds the
  last 16 words of the schedule (at the start, the first 16).\<close>

definition regs_ok :: "bytes \<Rightarrow> u32 list \<Rightarrow> nat \<Rightarrow> u32 list \<Rightarrow> bool" where
  "regs_ok m h t r \<longleftrightarrow> length r = 5 \<and> (\<forall>k < 5. r ! ((k + 4 * t) mod 5) = fips_vars m h t ! k)"

definition window_ok :: "bytes \<Rightarrow> nat \<Rightarrow> u32 list \<Rightarrow> bool" where
  "window_ok m t b \<longleftrightarrow> length b = 16 \<and> (\<forall>s. s < max 16 t \<longrightarrow> max 16 t \<le> s + 16 \<longrightarrow> b ! (s mod 16) = fips_w m s)"

lemma window_blk:
  assumes "window_ok m t b" and "16 \<le> t"
  shows "fst (blk t b) = fips_w m t \<and> window_ok m (Suc t) (snd (blk t b))"
proof -
  have g: "b ! (s mod 16) = fips_w m s" if "s < t" "t \<le> s + 16" for s
    using assms that by (auto simp: window_ok_def)
  have i: "(t + 13) mod 16 = (t - 3) mod 16" "(t + 8) mod 16 = (t - 8) mod 16" "(t + 2) mod 16 = (t - 14) mod 16"
    "t mod 16 = (t - 16) mod 16"
  proof -
    have e: "t + 13 = (t - 3) + 16" "t + 8 = (t - 8) + 16" "t + 2 = (t - 14) + 16" using assms(2) by simp_all
    show "(t + 13) mod 16 = (t - 3) mod 16" "(t + 8) mod 16 = (t - 8) mod 16" "(t + 2) mod 16 = (t - 14) mod 16"
      unfolding e by (simp_all only: mod_add_self2)
    show "t mod 16 = (t - 16) mod 16" by (rule le_mod_geq [OF assms(2)])
  qed
  have v: "rol (b ! ((t + 13) mod 16) XOR b ! ((t + 8) mod 16) XOR b ! ((t + 2) mod 16) XOR b ! (t mod 16)) 1 = fips_w m t"
    unfolding i using assms(2) g [of "t - 3"] g [of "t - 8"] g [of "t - 14"] g [of "t - 16"]
    by (subst fips_w.simps) (simp add: rol_rotl)
  have "window_ok m (Suc t) (b[t mod 16 := fips_w m t])"
    unfolding window_ok_def
  proof (intro conjI allI impI)
    show "length (b[t mod 16 := fips_w m t]) = 16" using assms(1) by (simp add: window_ok_def)
    fix s assume s: "s < max 16 (Suc t)" "max 16 (Suc t) \<le> s + 16"
    show "b[t mod 16 := fips_w m t] ! (s mod 16) = fips_w m s"
    proof (cases "s = t")
      case True
      then show ?thesis using assms(1) by (simp add: window_ok_def)
    next
      case False
      then have "s < t" "t \<le> s + 16" using s assms(2) by auto
      moreover from this have "s mod 16 \<noteq> t mod 16" using s assms(2) by (intro mod_neq) auto
      ultimately show ?thesis using g by simp
    qed
  qed
  then show ?thesis using v by (simp add: blk_def Let_def)
qed

lemma window_word:
  assumes "window_ok m t b" and "(w, b') = (if macro_at t = SR0 then (b ! t, b) else blk t b)"
  shows "w = fips_w m t \<and> window_ok m (Suc t) b'"
proof (cases "t < 16")
  case True
  then have e: "w = b ! t" "b' = b" using assms(2) by (simp_all add: macro_at_def)
  have "b ! (t mod 16) = fips_w m t" using assms(1) True by (simp add: window_ok_def)
  moreover have "window_ok m (Suc t) b" using assms(1) True by (simp add: window_ok_def max_def split: if_splits)
  ultimately show ?thesis using e True by simp
next
  case False
  then have "(w, b') = blk t b" using assms(2) by (simp add: macro_at_def split: if_splits)
  then show ?thesis using window_blk [OF assms(1)] False by (metis fst_conv not_less snd_conv)
qed

lemma regs_round:
  assumes "regs_ok m h t r" and "window_ok m t b" and "sha1_round (call_at t) (r, b) = (r', b')"
  shows "regs_ok m h (Suc t) r' \<and> window_ok m (Suc t) b'"
proof -
  obtain w b1 where wb: "(w, b1) = (if macro_at t = SR0 then (b ! t, b) else blk t b)"
    by (cases "if macro_at t = SR0 then (b ! t, b) else blk t b") simp
  have w: "w = fips_w m t" "window_ok m (Suc t) b1" using window_word [OF assms(2) wb] by auto
  define v where "v = fips_vars m h t"
  have len: "length r = 5" using assms(1) by (simp add: regs_ok_def)
  have g: "r ! ((k + 4 * t) mod 5) = v ! k" if "k < 5" for k
    using assms(1) that by (simp add: regs_ok_def v_def)
  have g5: "r ! (4 * t mod 5) = v ! 0" "r ! ((1 + 4 * t) mod 5) = v ! 1" "r ! ((2 + 4 * t) mod 5) = v ! 2"
    "r ! ((3 + 4 * t) mod 5) = v ! 3" "r ! ((4 + 4 * t) mod 5) = v ! 4"
    using g [of 0] g [of 1] g [of 2] g [of 3] g [of 4] by simp_all
  define T where "T = word_rotl 5 (v ! 0) + fips_f t (v ! 1) (v ! 2) (v ! 3) + v ! 4 + fips_k t + fips_w m t"
  have ne: "(1 + 4 * t) mod 5 \<noteq> (4 + 4 * t) mod 5" by (rule mod_neq) simp_all
  define i0 i1 i2 i3 i4 where i: "i0 = 4 * t mod 5" "i1 = (1 + 4 * t) mod 5" "i2 = (2 + 4 * t) mod 5"
    "i3 = (3 + 4 * t) mod 5" "i4 = (4 + 4 * t) mod 5"
  have call: "call_at t = (macro_at t, i0, i1, i2, i3, i4, t)" unfolding call_at_def i ..
  have "sha1_round (call_at t) (r, b) =
      (let r1 = r[i4 := r ! i4 + (sha1_mix (macro_at t) (r ! i1) (r ! i2) (r ! i3) + w + sha1_const (macro_at t) + rol (r ! i0) 5)]
       in (r1[i1 := rol (r1 ! i1) 30], b1))"
    unfolding call sha1_round.simps wb [symmetric] by simp
  then have e: "r' = r[(4 + 4 * t) mod 5 := T, (1 + 4 * t) mod 5 := word_rotl 30 (v ! 1)]" "b' = b1"
    using assms(3) ne g5 [folded i] unfolding i [symmetric]
    by (simp_all add: Let_def sha1_mix_at sha1_const_at w(1) rol_rotl T_def add_ac)
  have step: "fips_vars m h (Suc t) = [T, v ! 0, word_rotl 30 (v ! 1), v ! 2, v ! 3]"
    by (simp add: v_def T_def Let_def)
  have "r' ! ((k + 4 * Suc t) mod 5) = fips_vars m h (Suc t) ! k" if "k < 5" for k
  proof -
    have k: "(k + 4 * Suc t) mod 5 = (if k = 0 then (4 + 4 * t) mod 5 else (k - 1 + 4 * t) mod 5)"
    proof (cases k)
      case (Suc j)
      have "Suc j + 4 * Suc t = (j + 4 * t) + 5" by simp
      then show ?thesis unfolding Suc by (metis diff_Suc_1 mod_add_self2 nat.distinct(1))
    qed simp
    have "k = 0 \<or> k = 1 \<or> k = 2 \<or> k = 3 \<or> k = 4" using that by linarith
    then consider "k = 0" | "k = 1" | "k = 2" | "k = 3" | "k = 4" by blast
    then show ?thesis
    proof cases
      case 1
      then show ?thesis unfolding step k using ne len by (simp add: e(1))
    next
      case 2
      have "4 * t mod 5 \<noteq> (4 + 4 * t) mod 5" "4 * t mod 5 \<noteq> (1 + 4 * t) mod 5" by (rule mod_neq; simp)+
      then show ?thesis unfolding step k using 2 g5 by (simp add: e(1))
    next
      case 3
      then show ?thesis unfolding step k using len by (simp add: e(1))
    next
      case 4
      have "(2 + 4 * t) mod 5 \<noteq> (4 + 4 * t) mod 5" "(2 + 4 * t) mod 5 \<noteq> (1 + 4 * t) mod 5"
        by ((rule mod_neq; simp), (rule mod_neq [symmetric]; simp))
      then show ?thesis unfolding step k using 4 g5 by (simp add: e(1))
    next
      case 5
      have "(3 + 4 * t) mod 5 \<noteq> (4 + 4 * t) mod 5" "(3 + 4 * t) mod 5 \<noteq> (1 + 4 * t) mod 5"
        by ((rule mod_neq; simp), (rule mod_neq [symmetric]; simp))
      then show ?thesis unfolding step k using 5 g5 by (simp add: e(1))
    qed
  qed
  moreover have "length r' = 5" using e(1) len by simp
  ultimately have "regs_ok m h (Suc t) r'" unfolding regs_ok_def by blast
  then show ?thesis using w(2) e(2) by blast
qed

lemma rounds_ok:
  assumes "regs_ok m h 0 r" and "window_ok m 0 b"
  shows "regs_ok m h t (fst (fold sha1_round (map call_at [0..<t]) (r, b))) \<and>
    window_ok m t (snd (fold sha1_round (map call_at [0..<t]) (r, b)))"
proof (induction t)
  case 0
  then show ?case using assms by simp
next
  case (Suc t)
  obtain r1 b1 where p: "fold sha1_round (map call_at [0..<t]) (r, b) = (r1, b1)" by fastforce
  obtain r2 b2 where q: "sha1_round (call_at t) (r1, b1) = (r2, b2)" by fastforce
  show ?case using regs_round [OF _ _ q, of m h] Suc p q by simp
qed

lemma length_fips_vars: "length h = 5 \<Longrightarrow> length (fips_vars m h t) = 5"
  by (cases t) (simp_all add: Let_def)

lemma take_4_drop: "n + 3 < length xs \<Longrightarrow> take 4 (drop n xs) = [xs ! n, xs ! (n + 1), xs ! (n + 2), xs ! (n + 3)]"
proof -
  assume n: "n + 3 < length xs"
  have "drop n xs = xs ! n # xs ! Suc n # xs ! Suc (Suc n) # xs ! Suc (Suc (Suc n)) # drop (Suc (Suc (Suc (Suc n)))) xs"
    using n by (simp add: Cons_nth_drop_Suc)
  then show ?thesis by (simp add: eval_nat_numeral)
qed

lemma sha1_transform_fips:
  assumes "length h = 5" and "length m = 64"
  shows "sha1_transform h m = fips_block h m"
proof -
  define b :: "u32 list" where "b = map (\<lambda>i. push_bit 24 (ucast (m ! (i * 4))) OR push_bit 16 (ucast (m ! (i * 4 + 1))) OR
                push_bit 8 (ucast (m ! (i * 4 + 2))) OR ucast (m ! (i * 4 + 3))) [0..<16]"
  have "window_ok m 0 b" unfolding window_ok_def
  proof (intro conjI allI impI)
    fix s :: nat assume "s < max 16 0"
    then have s: "s < 16" by simp
    have d: "take 4 (drop (s * 4) m) = [m ! (s * 4), m ! (s * 4 + 1), m ! (s * 4 + 2), m ! (s * 4 + 3)]"
      using s assms(2) by (intro take_4_drop) simp
    show "b ! (s mod 16) = fips_w m s"
      using s by (subst fips_w.simps) (simp add: b_def mult.commute [of 4] d be_get_def be_step_def push_bit_or or.assoc)
  qed (simp add: b_def)
  moreover have "regs_ok m h 0 h" using assms(1) by (simp add: regs_ok_def)
  ultimately have "regs_ok m h 80 (fst (fold sha1_round sha1_calls (h, b)))"
    using rounds_ok [of m h h b 80] by (simp add: sha1_calls_at)
  then have r: "length (fst (fold sha1_round sha1_calls (h, b))) = 5"
    "\<And>k. k < 5 \<Longrightarrow> fst (fold sha1_round sha1_calls (h, b)) ! ((k + 4 * 80) mod 5) = fips_vars m h 80 ! k"
    by (simp_all add: regs_ok_def)
  have "fst (fold sha1_round sha1_calls (h, b)) = fips_vars m h 80"
  proof (rule nth_equalityI)
    fix k assume "k < length (fst (fold sha1_round sha1_calls (h, b)))"
    then have k: "k < 5" using r(1) by simp
    have "(k + 4 * 80) mod 5 = k" using k by presburger
    then show "fst (fold sha1_round sha1_calls (h, b)) ! k = fips_vars m h 80 ! k" using r(2) [OF k] by simp
  qed (simp add: r(1) length_fips_vars assms(1))
  then show ?thesis unfolding sha1_transform_def fips_block_def b_def by (auto simp: Let_def split: prod.splits)
qed

section \<open>Whole messages\<close>

abbreviation sha1_h0 :: "u32 list" where
  "sha1_h0 \<equiv> [0x67452301, 0xEFCDAB89, 0x98BADCFE, 0x10325476, 0xC3D2E1F0]"

lemma length_fips_block [simp]: "length h = 5 \<Longrightarrow> length (fips_block h m) = 5"
  by (simp add: fips_block_def length_fips_vars)

lemma length_fips_hash [simp]: "length h = 5 \<Longrightarrow> length (fips_hash h m) = 5"
proof (induction h m rule: fips_hash.induct)
  case (1 h m)
  then show ?case by (subst fips_hash.simps) simp
qed

lemma fips_hash_short: "length m < 64 \<Longrightarrow> fips_hash h m = h"
  by (subst fips_hash.simps) simp

lemma fips_hash_one: "length m = 64 \<Longrightarrow> fips_hash h m = fips_block h m"
  by (subst fips_hash.simps) (simp add: fips_hash_short)

lemma fips_hash_append: "64 dvd length x \<Longrightarrow> fips_hash h (x @ y) = fips_hash (fips_hash h x) y"
proof (induction h x rule: fips_hash.induct)
  case (1 h x)
  show ?case
  proof (cases "length x < 64")
    case True
    then have "x = []" using 1(2) by (metis dvd_imp_le length_0_conv not_gr_zero not_less)
    then show ?thesis by (simp add: fips_hash_short)
  next
    case False
    have "64 dvd length (drop 64 x)" using 1(2) False by (simp add: dvd_diff_nat)
    from 1(1) [OF False this] have "fips_hash (fips_block h (take 64 x)) (drop 64 x @ y) =
        fips_hash (fips_hash (fips_block h (take 64 x)) (drop 64 x)) y" .
    moreover have "fips_hash h (x @ y) = fips_hash (fips_block h (take 64 x)) (drop 64 x @ y)"
      using False by (subst fips_hash.simps) simp
    moreover have "fips_hash h x = fips_hash (fips_block h (take 64 x)) (drop 64 x)"
      using False by (subst fips_hash.simps) simp
    ultimately show ?thesis by simp
  qed
qed

lemma length_sha1_transform [simp]: "length h = 5 \<Longrightarrow> length m = 64 \<Longrightarrow> length (sha1_transform h m) = 5"
  by (simp add: sha1_transform_fips)

lemma sha1_blocks_fips:
  assumes "i \<le> length d" and "length st = 5"
  shows "\<exists>i'. sha1_blocks d i st = (fips_hash st (take (i' - i) (drop i d)), i') \<and> i \<le> i' \<and> i' \<le> length d \<and>
    64 dvd i' - i \<and> length d - i' < 64"
  using assms
proof (induction d i st rule: sha1_blocks.induct)
  case (1 d i st)
  show ?case
  proof (cases "i + 63 < length d")
    case True
    define st1 where "st1 = sha1_transform st (take 64 (drop i d))"
    have l: "length (take 64 (drop i d)) = 64" using True by simp
    have s1: "st1 = fips_block st (take 64 (drop i d))" unfolding st1_def by (rule sha1_transform_fips [OF 1(3) l])
    obtain i' where i: "sha1_blocks d (i + 64) st1 = (fips_hash st1 (take (i' - (i + 64)) (drop (i + 64) d)), i')"
      "i + 64 \<le> i'" "i' \<le> length d" "64 dvd i' - (i + 64)" "length d - i' < 64"
      using 1(1) [OF True, folded st1_def] True 1(3) s1 by auto
    have "take (i' - i) (drop i d) = take 64 (drop i d) @ take (i' - (i + 64)) (drop (i + 64) d)"
    proof -
      obtain k where k: "i' = i + 64 + k" using i(2) le_Suc_ex by blast
      show ?thesis unfolding k using take_add [of 64 k "drop i d"] by (simp add: add.commute)
    qed
    then have "fips_hash st (take (i' - i) (drop i d)) = fips_hash st1 (take (i' - (i + 64)) (drop (i + 64) d))"
      using fips_hash_append [of "take 64 (drop i d)"] l fips_hash_one [OF l] s1 by simp
    moreover have "64 dvd i' - i"
    proof -
      have "i' - i = (i' - (i + 64)) + 64" using i(2) by simp
      then show ?thesis by (metis dvd_add dvd_refl i(4))
    qed
    moreover have "sha1_blocks d i st = sha1_blocks d (i + 64) st1"
      using True by (subst sha1_blocks.simps) (simp add: st1_def)
    ultimately show ?thesis using i(1,3,5) i(2)
      by (metis (no_types, lifting) add_leD1)
  next
    case False
    then show ?thesis using 1(2) by (subst sha1_blocks.simps) (auto simp: fips_hash_short)
  qed
qed

text \<open>A context that has seen the message \<open>m\<close>.\<close>

definition sha1_ok :: "bytes \<Rightarrow> sha1_ctx \<Rightarrow> bool" where
  "sha1_ok m c \<longleftrightarrow> (\<exists>whole rest. m = whole @ rest \<and> 64 dvd length whole \<and> length rest < 64 \<and>
     sc_state c = fips_hash sha1_h0 whole \<and> length (sc_buffer c) = 64 \<and> take (length rest) (sc_buffer c) = rest) \<and>
     sc_count c = of_nat (8 * length m) \<and> length m < 2 ^ 61"

lemma sha1_ok_init: "length junk = 64 \<Longrightarrow> sha1_ok [] (sha1_init junk)"
  by (simp add: sha1_ok_def sha1_init_def fips_hash_short)

lemma fill_level:
  assumes "n < 2 ^ 61"
  shows "unat (drop_bit 3 (of_nat (8 * n) :: u64) AND 63) = n mod 64"
proof -
  have m: "(63 :: u64) = mask 6" by (simp add: mask_eq_exp_minus_1)
  have u: "unat (of_nat (8 * n) :: u64) = 8 * n" using assms by (simp only: unat_of_nat) simp
  have "unat (drop_bit 3 (of_nat (8 * n) :: u64)) = n"
    using u by (simp only: unat_drop_bit_eq) (simp add: drop_bit_eq_div)
  then show ?thesis unfolding m take_bit_eq_mask [symmetric] by (simp only: unsigned_take_bit_eq) (simp add: take_bit_eq_mod)
qed

lemma sha1_ok_level:
  assumes "m = whole @ rest" "64 dvd length whole" "length rest < 64" "length m < 2 ^ 61" "sc_count c = of_nat (8 * length m)"
  shows "unat (drop_bit 3 (sc_count c) AND 63) = length rest"
  unfolding assms(5) fill_level [OF assms(4)] using assms(1-3) by (auto elim!: dvdE)

lemma take_blit: "length src \<le> n \<Longrightarrow> take pos dst = pre \<Longrightarrow> pos \<le> length dst \<Longrightarrow> n = pos + length src \<Longrightarrow> take n (blit dst pos src) = pre @ src"
  by (auto simp: blit_def)

lemma sha1_ok_update:
  assumes "sha1_ok m c" and "length (m @ d) < 2 ^ 61"
  shows "sha1_ok (m @ d) (sha1_update c d)"
proof -
  obtain whole rest where w: "m = whole @ rest" "64 dvd length whole" "length rest < 64"
    "sc_state c = fips_hash sha1_h0 whole" "length (sc_buffer c) = 64" "take (length rest) (sc_buffer c) = rest"
    and n: "sc_count c = of_nat (8 * length m)" "length m < 2 ^ 61"
    using assms(1) by (auto simp: sha1_ok_def)
  have j: "unat (drop_bit 3 (sc_count c) AND 63) = length rest" by (rule sha1_ok_level [OF w(1-3) n(2,1)])
  have cnt: "sc_count c + push_bit 3 (of_nat (length d)) = of_nat (8 * length (m @ d))"
    by (simp add: n(1) push_bit_eq_mult algebra_simps)
  show ?thesis
  proof (cases "length rest + length d > 63")
    case False
    have "take (length (rest @ d)) (blit (sc_buffer c) (length rest) d) = rest @ d"
      using w(3,5,6) by (intro take_blit) auto
    moreover have "length (blit (sc_buffer c) (length rest) d) = 64" using False w(5) by (simp add: length_blit)
    moreover have "sha1_update c d = \<lparr>sc_state = sc_state c, sc_count = of_nat (8 * length (m @ d)),
        sc_buffer = blit (sc_buffer c) (length rest) d\<rparr>"
      using False by (simp only: sha1_update_def Let_def j cnt if_False)
    ultimately show ?thesis unfolding sha1_ok_def
      using w(1-4) False assms(2) by (intro conjI exI [of _ whole] exI [of _ "rest @ d"]) simp_all
  next
    case True
    define i where "i = 64 - length rest"
    define buf where "buf = blit (sc_buffer c) (length rest) (take i d)"
    define st1 where "st1 = sha1_transform (sc_state c) buf"
    have i: "i \<le> length d" using True by (simp add: i_def)
    have lb: "length buf = 64" using w(3,5) i by (simp add: buf_def length_blit i_def)
    have "take 64 buf = rest @ take i d" unfolding buf_def using w(3,5,6) i by (intro take_blit) (auto simp: i_def)
    then have buf: "buf = rest @ take i d" using lb by simp
    have l5: "length (sc_state c) = 5" by (simp add: w(4))
    have st1: "st1 = fips_hash sha1_h0 (whole @ rest @ take i d)"
      unfolding st1_def fips_hash_append [OF w(2)] w(4) [symmetric] buf [symmetric]
      by (simp add: fips_hash_one lb sha1_transform_fips l5)
    have s5: "length st1 = 5" using l5 lb by (simp add: st1_def)
    obtain i' where i': "sha1_blocks d i st1 = (fips_hash st1 (take (i' - i) (drop i d)), i')" "i \<le> i'" "i' \<le> length d"
      "64 dvd i' - i" "length d - i' < 64"
      using sha1_blocks_fips [OF i s5] by blast
    define whole' where "whole' = whole @ rest @ take i' d"
    have t: "take i' d = take i d @ take (i' - i) (drop i d)" using i'(2) by (metis take_add le_add_diff_inverse)
    have "64 dvd length (whole @ rest @ take i d)" using w(2,3) i by (simp add: i_def)
    then have st: "fips_hash st1 (take (i' - i) (drop i d)) = fips_hash sha1_h0 whole'"
      unfolding st1 whole'_def t by (simp only: append_assoc [symmetric] fips_hash_append)
    have "64 dvd length whole'"
    proof -
      have "length whole' = length whole + (64 + (i' - i))" using i'(2,3) w(3) by (simp add: whole'_def i_def)
      then show ?thesis using w(2) i'(4) by simp
    qed
    moreover have "m @ d = whole' @ drop i' d" by (simp add: w(1) whole'_def)
    moreover have "take (length (drop i' d)) (blit buf 0 (drop i' d)) = drop i' d" by (simp add: blit_def)
    moreover have "length (blit buf 0 (drop i' d)) = 64" using lb i'(5) by (simp add: length_blit)
    moreover have "sha1_update c d = \<lparr>sc_state = fips_hash sha1_h0 whole', sc_count = of_nat (8 * length (m @ d)),
        sc_buffer = blit buf 0 (drop i' d)\<rparr>"
      using True by (simp add: sha1_update_def Let_def j i_def [symmetric] buf_def [symmetric] st1_def [symmetric] i'(1) st)
        (simp add: n(1) push_bit_eq_mult algebra_simps)
    ultimately show ?thesis unfolding sha1_ok_def
      using i'(5) assms(2) by (intro conjI exI [of _ whole'] exI [of _ "drop i' d"]) simp_all
  qed
qed

lemma sha1_digest:
  assumes "length (st :: u32 list) = 5"
  shows "map (\<lambda>k. ucast (drop_bit ((3 - k mod 4) * 8) (st ! (k div 4)) AND 0xFF)) [0..<20] = concat (map (be_put 4) st)"
proof -
  obtain a b c d e where st: "st = [a, b, c, d, e]"
    using assms by (auto simp: eval_nat_numeral length_Suc_conv)
  have u: "[0..<20] = [0, 1, 2, 3, 4, 5, 6, 7, 8, 9, 10, 11, 12, 13, 14, 15, 16, 17, 18, 19::nat]"
    by (simp add: upt_rec)
  have p: "be_put 4 v = [ucast (drop_bit 24 v), ucast (drop_bit 16 v), ucast (drop_bit 8 v), ucast v]" for v :: u32
    by (simp add: write_be_put [symmetric] write_u32be_def ucast_and_FF)
  show ?thesis unfolding st u by (simp add: p) (simp add: ucast_and_FF)
qed

lemma be_put_8_map: "map (\<lambda>k. ucast (drop_bit ((7 - k) * 8) (v :: u64) AND 0xFF)) [0..<8] = be_put 8 v"
  by (simp add: upt_rec ucast_and_FF eval_nat_numeral)

lemma blit_after: "length pre = pos \<Longrightarrow> take pos dst = pre \<Longrightarrow> pos + length src = length dst \<Longrightarrow> blit dst pos src = pre @ src"
  by (simp add: blit_def)

text \<open>The two shapes of the last blocks.\<close>

lemma fips_pad_short:
  assumes "m = whole @ rest" "64 dvd length whole" "length rest \<le> 55"
  shows "fips_pad m = whole @ (rest @ [0x80] @ replicate (55 - length rest) 0 @ be_put 8 (of_nat (8 * length m) :: u64))"
proof -
  have "length m mod 64 = length rest" using assms by (auto elim!: dvdE)
  moreover have "(119 - length rest) mod 64 = 55 - length rest"
    using le_mod_geq [of 64 "119 - length rest"] assms(3) by simp
  ultimately show ?thesis by (simp add: fips_pad_def assms(1))
qed

lemma fips_pad_long:
  assumes "m = whole @ rest" "64 dvd length whole" "55 < length rest" "length rest < 64"
  shows "fips_pad m = whole @ (rest @ [0x80] @ replicate (63 - length rest) 0) @ replicate 56 0 @ be_put 8 (of_nat (8 * length m) :: u64)"
proof -
  have "length m mod 64 = length rest" using assms by (auto elim!: dvdE)
  moreover have "(119 - length rest) mod 64 = (63 - length rest) + 56" using assms(3,4) by simp
  ultimately show ?thesis by (simp only: fips_pad_def replicate_add) (simp add: assms(1))
qed

lemma sha1_final_fips:
  assumes "sha1_ok m c"
  shows "sha1_final c = sha1_standard m"
proof -
  obtain whole rest where w: "m = whole @ rest" "64 dvd length whole" "length rest < 64"
    "sc_state c = fips_hash sha1_h0 whole" "length (sc_buffer c) = 64" "take (length rest) (sc_buffer c) = rest"
    and n: "sc_count c = of_nat (8 * length m)" "length m < 2 ^ 61"
    using assms by (auto simp: sha1_ok_def)
  have j: "unat (drop_bit 3 (sc_count c) AND 63) = length rest" by (rule sha1_ok_level [OF w(1-3) n(2,1)])
  define len8 :: bytes where "len8 = be_put 8 (of_nat (8 * length m) :: u64)"
  define buf where "buf = (sc_buffer c)[length rest := 0x80]"
  have lb: "length buf = 64" by (simp add: buf_def w(5))
  have tb: "take (length rest + 1) buf = rest @ [0x80]"
    using w(3,5,6) by (simp add: buf_def take_Suc_conv_app_nth take_update_swap)
  have l5: "length (sc_state c) = 5" by (simp add: w(4))
  have digest: "map (\<lambda>k. ucast (drop_bit ((3 - k mod 4) * 8) (sha1_transform st b ! (k div 4)) AND 0xFF)) [0..<20] =
      concat (map (be_put 4) (fips_block st b))" if "length st = 5" "length b = 64" for st b
    using that by (simp add: sha1_transform_fips sha1_digest)
  show ?thesis
  proof (cases "length rest + 1 > 56")
    case False
    define b2 where "b2 = blit (blit buf (length rest + 1) (replicate (56 - (length rest + 1)) 0)) 56 len8"
    have "take 56 (blit buf (length rest + 1) (replicate (56 - (length rest + 1)) 0)) = (rest @ [0x80]) @ replicate (55 - length rest) 0"
    proof -
      have "56 - length rest = Suc (55 - length rest)" using False by simp
      then show ?thesis using False tb lb by (simp add: blit_def)
    qed
    then have b2: "b2 = ((rest @ [0x80]) @ replicate (55 - length rest) 0) @ len8"
      unfolding b2_def using False lb by (intro blit_after) (simp_all add: length_blit len8_def)
    have l2: "length b2 = 64" using False by (simp add: b2 len8_def)
    have "sha1_final c = map (\<lambda>k. ucast (drop_bit ((3 - k mod 4) * 8) (sha1_transform (sc_state c) b2 ! (k div 4)) AND 0xFF)) [0..<20]"
      unfolding sha1_final_def Let_def j buf_def [symmetric] be_put_8_map b2_def
      using False by (simp add: n(1) len8_def)
    also have "\<dots> = concat (map (be_put 4) (fips_hash (sc_state c) b2))"
      by (simp add: digest l5 l2 fips_hash_one)
    also have "fips_hash (sc_state c) b2 = fips_hash sha1_h0 (whole @ b2)"
      by (simp add: w(4) fips_hash_append [OF w(2)])
    also have "whole @ b2 = fips_pad m"
      using fips_pad_short [OF w(1,2)] False by (simp add: b2 len8_def)
    finally show ?thesis by (simp add: sha1_standard_def)
  next
    case True
    define b1 where "b1 = blit buf (length rest + 1) (replicate (64 - (length rest + 1)) 0)"
    define b2 where "b2 = blit (blit b1 0 (replicate 56 0)) 56 len8"
    have b1: "b1 = (rest @ [0x80]) @ replicate (63 - length rest) 0"
      unfolding b1_def using tb lb w(3) by (subst blit_after [OF _ tb]) simp_all
    have l1: "length b1 = 64" using w(3) by (simp add: b1)
    have "take 56 (blit b1 0 (replicate 56 0)) = replicate 56 0" by (simp add: blit_def)
    then have b2: "b2 = replicate 56 0 @ len8"
      unfolding b2_def using l1 by (intro blit_after) (simp_all add: length_blit len8_def)
    have l2: "length b2 = 64" by (simp add: b2 len8_def)
    have "sha1_final c = map (\<lambda>k. ucast (drop_bit ((3 - k mod 4) * 8) (sha1_transform (sha1_transform (sc_state c) b1) b2 ! (k div 4)) AND 0xFF)) [0..<20]"
      unfolding sha1_final_def Let_def j buf_def [symmetric] be_put_8_map b2_def b1_def
      using True by (simp add: n(1) len8_def)
    also have "\<dots> = concat (map (be_put 4) (fips_hash (fips_hash (sc_state c) b1) b2))"
      by (subst digest) (simp_all add: l5 l2 l1 fips_hash_one sha1_transform_fips)
    also have "fips_hash (fips_hash (sc_state c) b1) b2 = fips_hash sha1_h0 (whole @ b1 @ b2)"
      by (simp add: w(4) fips_hash_append [OF w(2)] fips_hash_append [of b1] l1)
    also have "whole @ b1 @ b2 = fips_pad m"
      using fips_pad_long [OF w(1,2)] True w(3) by (simp add: b1 b2 len8_def)
    finally show ?thesis by (simp add: sha1_standard_def)
  qed
qed

text \<open>\<open>SHA1Raw\<close> computes SHA-1: for every message shorter than 2^61 bytes, and whatever the memory of the
  context held before, the result of the unrolled code is the digest the standard defines.\<close>

theorem sha1_raw_standard:
  assumes "length junk = 64" and "length d < 2 ^ 61"
  shows "sha1_raw junk d = sha1_standard d"
proof -
  have "sha1_ok ([] @ d) (sha1_update (sha1_init junk) d)"
    by (rule sha1_ok_update [OF sha1_ok_init [OF assms(1)]]) (use assms(2) in simp)
  then show ?thesis unfolding sha1_raw_def by (simp add: sha1_final_fips)
qed

end
