(* ===== verification/GM_WSFrame.thy ===== *)
theory GM_WSFrame
  imports GM_Sha1
begin

text \<open>
  WebSocket frames and the handshake key (\<open>net/async/ws_frame.hpp\<close>, \<open>ws_frame.cpp\<close>): the parser of one
  frame, masking, the encoders of the server's frames, Base64, the accept key. A \<open>std::string\<close> is the
  sequence of its bytes. What the encoders return is given by its bytes; a payload that is a null
  pointer is \<open>None\<close>. The parser's result distinguishes its three outcomes; \<open>out\<close> and \<open>payload_offset\<close>
  are meaningful only in the last.
\<close>

section \<open>Parsing\<close>

record ws_frame =
  wf_fin :: bool
  wf_opcode :: u8
  wf_masked :: bool
  wf_len :: u64
  wf_mask :: bytes

definition OPCODE_CONTINUATION :: u8 where "OPCODE_CONTINUATION = 0x0"
definition OPCODE_TEXT :: u8 where "OPCODE_TEXT = 0x1"
definition OPCODE_BINARY :: u8 where "OPCODE_BINARY = 0x2"
definition OPCODE_CLOSE :: u8 where "OPCODE_CLOSE = 0x8"
definition OPCODE_PING :: u8 where "OPCODE_PING = 0x9"
definition OPCODE_PONG :: u8 where "OPCODE_PONG = 0xA"

lemmas opcode_defs = OPCODE_CONTINUATION_def OPCODE_TEXT_def OPCODE_BINARY_def OPCODE_CLOSE_def OPCODE_PING_def OPCODE_PONG_def

definition is_known_opcode :: "u8 \<Rightarrow> bool" where
  "is_known_opcode op \<longleftrightarrow> op = OPCODE_CONTINUATION \<or> op = OPCODE_TEXT \<or> op = OPCODE_BINARY \<or> op = OPCODE_CLOSE \<or>
     op = OPCODE_PING \<or> op = OPCODE_PONG"

definition is_control_opcode :: "u8 \<Rightarrow> bool" where
  "is_control_opcode op \<longleftrightarrow> op AND 0x8 \<noteq> 0"

datatype ws_parse = WsMore | WsError | WsFrame ws_frame nat nat

text \<open>The length field: the outcome when the function returns there, or length and position.\<close>

definition ws_length :: "bytes \<Rightarrow> u64 \<Rightarrow> ws_parse + u64 \<times> nat" where
  "ws_length d len =
     (if len = 126
      then if length d < 4 then Inl WsMore
           else let l = push_bit 8 (ucast (d ! 2)) OR ucast (d ! 3)
                in if l < 126 then Inl WsError else Inr (l, 4)
      else if len = 127
      then if length d < 10 then Inl WsMore
           else let l = foldl (\<lambda>l i. push_bit 8 l OR ucast (d ! (2 + i))) 0 [0..<8]
                in if d ! 2 AND 0x80 \<noteq> 0 \<or> l < 65536 then Inl WsError else Inr (l, 10)
      else Inr (len, 2))"

definition ws_payload :: "bytes \<Rightarrow> bool \<Rightarrow> u8 \<Rightarrow> bool \<Rightarrow> u64 \<Rightarrow> nat \<Rightarrow> ws_parse" where
  "ws_payload d fin op masked len pos =
     (if is_control_opcode op \<and> len > 125 then WsError
      else if masked \<and> length d < pos + 4 then WsMore
      else let key = (if masked then take 4 (drop pos d) else [0, 0, 0, 0]);
               pos = (if masked then pos + 4 else pos)
           in if len > - 1 - of_nat pos then WsError
              else if length d < pos + unat len then WsMore
              else WsFrame \<lparr>wf_fin = fin, wf_opcode = op, wf_masked = masked, wf_len = len, wf_mask = key\<rparr>
                     pos (pos + unat len))"

definition parse_ws_frame :: "bytes \<Rightarrow> ws_parse" where
  "parse_ws_frame d =
     (if length d < 2 then WsMore
      else if d ! 0 AND 0x70 \<noteq> 0 then WsError
      else let fin = d ! 0 AND 0x80 \<noteq> 0;
               op = d ! 0 AND 0x0F;
               masked = d ! 1 AND 0x80 \<noteq> 0;
               len = ucast (d ! 1 AND 0x7F)
           in if \<not> is_known_opcode op then WsError
              else if is_control_opcode op \<and> (\<not> fin \<or> len > 125) then WsError
              else case ws_length d len of
                  Inl r \<Rightarrow> r
                | Inr (len, pos) \<Rightarrow> ws_payload d fin op masked len pos)"

definition unmask_ws_payload :: "bytes \<Rightarrow> bytes \<Rightarrow> bytes" where
  "unmask_ws_payload payload key = map (\<lambda>i. payload ! i XOR key ! (i mod 4)) [0..<length payload]"

section \<open>Encoding\<close>

definition encode_ws_frame_header :: "u8 \<Rightarrow> u64 \<Rightarrow> bytes" where
  "encode_ws_frame_header op len =
     [0x80 OR (op AND 0x0F)] @
     (if len < 126 then [ucast len]
      else if len \<le> 0xFFFF then [126, ucast (drop_bit 8 len AND 0xFF), ucast (len AND 0xFF)]
      else [127] @ map (\<lambda>i. ucast (drop_bit (i * 8) len AND 0xFF)) (rev [0..<8]))"

definition encode_ws_frame :: "u8 \<Rightarrow> bytes option \<Rightarrow> u64 \<Rightarrow> bytes" where
  "encode_ws_frame op payload len =
     encode_ws_frame_header op len @ (if len > 0 then (case payload of None \<Rightarrow> [] | Some p \<Rightarrow> take (unat len) p) else [])"

definition encode_ws_binary_frame :: "bytes option \<Rightarrow> u64 \<Rightarrow> bytes" where
  "encode_ws_binary_frame payload len = encode_ws_frame OPCODE_BINARY payload len"

definition encode_ws_text_frame :: "bytes option \<Rightarrow> u64 \<Rightarrow> bytes" where
  "encode_ws_text_frame payload len = encode_ws_frame OPCODE_TEXT payload len"

definition encode_ws_close_frame :: "u16 \<Rightarrow> bytes option \<Rightarrow> u64 \<Rightarrow> bytes" where
  "encode_ws_close_frame code reason reason_len =
     (let n = (if reason_len > 123 then 123 else reason_len);
          tail = (if n > 0 then (case reason of None \<Rightarrow> replicate (unat n) 0 | Some r \<Rightarrow> take (unat n) r) else []);
          payload = [ucast (drop_bit 8 code AND 0xFF), ucast (code AND 0xFF)] @ tail
      in encode_ws_frame OPCODE_CLOSE (Some payload) (2 + n))"

definition encode_ws_pong_frame :: "bytes option \<Rightarrow> u64 \<Rightarrow> bytes" where
  "encode_ws_pong_frame payload len = encode_ws_frame OPCODE_PONG payload (if len > 125 then 125 else len)"

section \<open>The accept key\<close>

abbreviation chars :: "string \<Rightarrow> bytes" where
  "chars s \<equiv> map of_char s"

definition BASE64_CHARS :: bytes where
  "BASE64_CHARS = chars ''ABCDEFGHIJKLMNOPQRSTUVWXYZabcdefghijklmnopqrstuvwxyz0123456789+/''"

function base64_encode :: "bytes \<Rightarrow> nat \<Rightarrow> bytes" where
  "base64_encode d i =
     (if i < length d
      then let v0 = push_bit 16 (ucast (d ! i)) :: u32;
               v1 = (if i + 1 < length d then v0 OR push_bit 8 (ucast (d ! (i + 1))) else v0);
               v = (if i + 2 < length d then v1 OR ucast (d ! (i + 2)) else v1)
           in [BASE64_CHARS ! unat (drop_bit 18 v AND 0x3F), BASE64_CHARS ! unat (drop_bit 12 v AND 0x3F),
               (if i + 1 < length d then BASE64_CHARS ! unat (drop_bit 6 v AND 0x3F) else of_char CHR ''=''),
               (if i + 2 < length d then BASE64_CHARS ! unat (v AND 0x3F) else of_char CHR ''='')]
              @ base64_encode d (i + 3)
      else [])"
  by pat_completeness auto
termination by (relation "measure (\<lambda>(d, i). length d - i)") auto

declare base64_encode.simps [simp del]

definition ws_magic :: bytes where
  "ws_magic = chars ''258EAFA5-E914-47DA-95CA-C5AB0DC85B11''"

definition compute_ws_accept :: "bytes \<Rightarrow> bytes \<Rightarrow> bytes" where
  "compute_ws_accept junk ws_key = base64_encode (sha1_raw junk (ws_key @ ws_magic)) 0"

section \<open>The wire format\<close>

text \<open>A frame as RFC 6455 writes it, with the shortest length field.\<close>

definition wire_length :: "u64 \<Rightarrow> u8" where
  "wire_length len = (if len < 126 then ucast len else if len \<le> 0xFFFF then 126 else 127)"

definition wire_extended :: "u64 \<Rightarrow> bytes" where
  "wire_extended len = (if len < 126 then [] else if len \<le> 0xFFFF then be_put 2 len else be_put 8 len)"

definition wire_header :: "ws_frame \<Rightarrow> bytes" where
  "wire_header f =
     [(if wf_fin f then 0x80 else 0) OR wf_opcode f, (if wf_masked f then 0x80 else 0) OR wire_length (wf_len f)] @
     wire_extended (wf_len f) @ (if wf_masked f then wf_mask f else [])"

definition frame_legal :: "ws_frame \<Rightarrow> bool" where
  "frame_legal f \<longleftrightarrow> is_known_opcode (wf_opcode f) \<and> (is_control_opcode (wf_opcode f) \<longrightarrow> wf_fin f \<and> wf_len f \<le> 125) \<and>
     wf_len f < 2 ^ 63 \<and> length (wf_mask f) = 4 \<and> (\<not> wf_masked f \<longrightarrow> wf_mask f = [0, 0, 0, 0])"

lemma byte_cases: "k < 8 \<Longrightarrow> k = 0 \<or> k = 1 \<or> k = 2 \<or> k = 3 \<or> k = 4 \<or> k = 5 \<or> k = 6 \<or> k = (7::nat)"
  by linarith

lemma u8_eqI: "(\<And>k. k \<in> {0, 1, 2, 3, 4, 5, 6, 7} \<Longrightarrow> bit (v :: u8) k = bit w k) \<Longrightarrow> v = w"
  by (rule bit_word_eqI) (use byte_cases in auto)

lemma high_bit: "(w :: u8) AND 0x80 \<noteq> 0 \<longleftrightarrow> bit w 7"
  using and_exp_eq_0_iff_not_bit [of w 7] by simp

lemma second_byte: "((if w AND 0x80 \<noteq> 0 then 0x80 else 0) OR (w AND 0x7F)) = (w :: u8)"
  unfolding high_bit by (rule u8_eqI) (auto simp: bit_simps)

lemma first_byte:
  assumes "(w :: u8) AND 0x70 = 0"
  shows "((if w AND 0x80 \<noteq> 0 then 0x80 else 0) OR (w AND 0x0F)) = w"
proof -
  have "\<not> bit w k" if "k \<in> {4, 5, 6}" for k
  proof -
    have "bit (w AND 0x70) k \<longleftrightarrow> bit w k \<and> bit (0x70 :: u8) k" by (rule bit_and_iff)
    moreover have "bit (0x70 :: u8) k" using that by auto
    ultimately show ?thesis using assms by simp
  qed
  from this [of 4] this [of 5] this [of 6] show ?thesis
    unfolding high_bit by (intro u8_eqI) (auto simp: bit_simps)
qed

lemma known_opcode_small: "is_known_opcode op \<Longrightarrow> op AND 0x0F = op"
  by (auto simp: is_known_opcode_def opcode_defs)

lemma first_byte_fields:
  assumes "op AND 0x0F = (op :: u8)"
  shows "((if fin then 0x80 else 0) OR op) AND 0x70 = 0" "((if fin then 0x80 else 0) OR op) AND 0x0F = op"
    "((if fin then 0x80 else 0) OR op) AND 0x80 \<noteq> 0 \<longleftrightarrow> fin"
proof -
  have "\<not> bit op k" if "k \<in> {4, 5, 6, 7}" for k
  proof -
    have "bit (op AND 0x0F) k \<longleftrightarrow> bit op k \<and> bit (0x0F :: u8) k" by (rule bit_and_iff)
    moreover have "\<not> bit (0x0F :: u8) k" using that by auto
    ultimately show ?thesis using assms by metis
  qed
  from this [of 4] this [of 5] this [of 6] this [of 7] show "((if fin then 0x80 else 0) OR op) AND 0x70 = 0" "((if fin then 0x80 else 0) OR op) AND 0x0F = op"
    "((if fin then 0x80 else 0) OR op) AND 0x80 \<noteq> 0 \<longleftrightarrow> fin"
    unfolding high_bit by (auto intro!: u8_eqI simp: bit_simps)
qed

lemma second_byte_fields:
  assumes "l < (128 :: u8)"
  shows "((if m then 0x80 else 0) OR l) AND 0x7F = l" "((if m then 0x80 else 0) OR l) AND 0x80 \<noteq> 0 \<longleftrightarrow> m"
proof -
  have "take_bit 7 l = l" using assms by (simp add: take_bit_eq_mod word_less_nat_alt unat_mod_distrib word_unat_eq_iff)
  then have "\<not> bit l 7" by (metis bit_take_bit_iff less_irrefl)
  then show "((if m then 0x80 else 0) OR l) AND 0x7F = l" "((if m then 0x80 else 0) OR l) AND 0x80 \<noteq> 0 \<longleftrightarrow> m"
    unfolding high_bit by (auto intro!: u8_eqI simp: bit_simps)
qed

section \<open>The length field\<close>

lemma take_drop_map: "m + n \<le> length xs \<Longrightarrow> take n (drop m xs) = map (\<lambda>i. xs ! (m + i)) [0..<n]"
  by (rule nth_equalityI) auto

lemma unat_be_get_lt: "unat (be_get bs :: 'a::len word) < 2 ^ (8 * length bs)"
proof -
  have "be_get bs = take_bit (8 * length bs) (be_get bs :: 'a word)" by (simp add: be_get_def be_get_small)
  then have "unat (be_get bs :: 'a word) = take_bit (8 * length bs) (unat (be_get bs :: 'a word))"
    by (metis unsigned_take_bit_eq)
  then show ?thesis by (metis take_bit_nat_less_exp)
qed

lemma bit_63: "bit (l :: u64) 63 \<longleftrightarrow> \<not> l < 2 ^ 63"
proof -
  have u: "unat l < 2 ^ 64" using unsigned_less [of l, where 'a = nat] by simp
  have "bit l 63 \<longleftrightarrow> odd (unat l div 2 ^ 63)"
    by (metis bit_iff_odd bit_unsigned_iff possible_bit_nat)
  moreover have "unat l div 2 ^ 63 = (if unat l < 2 ^ 63 then 0 else 1)" using u by (auto simp: div_nat_eqI)
  ultimately show ?thesis by (simp add: word_less_nat_alt)
qed

lemma be_get_top: "bit (be_get (b # bs) :: u64) 63 \<longleftrightarrow> bit b 7" if "length bs = 7"
proof -
  have s: "(foldl be_step 0 bs :: u64) = take_bit 56 (foldl be_step 0 bs)"
    using be_get_small [of bs, where 'a = 64] that by simp
  have "(be_get (b # bs) :: u64) = push_bit 56 (ucast b) OR take_bit 56 (foldl be_step 0 bs)"
    using foldl_be_step_split [of "be_step 0 b :: u64" bs] that s by (simp add: be_get_def be_step_def)
  then show ?thesis by (simp add: bit_simps)
qed

lemma be_put_get_prefix: "8 * length bs \<le> LENGTH('a) \<Longrightarrow> be_put (length bs) (be_get bs :: 'a::len word) = bs"
  by (simp add: be_get_def be_put_foldl)

text \<open>The long forms read by the parser.\<close>

lemma ws_length_16:
  "4 \<le> length d \<Longrightarrow> push_bit 8 (ucast (d ! 2)) OR ucast (d ! 3) = (be_get (take 2 (drop 2 d)) :: u64)"
  by (simp add: take_drop_map be_get_def be_step_def upt_rec numeral_2_eq_2 numeral_3_eq_3)

lemma ws_length_64:
  "10 \<le> length d \<Longrightarrow> foldl (\<lambda>l i. push_bit 8 l OR ucast (d ! (2 + i))) 0 [0..<8] = (be_get (take 8 (drop 2 d)) :: u64)"
  by (simp add: take_drop_map be_get_def be_step_def foldl_map del: upt_conv_Cons)

lemma ws_length_top:
  "10 \<le> length d \<Longrightarrow> d ! 2 AND 0x80 = 0 \<longleftrightarrow> (be_get (take 8 (drop 2 d)) :: u64) < 2 ^ 63"
proof -
  assume n: "10 \<le> length d"
  have "take 8 (drop 2 d) = d ! 2 # take 7 (drop 3 d)"
    using n Cons_nth_drop_Suc [of 2 d, symmetric] by simp
  then have "bit (be_get (take 8 (drop 2 d)) :: u64) 63 \<longleftrightarrow> bit (d ! 2) 7" using be_get_top [of "take 7 (drop 3 d)" "d ! 2"] n by simp
  then show ?thesis using high_bit [of "d ! 2"] bit_63 by auto
qed

lemma small_length: "len < 126 \<Longrightarrow> ucast (ucast len :: u8) = (len :: u64)"
  by (simp only: word_unat_eq_iff unsigned_ucast_eq) (simp add: word_less_nat_alt take_bit_eq_mod unat_mod_distrib)

text \<open>What the parser takes for the length of a frame is what the format writes.\<close>

lemma ws_length_wire:
  assumes "ws_length d l7 = Inr (len, pos)" and "l7 \<le> 127" and "2 \<le> length d"
  shows "l7 = ucast (wire_length len) \<and> pos = 2 + length (wire_extended len) \<and> take (pos - 2) (drop 2 d) = wire_extended len \<and>
    pos \<le> length d \<and> len < 2 ^ 63"
proof -
  consider "l7 = 126" | "l7 = 127" | "l7 < 126"
  proof -
    have "unat l7 = 126 \<or> unat l7 = 127 \<or> unat l7 < 126" using assms(2) by (auto simp: word_le_nat_alt)
    then show ?thesis using that by (auto simp: word_less_nat_alt word_unat_eq_iff)
  qed
  then show ?thesis
  proof cases
    case 1
    have n: "4 \<le> length d" using assms(1) 1 by (simp add: ws_length_def split: if_splits)
    define bs where "bs = take 2 (drop 2 d)"
    have len: "len = be_get bs" "\<not> len < 126" "pos = 4"
      using assms(1) 1 n by (auto simp: ws_length_def ws_length_16 [OF n] bs_def Let_def split: if_splits)
    have lb: "length bs = 2" using n by (simp add: bs_def)
    have "unat len < 2 ^ 16" using unat_be_get_lt [of bs, where 'a = 64] lb len(1) by simp
    then have le: "len \<le> 0xFFFF" by (simp add: word_le_nat_alt)
    have "be_put 2 len = bs" using be_put_get_prefix [of bs, where 'a = 64] lb len(1) by simp
    moreover have "len < 2 ^ 63" using le by (rule order.strict_trans1) simp
    ultimately show ?thesis using len le 1 n by (simp add: wire_length_def wire_extended_def bs_def)
  next
    case 2
    have n: "10 \<le> length d" using assms(1) 2 by (simp add: ws_length_def split: if_splits)
    define bs where "bs = take 8 (drop 2 d)"
    have lb: "length bs = 8" using n by (simp add: bs_def)
    have len: "len = be_get bs" "\<not> len < 65536" "pos = 10" "d ! 2 AND 0x80 = 0"
    proof -
      have "ws_length d l7 = (if d ! 2 AND 0x80 \<noteq> 0 \<or> (be_get bs :: u64) < 65536 then Inl WsError else Inr (be_get bs, 10))"
        unfolding ws_length_def ws_length_64 [OF n] bs_def Let_def using 2 n by simp
      then show "len = be_get bs" "\<not> len < 65536" "pos = 10" "d ! 2 AND 0x80 = 0"
        using assms(1) by (auto split: if_splits)
    qed
    have "len < 2 ^ 63" using ws_length_top [OF n] len(1,4) by (simp add: bs_def)
    moreover have "be_put 8 len = bs" using be_put_get_prefix [of bs, where 'a = 64] lb len(1) by simp
    moreover have "\<not> len < 126" "\<not> len \<le> 0xFFFF"
      using len(2) by (simp_all add: word_less_nat_alt word_le_nat_alt)
    ultimately show ?thesis using len 2 n by (simp add: wire_length_def wire_extended_def bs_def)
  next
    case 3
    then have "l7 \<noteq> 126" "l7 \<noteq> 127" by auto
    then have e: "len = l7" "pos = 2" using assms(1) by (simp_all add: ws_length_def)
    have "l7 < 2 ^ 63" using 3 by (rule order.strict_trans) simp
    moreover have "ucast (ucast l7 :: u8) = l7" using 3 by (rule small_length)
    ultimately show ?thesis using e 3 assms(3) by (simp add: wire_length_def wire_extended_def)
  qed
qed

lemma wire_ws_length:
  assumes "len < 2 ^ 63"
  shows "ws_length (a # b # wire_extended len @ r) (ucast (wire_length len)) = Inr (len, 2 + length (wire_extended len))"
proof -
  consider "len < 126" | "\<not> len < 126" "len \<le> 0xFFFF" | "\<not> len \<le> 0xFFFF" by blast
  then show ?thesis
  proof cases
    case 1
    have "ucast (ucast len :: u8) = len" using 1 by (rule small_length)
    moreover have "len \<noteq> 126" "len \<noteq> 127" using 1 by auto
    ultimately show ?thesis using 1 by (simp add: wire_length_def wire_extended_def ws_length_def)
  next
    case 2
    define d where "d = a # b # be_put 2 len @ r"
    have d: "4 \<le> length d" "take 2 (drop 2 d) = be_put 2 len" by (simp_all add: d_def)
    have "unat len < 2 ^ 16" using 2(2) by (simp add: word_le_nat_alt)
    then have "take_bit 16 len = len" by (simp only: word_unat_eq_iff unsigned_take_bit_eq) (simp add: take_bit_eq_mod)
    then have "(be_get (be_put 2 len) :: u64) = len" by (simp add: be_get_def foldl_be_put)
    then show ?thesis using 2 d by (simp add: wire_length_def wire_extended_def ws_length_def d_def [symmetric] ws_length_16)
  next
    case 3
    define d where "d = a # b # be_put 8 len @ r"
    have d: "10 \<le> length d" "take 8 (drop 2 d) = be_put 8 len" by (simp_all add: d_def)
    have g: "(be_get (be_put 8 len) :: u64) = len" by (simp add: be_get_put)
    have n: "\<not> len < 126" "\<not> len < 65536" using 3 by (simp_all add: word_less_nat_alt word_le_nat_alt)
    have "d ! 2 AND 0x80 = 0" using ws_length_top [OF d(1)] assms by (simp add: d(2) g)
    then show ?thesis
      using 3 n d g ws_length_64 [OF d(1)] by (simp add: wire_length_def wire_extended_def ws_length_def d_def [symmetric])
  qed
qed

section \<open>Frames\<close>

definition wire_frame :: "ws_frame \<Rightarrow> bytes \<Rightarrow> bytes" where
  "wire_frame f payload = wire_header f @ payload"

lemma wire_length_le: "wire_length len < 128" "ucast (wire_length len) \<le> (127 :: u64)"
proof -
  have "unat (wire_length len) \<le> 127"
    by (auto simp: wire_length_def unsigned_ucast_eq word_less_nat_alt take_bit_eq_mod unat_mod_distrib)
  then show "wire_length len < 128" "ucast (wire_length len) \<le> (127 :: u64)"
    by (simp_all add: word_less_nat_alt word_le_nat_alt unsigned_ucast_eq take_bit_eq_mod)
qed

lemma size_max_check: "len < 2 ^ 63 \<Longrightarrow> pos \<le> 14 \<Longrightarrow> \<not> len > - 1 - (of_nat pos :: u64)"
proof -
  assume a: "len < 2 ^ 63" "pos \<le> 14"
  have p: "unat (of_nat pos :: u64) = pos" using a(2) by (simp add: unat_of_nat)
  have m: "unat (- 1 :: u64) = 2 ^ 64 - 1" by (simp add: unsigned_minus_1_eq_mask mask_eq_exp_minus_1)
  have "(of_nat pos :: u64) \<le> - 1" by simp
  then have "unat (- 1 - (of_nat pos :: u64)) = 2 ^ 64 - 1 - pos" by (simp only: unat_sub p m)
  then show ?thesis using a by (simp add: word_less_nat_alt)
qed

lemma ws_payload_frame:
  assumes "len < 2 ^ 63" and "pos \<le> 10"
  shows "ws_payload d fin op masked len pos = WsFrame f off n \<longleftrightarrow>
    \<not> (is_control_opcode op \<and> len > 125) \<and> off = pos + (if masked then 4 else 0) \<and> n = off + unat len \<and> n \<le> length d \<and>
    f = \<lparr>wf_fin = fin, wf_opcode = op, wf_masked = masked, wf_len = len, wf_mask = (if masked then take 4 (drop pos d) else [0, 0, 0, 0])\<rparr>"
proof -
  have "\<not> len > - 1 - (of_nat pos :: u64)" "\<not> len > - 1 - (of_nat (pos + 4) :: u64)"
    by (rule size_max_check [OF assms(1)]; use assms(2) in simp)+
  then show ?thesis unfolding ws_payload_def Let_def by auto
qed

lemma parse_ws_cons:
  "parse_ws_frame (a # b # r) =
     (if a AND 0x70 \<noteq> 0 then WsError
      else if \<not> is_known_opcode (a AND 0x0F) then WsError
      else if is_control_opcode (a AND 0x0F) \<and> (a AND 0x80 = 0 \<or> ucast (b AND 0x7F) > (125 :: u64)) then WsError
      else case ws_length (a # b # r) (ucast (b AND 0x7F)) of
          Inl r \<Rightarrow> r
        | Inr (len, pos) \<Rightarrow> ws_payload (a # b # r) (a AND 0x80 \<noteq> 0) (a AND 0x0F) (b AND 0x80 \<noteq> 0) len pos)"
  by (simp add: parse_ws_frame_def Let_def)

lemma parse_wire:
  assumes "frame_legal f" and "wf_len f = of_nat (length payload)" and "length payload < 2 ^ 63"
  shows "parse_ws_frame (wire_frame f payload @ rest) = WsFrame f (length (wire_header f)) (length (wire_frame f payload))"
proof -
  have op: "is_known_opcode (wf_opcode f)" "wf_opcode f AND 0x0F = wf_opcode f"
    using assms(1) known_opcode_small by (auto simp: frame_legal_def)
  have len: "wf_len f < 2 ^ 63" "unat (wf_len f) = length payload"
    using assms by (simp_all add: frame_legal_def unat_of_nat)
  define tail where "tail = (if wf_masked f then wf_mask f else []) @ payload @ rest"
  define a where "a = (if wf_fin f then 0x80 else 0) OR wf_opcode f"
  define b where "b = (if wf_masked f then 0x80 else 0) OR wire_length (wf_len f)"
  have d: "wire_frame f payload @ rest = a # b # wire_extended (wf_len f) @ tail"
    by (simp add: wire_frame_def wire_header_def tail_def a_def b_def)
  have lb: "b AND 0x7F = wire_length (wf_len f)" "b AND 0x80 \<noteq> 0 \<longleftrightarrow> wf_masked f"
    unfolding b_def by (rule second_byte_fields [OF wire_length_le(1)])+
  have la: "a AND 0x70 = 0" "a AND 0x0F = wf_opcode f" "a AND 0x80 \<noteq> 0 \<longleftrightarrow> wf_fin f"
    unfolding a_def by (rule first_byte_fields [OF op(2)])+
  have ctl: "\<not> (is_control_opcode (wf_opcode f) \<and> (\<not> wf_fin f \<or> ucast (wire_length (wf_len f)) > (125 :: u64)))"
    using assms(1) small_length [of "wf_len f"]
    by (auto simp: frame_legal_def wire_length_def word_less_nat_alt word_le_nat_alt)
  define pos where "pos = 2 + length (wire_extended (wf_len f))"
  have pos: "pos \<le> 10" by (simp add: pos_def wire_extended_def)
  have "parse_ws_frame (wire_frame f payload @ rest) =
      ws_payload (a # b # wire_extended (wf_len f) @ tail) (wf_fin f) (wf_opcode f) (wf_masked f) (wf_len f) pos"
    unfolding d parse_ws_cons la(2,3) lb using op(1) la(1,3) ctl wire_ws_length [OF len(1)]
    by (cases "is_control_opcode (wf_opcode f)") (simp_all add: pos_def)
  also have "\<dots> = WsFrame f (length (wire_header f)) (length (wire_frame f payload))"
    unfolding ws_payload_frame [OF len(1) pos]
    using assms(1) len(2)
    by (cases f) (auto simp: frame_legal_def wire_frame_def wire_header_def pos_def tail_def not_less)
  finally show ?thesis .
qed

lemma wire_parse:
  assumes "parse_ws_frame d = WsFrame f off n"
  shows "\<exists>payload rest. d = wire_frame f payload @ rest \<and> n = length (wire_frame f payload) \<and> off = length (wire_header f) \<and>
    frame_legal f \<and> wf_len f = of_nat (length payload) \<and> length payload < 2 ^ 63"
proof -
  have n2: "2 \<le> length d" using assms by (simp add: parse_ws_frame_def split: if_splits)
  then obtain a b r where d: "d = a # b # r" by (auto simp: numeral_2_eq_2 Suc_le_length_iff)
  define l7 :: u64 where "l7 = ucast (b AND 0x7F)"
  define fin where "fin \<longleftrightarrow> a AND 0x80 \<noteq> 0"
  define op where "op = a AND 0x0F"
  define m where "m \<longleftrightarrow> b AND 0x80 \<noteq> 0"
  have p: "a AND 0x70 = 0" "is_known_opcode op" "\<not> (is_control_opcode op \<and> (\<not> fin \<or> l7 > 125))"
    and l: "(case ws_length d l7 of Inl r \<Rightarrow> r | Inr (len, pos) \<Rightarrow> ws_payload d fin op m len pos) = WsFrame f off n"
    using assms unfolding d parse_ws_cons fin_def op_def m_def l7_def
    by (auto split: if_splits)
  have nl: "ws_length d l7 \<noteq> Inl (WsFrame f off n)" unfolding ws_length_def Let_def by auto
  obtain len pos where lp: "ws_length d l7 = Inr (len, pos)"
    using l nl by (cases "ws_length d l7") auto
  have b7: "unat (b AND 0x7F) \<le> 127"
  proof -
    have "b AND 0x7F \<le> 0x7F" by (rule word_and_le1)
    then show ?thesis by (simp add: word_le_nat_alt)
  qed
  have l7: "l7 \<le> 127" "ucast l7 = b AND 0x7F"
  proof -
    show u: "ucast l7 = b AND 0x7F" by (simp add: l7_def ucast_up_ucast_id is_up)
    have "unat l7 = take_bit 64 (unat (b AND 0x7F))" by (simp only: l7_def unsigned_ucast_eq) (simp add: unsigned_take_bit_eq)
    also have "\<dots> \<le> unat (b AND 0x7F)" by (rule take_bit_nat_less_eq_self)
    finally show "l7 \<le> 127" using b7 by (simp add: word_le_nat_alt)
  qed
  note w = ws_length_wire [OF lp l7(1) n2]
  have wl: "wire_length len = b AND 0x7F"
  proof -
    have "l7 = ucast (wire_length len)" using w by blast
    then show ?thesis using l7(2) by (simp add: ucast_up_ucast_id is_up)
  qed
  have pos10: "pos \<le> 10" using w by (simp add: wire_extended_def)
  have len: "len < 2 ^ 63" using w by blast
  have f: "\<not> (is_control_opcode op \<and> len > 125)" "off = pos + (if m then 4 else 0)" "n = off + unat len" "n \<le> length d"
    "f = \<lparr>wf_fin = fin, wf_opcode = op, wf_masked = m, wf_len = len, wf_mask = (if m then take 4 (drop pos d) else [0, 0, 0, 0])\<rparr>"
    using l unfolding lp ws_payload_frame [OF len pos10, of d fin op m f off n] sum.case prod.case by blast+
  have hdr: "wire_header f = a # b # take (pos - 2) r @ (if m then take 4 (drop pos d) else [])"
  proof -
    have "take (pos - 2) (drop 2 d) = wire_extended len" using w by blast
    then have "wire_extended len = take (pos - 2) r" unfolding d by simp
    then show ?thesis using first_byte [OF p(1)] second_byte [of b] wl
      by (simp add: wire_header_def f(5) fin_def op_def m_def)
  qed
  have pos: "2 \<le> pos" "pos \<le> length d" using w by simp_all
  have "wire_header f = take off d"
  proof (cases m)
    case True
    have "take off d = take pos d @ take 4 (drop pos d)" using f(2) True by (simp add: take_add)
    moreover have "take pos d = a # b # take (pos - 2) r"
      using pos(1) d by (metis One_nat_def Suc_1 Suc_pred add_2_eq_Suc le_add_diff_inverse take_Suc_Cons)
    ultimately show ?thesis using hdr True by simp
  next
    case False
    then show ?thesis using hdr f(2) pos(1) d
      by simp (metis One_nat_def Suc_1 Suc_pred add_2_eq_Suc le_add_diff_inverse take_Suc_Cons)
  qed
  moreover define payload where "payload = take (unat len) (drop off d)"
  moreover have "length (take off d) = off" using f(3,4) by simp
  moreover have "length payload = unat len" using f(3,4) by (simp add: payload_def)
  ultimately have "d = wire_frame f payload @ drop n d" "n = length (wire_frame f payload)" "off = length (wire_header f)"
    using f(3) by (auto simp: wire_frame_def add.commute take_add [symmetric])
  moreover have "frame_legal f"
    using p f(1,4) len pos w f(2,3) by (auto simp: frame_legal_def f(5) not_less)
  moreover have "wf_len f = of_nat (length payload)" using \<open>length payload = unat len\<close> by (simp add: f(5))
  moreover have "length payload < 2 ^ 63" using \<open>length payload = unat len\<close> len by (simp add: word_less_nat_alt)
  ultimately show ?thesis by blast
qed

text \<open>C27: the parser accepts exactly the frames of RFC 6455. It returns a frame if and only if the data start with
  the wire format of that frame (shortest length field, known opcode, short and unfragmented control
  frames, no reserved bits), and then with the right positions; everything else it rejects or asks for more.\<close>

theorem ws_parse_exact:
  "parse_ws_frame d = WsFrame f off n \<longleftrightarrow>
     (\<exists>payload rest. d = wire_frame f payload @ rest \<and> n = length (wire_frame f payload) \<and> off = length (wire_header f) \<and>
        frame_legal f \<and> wf_len f = of_nat (length payload) \<and> length payload < 2 ^ 63)"
  (is "_ \<longleftrightarrow> ?wire")
proof
  assume "parse_ws_frame d = WsFrame f off n"
  then show ?wire by (rule wire_parse)
next
  assume ?wire
  then show "parse_ws_frame d = WsFrame f off n" using parse_wire by auto
qed

section \<open>The encoders\<close>

lemma unmask_involution: "length key = 4 \<Longrightarrow> unmask_ws_payload (unmask_ws_payload p key) key = p"
  by (rule nth_equalityI) (simp_all add: unmask_ws_payload_def xor.assoc)

lemma length_unmask [simp]: "length (unmask_ws_payload p key) = length p"
  by (simp add: unmask_ws_payload_def)

definition server_frame :: "u8 \<Rightarrow> u64 \<Rightarrow> ws_frame" where
  "server_frame op len = \<lparr>wf_fin = True, wf_opcode = op, wf_masked = False, wf_len = len, wf_mask = [0, 0, 0, 0]\<rparr>"

lemma encode_header_wire: "is_known_opcode op \<Longrightarrow> encode_ws_frame_header op len = wire_header (server_frame op len)"
proof -
  assume op: "is_known_opcode op"
  have m: "map (\<lambda>i. ucast (drop_bit (i * 8) len AND 0xFF)) (rev [0..<8]) = be_put 8 len"
    by (simp add: upt_rec ucast_and_FF eval_nat_numeral)
  have p: "be_put 2 len = [ucast (drop_bit 8 len AND 0xFF), ucast (len AND 0xFF)]"
    by (simp add: ucast_and_FF eval_nat_numeral)
  show ?thesis unfolding encode_ws_frame_header_def m known_opcode_small [OF op]
    by (simp add: wire_header_def server_frame_def wire_length_def wire_extended_def p)
qed

lemma encode_frame_wire:
  assumes "is_known_opcode op" and "len = of_nat (length p)" and "length p < 2 ^ 63"
  shows "encode_ws_frame op (Some p) len = wire_frame (server_frame op len) p"
proof -
  have "unat len = length p" using assms(2,3) by (simp add: unat_of_nat)
  moreover from this have "len > 0 \<longleftrightarrow> p \<noteq> []" by (metis length_greater_0_conv word_gt_0 unat_eq_0 length_0_conv)
  ultimately show ?thesis by (auto simp: encode_ws_frame_def encode_header_wire [OF assms(1)] wire_frame_def)
qed

text \<open>Every close frame the server can be asked to send is a legal control frame.\<close>

lemma close_frame_legal:
  assumes "case reason of None \<Rightarrow> True | Some r \<Rightarrow> unat n \<le> length r"
  shows "\<exists>payload. encode_ws_close_frame code reason n = wire_frame (server_frame OPCODE_CLOSE (of_nat (length payload))) payload \<and>
    take 2 payload = be_put 2 code \<and> length payload \<le> 125"
proof -
  define k where "k = (if n > 123 then 123 else n)"
  define tail where "tail = (if k > 0 then (case reason of None \<Rightarrow> replicate (unat k) 0 | Some r \<Rightarrow> take (unat k) r) else [])"
  have k: "unat k \<le> 123" "unat k \<le> unat n" by (auto simp: k_def word_less_nat_alt)
  have lt: "length tail = unat k"
    using assms k by (auto simp: tail_def word_gt_0 split: option.splits)
  define payload where "payload = [ucast (drop_bit 8 code AND 0xFF), ucast (code AND 0xFF)] @ tail"
  have "unat (2 + k) = 2 + unat k" using k(1) by (simp add: unat_word_ariths)
  then have l: "2 + k = of_nat (length payload)" "length payload \<le> 125"
    using lt k(1) by (simp_all add: payload_def)
  have "take 2 payload = be_put 2 code" by (simp add: payload_def write_be_put [symmetric] write_u16be_def)
  moreover have "encode_ws_close_frame code reason n = wire_frame (server_frame OPCODE_CLOSE (of_nat (length payload))) payload"
    using encode_frame_wire [of OPCODE_CLOSE "2 + k" payload] l
    by (simp add: encode_ws_close_frame_def Let_def k_def [symmetric] tail_def [symmetric] payload_def [symmetric] is_known_opcode_def)
      (simp add: payload_def)
  ultimately show ?thesis using l(2) by blast
qed

text \<open>A message the server sends is read back by the parser, and a client's masked frame gives its message.\<close>

lemma ws_server_roundtrip_aux:
  assumes "is_known_opcode op" and "is_control_opcode op \<longrightarrow> length p \<le> 125" and "length p < 2 ^ 63"
  shows "\<exists>off n. parse_ws_frame (encode_ws_frame op (Some p) (of_nat (length p)) @ rest) = WsFrame (server_frame op (of_nat (length p))) off n \<and>
    take (n - off) (drop off (encode_ws_frame op (Some p) (of_nat (length p)) @ rest)) = p"
proof -
  have u: "unat (of_nat (length p) :: u64) = length p" using assms(3) by (simp add: unat_of_nat)
  have f: "frame_legal (server_frame op (of_nat (length p)))"
    using assms u by (simp add: frame_legal_def server_frame_def word_less_nat_alt word_le_nat_alt)
  have e: "encode_ws_frame op (Some p) (of_nat (length p)) = wire_frame (server_frame op (of_nat (length p))) p"
    by (rule encode_frame_wire [OF assms(1) refl assms(3)])
  have "wf_len (server_frame op (of_nat (length p))) = of_nat (length p)" by (simp add: server_frame_def)
  from parse_wire [OF f this assms(3), of rest] show ?thesis unfolding e by (simp add: wire_frame_def)
qed

section \<open>Base64\<close>

text \<open>The value of a digit: A to Z, a to z, 0 to 9, plus, slash.\<close>

definition base64_value :: "u8 \<Rightarrow> u32 option" where
  "base64_value c =
     (if 65 \<le> c \<and> c \<le> 90 then Some (ucast c - 65)
      else if 97 \<le> c \<and> c \<le> 122 then Some (ucast c - 71)
      else if 48 \<le> c \<and> c \<le> 57 then Some (ucast c + 4)
      else if c = 43 then Some 62 else if c = 47 then Some 63 else None)"

abbreviation pad_char :: u8 where "pad_char \<equiv> of_char CHR ''=''"

text \<open>The decoder of RFC 4648.\<close>

definition sextets :: "u32 \<Rightarrow> u32 \<Rightarrow> u32 \<Rightarrow> u32 \<Rightarrow> u32" where
  "sextets x y z u = push_bit 18 x OR push_bit 12 y OR push_bit 6 z OR u"

fun base64_decode :: "bytes \<Rightarrow> bytes option" where
  "base64_decode [] = Some []"
| "base64_decode (a # b # c # e # r) = do {
     x \<leftarrow> base64_value a;
     y \<leftarrow> base64_value b;
     if c = pad_char
     then if e = pad_char \<and> r = [] then Some [ucast (drop_bit 16 (sextets x y 0 0))] else None
     else do {
       z \<leftarrow> base64_value c;
       if e = pad_char
       then if r = [] then Some [ucast (drop_bit 16 (sextets x y z 0)), ucast (drop_bit 8 (sextets x y z 0))] else None
       else do {
         u \<leftarrow> base64_value e;
         rest \<leftarrow> base64_decode r;
         Some (ucast (drop_bit 16 (sextets x y z u)) # ucast (drop_bit 8 (sextets x y z u)) # ucast (sextets x y z u) # rest) } } }"
| "base64_decode _ = None"

lemma base64_chars_eq:
  "BASE64_CHARS = [65, 66, 67, 68, 69, 70, 71, 72, 73, 74, 75, 76, 77, 78, 79, 80, 81, 82, 83, 84, 85, 86, 87, 88, 89, 90,
     97, 98, 99, 100, 101, 102, 103, 104, 105, 106, 107, 108, 109, 110, 111, 112, 113, 114, 115, 116, 117, 118, 119, 120, 121, 122,
     48, 49, 50, 51, 52, 53, 54, 55, 56, 57, 43, 47]"
  by (simp add: BASE64_CHARS_def)

lemma base64_alphabet:
  "list_all (\<lambda>k. base64_value (BASE64_CHARS ! k) = Some (of_nat k) \<and> BASE64_CHARS ! k \<noteq> pad_char) [0..<64]"
  by (simp add: upt_rec base64_value_def base64_chars_eq)

lemma base64_value_char:
  fixes v :: u32
  shows "base64_value (BASE64_CHARS ! unat (v AND 0x3F)) = Some (v AND 0x3F)" "BASE64_CHARS ! unat (v AND 0x3F) \<noteq> pad_char"
proof -
  have "v AND 0x3F \<le> 0x3F" by (rule word_and_le1)
  then have "unat (v AND 0x3F) < 64" by (simp add: word_le_nat_alt)
  then have "base64_value (BASE64_CHARS ! unat (v AND 0x3F)) = Some (of_nat (unat (v AND 0x3F))) \<and>
      BASE64_CHARS ! unat (v AND 0x3F) \<noteq> pad_char"
    using base64_alphabet by (simp only: list_all_iff) (metis atLeastLessThan_iff set_upt zero_le)
  then show "base64_value (BASE64_CHARS ! unat (v AND 0x3F)) = Some (v AND 0x3F)" "BASE64_CHARS ! unat (v AND 0x3F) \<noteq> pad_char"
    by simp_all
qed

lemma sextets_split:
  assumes "v = push_bit 16 (ucast (a :: u8)) OR push_bit 8 (ucast (b :: u8)) OR ucast (c :: u8)"
  shows "sextets (drop_bit 18 v AND 0x3F) (drop_bit 12 v AND 0x3F) (drop_bit 6 v AND 0x3F) (v AND 0x3F) = v"
    "ucast (drop_bit 16 v) = a" "ucast (drop_bit 8 v) = b" "ucast v = c"
proof -
  have m: "(0x3F :: u32) = mask 6" by (simp add: mask_eq_exp_minus_1)
  have h: "\<not> bit v k" if "24 \<le> k" for k
    using that unfolding assms by (auto simp: bit_simps dest: bit_imp_le_length)
  show "sextets (drop_bit 18 v AND 0x3F) (drop_bit 12 v AND 0x3F) (drop_bit 6 v AND 0x3F) (v AND 0x3F) = v"
  proof (rule bit_word_eqI)
    fix n assume "n < LENGTH(32)"
    consider "n < 6" | "6 \<le> n" "n < 12" | "12 \<le> n" "n < 18" | "18 \<le> n" "n < 24" | "24 \<le> n" by linarith
    then show "bit (sextets (drop_bit 18 v AND 0x3F) (drop_bit 12 v AND 0x3F) (drop_bit 6 v AND 0x3F) (v AND 0x3F)) n \<longleftrightarrow> bit v n"
      unfolding sextets_def m by cases (auto simp: bit_simps h dest: bit_imp_le_length)
  qed
  show "ucast (drop_bit 16 v) = a" "ucast (drop_bit 8 v) = b" "ucast v = c"
    unfolding assms by (rule bit_word_eqI; auto simp: bit_simps dest: bit_imp_le_length)+
qed

lemma mask_6: "(0x3F :: u32) = mask 6"
  by (simp add: mask_eq_exp_minus_1)

lemma base64_not_pad: "BASE64_CHARS ! unat ((v :: u32) AND 0x3F) \<noteq> 61"
  using base64_value_char(2) [of v] by simp

lemma base64_roundtrip: "base64_decode (base64_encode d i) = Some (drop i d)"
proof (induction d i rule: base64_encode.induct)
  case (1 d i)
  show ?case
  proof (cases "i < length d")
    case False
    then show ?thesis by (simp add: base64_encode.simps)
  next
    case i: True
    have d0: "drop i d = d ! i # drop (i + 1) d" using i by (simp add: Cons_nth_drop_Suc)
    consider "length d \<le> i + 1" | "length d = i + 2" | "i + 2 < length d" by linarith
    then show ?thesis
    proof cases
      case 1
      define v :: u32 where "v = push_bit 16 (ucast (d ! i)) OR push_bit 8 (ucast (0 :: u8)) OR ucast (0 :: u8)"
      note s = sextets_split [OF v_def]
      have e: "base64_encode d i = [BASE64_CHARS ! unat (drop_bit 18 v AND 0x3F), BASE64_CHARS ! unat (drop_bit 12 v AND 0x3F), pad_char, pad_char]"
        using 1 i by (subst base64_encode.simps) (simp add: base64_encode.simps [of d "i + 3"] v_def Let_def)
      have z: "drop_bit 6 v AND 0x3F = 0" "v AND 0x3F = 0"
        unfolding v_def mask_6 by (auto intro!: bit_word_eqI simp: bit_simps)
      show ?thesis using s 1 d0 by (simp add: e base64_value_char base64_not_pad z)
    next
      case 2
      define v :: u32 where "v = push_bit 16 (ucast (d ! i)) OR push_bit 8 (ucast (d ! (i + 1))) OR ucast (0 :: u8)"
      note s = sextets_split [OF v_def]
      have e: "base64_encode d i = [BASE64_CHARS ! unat (drop_bit 18 v AND 0x3F), BASE64_CHARS ! unat (drop_bit 12 v AND 0x3F),
          BASE64_CHARS ! unat (drop_bit 6 v AND 0x3F), pad_char]"
        using 2 i by (subst base64_encode.simps) (simp add: base64_encode.simps [of d "i + 3"] v_def Let_def)
      have z: "v AND 0x3F = 0" unfolding v_def mask_6 by (auto intro!: bit_word_eqI simp: bit_simps)
      have d1: "drop (i + 1) d = [d ! (i + 1)]" using 2 by (simp add: Cons_nth_drop_Suc [symmetric])
      show ?thesis using s d0 d1 by (simp add: e base64_value_char base64_not_pad z)
    next
      case 3
      define v :: u32 where "v = push_bit 16 (ucast (d ! i)) OR push_bit 8 (ucast (d ! (i + 1))) OR ucast (d ! (i + 2))"
      note s = sextets_split [OF v_def]
      have e: "base64_encode d i = BASE64_CHARS ! unat (drop_bit 18 v AND 0x3F) # BASE64_CHARS ! unat (drop_bit 12 v AND 0x3F) #
          BASE64_CHARS ! unat (drop_bit 6 v AND 0x3F) # BASE64_CHARS ! unat (v AND 0x3F) # base64_encode d (i + 3)"
        using 3 i by (subst base64_encode.simps) (simp add: v_def Let_def or.assoc)
      have "drop i d = d ! i # d ! (i + 1) # d ! (i + 2) # drop (i + 3) d"
        using 3 by (simp add: Cons_nth_drop_Suc eval_nat_numeral)
      then show ?thesis using s 1 [OF i] by (simp add: e base64_value_char base64_not_pad)
    qed
  qed
qed

text \<open>The server's answer to the handshake is the one RFC 6455 asks for: decoded from Base64 it is the SHA-1
  digest, as the standard defines it, of the client's key followed by the protocol's identifier. This holds
  whatever the memory of the hash context held before.\<close>

theorem ws_accept_correct:
  assumes "length junk = 64" and "length ws_key < 2 ^ 60"
  shows "base64_decode (compute_ws_accept junk ws_key) = Some (sha1_standard (ws_key @ ws_magic))"
proof -
  have "length ws_magic = 36" by (simp add: ws_magic_def)
  then have "length (ws_key @ ws_magic) < 2 ^ 61" using assms(2) by simp
  from sha1_raw_standard [OF assms(1) this] show ?thesis by (simp add: compute_ws_accept_def base64_roundtrip)
qed

text \<open>The example of the RFC: the key \<open>dGhlIHNhbXBsZSBub25jZQ==\<close>.\<close>

lemma ws_accept_correct_witness:
  "base64_decode (compute_ws_accept (replicate 64 7) (chars ''dGhlIHNhbXBsZSBub25jZQ=='')) =
     Some (sha1_standard (chars ''dGhlIHNhbXBsZSBub25jZQ==258EAFA5-E914-47DA-95CA-C5AB0DC85B11''))"
  using ws_accept_correct [of "replicate 64 7" "chars ''dGhlIHNhbXBsZSBub25jZQ==''"] by (simp add: ws_magic_def)

end
