(* ===== verification/GM_IdGen.thy ===== *)
theory GM_IdGen
  imports GM_Prelude
begin

text \<open>
  The id generator (\<open>idgen/snowflake.hpp\<close>, \<open>snowflake.cpp\<close>). \<open>NowMs\<close> reads the system clock, so the
  readings are an argument: the list of the values the clock shows, one per call. A generator that still
  waits for the clock when the readings end has not returned (\<open>IdWaits\<close>); an exception is \<open>IdThrows\<close>.
\<close>

record snowflake =
  sf_node :: i64
  sf_sequence :: i64
  sf_last :: i64

definition kNodeMax :: i64 where "kNodeMax = push_bit 10 1 - 1"
definition kSequenceMask :: i64 where "kSequenceMask = push_bit 12 1 - 1"
definition kTimeShift :: nat where "kTimeShift = 10 + 12"
definition kNodeShift :: nat where "kNodeShift = 12"
definition kEpoch :: i64 where "kEpoch = 1704067200000"

definition snowflake_new :: "i64 \<Rightarrow> snowflake option" where
  "snowflake_new node =
     (if sint node < 0 \<or> sint node > sint kNodeMax then None
      else Some \<lparr>sf_node = node, sf_sequence = 0, sf_last = - 1\<rparr>)"

text \<open>The loop that waits for the next millisecond.\<close>

fun wait_past :: "i64 \<Rightarrow> i64 list \<Rightarrow> (i64 \<times> i64 list) option" where
  "wait_past t [] = None"
| "wait_past t (now # clock) = (if sint now \<le> sint t then wait_past t clock else Some (now, clock))"

datatype id_result = IdThrows "i64 list" | IdWaits | IdIs i64 snowflake "i64 list"

definition next_id :: "i64 list \<Rightarrow> snowflake \<Rightarrow> id_result" where
  "next_id clock s =
     (case clock of
        [] \<Rightarrow> IdWaits
      | now # clock1 \<Rightarrow>
          if sint now < sint (sf_last s) then IdThrows clock1
          else case (if now = sf_last s
                     then let sequence = (sf_sequence s + 1) AND kSequenceMask
                          in if sequence = 0
                             then map_option (\<lambda>(now, clock). (now, sequence, clock)) (wait_past (sf_last s) clock1)
                             else Some (now, sequence, clock1)
                     else Some (now, 0, clock1)) of
              None \<Rightarrow> IdWaits
            | Some (now, sequence, clock2) \<Rightarrow>
                IdIs (push_bit kTimeShift (now - kEpoch) OR push_bit kNodeShift (sf_node s) OR sequence)
                  (s\<lparr>sf_sequence := sequence, sf_last := now\<rparr>) clock2)"

text \<open>Any number of calls, one after the other; a call that throws gives no id.\<close>

fun next_ids :: "nat \<Rightarrow> i64 list \<Rightarrow> snowflake \<Rightarrow> i64 list" where
  "next_ids 0 clock s = []"
| "next_ids (Suc n) clock s =
     (case next_id clock s of
        IdThrows clock1 \<Rightarrow> next_ids n clock1 s
      | IdWaits \<Rightarrow> []
      | IdIs i s1 clock1 \<Rightarrow> i # next_ids n clock1 s1)"

section \<open>The fields of an id\<close>

lemma snowflake_consts: "kNodeMax = 1023" "kSequenceMask = 4095" "kTimeShift = 22" "kNodeShift = 12"
  by (simp_all add: kNodeMax_def kSequenceMask_def kTimeShift_def kNodeShift_def)

definition clock_ok :: "i64 \<Rightarrow> bool" where
  "clock_ok now \<longleftrightarrow> 1704067200000 \<le> uint now \<and> uint now < 1704067200000 + 2 ^ 41"

definition sf_ok :: "snowflake \<Rightarrow> bool" where
  "sf_ok s \<longleftrightarrow> uint (sf_node s) < 1024 \<and> uint (sf_sequence s) < 4096 \<and> (sf_last s = - 1 \<or> clock_ok (sf_last s))"

text \<open>The value of the id last given out, or less than any id.\<close>

definition id_value :: "i64 \<Rightarrow> i64 \<Rightarrow> i64 \<Rightarrow> int" where
  "id_value now node sequence = (uint now - 1704067200000) * 4194304 + uint node * 4096 + uint sequence"

definition sf_value :: "snowflake \<Rightarrow> int" where
  "sf_value s = (if sf_last s = - 1 then - 1 else id_value (sf_last s) (sf_node s) (sf_sequence s))"

lemma clock_sint: "clock_ok now \<Longrightarrow> sint now = uint now"
  by (simp add: clock_ok_def sint64_cases)

lemma id_fields:
  assumes "clock_ok now" and "uint node < 1024" and "uint sq < 4096"
  shows "uint (push_bit 22 (now - kEpoch) OR push_bit 12 node OR sq) = id_value now node sq"
    "id_value now node sq < 2 ^ 63" "0 \<le> id_value now node sq"
proof -
  have t: "uint (now - kEpoch) = uint now - 1704067200000"
    using assms(1) by (simp add: clock_ok_def kEpoch_def uint_word_ariths mod_pos_pos_trivial)
  have low: "uint (push_bit 12 node + sq) = uint node * 4096 + uint sq"
    using assms(2,3) by (simp add: uint_word_ariths uint_push_bit mod_pos_pos_trivial)
  have o: "push_bit 12 node OR sq = push_bit 12 node + sq" by (rule push_or_eq_plus) (use assms(3) in simp)
  have "push_bit 22 (now - kEpoch) OR push_bit 12 node OR sq = push_bit 22 (now - kEpoch) + (push_bit 12 node + sq)"
    unfolding o [symmetric] by (rule push_or_eq_plus) (use assms(2,3) low o in simp)
  then show "uint (push_bit 22 (now - kEpoch) OR push_bit 12 node OR sq) = id_value now node sq"
    using assms t low by (simp add: id_value_def uint_add64 uint_push_bit clock_ok_def mod_pos_pos_trivial)
  show "id_value now node sq < 2 ^ 63" "0 \<le> id_value now node sq"
    using assms uint_ge_0 [of node] uint_ge_0 [of sq] by (auto simp: id_value_def clock_ok_def)
qed

lemma id_node:
  assumes "clock_ok now" and "uint node < 1024" and "uint sq < 4096"
  shows "(uint (push_bit 22 (now - kEpoch) OR push_bit 12 node OR sq) div 4096) mod 1024 = uint node"
proof -
  define T where "T = uint now - 1704067200000"
  have "id_value now node sq = (T * 1024 + uint node) * 4096 + uint sq" by (simp add: id_value_def T_def)
  then have "id_value now node sq div 4096 = T * 1024 + uint node"
    using assms(3) by (simp add: div_add1_eq)
  then show ?thesis unfolding id_fields(1) [OF assms] using assms(2) by simp
qed

lemma wait_past_some: "wait_past t clock = Some (now, clock1) \<Longrightarrow> sint t < sint now \<and> now \<in> set clock \<and> set clock1 \<subseteq> set clock"
  by (induction t clock rule: wait_past.induct) (auto split: if_splits)

lemma wait_past_returns: "\<exists>c \<in> set clock. sint t < sint c \<Longrightarrow> wait_past t clock \<noteq> None"
  by (induction t clock rule: wait_past.induct) auto

lemma next_sequence:
  "uint ((sq + 1) AND 4095 :: i64) < 4096" "(sq + 1) AND 4095 \<noteq> 0 \<Longrightarrow> uint sq < 4096 \<Longrightarrow> uint ((sq + 1) AND 4095 :: i64) = uint sq + 1"
proof -
  have m: "(4095 :: i64) = mask 12" by (simp add: mask_eq_exp_minus_1)
  have u: "uint ((sq + 1) AND 4095) = uint (sq + 1) mod 4096"
    unfolding m take_bit_eq_mask [symmetric] by (simp add: uint_take_bit)
  then show "uint ((sq + 1) AND 4095 :: i64) < 4096" by simp
  assume a: "(sq + 1) AND 4095 \<noteq> 0" "uint sq < 4096"
  have s: "uint (sq + 1) = uint sq + 1" using a(2) uint_add64 [of sq 1] by simp
  have "uint sq \<noteq> 4095" using a(1) u s by (auto simp: word_uint_eq_iff)
  then show "uint ((sq + 1) AND 4095 :: i64) = uint sq + 1" using u s a(2) by (simp add: mod_pos_pos_trivial)
qed

lemma next_id_ok:
  assumes "sf_ok s" and "\<forall>c \<in> set clock. clock_ok c" and "next_id clock s = IdIs i s1 clock1"
  shows "sf_ok s1 \<and> sint i = sf_value s1 \<and> sf_value s < sf_value s1 \<and> sf_node s1 = sf_node s \<and> set clock1 \<subseteq> set clock \<and>
    (uint i div 4096) mod 1024 = uint (sf_node s)"
proof -
  obtain now clock0 where c: "clock = now # clock0" using assms(3) by (cases clock) (auto simp: next_id_def)
  have node: "uint (sf_node s) < 1024" and sq: "uint (sf_sequence s) < 4096" using assms(1) by (auto simp: sf_ok_def)
  have nt: "\<not> sint now < sint (sf_last s)" using assms(3) c by (auto simp: next_id_def split: if_splits)
  obtain now1 sq1 where r: "s1 = s\<lparr>sf_sequence := sq1, sf_last := now1\<rparr>" "set clock1 \<subseteq> set clock" "now1 \<in> set clock"
    "i = push_bit 22 (now1 - kEpoch) OR push_bit 12 (sf_node s) OR sq1"
    "sint (sf_last s) < sint now1 \<and> sq1 = 0 \<or> now1 = sf_last s \<and> uint sq1 = uint (sf_sequence s) + 1 \<and> uint sq1 < 4096"
  proof (cases "now = sf_last s")
    case True
    show ?thesis
    proof (cases "(sf_sequence s + 1) AND 4095 = 0")
      case z: True
      then obtain n2 cl2 where w: "wait_past (sf_last s) clock0 = Some (n2, cl2)"
        "s1 = s\<lparr>sf_sequence := 0, sf_last := n2\<rparr>" "clock1 = cl2" "i = push_bit 22 (n2 - kEpoch) OR push_bit 12 (sf_node s) OR 0"
        using assms(3) True nt by (auto simp: next_id_def c snowflake_consts Let_def split: option.splits)
      then show ?thesis using that [of n2 0] wait_past_some [OF w(1)] c by auto
    next
      case nz: False
      then have "s1 = s\<lparr>sf_sequence := (sf_sequence s + 1) AND 4095, sf_last := now\<rparr>" "clock1 = clock0"
        "i = push_bit 22 (now - kEpoch) OR push_bit 12 (sf_node s) OR ((sf_sequence s + 1) AND 4095)"
        using assms(3) True nt by (auto simp: next_id_def c snowflake_consts Let_def)
      then show ?thesis using that [of now "(sf_sequence s + 1) AND 4095"] True next_sequence(1) [of "sf_sequence s"] next_sequence(2) [OF nz sq] c by auto
    qed
  next
    case False
    then have "sint (sf_last s) < sint now" using nt by (metis linorder_neqE_linordered_idom signed_word_eqI)
    moreover have "s1 = s\<lparr>sf_sequence := 0, sf_last := now\<rparr>" "clock1 = clock0" "i = push_bit 22 (now - kEpoch) OR push_bit 12 (sf_node s) OR 0"
      using assms(3) False nt by (auto simp: next_id_def c snowflake_consts)
    ultimately show ?thesis using that [of now 0] c by auto
  qed
  have ok1: "clock_ok now1" using r(3) assms(2) by blast
  have sq1: "uint sq1 < 4096" using r(5) by auto
  have "now1 \<noteq> - 1" using ok1 by (auto simp: clock_ok_def unsigned_minus_1_eq_mask mask_eq_exp_minus_1)
  then have v: "sf_value s1 = id_value now1 (sf_node s) sq1" by (simp add: sf_value_def r(1))
  have f: "uint i = id_value now1 (sf_node s) sq1" "id_value now1 (sf_node s) sq1 < 2 ^ 63" "0 \<le> id_value now1 (sf_node s) sq1"
    using id_fields [OF ok1 node sq1] r(4) by simp_all
  have "sf_value s < sf_value s1"
  proof (cases "sf_last s = - 1")
    case True
    then show ?thesis using v f(3) by (simp add: sf_value_def)
  next
    case False
    then have "clock_ok (sf_last s)" using assms(1) by (simp add: sf_ok_def)
    then have s: "sint (sf_last s) = uint (sf_last s)" "sint now1 = uint now1" using ok1 clock_sint by blast+
    show ?thesis using r(5) False v node sq s uint_ge_0 [of "sf_node s"] uint_ge_0 [of "sf_sequence s"]
      by (auto simp: sf_value_def id_value_def)
  qed
  moreover have "sf_ok s1" using assms(1) sq1 ok1 by (simp add: sf_ok_def r(1))
  moreover have "sint i = sf_value s1" using f v by (simp add: sint64_cases)
  ultimately show ?thesis using r(1,2) id_node [OF ok1 node sq1] r(4) by simp
qed

lemma next_ids_ok:
  "sf_ok s \<Longrightarrow> \<forall>c \<in> set clock. clock_ok c \<Longrightarrow>
     sorted_wrt (<) (map sint (next_ids n clock s)) \<and>
     (\<forall>i \<in> set (next_ids n clock s). sf_value s < sint i \<and> (uint i div 4096) mod 1024 = uint (sf_node s))"
proof (induction n clock s rule: next_ids.induct)
  case (2 n clock s)
  show ?case
  proof (cases "next_id clock s")
    case (IdThrows clock1)
    then have "set clock1 \<subseteq> set clock" by (auto simp: next_id_def split: list.splits if_splits option.splits)
    then show ?thesis using 2(1) [OF IdThrows 2(3)] 2(4) IdThrows by auto
  next
    case (IdIs i s1 clock1)
    note ok = next_id_ok [OF 2(3,4) IdIs]
    have c1: "\<forall>c \<in> set clock1. clock_ok c" using ok 2(4) by blast
    have "sf_ok s1" using ok by blast
    from 2(2) [OF IdIs this c1] ok show ?thesis using IdIs by auto
  qed simp
qed simp

text \<open>C32: ids never repeat. Whatever the clock shows (it may stand still, jump, or go back, in which case calls
  throw), as long as it stays between 2024 and 2093, the ids of a generator are strictly increasing, and each carries the
  number of its node: generators of different nodes never give out the same id.\<close>

theorem snowflake_unique:
  assumes "snowflake_new node = Some s" and "\<forall>c \<in> set clock. clock_ok c"
  shows "sorted_wrt (<) (map sint (next_ids n clock s)) \<and>
    (\<forall>i \<in> set (next_ids n clock s). (uint i div 4096) mod 1024 = uint node)"
proof -
  have "sf_ok s" "sf_node s = node"
    using assms(1) uint64_bounds [of node] by (auto simp: snowflake_new_def sf_ok_def snowflake_consts sint64_cases split: if_splits)
  then show ?thesis using next_ids_ok [OF _ assms(2)] by blast
qed

text \<open>Four calls on a clock that stands still and then goes back: the third throws.\<close>

definition demo_clock :: "i64 list" where
  "demo_clock = [1704067200005, 1704067200005, 1704067200003, 1704067200009]"

lemma demo_ids:
  "next_ids 4 demo_clock \<lparr>sf_node = 7, sf_sequence = 0, sf_last = - 1\<rparr> = [21000192, 21000193, 37777408]"
  by code_simp

lemma snowflake_unique_witness:
  "sorted_wrt (<) (map sint [21000192, 21000193, 37777408 :: i64]) \<and>
   next_ids 4 demo_clock \<lparr>sf_node = 7, sf_sequence = 0, sf_last = - 1\<rparr> = [21000192, 21000193, 37777408]"
proof -
  have s: "snowflake_new 7 = Some \<lparr>sf_node = 7, sf_sequence = 0, sf_last = - 1\<rparr>"
    by (simp add: snowflake_new_def snowflake_consts)
  have c: "\<forall>c \<in> set demo_clock. clock_ok c" by (simp add: demo_clock_def clock_ok_def)
  show ?thesis using snowflake_unique [OF s c, of 4] unfolding demo_ids by blast
qed

text \<open>A call returns as soon as the clock has passed the last id's millisecond.\<close>

lemma next_id_returns:
  assumes "sint (sf_last s) \<le> sint now" and "\<exists>c \<in> set clock. sint (sf_last s) < sint c"
  shows "\<exists>i s1 clock1. next_id (now # clock) s = IdIs i s1 clock1"
  using assms wait_past_returns [OF assms(2)] by (auto simp: next_id_def Let_def split: option.splits)

end
