(* ===== verification/GM_Nonce.thy ===== *)
theory GM_Nonce
  imports GM_Prelude
begin

text \<open>
  The replay checker (\<open>replay/replay.hpp\<close>, \<open>replay.cpp\<close>). Time points are nanoseconds since the epoch, as
  integers: the 64 bits of the clock last until 2262. The reading of the clock is an argument of
  each operation; nothing is assumed about consecutive readings, a system clock can be set back. Every
  operation is one step (the code reads \<open>min_ts_\<close> before it takes the lock; that race is not modelled).
\<close>

section \<open>Decimal numbers\<close>

definition digit_char :: "nat \<Rightarrow> char" where
  "digit_char n = char_of (48 + n)"

fun nat_string :: "nat \<Rightarrow> string" where
  "nat_string n = (if n < 10 then [digit_char n] else nat_string (n div 10) @ [digit_char (n mod 10)])"

declare nat_string.simps [simp del]

text \<open>\<open>std::to_string\<close> of a signed integer.\<close>

definition int_string :: "int \<Rightarrow> string" where
  "int_string i = (if i < 0 then CHR ''-'' # nat_string (nat (- i)) else nat_string (nat i))"

definition string_nat :: "string \<Rightarrow> nat" where
  "string_nat s = foldl (\<lambda>n c. 10 * n + (of_char c - 48)) 0 s"

lemma of_digit_char: "n < 10 \<Longrightarrow> of_char (digit_char n) = (48 + n :: nat)"
  by (simp add: digit_char_def)

lemma nat_string_inverse: "string_nat (nat_string n) = n"
proof (induction n rule: nat_string.induct)
  case (1 n)
  then show ?case by (subst nat_string.simps) (auto simp: string_nat_def of_digit_char)
qed

lemma nat_string_digits: "c \<in> set (nat_string n) \<Longrightarrow> 48 \<le> (of_char c :: nat) \<and> of_char c \<le> (57 :: nat)"
proof (induction n rule: nat_string.induct)
  case (1 n)
  show ?case
  proof (cases "n < 10")
    case True
    then show ?thesis using 1(2) by (simp add: nat_string.simps [of n] of_digit_char)
  next
    case False
    then show ?thesis using 1(2) 1(1) [OF False] of_digit_char [of "n mod 10"] by (auto simp: nat_string.simps [of n])
  qed
qed

lemma nat_string_chars: "CHR '':'' \<notin> set (nat_string n)" "CHR ''-'' \<notin> set (nat_string n)"
  using nat_string_digits [of "CHR '':''" n] nat_string_digits [of "CHR ''-''" n] by auto

lemma nat_string_not_empty: "nat_string n \<noteq> []"
  by (subst nat_string.simps) simp

lemma int_string_inject: "int_string i = int_string j \<longleftrightarrow> i = j"
proof
  assume e: "int_string i = int_string j"
  have h: "hd (nat_string n) \<noteq> CHR ''-''" for n
    using nat_string_chars(2) [of n] nat_string_not_empty [of n] by (metis hd_in_set)
  have g: "nat_string a = nat_string b \<Longrightarrow> a = b" for a b by (metis nat_string_inverse)
  show "i = j"
    using e h [of "nat i"] h [of "nat j"] by (auto simp: int_string_def dest!: g split: if_splits)
      (metis list.sel(1))+
qed simp

section \<open>The checker\<close>

record checker =
  ck_window :: int
  ck_nonces :: "(string \<times> int) list"
  ck_min :: int

definition checker_new :: "int \<Rightarrow> int \<Rightarrow> checker" where
  "checker_new now window = \<lparr>ck_window = window, ck_nonces = [], ck_min = now - window\<rparr>"

definition nonce_key :: "int \<Rightarrow> string \<Rightarrow> string" where
  "nonce_key ts nonce = int_string ts @ '':'' @ nonce"

definition gc_locked :: "int \<Rightarrow> checker \<Rightarrow> checker" where
  "gc_locked now c =
     (let cutoff = now - ck_window c
      in if cutoff < ck_min c then c
         else c\<lparr>ck_min := cutoff, ck_nonces := filter (\<lambda>(k, t). \<not> t < cutoff) (ck_nonces c)\<rparr>)"

definition checker_check :: "int \<Rightarrow> int \<Rightarrow> string \<Rightarrow> checker \<Rightarrow> bool \<times> checker" where
  "checker_check now ts nonce c =
     (if ts > now + 30 * 1000000000 then (False, c)
      else if ts < ck_min c then (False, c)
      else let key = nonce_key ts nonce
           in if map_of (ck_nonces c) key \<noteq> None then (False, c)
              else (True, gc_locked now (c\<lparr>ck_nonces := AList.update key now (ck_nonces c)\<rparr>)))"

definition checker_clean :: "int \<Rightarrow> checker \<Rightarrow> checker" where
  "checker_clean now c = gc_locked now c"

text \<open>A history: calls of \<open>Check\<close> and \<open>Clean\<close>, each with its clock reading.\<close>

datatype check_op = OpCheck int int string | OpClean int

fun check_step :: "check_op \<Rightarrow> checker \<Rightarrow> checker" where
  "check_step (OpCheck now ts nonce) c = snd (checker_check now ts nonce c)"
| "check_step (OpClean now) c = checker_clean now c"

section \<open>What it guarantees\<close>

lemma nonce_key_inject: "nonce_key ts n = nonce_key ts' n' \<longleftrightarrow> ts = ts' \<and> n = n'"
proof
  assume e: "nonce_key ts n = nonce_key ts' n'"
  have c: "CHR '':'' \<notin> set (int_string i)" for i
    using nat_string_chars(1) by (auto simp: int_string_def)
  have s: "takeWhile (\<lambda>x. x \<noteq> CHR '':'') (nonce_key i m) = int_string i \<and>
      dropWhile (\<lambda>x. x \<noteq> CHR '':'') (nonce_key i m) = CHR '':'' # m" for i m
    using c [of i] by (auto simp: nonce_key_def takeWhile_append dropWhile_append)
  then have "int_string ts = int_string ts'" "n = n'" using e by (metis, metis list.inject)
  then show "ts = ts' \<and> n = n'" by (simp add: int_string_inject)
qed simp

definition remembers :: "int \<Rightarrow> string \<Rightarrow> checker \<Rightarrow> bool" where
  "remembers ts nonce c \<longleftrightarrow> ts < ck_min c \<or> (\<exists>t \<ge> ts. (nonce_key ts nonce, t) \<in> set (ck_nonces c))"

lemma remembers_gc: "remembers ts nonce c \<Longrightarrow> remembers ts nonce (gc_locked now c)"
  by (auto simp: remembers_def gc_locked_def Let_def)

lemma update_keeps: "(k, v) \<in> set m \<Longrightarrow> map_of m k' = None \<Longrightarrow> (k, v) \<in> set (AList.update k' v' m)"
  by (metis um_keys_update_new map_of_eq_None_iff Un_iff image_set set_append)

lemma remembers_step: "remembers ts nonce c \<Longrightarrow> remembers ts nonce (check_step op c)"
proof (cases op)
  case (OpCheck now ts' nonce')
  assume r: "remembers ts nonce c"
  have "remembers ts nonce (c\<lparr>ck_nonces := AList.update k now (ck_nonces c)\<rparr>)" if "map_of (ck_nonces c) k = None" for k
    using r update_keeps [OF _ that] by (auto simp: remembers_def)
  then show ?thesis using r by (auto simp: OpCheck checker_check_def Let_def intro: remembers_gc)
next
  case (OpClean now)
  assume "remembers ts nonce c"
  then show ?thesis by (simp add: OpClean checker_clean_def remembers_gc)
qed

lemma remembers_rejects: "remembers ts nonce c \<Longrightarrow> \<not> fst (checker_check now ts nonce c)"
proof -
  assume "remembers ts nonce c"
  then consider "ts < ck_min c" | t where "(nonce_key ts nonce, t) \<in> set (ck_nonces c)" by (auto simp: remembers_def)
  then show ?thesis
  proof cases
    case 2
    then have "map_of (ck_nonces c) (nonce_key ts nonce) \<noteq> None" by (metis map_of_eq_None_iff_fst fst_conv image_eqI)
    then show ?thesis by (simp add: checker_check_def)
  qed (simp add: checker_check_def)
qed

text \<open>C33: no message is accepted twice. Once \<open>Check\<close> has accepted a time stamp that is not ahead of the clock, it
  rejects the same time stamp and nonce for ever, whatever other checks and clean-ups happen in between and
  whatever the clock shows then.\<close>

theorem replay_rejected:
  assumes "fst (checker_check now ts nonce c)" and "ts \<le> now"
  shows "\<not> fst (checker_check now' ts nonce (foldl (\<lambda>c op. check_step op c) (snd (checker_check now ts nonce c)) ops))"
proof -
  have "remembers ts nonce (c\<lparr>ck_nonces := AList.update (nonce_key ts nonce) now (ck_nonces c)\<rparr>)"
    using assms(2) by (auto simp: remembers_def um_keys_update_new intro!: exI [of _ now])
      (metis map_of_SomeD map_of_eq_None_iff um_get_update option.distinct(1))
  then have "remembers ts nonce (snd (checker_check now ts nonce c))"
    using assms(1) remembers_gc by (auto simp: checker_check_def Let_def split: if_splits)
  then have "remembers ts nonce (foldl (\<lambda>c op. check_step op c) (snd (checker_check now ts nonce c)) ops)"
    by (rule foldl_invariant) (rule remembers_step)
  then show ?thesis by (rule remembers_rejects)
qed

text \<open>A window of 60 seconds; the message of second 0 comes again in second 50 and, after a clean-up, in second 100.\<close>

lemma replay_rejected_witness:
  "fst (checker_check 0 0 ''n'' (checker_new 0 60000000000)) \<and>
   \<not> fst (checker_check 100000000000 0 ''n''
      (foldl (\<lambda>c op. check_step op c) (snd (checker_check 0 0 ''n'' (checker_new 0 60000000000)))
        [OpCheck 50000000000 0 ''n'', OpClean 90000000000]))"
proof -
  have a: "fst (checker_check 0 0 ''n'' (checker_new 0 60000000000))" by (simp add: checker_check_def checker_new_def)
  show ?thesis using a replay_rejected [OF a order.refl] by blast
qed

text \<open>A time stamp ahead of the clock is forgotten too early: the entry is dated with the clock, the window with the
  stamp. In second 0 a message of second 30 is accepted; after a clean-up in second 75 it is accepted again.\<close>

lemma future_nonce_replayed:
  "let c1 = checker_check 0 30000000000 ''n'' (checker_new 0 60000000000);
       c2 = checker_clean 75000000000 (snd c1);
       c3 = checker_check 76000000000 30000000000 ''n'' c2
   in fst c1 \<and> fst c3"
  by (simp add: checker_check_def checker_new_def checker_clean_def gc_locked_def Let_def)

end
