(* ===== verification/GM_Gateway.thy ===== *)
theory GM_Gateway
  imports GM_Packet GM_Nonce
begin

text \<open>
  The client side of the gateway (\<open>services/gateway-cpp/main.cpp\<close>, with the key derivation of
  \<open>crypto/session.cpp\<close> and the middleware chain of \<open>net/async/tcp_server.cpp\<close>): the handshake and encryption
  middlewares, the handlers of the four transports, the binding of players to connections, the rooms,
  and the routing of packets to the services and of their answers to the clients.

  Every handler is one step (its locks make the accesses to each map atomic; the interleaving of two
  handlers between their locks is not modelled). What a handler does to the outside is the list of its
  calls: what it sends to which connection object, what it closes, what it gives to which service. The
  unordered maps are maps, an unordered set of connections is a list, whose order is one the
  library may choose. Payloads are the bytes of their buffers; no buffer is written to after it was built.

  The protobuf messages of generated code, the random numbers, HMAC and AES-GCM, the clocks and the pools
  of upstream connections are the fields of an environment that may be another one in every step.
\<close>

section \<open>Connections, packets and the environment\<close>

text \<open>The object behind an \<open>IConnection\<close> pointer, with the number its own server has given it.\<close>

datatype cref = CTcp u64 | CWs u64 | CKcp u64 | CUdp u64

fun conn_id :: "cref \<Rightarrow> u64" where
  "conn_id (CTcp n) = n"
| "conn_id (CWs n) = n OR push_bit 63 1"
| "conn_id (CKcp n) = n"
| "conn_id (CUdp n) = n"

record gpacket =
  gp_header :: packet_header
  gp_payload :: bytes

definition gp_encode :: "gpacket \<Rightarrow> bytes" where
  "gp_encode p = encode_bytes (gp_header p) (gp_payload p)"

definition CMD_SYS_HANDSHAKE :: u32 where "CMD_SYS_HANDSHAKE = 2"
definition CMD_SYS_ERROR_PACKET :: u32 where "CMD_SYS_ERROR_PACKET = 3"
definition CMD_GW_ROOM_JOIN :: u32 where "CMD_GW_ROOM_JOIN = 4112"
definition CMD_GW_ROOM_LEAVE :: u32 where "CMD_GW_ROOM_LEAVE = 4113"
definition CMD_GW_PLAYER_BIND :: u32 where "CMD_GW_PLAYER_BIND = 4128"
definition CMD_GW_PLAYER_KICK :: u32 where "CMD_GW_PLAYER_KICK = 4129"

definition ERR_INVALID_PARAM :: u32 where "ERR_INVALID_PARAM = 2"
definition ERR_AUTH_FAILED :: u32 where "ERR_AUTH_FAILED = 100"
definition ERR_SERVICE_UNAVAILABLE :: u32 where "ERR_SERVICE_UNAVAILABLE = 201"

lemmas gw_consts = CMD_SYS_HANDSHAKE_def CMD_SYS_ERROR_PACKET_def CMD_GW_ROOM_JOIN_def CMD_GW_ROOM_LEAVE_def
  CMD_GW_PLAYER_BIND_def CMD_GW_PLAYER_KICK_def ERR_INVALID_PARAM_def ERR_AUTH_FAILED_def ERR_SERVICE_UNAVAILABLE_def

text \<open>What is not under the control of the code. \<open>None\<close> is an exception, or a parser or serialiser that
  reports failure; the number given to \<open>ge_encrypt\<close> counts the encryptions of one step, so that each may draw a
  nonce of its own. \<open>ge_mgr\<close>: the upstream manager exists; \<open>ge_pool\<close>: it has a pool for a service;
  \<open>ge_pool_send\<close>: the result of the pool's \<open>SendPacket\<close>.\<close>

record gw_env =
  ge_now :: int
  ge_wall :: int
  ge_random :: "(nat \<Rightarrow> u8) option"
  ge_hmac :: "bytes \<Rightarrow> bytes \<Rightarrow> bytes option"
  ge_encrypt :: "nat \<Rightarrow> bytes \<Rightarrow> bytes \<Rightarrow> bytes option"
  ge_decrypt :: "bytes \<Rightarrow> bytes \<Rightarrow> bytes option"
  ge_bind_req :: "bytes \<Rightarrow> (u64 \<times> bytes) option"
  ge_bind_res :: "bytes \<Rightarrow> u32 option"
  ge_kick :: "string \<Rightarrow> bytes option"
  ge_mgr :: bool
  ge_pool :: "string \<Rightarrow> bool"
  ge_pool_send :: "string \<Rightarrow> gpacket \<Rightarrow> bool"

datatype gw_event =
    EvSend cref bytes
  | EvSendPacket cref gpacket
  | EvEnqueue cref gpacket
  | EvClose cref
  | EvCloseAfterWrite cref
  | EvForward string gpacket

record pending_bind =
  pb_player :: u64
  pb_seq :: u32
  pb_at :: int

record gateway =
  gw_clients :: "u64 \<Rightarrow> cref option"
  gw_ws :: "u64 \<Rightarrow> cref option"
  gw_kcp :: "u64 \<Rightarrow> cref option"
  gw_udp :: "u64 \<Rightarrow> cref option"
  gw_sessions :: "u64 \<Rightarrow> bytes option"
  gw_replay :: checker
  gw_rooms :: "u64 \<Rightarrow> u64 list option"
  gw_conn_room :: "u64 \<Rightarrow> u64 option"
  gw_player_conn :: "u64 \<Rightarrow> u64 option"
  gw_conn_player :: "u64 \<Rightarrow> u64 option"
  gw_pending :: "u64 \<Rightarrow> pending_bind option"
  gw_gauge :: int
  gw_requests :: nat
  gw_master :: bytes
  gw_services :: "string list"

text \<open>The state \<open>Start\<close> leaves behind, for a configuration with the given replay window, master key and services.\<close>

definition gateway_new :: "int \<Rightarrow> int \<Rightarrow> bytes \<Rightarrow> string list \<Rightarrow> gateway" where
  "gateway_new now window_seconds master services =
     \<lparr>gw_clients = Map.empty, gw_ws = Map.empty, gw_kcp = Map.empty, gw_udp = Map.empty, gw_sessions = Map.empty,
      gw_replay = checker_new now (window_seconds * 1000000000), gw_rooms = Map.empty, gw_conn_room = Map.empty,
      gw_player_conn = Map.empty, gw_conn_player = Map.empty, gw_pending = Map.empty, gw_gauge = 0, gw_requests = 0,
      gw_master = master, gw_services = services\<rparr>"

section \<open>Session keys\<close>

definition session_label :: bytes where
  "session_label = [103, 109, 97, 107, 101, 114, 45, 115, 101, 115, 115, 105, 111, 110, 45, 118, 49]"

definition derive_session_key :: "(bytes \<Rightarrow> bytes \<Rightarrow> bytes option) \<Rightarrow> bytes \<Rightarrow> bytes \<Rightarrow> bytes \<Rightarrow> bytes option" where
  "derive_session_key hmac master client_random server_random =
     (if length master \<noteq> 32 then None else hmac master (session_label @ client_random @ server_random))"

definition random_bytes :: "(nat \<Rightarrow> u8) option \<Rightarrow> nat \<Rightarrow> bytes option" where
  "random_bytes rnd n = (case rnd of None \<Rightarrow> None | Some r \<Rightarrow> Some (map r [0..<n]))"

definition encrypt_packet_payload :: "(bytes \<Rightarrow> bytes \<Rightarrow> bytes option) \<Rightarrow> bytes \<Rightarrow> bytes \<Rightarrow> bytes option" where
  "encrypt_packet_payload aes key payload = (if length key \<noteq> 32 then None else aes key payload)"

definition decrypt_packet_payload :: "(bytes \<Rightarrow> bytes \<Rightarrow> bytes option) \<Rightarrow> bytes \<Rightarrow> bytes \<Rightarrow> bytes option" where
  "decrypt_packet_payload aes key payload = (if length key \<noteq> 32 then None else aes key payload)"

section \<open>The handshake\<close>

definition get_session_key :: "gateway \<Rightarrow> u64 \<Rightarrow> bytes" where
  "get_session_key s cid = (case gw_sessions s cid of Some key \<Rightarrow> key | None \<Rightarrow> [])"

definition remove_session :: "u64 \<Rightarrow> gateway \<Rightarrow> gateway" where
  "remove_session cid s = s\<lparr>gw_sessions := (gw_sessions s)(cid := None)\<rparr>"

text \<open>\<open>system_clock::from_time_t\<close>: seconds to nanoseconds in 64 bits. The product can overflow, which is undefined
  in C++; the wrapped value stands for it.\<close>

definition from_time_t :: "i64 \<Rightarrow> int" where
  "from_time_t t = sint (t * 1000000000)"

text \<open>\<open>None\<close>: an exception leaves the handler, and with it the callback of the event loop.\<close>

definition handle_handshake :: "gw_env \<Rightarrow> cref \<Rightarrow> gpacket \<Rightarrow> gateway \<Rightarrow> (gateway \<times> gw_event list) option" where
  "handle_handshake e c pkt s =
     (let pl = gp_payload pkt
      in if length pl < 1 + 8 + 8 + 16 then Some (s, [EvClose c])
         else if pl ! 0 \<noteq> 1 then Some (s, [EvClose c])
         else let timestamp = read_u64be (drop 1 pl);
                  nonce = map (\<lambda>b. char_of (unat b)) (take 8 (drop 9 pl));
                  client_random = take 16 (drop 17 pl);
                  (fresh, ck) = checker_check (ge_wall e) (from_time_t timestamp) nonce (gw_replay s);
                  s1 = s\<lparr>gw_replay := ck\<rparr>
              in if \<not> fresh then Some (s1, [EvClose c])
                 else do {
                   server_random \<leftarrow> random_bytes (ge_random e) 16;
                   session_key \<leftarrow> derive_session_key (ge_hmac e) (gw_master s) client_random server_random;
                   challenge \<leftarrow> encrypt_packet_payload (ge_encrypt e 0) session_key client_random;
                   let payload = 1 # server_random @ challenge;
                   Some (s1\<lparr>gw_sessions := (gw_sessions s1)(conn_id c \<mapsto> session_key)\<rparr>,
                     [EvSendPacket c \<lparr>gp_header = default_header\<lparr>ph_cmd := CMD_SYS_HANDSHAKE, ph_seq := ph_seq (gp_header pkt),
                         ph_length := HEADER_SIZE + of_nat (length payload)\<rparr>, gp_payload = payload\<rparr>]) })"

text \<open>The two middlewares. A middleware that stops the packet yields false, or no packet.\<close>

definition handshake_on_packet ::
    "gw_env \<Rightarrow> cref \<Rightarrow> gpacket \<Rightarrow> gateway \<Rightarrow> (bool \<times> gateway \<times> gw_event list) option" where
  "handshake_on_packet e c pkt s =
     (if ph_cmd (gp_header pkt) \<noteq> CMD_SYS_HANDSHAKE then Some (True, s, [])
      else map_option (\<lambda>r. (False, r)) (handle_handshake e c pkt s))"

definition encryption_on_packet :: "gw_env \<Rightarrow> cref \<Rightarrow> gpacket \<Rightarrow> gateway \<Rightarrow> gpacket option \<times> gw_event list" where
  "encryption_on_packet e c pkt s =
     (if gw_sessions s (conn_id c) = None then (None, [EvClose c])
      else let session_key = get_session_key s (conn_id c)
           in if session_key = [] then (None, [EvClose c])
              else if gp_payload pkt = [] then (Some pkt, [])
              else case decrypt_packet_payload (ge_decrypt e) session_key (gp_payload pkt) of
                     Some decrypted \<Rightarrow> (Some (pkt\<lparr>gp_payload := decrypted\<rparr>), [])
                   | None \<Rightarrow> (None, [EvClose c]))"

definition decode_client_packet :: "bytes \<Rightarrow> gpacket option" where
  "decode_client_packet d = map_option (\<lambda>(h, pl). \<lparr>gp_header = h, gp_payload = pl\<rparr>) (decode_bytes d)"

section \<open>Error payloads\<close>

function append_varint :: "bytes \<Rightarrow> u64 \<Rightarrow> bytes" where
  "append_varint out v =
     (if v \<ge> 0x80 then append_varint (out @ [ucast v OR 0x80]) (drop_bit 7 v) else out @ [ucast v])"
  by auto
termination
  by (relation "measure (\<lambda>(_, v). unat v)") (auto simp: word_le_nat_alt unat_div_distrib drop_bit_eq_div)

declare append_varint.simps [simp del]

definition encode_common_result :: "u32 \<Rightarrow> string \<Rightarrow> bytes" where
  "encode_common_result code msg =
     (let out = append_varint (append_varint [] (push_bit 3 2 OR 0)) (ucast code)
      in if msg \<noteq> [] then append_varint (append_varint out (push_bit 3 3 OR 2)) (of_nat (length msg)) @ map of_char msg
         else out)"

section \<open>Sending to clients\<close>

text \<open>The object a packet for a connection goes to: the WebSocket adapter, the KCP or the UDP connection of that
  id, or the one of \<open>clients_\<close>.\<close>

definition pick_conn :: "gateway \<Rightarrow> u64 \<Rightarrow> cref \<Rightarrow> cref" where
  "pick_conn s cid it =
     (case gw_ws s cid of Some c \<Rightarrow> c
      | None \<Rightarrow> (case gw_kcp s cid of Some c \<Rightarrow> c
      | None \<Rightarrow> (case gw_udp s cid of Some c \<Rightarrow> c | None \<Rightarrow> it)))"

definition with_payload :: "gpacket \<Rightarrow> bytes \<Rightarrow> gpacket" where
  "with_payload p pl =
     \<lparr>gp_header = (gp_header p)\<lparr>ph_length := HEADER_SIZE + of_nat (length pl)\<rparr>, gp_payload = pl\<rparr>"

definition mark_encrypted :: "gpacket \<Rightarrow> gpacket" where
  "mark_encrypted p = p\<lparr>gp_header := (gp_header p)\<lparr>ph_flags := or_flag (ph_flags (gp_header p)) FlagEncrypt\<rparr>\<rparr>"

text \<open>The encryption before a direct send: with no session key or an empty payload the packet stays as it is.\<close>

definition seal_packet :: "gw_env \<Rightarrow> bytes \<Rightarrow> gpacket \<Rightarrow> gpacket option" where
  "seal_packet e session_key p =
     (if session_key \<noteq> [] \<and> gp_payload p \<noteq> [] then
        (case encrypt_packet_payload (ge_encrypt e 0) session_key (gp_payload p) of
           Some encrypted \<Rightarrow> Some (mark_encrypted (with_payload p encrypted))
         | None \<Rightarrow> None)
      else Some p)"

definition kick_connection :: "gw_env \<Rightarrow> u64 \<Rightarrow> string \<Rightarrow> gateway \<Rightarrow> gw_event list" where
  "kick_connection e cid reason s =
     (case ge_kick e reason of None \<Rightarrow> []
      | Some notify \<Rightarrow>
          (let kick_pkt = with_payload \<lparr>gp_header = default_header\<lparr>ph_cmd := CMD_GW_PLAYER_KICK\<rparr>, gp_payload = []\<rparr> notify
           in case gw_clients s cid of None \<Rightarrow> []
              | Some it \<Rightarrow>
                  (case seal_packet e (get_session_key s cid) kick_pkt of None \<Rightarrow> []
                   | Some out \<Rightarrow> [EvSend (pick_conn s cid it) (gp_encode out), EvCloseAfterWrite it])))"

definition send_to_client_direct :: "gw_env \<Rightarrow> u64 \<Rightarrow> gpacket \<Rightarrow> bool \<Rightarrow> gateway \<Rightarrow> gw_event list" where
  "send_to_client_direct e cid pkt close_after_write s =
     (case gw_clients s cid of None \<Rightarrow> []
      | Some it \<Rightarrow>
          (case seal_packet e (get_session_key s cid) pkt of None \<Rightarrow> []
           | Some out \<Rightarrow>
               (let target = pick_conn s cid it
                in (if close_after_write then EvSend target (gp_encode out)
                    else if gw_ws s cid = None \<and> (gw_kcp s cid \<noteq> None \<or> gw_udp s cid \<noteq> None) then EvSendPacket target out
                    else EvEnqueue target out)
                   # (if close_after_write then [EvCloseAfterWrite it] else []))))"

definition send_error_and_close :: "gw_env \<Rightarrow> u64 \<Rightarrow> u32 \<Rightarrow> u32 \<Rightarrow> string \<Rightarrow> gateway \<Rightarrow> gw_event list" where
  "send_error_and_close e cid seq code msg s =
     (let pkt = with_payload \<lparr>gp_header = default_header\<lparr>ph_cmd := CMD_SYS_ERROR_PACKET, ph_seq := seq,
                    ph_flags := flag_bit FlagRpcRes\<rparr>, gp_payload = []\<rparr> (encode_common_result code msg)
      in case gw_clients s cid of None \<Rightarrow> []
         | Some it \<Rightarrow>
             (case seal_packet e (get_session_key s cid) pkt of None \<Rightarrow> [EvClose it]
              | Some out \<Rightarrow> [EvSend (pick_conn s cid it) (gp_encode out), EvCloseAfterWrite it]))"

section \<open>Players and connections\<close>

definition is_player_bound :: "gateway \<Rightarrow> u64 \<Rightarrow> bool" where
  "is_player_bound s cid \<longleftrightarrow> gw_conn_player s cid \<noteq> None"

definition cleanup_player_state :: "u64 \<Rightarrow> gateway \<Rightarrow> gateway" where
  "cleanup_player_state cid s =
     (let s1 = s\<lparr>gw_pending := (gw_pending s)(cid := None)\<rparr>
      in case gw_conn_player s1 cid of None \<Rightarrow> s1
         | Some player \<Rightarrow>
             s1\<lparr>gw_player_conn := (if gw_player_conn s1 player = Some cid then (gw_player_conn s1)(player := None)
                                   else gw_player_conn s1),
                gw_conn_player := (gw_conn_player s1)(cid := None)\<rparr>)"

definition release_old_player :: "u64 \<Rightarrow> u64 \<Rightarrow> gateway \<Rightarrow> gateway" where
  "release_old_player player cid s =
     (case gw_conn_player s cid of
        Some old \<Rightarrow>
          (if old \<noteq> player
           then s\<lparr>gw_player_conn := (if gw_player_conn s old = Some cid then (gw_player_conn s)(old := None)
                                     else gw_player_conn s),
                  gw_conn_player := (gw_conn_player s)(cid := None)\<rparr>
           else s)
      | None \<Rightarrow> s)"

definition bind_player :: "gw_env \<Rightarrow> u64 \<Rightarrow> u64 \<Rightarrow> gateway \<Rightarrow> gateway \<times> gw_event list" where
  "bind_player e player cid s =
     (let s1 = release_old_player player cid s;
          (old, s2) = (case gw_player_conn s1 player of
                         Some oc \<Rightarrow> (if oc \<noteq> cid then (oc, s1\<lparr>gw_conn_player := (gw_conn_player s1)(oc := None)\<rparr>) else (0, s1))
                       | None \<Rightarrow> (0, s1));
          s3 = s2\<lparr>gw_player_conn := (gw_player_conn s2)(player \<mapsto> cid), gw_conn_player := (gw_conn_player s2)(cid \<mapsto> player)\<rparr>
      in (s3, if old \<noteq> 0 then kick_connection e old ''account login elsewhere'' s3 else []))"

section \<open>Routing to the services\<close>

definition service_of :: "u32 \<Rightarrow> string" where
  "service_of cmd =
     (if 0x00010000 \<le> cmd \<and> cmd \<le> 0x0001FFFF then ''biz''
      else if 0x00001000 \<le> cmd \<and> cmd \<le> 0x0000FFFF then ''biz''
      else if 0x00020000 \<le> cmd \<and> cmd \<le> 0x0002FFFF then ''realtime''
      else if 0x00030000 \<le> cmd \<and> cmd \<le> 0x0003FFFF then ''chat''
      else if 0x00040000 \<le> cmd \<and> cmd \<le> 0x0004FFFF then ''logstats''
      else if 0x00050000 \<le> cmd \<and> cmd \<le> 0x0005FFFF then ''match''
      else '''')"

definition route_to_pool :: "gw_env \<Rightarrow> gateway \<Rightarrow> u32 \<Rightarrow> string option" where
  "route_to_pool e s cmd =
     (let svc = service_of cmd
      in if svc \<noteq> '''' \<and> ge_mgr e \<and> ge_pool e svc then Some svc
         else case gw_services s of
                first # _ \<Rightarrow> (if ge_mgr e \<and> ge_pool e first then Some first else None)
              | [] \<Rightarrow> None)"

text \<open>The packet for a service: the payload behind the eight bytes of the connection id.\<close>

definition extend_payload :: "u64 \<Rightarrow> gpacket \<Rightarrow> gpacket" where
  "extend_payload cid pkt = with_payload pkt (write_u64be cid @ gp_payload pkt)"

definition handle_player_bind :: "gw_env \<Rightarrow> cref \<Rightarrow> gpacket \<Rightarrow> gateway \<Rightarrow> gateway \<times> gw_event list" where
  "handle_player_bind e c pkt s =
     (let cid = conn_id c; seq = ph_seq (gp_header pkt)
      in if is_player_bound s cid then (s, send_error_and_close e cid seq ERR_INVALID_PARAM ''already bound'' s)
         else case ge_bind_req e (gp_payload pkt) of
           None \<Rightarrow> (s, send_error_and_close e cid seq ERR_INVALID_PARAM ''invalid bind request'' s)
         | Some (player, token) \<Rightarrow>
             (if player = 0 \<or> token = [] then (s, send_error_and_close e cid seq ERR_INVALID_PARAM ''invalid bind request'' s)
              else let s1 = s\<lparr>gw_pending := (gw_pending s)(cid \<mapsto> \<lparr>pb_player = player, pb_seq = seq, pb_at = ge_now e\<rparr>)\<rparr>
                   in case route_to_pool e s1 (ph_cmd (gp_header pkt)) of
                        None \<Rightarrow>
                          (let s2 = s1\<lparr>gw_pending := (gw_pending s1)(cid := None)\<rparr>
                           in (s2, send_error_and_close e cid seq ERR_SERVICE_UNAVAILABLE ''bind service unavailable'' s2))
                      | Some pool \<Rightarrow>
                          (let out = extend_payload cid pkt
                           in (if ge_pool_send e pool out then s1
                               else s1\<lparr>gw_pending := (gw_pending s1)(cid := None)\<rparr>, [EvForward pool out]))))"

definition forward_packet :: "gw_env \<Rightarrow> u64 \<Rightarrow> gpacket \<Rightarrow> gateway \<Rightarrow> gw_event list" where
  "forward_packet e cid pkt s =
     (case route_to_pool e s (ph_cmd (gp_header pkt)) of
        None \<Rightarrow> []
      | Some pool \<Rightarrow> [EvForward pool (extend_payload cid pkt)])"

definition on_client_packet :: "gw_env \<Rightarrow> cref \<Rightarrow> gpacket \<Rightarrow> gateway \<Rightarrow> gateway \<times> gw_event list" where
  "on_client_packet e c pkt s0 =
     (let s = s0\<lparr>gw_requests := gw_requests s0 + 1\<rparr>; cmd = ph_cmd (gp_header pkt)
      in if cmd = CMD_GW_PLAYER_BIND then handle_player_bind e c pkt s
         else let is_system_cmd = cmd \<le> 0xFF
              in if \<not> is_system_cmd \<and> \<not> is_player_bound s (conn_id c)
                 then (s, send_error_and_close e (conn_id c) (ph_seq (gp_header pkt)) ERR_AUTH_FAILED ''player not bound'' s)
                 else (s, forward_packet e (conn_id c) pkt s))"

definition on_udp_packet :: "gw_env \<Rightarrow> cref \<Rightarrow> gpacket \<Rightarrow> gateway \<Rightarrow> gateway \<times> gw_event list" where
  "on_udp_packet e c pkt s0 =
     (let s = s0\<lparr>gw_requests := gw_requests s0 + 1\<rparr>
      in (s, forward_packet e (conn_id c) pkt s))"

section \<open>Connecting and closing\<close>

definition on_client_connect :: "cref \<Rightarrow> gateway \<Rightarrow> gateway" where
  "on_client_connect c s = s\<lparr>gw_clients := (gw_clients s)(conn_id c \<mapsto> c), gw_gauge := gw_gauge s + 1\<rparr>"

definition on_kcp_connect :: "cref \<Rightarrow> gateway \<Rightarrow> gateway" where
  "on_kcp_connect c s =
     s\<lparr>gw_kcp := (gw_kcp s)(conn_id c \<mapsto> c), gw_clients := (gw_clients s)(conn_id c \<mapsto> c), gw_gauge := gw_gauge s + 1\<rparr>"

definition on_ws_connect :: "u64 \<Rightarrow> gateway \<Rightarrow> gateway" where
  "on_ws_connect n s =
     s\<lparr>gw_ws := (gw_ws s)(conn_id (CWs n) \<mapsto> CWs n), gw_clients := (gw_clients s)(conn_id (CWs n) \<mapsto> CWs n),
       gw_gauge := gw_gauge s + 1\<rparr>"

definition leave_room :: "u64 \<Rightarrow> gateway \<Rightarrow> gateway" where
  "leave_room cid s =
     (case gw_conn_room s cid of None \<Rightarrow> s
      | Some room \<Rightarrow>
          s\<lparr>gw_rooms := (case gw_rooms s room of None \<Rightarrow> gw_rooms s
               | Some ms \<Rightarrow> (gw_rooms s)(room := (if removeAll cid ms = [] then None else Some (removeAll cid ms)))),
            gw_conn_room := (gw_conn_room s)(cid := None)\<rparr>)"

definition drop_client :: "u64 \<Rightarrow> gateway \<Rightarrow> gateway" where
  "drop_client cid s =
     (let s1 = remove_session cid (s\<lparr>gw_clients := (gw_clients s)(cid := None)\<rparr>)
      in s1\<lparr>gw_gauge := gw_gauge s1 - 1\<rparr>)"

definition on_client_close :: "cref \<Rightarrow> gateway \<Rightarrow> gateway" where
  "on_client_close c s = drop_client (conn_id c) (cleanup_player_state (conn_id c) (leave_room (conn_id c) s))"

definition on_kcp_close :: "cref \<Rightarrow> gateway \<Rightarrow> gateway" where
  "on_kcp_close c s =
     (case gw_kcp s (conn_id c) of None \<Rightarrow> s
      | Some a \<Rightarrow>
          (let s1 = s\<lparr>gw_kcp := (gw_kcp s)(conn_id c := None)\<rparr>
           in drop_client (conn_id a) (cleanup_player_state (conn_id a) (leave_room (conn_id a) s1))))"

definition on_ws_close :: "u64 \<Rightarrow> gateway \<Rightarrow> gateway" where
  "on_ws_close n s =
     (case gw_ws s (n OR push_bit 63 1) of None \<Rightarrow> s
      | Some a \<Rightarrow>
          (let s1 = s\<lparr>gw_ws := (gw_ws s)(n OR push_bit 63 1 := None)\<rparr>
           in drop_client (conn_id a) (cleanup_player_state (conn_id a) (leave_room (conn_id a) s1))))"

section \<open>Packets from clients\<close>

text \<open>The middleware chain of the TCP and the KCP server, with the two middlewares \<open>Start\<close> installs.\<close>

definition on_conn_data :: "gw_env \<Rightarrow> cref \<Rightarrow> gpacket \<Rightarrow> gateway \<Rightarrow> (gateway \<times> gw_event list) option" where
  "on_conn_data e c pkt s =
     (case handshake_on_packet e c pkt s of
        None \<Rightarrow> None
      | Some (False, s1, evs) \<Rightarrow> Some (s1, evs)
      | Some (True, s1, evs) \<Rightarrow>
          (case encryption_on_packet e c pkt s1 of
             (None, evs1) \<Rightarrow> Some (s1, evs @ evs1)
           | (Some pkt1, evs1) \<Rightarrow> (case on_client_packet e c pkt1 s1 of (s2, evs2) \<Rightarrow> Some (s2, evs @ evs1 @ evs2))))"

definition on_ws_message :: "gw_env \<Rightarrow> u64 \<Rightarrow> bool \<Rightarrow> bytes \<Rightarrow> gateway \<Rightarrow> (gateway \<times> gw_event list) option" where
  "on_ws_message e n is_binary message s =
     (if \<not> is_binary then Some (s, [EvClose (CWs n)])
      else case gw_ws s (n OR push_bit 63 1) of
        None \<Rightarrow> Some (s, [EvClose (CWs n)])
      | Some a \<Rightarrow>
          (case decode_client_packet message of
             None \<Rightarrow> Some (s, [EvClose (CWs n)])
           | Some pkt \<Rightarrow>
               (case (if ph_cmd (gp_header pkt) = CMD_SYS_HANDSHAKE then handshake_on_packet e a pkt s else Some (True, s, [])) of
                  None \<Rightarrow> None
                | Some (False, s1, evs) \<Rightarrow> Some (s1, evs)
                | Some (True, s1, evs) \<Rightarrow>
                    (case encryption_on_packet e a pkt s1 of
                       (None, evs1) \<Rightarrow> Some (s1, evs @ evs1)
                     | (Some pkt1, evs1) \<Rightarrow>
                         (case on_client_packet e a pkt1 s1 of (s2, evs2) \<Rightarrow> Some (s2, evs @ evs1 @ evs2))))))"

section \<open>Packets from the services\<close>

definition on_room_join :: "bytes \<Rightarrow> gateway \<Rightarrow> gateway" where
  "on_room_join pl s =
     (if length pl \<ge> 16 then
        (let room = read_u64be pl; cid = read_u64be (drop 8 pl);
             ms = (case gw_rooms s room of Some ms \<Rightarrow> ms | None \<Rightarrow> [])
         in s\<lparr>gw_rooms := (gw_rooms s)(room \<mapsto> List.insert cid ms), gw_conn_room := (gw_conn_room s)(cid \<mapsto> room)\<rparr>)
      else s)"

definition on_room_leave :: "bytes \<Rightarrow> gateway \<Rightarrow> gateway" where
  "on_room_leave pl s =
     (if length pl \<ge> 16 then
        (let room = read_u64be pl; cid = read_u64be (drop 8 pl)
         in s\<lparr>gw_rooms := (case gw_rooms s room of None \<Rightarrow> gw_rooms s
                | Some ms \<Rightarrow> (gw_rooms s)(room := (if removeAll cid ms = [] then None else Some (removeAll cid ms)))),
              gw_conn_room := (gw_conn_room s)(cid := None)\<rparr>)
      else s)"

text \<open>The answer without the eight bytes of its target and without the encryption flag.\<close>

definition plain_response :: "gpacket \<Rightarrow> gpacket" where
  "plain_response pkt =
     \<lparr>gp_header = (gp_header pkt)\<lparr>ph_flags := ph_flags (gp_header pkt) AND NOT (flag_bit FlagEncrypt),
        ph_length := HEADER_SIZE + of_nat (length (gp_payload pkt) - 8)\<rparr>, gp_payload = drop 8 (gp_payload pkt)\<rparr>"

text \<open>The answer to a bind request; the boolean says whether the packet goes on to the client the usual way.\<close>

definition on_bind_response :: "gw_env \<Rightarrow> gpacket \<Rightarrow> gateway \<Rightarrow> gateway \<times> gw_event list \<times> bool" where
  "on_bind_response e pkt s =
     (let pl = gp_payload pkt; seq = ph_seq (gp_header pkt)
      in if length pl \<ge> 8 then
           (let cid = read_u64be pl
            in case ge_bind_res e (drop 8 pl) of
                 Some code \<Rightarrow>
                   (case gw_pending s cid of
                      Some p \<Rightarrow>
                        (if pb_seq p = seq then
                           (let s1 = s\<lparr>gw_pending := (gw_pending s)(cid := None)\<rparr>
                            in if code = 0 \<and> pb_player p > 0
                               then (case bind_player e (pb_player p) cid s1 of (s2, evs) \<Rightarrow> (s2, evs, True))
                               else if code \<noteq> 0
                               then (s1, if cid \<noteq> 0 then send_to_client_direct e cid (plain_response pkt) True s1 else [], False)
                               else (s1, [], True))
                         else (s, [], False))
                    | None \<Rightarrow> (s, [], False))
               | None \<Rightarrow>
                   (case gw_pending s cid of
                      Some p \<Rightarrow> (if pb_seq p = seq then (s\<lparr>gw_pending := (gw_pending s)(cid := None)\<rparr>, [], False) else (s, [], False))
                    | None \<Rightarrow> (s, [], False)))
         else (s\<lparr>gw_pending := (\<lambda>k. case gw_pending s k of Some p \<Rightarrow> if pb_seq p = seq then None else Some p | None \<Rightarrow> None)\<rparr>,
               [], False))"

definition build_response_for :: "gw_env \<Rightarrow> nat \<Rightarrow> gpacket \<Rightarrow> gateway \<Rightarrow> u64 \<Rightarrow> gpacket option" where
  "build_response_for e i plain s target =
     (if gp_payload plain = [] then Some (with_payload plain [])
      else let session_key = get_session_key s target
           in if session_key = [] then None
              else case encrypt_packet_payload (ge_encrypt e i) session_key (gp_payload plain) of
                     Some encrypted \<Rightarrow> Some (mark_encrypted (with_payload plain encrypted))
                   | None \<Rightarrow> None)"

definition enqueue_to_client :: "gateway \<Rightarrow> u64 \<Rightarrow> gpacket \<Rightarrow> gw_event list" where
  "enqueue_to_client s target response =
     (case gw_clients s target of None \<Rightarrow> []
      | Some it \<Rightarrow>
          (case gw_ws s target of Some c \<Rightarrow> [EvEnqueue c response]
           | None \<Rightarrow> (case gw_kcp s target of Some c \<Rightarrow> [EvSendPacket c response]
           | None \<Rightarrow> (case gw_udp s target of Some c \<Rightarrow> [EvSendPacket c response]
           | None \<Rightarrow> [EvEnqueue it response]))))"

definition respond_to :: "gw_env \<Rightarrow> gpacket \<Rightarrow> gateway \<Rightarrow> nat \<times> u64 \<Rightarrow> gw_event list" where
  "respond_to e plain s t =
     (case build_response_for e (fst t) plain s (snd t) of
        Some response \<Rightarrow> enqueue_to_client s (snd t) response
      | None \<Rightarrow> [])"

definition response_targets :: "gpacket \<Rightarrow> gateway \<Rightarrow> u64 list" where
  "response_targets pkt s =
     (let first = read_u64be (gp_payload pkt)
      in if has_flag (ph_flags (gp_header pkt)) FlagRoomBcast
         then (case gw_rooms s first of Some ms \<Rightarrow> ms | None \<Rightarrow> [])
         else [first])"

definition deliver_response :: "gw_env \<Rightarrow> gpacket \<Rightarrow> gateway \<Rightarrow> gw_event list" where
  "deliver_response e pkt s =
     (if length (gp_payload pkt) < 8 then []
      else concat (map (respond_to e (plain_response pkt) s) (enumerate 0 (response_targets pkt s))))"

definition on_upstream_packet :: "gw_env \<Rightarrow> gpacket \<Rightarrow> gateway \<Rightarrow> gateway \<times> gw_event list" where
  "on_upstream_packet e pkt s =
     (let cmd = ph_cmd (gp_header pkt)
      in if cmd = CMD_GW_ROOM_JOIN then (on_room_join (gp_payload pkt) s, [])
         else if cmd = CMD_GW_ROOM_LEAVE then (on_room_leave (gp_payload pkt) s, [])
         else if cmd = CMD_GW_PLAYER_BIND then
           (case on_bind_response e pkt s of
              (s1, evs, goes_on) \<Rightarrow> (s1, evs @ (if goes_on then deliver_response e pkt s1 else [])))
         else (s, deliver_response e pkt s))"

section \<open>The heartbeat thread\<close>

definition heartbeat_scan :: "gw_env \<Rightarrow> gateway \<Rightarrow> gateway" where
  "heartbeat_scan e s =
     s\<lparr>gw_pending := (\<lambda>k. case gw_pending s k of
         Some p \<Rightarrow> if ge_now e - pb_at p > 10 * 1000000000 then None else Some p | None \<Rightarrow> None)\<rparr>"

section \<open>Steps\<close>

datatype gw_input =
    InTcpConnect u64 | InTcpData u64 gpacket | InTcpClose u64
  | InWsConnect u64 | InWsMessage u64 bool bytes | InWsClose u64
  | InKcpConnect u64 | InKcpData u64 gpacket | InKcpClose u64
  | InUdpData u64 gpacket
  | InUpstream gpacket
  | InScan

fun gw_step :: "gw_env \<Rightarrow> gw_input \<Rightarrow> gateway \<Rightarrow> (gateway \<times> gw_event list) option" where
  "gw_step e (InTcpConnect n) s = Some (on_client_connect (CTcp n) s, [])"
| "gw_step e (InTcpData n pkt) s = on_conn_data e (CTcp n) pkt s"
| "gw_step e (InTcpClose n) s = Some (on_client_close (CTcp n) s, [])"
| "gw_step e (InWsConnect n) s = Some (on_ws_connect n s, [])"
| "gw_step e (InWsMessage n b m) s = on_ws_message e n b m s"
| "gw_step e (InWsClose n) s = Some (on_ws_close n s, [])"
| "gw_step e (InKcpConnect n) s = Some (on_kcp_connect (CKcp n) s, [])"
| "gw_step e (InKcpData n pkt) s = on_conn_data e (CKcp n) pkt s"
| "gw_step e (InKcpClose n) s = Some (on_kcp_close (CKcp n) s, [])"
| "gw_step e (InUdpData n pkt) s = Some (on_udp_packet e (CUdp n) pkt s)"
| "gw_step e (InUpstream pkt) s = Some (on_upstream_packet e pkt s)"
| "gw_step e InScan s = Some (heartbeat_scan e s, [])"

text \<open>The states of a gateway after any sequence of inputs, in any environments.\<close>

inductive gw_reachable :: "gateway \<Rightarrow> bool" where
  gw_start: "gw_reachable (gateway_new now window master services)"
| gw_next: "gw_reachable s \<Longrightarrow> gw_step e i s = Some (s', evs) \<Longrightarrow> gw_reachable s'"

end
