(* ===== verification/GM_GatewayProps.thy ===== *)
theory GM_GatewayProps
  imports GM_Gateway
begin

text \<open>
  What the gateway guarantees, and what it does not: the invariant of its maps in every reachable state, who may
  become bound to a player, what reaches the services, how answers reach the clients, and what a closed
  connection leaves behind.
\<close>

section \<open>What each operation leaves alone\<close>

lemma leave_room_frame [simp]:
  "gw_clients (leave_room i s) = gw_clients s" "gw_ws (leave_room i s) = gw_ws s" "gw_kcp (leave_room i s) = gw_kcp s"
  "gw_udp (leave_room i s) = gw_udp s" "gw_sessions (leave_room i s) = gw_sessions s"
  "gw_player_conn (leave_room i s) = gw_player_conn s" "gw_conn_player (leave_room i s) = gw_conn_player s"
  "gw_pending (leave_room i s) = gw_pending s"
  by (simp_all add: leave_room_def split: option.split)

lemma cleanup_frame [simp]:
  "gw_clients (cleanup_player_state i s) = gw_clients s" "gw_ws (cleanup_player_state i s) = gw_ws s"
  "gw_kcp (cleanup_player_state i s) = gw_kcp s" "gw_udp (cleanup_player_state i s) = gw_udp s"
  "gw_sessions (cleanup_player_state i s) = gw_sessions s" "gw_rooms (cleanup_player_state i s) = gw_rooms s"
  "gw_conn_room (cleanup_player_state i s) = gw_conn_room s"
  "gw_pending (cleanup_player_state i s) = (gw_pending s)(i := None)"
  "gw_conn_player (cleanup_player_state i s) = (gw_conn_player s)(i := None)"
  by (auto simp: cleanup_player_state_def Let_def split: option.split)

lemma drop_client_frame [simp]:
  "gw_clients (drop_client i s) = (gw_clients s)(i := None)" "gw_ws (drop_client i s) = gw_ws s"
  "gw_kcp (drop_client i s) = gw_kcp s" "gw_udp (drop_client i s) = gw_udp s"
  "gw_sessions (drop_client i s) = (gw_sessions s)(i := None)" "gw_rooms (drop_client i s) = gw_rooms s"
  "gw_conn_room (drop_client i s) = gw_conn_room s" "gw_pending (drop_client i s) = gw_pending s"
  "gw_player_conn (drop_client i s) = gw_player_conn s" "gw_conn_player (drop_client i s) = gw_conn_player s"
  by (simp_all add: drop_client_def remove_session_def Let_def)

lemma room_ops_frame [simp]:
  "gw_clients (on_room_join pl s) = gw_clients s" "gw_ws (on_room_join pl s) = gw_ws s" "gw_kcp (on_room_join pl s) = gw_kcp s"
  "gw_udp (on_room_join pl s) = gw_udp s" "gw_sessions (on_room_join pl s) = gw_sessions s"
  "gw_player_conn (on_room_join pl s) = gw_player_conn s" "gw_conn_player (on_room_join pl s) = gw_conn_player s"
  "gw_pending (on_room_join pl s) = gw_pending s"
  "gw_clients (on_room_leave pl s) = gw_clients s" "gw_ws (on_room_leave pl s) = gw_ws s" "gw_kcp (on_room_leave pl s) = gw_kcp s"
  "gw_udp (on_room_leave pl s) = gw_udp s" "gw_sessions (on_room_leave pl s) = gw_sessions s"
  "gw_player_conn (on_room_leave pl s) = gw_player_conn s" "gw_conn_player (on_room_leave pl s) = gw_conn_player s"
  "gw_pending (on_room_leave pl s) = gw_pending s"
  by (simp_all add: on_room_join_def on_room_leave_def Let_def)

lemma bind_frame [simp]:
  "gw_clients (fst (bind_player e p i s)) = gw_clients s" "gw_ws (fst (bind_player e p i s)) = gw_ws s"
  "gw_kcp (fst (bind_player e p i s)) = gw_kcp s" "gw_udp (fst (bind_player e p i s)) = gw_udp s"
  "gw_sessions (fst (bind_player e p i s)) = gw_sessions s" "gw_pending (fst (bind_player e p i s)) = gw_pending s"
  "gw_rooms (fst (bind_player e p i s)) = gw_rooms s"
  by (auto simp: bind_player_def release_old_player_def Let_def split: option.splits)

section \<open>Data packets of clients\<close>

lemma handshake_frame:
  assumes "handle_handshake e c pkt s = Some (s', evs)"
  shows "gw_conn_player s' = gw_conn_player s" "gw_pending s' = gw_pending s"
    "set evs \<subseteq> {EvClose c} \<union> range (EvSendPacket c)"
  using assms by (auto simp: handle_handshake_def Let_def split: if_splits prod.splits bind_splits)

text \<open>What a data packet of a client does: it is a handshake, it is stopped, or it reaches \<open>OnClientPacket\<close> decrypted with
  the session key of the connection.\<close>

lemma conn_data_cases:
  assumes "on_conn_data e c pkt s = Some (s', evs)"
  obtains (handshake) "ph_cmd (gp_header pkt) = CMD_SYS_HANDSHAKE" "handle_handshake e c pkt s = Some (s', evs)"
  | (stopped) "s' = s" "evs = [EvClose c]"
  | (packet) key pkt1 where "gw_sessions s (conn_id c) = Some key" "key \<noteq> []" "gp_header pkt1 = gp_header pkt"
      "ph_cmd (gp_header pkt) \<noteq> CMD_SYS_HANDSHAKE"
      "gp_payload pkt = [] \<and> gp_payload pkt1 = [] \<or>
       gp_payload pkt \<noteq> [] \<and> decrypt_packet_payload (ge_decrypt e) key (gp_payload pkt) = Some (gp_payload pkt1)"
      "on_client_packet e c pkt1 s = (s', evs)"
proof (cases "ph_cmd (gp_header pkt) = CMD_SYS_HANDSHAKE")
  case True
  then show ?thesis using assms handshake by (auto simp: on_conn_data_def handshake_on_packet_def split: option.splits)
next
  case False
  show ?thesis
  proof (cases "encryption_on_packet e c pkt s")
    case (Pair r evs1)
    then show ?thesis
    proof (cases r)
      case None
      then have "evs1 = [EvClose c]"
        using Pair by (auto simp: encryption_on_packet_def Let_def split: if_splits option.splits)
      then show ?thesis using False assms Pair None stopped by (auto simp: on_conn_data_def handshake_on_packet_def)
    next
      case (Some pkt1)
      obtain key where k: "gw_sessions s (conn_id c) = Some key" "key \<noteq> []" "evs1 = []" "gp_header pkt1 = gp_header pkt"
        "gp_payload pkt = [] \<and> gp_payload pkt1 = [] \<or>
         gp_payload pkt \<noteq> [] \<and> decrypt_packet_payload (ge_decrypt e) key (gp_payload pkt) = Some (gp_payload pkt1)"
        using Pair Some
        by (auto simp: encryption_on_packet_def get_session_key_def Let_def split: if_splits option.splits)
      then have "on_client_packet e c pkt1 s = (s', evs)"
        using False assms Pair Some by (auto simp: on_conn_data_def handshake_on_packet_def split: prod.splits)
      then show ?thesis using k False packet by blast
    qed
  qed
qed

lemma ws_message_cases:
  assumes "on_ws_message e n b m s = Some (s', evs)"
  obtains (stopped) "s' = s" "evs = [EvClose (CWs n)]"
  | (data) a pkt where "b" "gw_ws s (conn_id (CWs n)) = Some a" "decode_client_packet m = Some pkt"
      "on_conn_data e a pkt s = Some (s', evs)"
proof (cases "b \<and> gw_ws s (conn_id (CWs n)) \<noteq> None \<and> decode_client_packet m \<noteq> None")
  case False
  then show ?thesis using assms stopped by (auto simp: on_ws_message_def split: if_splits option.splits)
next
  case True
  then obtain a pkt where d: "b" "gw_ws s (n OR push_bit 63 1) = Some a" "decode_client_packet m = Some pkt" by auto
  have "(if ph_cmd (gp_header pkt) = CMD_SYS_HANDSHAKE then handshake_on_packet e a pkt s else Some (True, s, [])) =
      handshake_on_packet e a pkt s"
    by (simp add: handshake_on_packet_def)
  then have "on_conn_data e a pkt s = Some (s', evs)"
    using assms d by (simp only: on_ws_message_def on_conn_data_def option.case simp_thms if_False)
  then show ?thesis using d data by simp
qed

section \<open>The invariant\<close>

definition bind_inverse :: "gateway \<Rightarrow> bool" where
  "bind_inverse s \<longleftrightarrow> (\<forall>p c. gw_player_conn s p = Some c \<longleftrightarrow> gw_conn_player s c = Some p)"

definition conns_ok :: "gateway \<Rightarrow> bool" where
  "conns_ok s \<longleftrightarrow> (\<forall>i c. gw_clients s i = Some c \<longrightarrow> conn_id c = i \<and> (\<forall>n. c \<noteq> CUdp n)) \<and>
     (\<forall>i c. gw_ws s i = Some c \<longrightarrow> conn_id c = i \<and> (\<exists>n. c = CWs n)) \<and>
     (\<forall>i c. gw_kcp s i = Some c \<longrightarrow> c = CKcp i) \<and> (\<forall>i. gw_udp s i = None)"

definition keys_ok :: "gateway \<Rightarrow> bool" where
  "keys_ok s \<longleftrightarrow> (\<forall>i k. gw_sessions s i = Some k \<longrightarrow> length k = 32)"

definition pending_ok :: "gateway \<Rightarrow> bool" where
  "pending_ok s \<longleftrightarrow> (\<forall>i p. gw_pending s i = Some p \<longrightarrow> pb_player p \<noteq> 0 \<and> gw_conn_player s i = None)"

definition gw_ok :: "gateway \<Rightarrow> bool" where
  "gw_ok s \<longleftrightarrow> bind_inverse s \<and> conns_ok s \<and> keys_ok s \<and> pending_ok s"

lemma bind_inverse_cleanup: "bind_inverse s \<Longrightarrow> bind_inverse (cleanup_player_state i s)"
  by (auto simp: bind_inverse_def cleanup_player_state_def Let_def split: option.split)
    (metis option.inject)+

lemma bind_inverse_bind: "bind_inverse s \<Longrightarrow> bind_inverse (fst (bind_player e p i s))"
  by (auto simp: bind_inverse_def bind_player_def release_old_player_def Let_def split: option.splits if_splits)
    (metis option.inject option.distinct(1))+

lemma bind_conn_player:
  "gw_conn_player (fst (bind_player e p i s)) c = Some q \<Longrightarrow> c \<noteq> i \<Longrightarrow> gw_conn_player s c = Some q"
  by (auto simp: bind_player_def release_old_player_def Let_def split: option.splits if_splits)

lemma gw_ok_close:
  assumes "gw_ok s"
  shows "gw_ok (drop_client i (cleanup_player_state i (leave_room i s)))"
proof -
  have "bind_inverse (leave_room i s)" using assms by (simp add: gw_ok_def bind_inverse_def)
  then have "bind_inverse (cleanup_player_state i (leave_room i s))" by (rule bind_inverse_cleanup)
  then show ?thesis
    using assms by (simp add: gw_ok_def bind_inverse_def) (auto simp: conns_ok_def keys_ok_def pending_ok_def)
qed

lemma gw_ok_requests [simp]: "gw_ok (s\<lparr>gw_requests := n\<rparr>) = gw_ok s"
  by (simp add: gw_ok_def bind_inverse_def conns_ok_def keys_ok_def pending_ok_def)

lemma gw_ok_connects:
  assumes "gw_ok s"
  shows "gw_ok (on_client_connect (CTcp n) s)" "gw_ok (on_ws_connect n s)" "gw_ok (on_kcp_connect (CKcp n) s)"
  using assms
  by (auto simp: gw_ok_def bind_inverse_def conns_ok_def keys_ok_def pending_ok_def on_client_connect_def on_ws_connect_def
      on_kcp_connect_def split: if_splits)

lemma gw_ok_closes:
  assumes "gw_ok s"
  shows "gw_ok (on_client_close c s)" "gw_ok (on_ws_close n s)" "gw_ok (on_kcp_close c s)"
proof -
  have "gw_ok (s\<lparr>gw_ws := (gw_ws s)(k := None)\<rparr>)" "gw_ok (s\<lparr>gw_kcp := (gw_kcp s)(k := None)\<rparr>)" for k
    using assms by (auto simp: gw_ok_def bind_inverse_def conns_ok_def keys_ok_def pending_ok_def)
  then show "gw_ok (on_client_close c s)" "gw_ok (on_ws_close n s)" "gw_ok (on_kcp_close c s)"
    using gw_ok_close assms by (simp_all add: on_client_close_def on_ws_close_def on_kcp_close_def Let_def split: option.split)
qed

lemma gw_ok_handshake:
  assumes "gw_ok s" and "handle_handshake e c pkt s = Some (s', evs)"
  shows "gw_ok s'"
proof -
  have "gw_ok (s\<lparr>gw_replay := ck\<rparr>)" for ck
    using assms(1) by (simp add: gw_ok_def bind_inverse_def conns_ok_def keys_ok_def pending_ok_def)
  moreover have "gw_ok (s\<lparr>gw_replay := ck, gw_sessions := (gw_sessions s)(i \<mapsto> k)\<rparr>)" if "length k = 32" for ck i k
    using assms(1) that by (simp add: gw_ok_def bind_inverse_def conns_ok_def keys_ok_def pending_ok_def)
  ultimately show ?thesis
    using assms by (auto simp: handle_handshake_def Let_def encrypt_packet_payload_def split: if_splits prod.splits bind_splits)
qed

lemma gw_ok_client_packet:
  assumes "gw_ok s"
  shows "gw_ok (fst (on_client_packet e c pkt s))"
proof -
  have "gw_ok (fst (handle_player_bind e c pkt s))" if "gw_ok s" for s
  proof -
    have "gw_ok (s\<lparr>gw_pending := (gw_pending s)(k := None)\<rparr>)" for k
      using that by (auto simp: gw_ok_def bind_inverse_def conns_ok_def keys_ok_def pending_ok_def)
    moreover have "gw_ok (s\<lparr>gw_pending := (gw_pending s)(i \<mapsto> p)\<rparr>)" if "\<not> is_player_bound s i" "pb_player p \<noteq> 0" for i p
      using that \<open>gw_ok s\<close> by (auto simp: gw_ok_def bind_inverse_def conns_ok_def keys_ok_def pending_ok_def is_player_bound_def)
    ultimately show ?thesis
      using that by (simp add: handle_player_bind_def Let_def split: option.split)
  qed
  then show ?thesis using assms by (simp add: on_client_packet_def Let_def)
qed

lemma gw_ok_bind_response:
  assumes "gw_ok s"
  shows "gw_ok (fst (on_bind_response e pkt s))"
proof -
  have unpend: "gw_ok (s\<lparr>gw_pending := (gw_pending s)(k := None)\<rparr>)" for k
    using assms by (auto simp: gw_ok_def bind_inverse_def conns_ok_def keys_ok_def pending_ok_def)
  have filtered: "gw_ok (s\<lparr>gw_pending := \<lambda>k. case gw_pending s k of Some p \<Rightarrow> if P p then None else Some p | None \<Rightarrow> None\<rparr>)" for P
    using assms
    by (auto simp: gw_ok_def bind_inverse_def conns_ok_def keys_ok_def pending_ok_def split: option.splits if_splits)
  have bound: "gw_ok (fst (bind_player e p i (s\<lparr>gw_pending := (gw_pending s)(i := None)\<rparr>)))" (is "gw_ok (fst ?b)") for p i
  proof -
    have o: "gw_ok (s\<lparr>gw_pending := (gw_pending s)(i := None)\<rparr>)" by (rule unpend)
    then have "bind_inverse (fst ?b)" by (intro bind_inverse_bind) (simp add: gw_ok_def)
    moreover have "pending_ok (fst ?b)"
      using o bind_conn_player [of e p i "s\<lparr>gw_pending := (gw_pending s)(i := None)\<rparr>"]
      by (auto simp: gw_ok_def pending_ok_def) (metis not_None_eq)
    ultimately show ?thesis using o by (simp add: gw_ok_def conns_ok_def keys_ok_def)
  qed
  show ?thesis
    unfolding on_bind_response_def Let_def
    using assms unpend bound filtered by (simp add: split_beta split: option.split)
qed

lemma gw_ok_upstream:
  assumes "gw_ok s"
  shows "gw_ok (fst (on_upstream_packet e pkt s))"
proof -
  have "gw_ok (on_room_join pl s)" "gw_ok (on_room_leave pl s)" for pl
    using assms by (simp_all add: gw_ok_def bind_inverse_def conns_ok_def keys_ok_def pending_ok_def)
  then show ?thesis
    using assms gw_ok_bind_response [OF assms, of e pkt] by (auto simp: on_upstream_packet_def Let_def split: prod.split)
qed

lemma gw_ok_scan: "gw_ok s \<Longrightarrow> gw_ok (heartbeat_scan e s)"
  by (auto simp: heartbeat_scan_def gw_ok_def bind_inverse_def conns_ok_def keys_ok_def pending_ok_def
      split: option.splits if_splits)

lemma gw_ok_conn_data:
  assumes "gw_ok s" and "on_conn_data e c pkt s = Some (s', evs)"
  shows "gw_ok s'"
  using assms(2)
proof (cases rule: conn_data_cases)
  case (packet key pkt1)
  then show ?thesis using gw_ok_client_packet [OF assms(1), of e c pkt1] by simp
qed (use assms(1) gw_ok_handshake in auto)

lemma gw_ok_ws_message:
  assumes "gw_ok s" and "on_ws_message e n b m s = Some (s', evs)"
  shows "gw_ok s'"
  using assms(2) by (cases rule: ws_message_cases) (use assms(1) gw_ok_conn_data in auto)

lemma gw_ok_step: "gw_ok s \<Longrightarrow> gw_step e i s = Some (s', evs) \<Longrightarrow> gw_ok s'"
proof (cases i)
  case (InUpstream pkt)
  assume "gw_ok s" "gw_step e i s = Some (s', evs)"
  then show ?thesis using gw_ok_upstream [of s e pkt] by (simp add: InUpstream)
qed (auto simp: gw_ok_connects gw_ok_closes gw_ok_scan on_udp_packet_def Let_def dest: gw_ok_conn_data gw_ok_ws_message)

lemma gw_ok_new: "gw_ok (gateway_new now w master services)"
  by (simp add: gateway_new_def gw_ok_def bind_inverse_def conns_ok_def keys_ok_def pending_ok_def)

lemma gw_reachable_ok: "gw_reachable s \<Longrightarrow> gw_ok s"
  by (induction rule: gw_reachable.induct) (auto intro: gw_ok_new gw_ok_step)

section \<open>Players and connections\<close>

text \<open>C1: in every reachable state the two maps between players and connections are inverse to each other: a player is
  bound to at most one connection and a connection to at most one player, and a lookup from either side
  agrees. A connection that is bound has no bind request under way, every session key has 32 bytes, and every
  connection object is filed under its own id.\<close>

theorem one_connection_per_player:
  assumes "gw_reachable s"
  shows "(gw_player_conn s p = Some c \<longleftrightarrow> gw_conn_player s c = Some p) \<and>
    (is_player_bound s c \<longrightarrow> gw_pending s c = None) \<and>
    (gw_sessions s c = Some k \<longrightarrow> length k = 32) \<and> (gw_clients s c = Some r \<longrightarrow> conn_id r = c)"
  using gw_reachable_ok [OF assms]
  by (auto simp: gw_ok_def bind_inverse_def pending_ok_def keys_ok_def conns_ok_def is_player_bound_def)
    (metis option.exhaust option.distinct(1))

lemma client_packet_conn_player [simp]: "gw_conn_player (fst (on_client_packet e c pkt s)) = gw_conn_player s"
  by (simp add: on_client_packet_def handle_player_bind_def Let_def split: option.split)

text \<open>The packet of a client that an input carries, with the connection it came on.\<close>

fun client_data :: "gateway \<Rightarrow> gw_input \<Rightarrow> (cref \<times> gpacket) option" where
  "client_data s (InTcpData n pkt) = Some (CTcp n, pkt)"
| "client_data s (InKcpData n pkt) = Some (CKcp n, pkt)"
| "client_data s (InWsMessage n b m) =
     (case (gw_ws s (conn_id (CWs n)), decode_client_packet m) of
        (Some a, Some pkt) \<Rightarrow> (if b then Some (a, pkt) else None) | _ \<Rightarrow> None)"
| "client_data s _ = None"

lemma client_data_step:
  assumes "client_data s i = Some (c, pkt)"
  shows "gw_step e i s = on_conn_data e c pkt s"
proof (cases i)
  case (InWsMessage n b m)
  have "(if ph_cmd (gp_header pkt) = CMD_SYS_HANDSHAKE then handshake_on_packet e c pkt s else Some (True, s, [])) =
      handshake_on_packet e c pkt s"
    by (simp add: handshake_on_packet_def)
  moreover have "b" "gw_ws s (n OR push_bit 63 1) = Some c" "decode_client_packet m = Some pkt"
    using assms InWsMessage by (auto split: option.splits if_splits)
  ultimately show ?thesis
    by (simp only: InWsMessage gw_step.simps on_ws_message_def on_conn_data_def option.case simp_thms if_False)
qed (use assms in auto)

fun internal :: "gw_input \<Rightarrow> bool" where
  "internal (InTcpData n pkt) = False"
| "internal (InKcpData n pkt) = False"
| "internal (InWsMessage n b m) = False"
| "internal (InUpstream pkt) = False"
| "internal (InUdpData n pkt) = False"
| "internal _ = True"

lemma step_quiet:
  assumes "internal i" and "gw_step e i s = Some (s', evs)"
  shows "evs = []" and "gw_conn_player s' k = Some p \<Longrightarrow> gw_conn_player s k = Some p"
    and "gw_pending s' k = Some pb \<Longrightarrow> gw_pending s k = Some pb"
  using assms
  by (cases i; force simp: on_client_connect_def on_ws_connect_def on_kcp_connect_def on_client_close_def on_ws_close_def
      on_kcp_close_def heartbeat_scan_def Let_def split: option.splits if_splits)+

lemma step_cases:
  assumes "gw_step e i s = Some (s', evs)"
  obtains (data) c pkt where "client_data s i = Some (c, pkt)" "on_conn_data e c pkt s = Some (s', evs)"
  | (upstream) pkt where "i = InUpstream pkt" "on_upstream_packet e pkt s = (s', evs)"
  | (udp) n pkt where "i = InUdpData n pkt" "s' = s\<lparr>gw_requests := gw_requests s + 1\<rparr>" "evs = forward_packet e n pkt s'"
  | (other) "set evs \<subseteq> range (\<lambda>n. EvClose (CWs n))" "\<And>k p. gw_conn_player s' k = Some p \<Longrightarrow> gw_conn_player s k = Some p"
      "\<And>k p. gw_pending s' k = Some p \<Longrightarrow> gw_pending s k = Some p"
proof -
  have quiet: thesis if "internal i"
  proof (rule other)
    show "set evs \<subseteq> range (\<lambda>n. EvClose (CWs n))" using step_quiet(1) [OF that assms] by simp
  qed (fact step_quiet(2,3) [OF that assms])+
  show thesis
  proof (cases i)
    case (InTcpData n pkt)
    then show ?thesis using assms data by simp
  next
    case (InKcpData n pkt)
    then show ?thesis using assms data by simp
  next
    case (InWsMessage n b m)
    then have "on_ws_message e n b m s = Some (s', evs)" using assms by simp
    then show ?thesis
    proof (cases rule: ws_message_cases)
      case stopped
      then show ?thesis using other by simp
    next
      case (data a pkt)
      then show ?thesis using InWsMessage that(1) by simp
    qed
  next
    case (InUpstream pkt)
    then show ?thesis using assms upstream by simp
  next
    case (InUdpData n pkt)
    then show ?thesis using assms udp by (auto simp: on_udp_packet_def Let_def)
  qed (simp_all add: quiet)
qed

lemma conn_data_conn_player:
  assumes "on_conn_data e c pkt s = Some (s', evs)"
  shows "gw_conn_player s' = gw_conn_player s"
  using assms
proof (cases rule: conn_data_cases)
  case (packet key pkt1)
  then show ?thesis using client_packet_conn_player [of e c pkt1 s] by simp
qed (auto dest: handshake_frame)

lemma bind_player_new:
  assumes "gw_conn_player (fst (bind_player e q i s)) c = Some p" and "gw_conn_player s c \<noteq> Some p"
  shows "c = i" "p = q"
proof -
  show "c = i" using bind_conn_player [OF assms(1)] assms(2) by blast
  then show "p = q" using assms(1) by (auto simp: bind_player_def Let_def split: option.splits if_splits prod.splits)
qed

lemma bind_response_conn_player:
  assumes "gw_conn_player (fst (on_bind_response e pkt s)) c = Some p" and "gw_conn_player s c \<noteq> Some p"
  shows "8 \<le> length (gp_payload pkt) \<and> read_u64be (gp_payload pkt) = c \<and> ge_bind_res e (drop 8 (gp_payload pkt)) = Some 0 \<and>
    (\<exists>pb. gw_pending s c = Some pb \<and> pb_player pb = p \<and> pb_seq pb = ph_seq (gp_header pkt))"
proof -
  define i where "i = read_u64be (gp_payload pkt)"
  let ?s = "s\<lparr>gw_pending := (gw_pending s)(i := None)\<rparr>"
  have "8 \<le> length (gp_payload pkt) \<and> ge_bind_res e (drop 8 (gp_payload pkt)) = Some 0 \<and>
    (\<exists>pb. gw_pending s i = Some pb \<and> pb_seq pb = ph_seq (gp_header pkt) \<and>
       gw_conn_player (fst (bind_player e (pb_player pb) i ?s)) c = Some p)"
    using assms unfolding on_bind_response_def Let_def i_def [symmetric]
    by (simp add: split_beta split: option.splits if_splits)
  then show ?thesis using bind_player_new [of e _ i ?s c p] assms(2) i_def by auto
qed

text \<open>C3: a connection becomes bound to a player in one way only: by an answer of the service to a bind request that names
  this connection, reports success and carries the sequence number of the latest bind request of the connection,
  and then it is bound to the player that this latest request named.\<close>

theorem bind_needs_ok_answer:
  assumes "gw_step e i s = Some (s', evs)" and "gw_conn_player s' c = Some p" and "gw_conn_player s c \<noteq> Some p"
  shows "\<exists>pkt pb. i = InUpstream pkt \<and> ph_cmd (gp_header pkt) = CMD_GW_PLAYER_BIND \<and> 8 \<le> length (gp_payload pkt) \<and>
    read_u64be (gp_payload pkt) = c \<and> ge_bind_res e (drop 8 (gp_payload pkt)) = Some 0 \<and>
    gw_pending s c = Some pb \<and> pb_seq pb = ph_seq (gp_header pkt) \<and> pb_player pb = p"
  using assms(1)
proof (cases rule: step_cases)
  case (data c' pkt)
  then show ?thesis using assms conn_data_conn_player by force
next
  case (upstream pkt)
  have u: "on_upstream_packet e pkt s = (s', evs)" by (rule upstream(2))
  have cmd: "ph_cmd (gp_header pkt) = CMD_GW_PLAYER_BIND"
    using u assms(2,3) by (auto simp: on_upstream_packet_def Let_def split: if_splits)
  then have "s' = fst (on_bind_response e pkt s)"
    using u by (auto simp: on_upstream_packet_def gw_consts Let_def split_beta)
  then show ?thesis using bind_response_conn_player [of e pkt s c p] assms(2,3) upstream(1) cmd by auto
next
  case (udp n pkt)
  then show ?thesis using assms by simp
next
  case other
  then show ?thesis using assms by blast
qed

text \<open>A bind request is noted in one way only: a client with a session sent it, it decrypts under the key of that
  session to a request that parses and names a player other than 0 and a token, the connection is not bound, and the
  request has been given to a service, with the id of its connection in front.\<close>

theorem pending_needs_request:
  assumes "gw_step e i s = Some (s', evs)" and "gw_pending s' c = Some pb" and "gw_pending s c \<noteq> Some pb"
  shows "\<exists>r wire key pl token svc. client_data s i = Some (r, wire) \<and> conn_id r = c \<and>
    ph_cmd (gp_header wire) = CMD_GW_PLAYER_BIND \<and> pb_seq pb = ph_seq (gp_header wire) \<and> gw_sessions s c = Some key \<and>
    (pl = gp_payload wire \<and> pl = [] \<or> decrypt_packet_payload (ge_decrypt e) key (gp_payload wire) = Some pl) \<and>
    ge_bind_req e pl = Some (pb_player pb, token) \<and> pb_player pb \<noteq> 0 \<and> token \<noteq> [] \<and> \<not> is_player_bound s c \<and>
    evs = [EvForward svc (extend_payload c (wire\<lparr>gp_payload := pl\<rparr>))]"
  using assms(1)
proof (cases rule: step_cases)
  case (data r wire)
  from data(2) show ?thesis
  proof (cases rule: conn_data_cases)
    case (packet key pkt1)
    have w: "pkt1 = wire\<lparr>gp_payload := gp_payload pkt1\<rparr>" using packet(3) by (simp add: gpacket.equality)
    have h: "handle_player_bind e r pkt1 (s\<lparr>gw_requests := gw_requests s + 1\<rparr>) = (s', evs)"
        "ph_cmd (gp_header pkt1) = CMD_GW_PLAYER_BIND"
      using packet(6) assms(2,3) by (auto simp: on_client_packet_def Let_def split: if_splits)
    have "conn_id r = c \<and> pb_seq pb = ph_seq (gp_header pkt1) \<and> pb_player pb \<noteq> 0 \<and> \<not> is_player_bound s c \<and>
      (\<exists>token svc. ge_bind_req e (gp_payload pkt1) = Some (pb_player pb, token) \<and> token \<noteq> [] \<and>
         evs = [EvForward svc (extend_payload c pkt1)])"
      using h assms(2,3)
      by (auto simp: handle_player_bind_def is_player_bound_def Let_def split: if_splits option.splits)
    then show ?thesis using data(1) packet h(2) w by metis
  next
    case handshake
    then show ?thesis using assms handshake_frame by metis
  next
    case stopped
    then show ?thesis using assms by simp
  qed
next
  case (upstream pkt)
  then show ?thesis
    using assms(2,3)
    by (auto simp: on_upstream_packet_def on_bind_response_def Let_def split_beta split: if_splits option.splits)
next
  case (udp n pkt)
  then show ?thesis using assms by simp
next
  case other
  then show ?thesis using assms by blast
qed

end
