(* ===== verification/GM_GatewayFlow.thy ===== *)
theory GM_GatewayFlow
  imports GM_GatewayProps
begin

text \<open>
  The traffic of the gateway: what clients can make it forward to the services, how answers and broadcasts reach
  the clients, and what is left of a connection after it has closed.
\<close>

section \<open>From the clients to the services\<close>

lemma error_events_no_forward [simp]: "EvForward svc out \<notin> set (send_error_and_close e i q code msg s)"
  by (simp add: send_error_and_close_def Let_def split: option.split)

lemma route_frame: "gw_services s' = gw_services s \<Longrightarrow> route_to_pool e s' = route_to_pool e s"
  by (simp add: fun_eq_iff route_to_pool_def Let_def)

lemma requests_frame [simp]:
  "pick_conn (s\<lparr>gw_requests := n\<rparr>) = pick_conn s" "get_session_key (s\<lparr>gw_requests := n\<rparr>) = get_session_key s"
  "is_player_bound (s\<lparr>gw_requests := n\<rparr>) = is_player_bound s" "route_to_pool e (s\<lparr>gw_requests := n\<rparr>) = route_to_pool e s"
  by (simp_all add: fun_eq_iff pick_conn_def get_session_key_def is_player_bound_def split: option.split)
    (simp add: route_to_pool_def Let_def)

lemma client_packet_forwards:
  assumes "on_client_packet e c pkt s = (s', evs)" and "EvForward svc out \<in> set evs"
  shows "out = extend_payload (conn_id c) pkt \<and>
    (ph_cmd (gp_header pkt) = CMD_GW_PLAYER_BIND \<or> ph_cmd (gp_header pkt) \<le> 0xFF \<or> is_player_bound s (conn_id c))"
  using assms
  by (auto simp: on_client_packet_def handle_player_bind_def forward_packet_def is_player_bound_def Let_def
      split: if_splits option.splits)

text \<open>C2: whatever a TCP, KCP or WebSocket client makes the gateway forward is the id of its own connection followed by
  a payload that is empty or has been decrypted with the session key filed under that id, and unless
  it is a bind request or a system command, that id is bound to a player.\<close>

theorem forwarded_is_authenticated:
  assumes "gw_step e i s = Some (s', evs)" and "client_data s i = Some (c, wire)" and "EvForward svc out \<in> set evs"
  shows "\<exists>key pl. gw_sessions s (conn_id c) = Some key \<and>
    (gp_payload wire = [] \<and> pl = [] \<or> decrypt_packet_payload (ge_decrypt e) key (gp_payload wire) = Some pl) \<and>
    out = extend_payload (conn_id c) (wire\<lparr>gp_payload := pl\<rparr>) \<and> gp_payload out = write_u64be (conn_id c) @ pl \<and>
    (ph_cmd (gp_header wire) = CMD_GW_PLAYER_BIND \<or> ph_cmd (gp_header wire) \<le> 0xFF \<or> is_player_bound s (conn_id c))"
proof -
  have "on_conn_data e c wire s = Some (s', evs)" using assms(1) client_data_step [OF assms(2)] by simp
  then show ?thesis
  proof (cases rule: conn_data_cases)
    case (packet key pkt1)
    have w: "pkt1 = wire\<lparr>gp_payload := gp_payload pkt1\<rparr>" using packet(3) by (simp add: gpacket.equality)
    have f: "out = extend_payload (conn_id c) pkt1 \<and> (ph_cmd (gp_header pkt1) = CMD_GW_PLAYER_BIND \<or>
        ph_cmd (gp_header pkt1) \<le> 0xFF \<or> is_player_bound s (conn_id c))"
      by (rule client_packet_forwards [OF packet(6) assms(3)])
    show ?thesis
    proof (intro exI conjI)
      show "out = extend_payload (conn_id c) (wire\<lparr>gp_payload := gp_payload pkt1\<rparr>)" using f w by simp
      show "gp_payload out = write_u64be (conn_id c) @ gp_payload pkt1"
        using f by (simp add: extend_payload_def with_payload_def)
    qed (use packet f in auto)
  next
    case handshake
    then show ?thesis using handshake_frame(3) [OF handshake(2)] assms(3) by auto
  next
    case stopped
    then show ?thesis using assms(3) by simp
  qed
qed

text \<open>A client that is not bound gets nothing but its error: for a packet that is neither a bind request nor a
  system command the gateway forwards nothing, changes nothing but its request counter, and sends the connection one
  error packet, encrypted under its session key, and closes it once that is written.\<close>

theorem unbound_client_rejected:
  assumes "gw_reachable s" and "gw_step e i s = Some (s', evs)" and "client_data s i = Some (c, wire)"
    and "\<not> is_player_bound s (conn_id c)" and "0xFF < ph_cmd (gp_header wire)" and "ph_cmd (gp_header wire) \<noteq> CMD_GW_PLAYER_BIND"
    and "gw_clients s (conn_id c) = Some r" and "\<And>k x. \<exists>y. ge_encrypt e 0 k x = Some y"
  shows "evs = [EvClose c] \<and> s' = s \<or>
    s' = s\<lparr>gw_requests := gw_requests s + 1\<rparr> \<and>
    (\<exists>key out ct. gw_sessions s (conn_id c) = Some key \<and>
      ge_encrypt e 0 key (encode_common_result ERR_AUTH_FAILED ''player not bound'') = Some ct \<and>
      gp_payload out = ct \<and> ph_cmd (gp_header out) = CMD_SYS_ERROR_PACKET \<and> ph_seq (gp_header out) = ph_seq (gp_header wire) \<and>
      has_flag (ph_flags (gp_header out)) FlagEncrypt \<and>
      evs = [EvSend (pick_conn s (conn_id c) r) (gp_encode out), EvCloseAfterWrite r])"
proof -
  have "on_conn_data e c wire s = Some (s', evs)" using assms(2) client_data_step [OF assms(3)] by simp
  then show ?thesis
  proof (cases rule: conn_data_cases)
    case (packet key pkt1)
    have k: "length key = 32" using gw_reachable_ok [OF assms(1)] packet(1) by (auto simp: gw_ok_def keys_ok_def)
    obtain ct where ct: "ge_encrypt e 0 key (encode_common_result ERR_AUTH_FAILED ''player not bound'') = Some ct"
      using assms(8) by blast
    define out where "out = mark_encrypted (with_payload \<lparr>gp_header = default_header\<lparr>ph_cmd := CMD_SYS_ERROR_PACKET,
      ph_seq := ph_seq (gp_header wire), ph_flags := flag_bit FlagRpcRes\<rparr>, gp_payload = []\<rparr> ct)"
    have ne: "encode_common_result ERR_AUTH_FAILED ''player not bound'' \<noteq> []"
      by (simp add: encode_common_result_def Let_def)
    have "s' = s\<lparr>gw_requests := gw_requests s + 1\<rparr> \<and>
        evs = [EvSend (pick_conn s (conn_id c) r) (gp_encode out), EvCloseAfterWrite r]"
      using packet assms(4-7) ct ne k
      by (auto simp: on_client_packet_def send_error_and_close_def get_session_key_def seal_packet_def
          encrypt_packet_payload_def out_def mark_encrypted_def with_payload_def Let_def split: if_splits)
    moreover have "gp_payload out = ct" "ph_cmd (gp_header out) = CMD_SYS_ERROR_PACKET"
        "ph_seq (gp_header out) = ph_seq (gp_header wire)" "has_flag (ph_flags (gp_header out)) FlagEncrypt"
      by (simp_all add: out_def mark_encrypted_def with_payload_def has_flag_def or_flag_def flag_bit_def)
    ultimately show ?thesis using ct packet(1) by blast
  next
    case handshake
    then show ?thesis using assms(5) by (simp add: gw_consts)
  next
    case stopped
    then show ?thesis by simp
  qed
qed

section \<open>From the services to the clients\<close>

fun ev_target :: "gw_event \<Rightarrow> cref option" where
  "ev_target (EvSend c _) = Some c"
| "ev_target (EvSendPacket c _) = Some c"
| "ev_target (EvEnqueue c _) = Some c"
| "ev_target (EvClose c) = Some c"
| "ev_target (EvCloseAfterWrite c) = Some c"
| "ev_target (EvForward _ _) = None"

fun ev_packet :: "gw_event \<Rightarrow> gpacket option" where
  "ev_packet (EvSendPacket _ p) = Some p"
| "ev_packet (EvEnqueue _ p) = Some p"
| "ev_packet _ = None"

lemma enqueue_cases:
  assumes "conns_ok s"
  shows "enqueue_to_client s t out = [] \<and> gw_clients s t = None \<or>
    (\<exists>c. gw_clients s t \<noteq> None \<and> conn_id c = t \<and> (\<forall>n. c \<noteq> CUdp n) \<and>
       (enqueue_to_client s t out = [EvEnqueue c out] \<or> enqueue_to_client s t out = [EvSendPacket c out]))"
proof (cases "gw_clients s t")
  case None
  then show ?thesis by (simp add: enqueue_to_client_def)
next
  case (Some it)
  then have it: "conn_id it = t" "\<forall>n. it \<noteq> CUdp n" using assms by (auto simp: conns_ok_def)
  have w: "gw_ws s t = Some c \<Longrightarrow> conn_id c = t \<and> (\<forall>n. c \<noteq> CUdp n)" for c
    using assms unfolding conns_ok_def by (metis cref.distinct(9))
  have k: "gw_kcp s t = Some c \<Longrightarrow> conn_id c = t \<and> (\<forall>n. c \<noteq> CUdp n)" for c
    using assms unfolding conns_ok_def by (metis conn_id.simps(3) cref.distinct(11))
  have "gw_udp s t = None" using assms by (simp add: conns_ok_def)
  then show ?thesis using Some it w k
    by (cases "gw_ws s t"; cases "gw_kcp s t") (auto simp: enqueue_to_client_def)
qed

lemma with_payload_sel [simp]: "gp_payload (with_payload p pl) = pl" "gp_payload (mark_encrypted p) = gp_payload p"
  by (simp_all add: with_payload_def mark_encrypted_def)

lemma plain_response_payload [simp]: "gp_payload (plain_response pkt) = drop 8 (gp_payload pkt)"
  by (simp add: plain_response_def)

lemma mark_encrypted_flag [simp]: "has_flag (ph_flags (gp_header (mark_encrypted p))) FlagEncrypt"
  by (simp add: mark_encrypted_def has_flag_def or_flag_def flag_bit_def)

definition sealed_response :: "gw_env \<Rightarrow> gateway \<Rightarrow> gpacket \<Rightarrow> cref \<Rightarrow> gpacket \<Rightarrow> bool" where
  "sealed_response e s pkt c out \<longleftrightarrow>
     (drop 8 (gp_payload pkt) = [] \<and> gp_payload out = [] \<or>
      (\<exists>key n. gw_sessions s (conn_id c) = Some key \<and> length key = 32 \<and>
         ge_encrypt e n key (drop 8 (gp_payload pkt)) = Some (gp_payload out) \<and>
         has_flag (ph_flags (gp_header out)) FlagEncrypt))"

lemma build_response_sealed:
  assumes "build_response_for e i (plain_response pkt) s (conn_id c) = Some out"
  shows "sealed_response e s pkt c out"
  using assms
  by (auto simp: build_response_for_def sealed_response_def get_session_key_def encrypt_packet_payload_def Let_def
      split: if_splits option.splits)

lemma deliver_sealed:
  assumes "conns_ok s" and "ev \<in> set (deliver_response e pkt s)"
  shows "\<exists>c out. ev_target ev = Some c \<and> ev_packet ev = Some out \<and> conn_id c \<in> set (response_targets pkt s) \<and>
    (\<forall>n. c \<noteq> CUdp n) \<and> sealed_response e s pkt c out"
proof -
  obtain i t where t: "(i, t) \<in> set (enumerate 0 (response_targets pkt s))" "ev \<in> set (respond_to e (plain_response pkt) s (i, t))"
    using assms(2) by (auto simp: deliver_response_def split: if_splits)
  then obtain out where out: "build_response_for e i (plain_response pkt) s t = Some out" "ev \<in> set (enqueue_to_client s t out)"
    by (cases "build_response_for e i (plain_response pkt) s t") (auto simp: respond_to_def)
  moreover obtain c where "conn_id c = t" "\<forall>n. c \<noteq> CUdp n" "ev = EvEnqueue c out \<or> ev = EvSendPacket c out"
    using enqueue_cases [OF assms(1), of t out] out(2) by auto
  moreover have "t \<in> set (response_targets pkt s)" using t(1) by (simp add: enumerate_eq_zip) (erule set_zip_rightD)
  ultimately show ?thesis using build_response_sealed by fastforce
qed

lemma direct_events_no_packet:
  "ev \<in> set (kick_connection e i r s) \<Longrightarrow> ev_packet ev = None"
  "ev \<in> set (send_to_client_direct e i p True s) \<Longrightarrow> ev_packet ev = None"
  by (auto simp: kick_connection_def send_to_client_direct_def Let_def split: option.splits)

lemma bind_response_events:
  "ev \<in> set (fst (snd (on_bind_response e pkt s))) \<Longrightarrow> ev_packet ev = None"
  by (auto simp: on_bind_response_def bind_player_def Let_def split_beta direct_events_no_packet split: option.splits if_splits)

lemma bind_response_sessions [simp]: "gw_sessions (fst (on_bind_response e pkt s)) = gw_sessions s"
  by (simp add: on_bind_response_def Let_def split_beta split: option.split)

text \<open>C4: no answer of a service leaves the gateway in the clear: in every reachable state, each packet that an upstream
  packet makes it queue or send for a client is empty, or is the payload behind the eight bytes of the
  target, encrypted with the session key of exactly the connection it is given to, and marked as encrypted. And the
  connection is the one the answer names, or a member of the room it names.\<close>

theorem responses_encrypted:
  assumes "gw_reachable s" and "on_upstream_packet e pkt s = (s', evs)" and "ev \<in> set evs" and "ev_packet ev = Some out"
  shows "\<exists>c. ev_target ev = Some c \<and> sealed_response e s pkt c out \<and>
    (conn_id c = read_u64be (gp_payload pkt) \<or>
     has_flag (ph_flags (gp_header pkt)) FlagRoomBcast \<and>
       (\<exists>ms. gw_rooms s' (read_u64be (gp_payload pkt)) = Some ms \<and> conn_id c \<in> set ms))"
proof -
  have ok: "gw_ok s" "gw_ok s'"
    using gw_reachable_ok [OF assms(1)] gw_ok_upstream [of s e pkt] assms(2) by simp_all
  have same: "gw_sessions s' = gw_sessions s"
    using assms(2) by (auto simp: on_upstream_packet_def Let_def split_beta split: if_splits)
  have "ev \<in> set (deliver_response e pkt s')"
    using assms(2-4) bind_response_events [of ev e pkt s]
    by (auto simp: on_upstream_packet_def Let_def split_beta split: if_splits)
  then obtain c where c: "ev_target ev = Some c" "conn_id c \<in> set (response_targets pkt s')" "sealed_response e s' pkt c out"
    using deliver_sealed [of s' ev e pkt] ok(2) assms(4) by (auto simp: gw_ok_def)
  then show ?thesis using same
    by (auto simp: sealed_response_def response_targets_def Let_def split: if_splits option.splits)
qed

section \<open>Rooms\<close>

definition rooms_ok :: "gateway \<Rightarrow> bool" where
  "rooms_ok s \<longleftrightarrow> (\<forall>r ms. gw_rooms s r = Some ms \<longrightarrow> distinct ms \<and> ms \<noteq> [])"

lemma rooms_ok_change:
  "rooms_ok s \<Longrightarrow> rooms_ok (leave_room i s)" "rooms_ok s \<Longrightarrow> rooms_ok (on_room_join pl s)"
  "rooms_ok s \<Longrightarrow> rooms_ok (on_room_leave pl s)"
  by (auto simp: rooms_ok_def leave_room_def on_room_join_def on_room_leave_def Let_def distinct_removeAll List.insert_def
      split: option.split if_splits)

lemma rooms_ok_same: "gw_rooms s' = gw_rooms s \<Longrightarrow> rooms_ok s' = rooms_ok s"
  by (simp add: rooms_ok_def)

lemma conn_data_rooms:
  assumes "on_conn_data e c pkt s = Some (s', evs)"
  shows "gw_rooms s' = gw_rooms s"
  using assms
proof (cases rule: conn_data_cases)
  case handshake
  then show ?thesis by (auto simp: handle_handshake_def Let_def split: if_splits prod.splits bind_splits)
next
  case (packet key pkt1)
  then show ?thesis
    by (auto simp: on_client_packet_def handle_player_bind_def Let_def split: if_splits option.splits)
qed simp

lemma upstream_rooms_ok: "rooms_ok s \<Longrightarrow> rooms_ok (fst (on_upstream_packet e pkt s))"
proof -
  assume r: "rooms_ok s"
  have "gw_rooms (fst (on_bind_response e pkt s)) = gw_rooms s"
    by (simp add: on_bind_response_def Let_def split_beta split: option.split)
  then have "rooms_ok (fst (on_bind_response e pkt s))" using r rooms_ok_same by blast
  then show ?thesis using r by (simp add: on_upstream_packet_def Let_def split_beta rooms_ok_change)
qed

lemma rooms_ok_step:
  assumes "rooms_ok s" and "gw_step e i s = Some (s', evs)"
  shows "rooms_ok s'"
proof -
  have close: "rooms_ok (drop_client k (cleanup_player_state k (leave_room k t)))" if "gw_rooms t = gw_rooms s" for k t
  proof -
    have "rooms_ok t" using that assms(1) rooms_ok_same by blast
    then have "rooms_ok (leave_room k t)" by (rule rooms_ok_change)
    moreover have "gw_rooms (drop_client k (cleanup_player_state k (leave_room k t))) = gw_rooms (leave_room k t)" by simp
    ultimately show ?thesis using rooms_ok_same by blast
  qed
  consider "gw_rooms s' = gw_rooms s" | pkt where "i = InUpstream pkt" | "\<exists>k t. gw_rooms t = gw_rooms s \<and>
      s' = drop_client k (cleanup_player_state k (leave_room k t))"
  proof (cases i)
    case (InTcpClose n)
    then have "s' = drop_client n (cleanup_player_state n (leave_room n s))"
      using assms(2) by (simp add: on_client_close_def)
    then show ?thesis using that(3) by blast
  next
    case (InWsClose n)
    then have "s' = s \<or> (\<exists>a. s' = drop_client (conn_id a) (cleanup_player_state (conn_id a) (leave_room (conn_id a)
        (s\<lparr>gw_ws := (gw_ws s)(n OR push_bit 63 1 := None)\<rparr>))))"
      using assms(2) by (auto simp: on_ws_close_def Let_def split: option.splits)
    then show ?thesis using that(1,3) by (metis gateway.select_convs(7) gateway.surjective gateway.update_convs(2))
  next
    case (InKcpClose n)
    then have "s' = s \<or> (\<exists>a. s' = drop_client (conn_id a) (cleanup_player_state (conn_id a) (leave_room (conn_id a)
        (s\<lparr>gw_kcp := (gw_kcp s)(n := None)\<rparr>))))"
      using assms(2) by (auto simp: on_kcp_close_def Let_def split: option.splits)
    then show ?thesis using that(1,3) by (metis gateway.select_convs(7) gateway.surjective gateway.update_convs(3))
  next
    case (InWsMessage n b m)
    then have "on_ws_message e n b m s = Some (s', evs)" using assms(2) by simp
    then show ?thesis by (cases rule: ws_message_cases) (use that(1) conn_data_rooms in auto)
  qed (use assms(2) that conn_data_rooms in \<open>auto simp: on_client_connect_def on_ws_connect_def on_kcp_connect_def
        on_udp_packet_def heartbeat_scan_def Let_def\<close>)
  then show ?thesis
  proof cases
    case 2
    then show ?thesis using upstream_rooms_ok [OF assms(1), of e pkt] assms(2) by simp
  qed (use assms(1) close rooms_ok_same in blast)+
qed

lemma gw_reachable_rooms: "gw_reachable s \<Longrightarrow> rooms_ok s"
  by (induction rule: gw_reachable.induct) (simp add: gateway_new_def rooms_ok_def, rule rooms_ok_step)

text \<open>The connection an answer for the id \<open>i\<close> is given to, and what it must look like: the header of the service's packet but
  for the length and the encryption flag, and the bytes behind the target, as they are when there are none and encrypted
  with the session key of \<open>i\<close> otherwise.\<close>

definition answers_on :: "gateway \<Rightarrow> u64 \<Rightarrow> cref \<Rightarrow> bool" where
  "answers_on s i c \<longleftrightarrow> gw_clients s i \<noteq> None \<and>
     (gw_ws s i = Some c \<or> gw_ws s i = None \<and> (gw_kcp s i = Some c \<or> gw_kcp s i = None \<and> gw_clients s i = Some c))"

definition answer_for :: "gw_env \<Rightarrow> gpacket \<Rightarrow> gateway \<Rightarrow> u64 \<Rightarrow> gpacket \<Rightarrow> bool" where
  "answer_for e pkt s i out \<longleftrightarrow>
     (let body = drop 8 (gp_payload pkt); flags = ph_flags (gp_header pkt); enc = flag_bit FlagEncrypt
      in gp_header out = (gp_header pkt)\<lparr>ph_flags := (if body = [] then flags AND NOT enc else flags OR enc),
           ph_length := HEADER_SIZE + of_nat (length (gp_payload out))\<rparr> \<and>
         (if body = [] then gp_payload out = []
          else \<exists>key n. gw_sessions s i = Some key \<and> length key = 32 \<and> ge_encrypt e n key body = Some (gp_payload out)))"

definition answer_event :: "gw_env \<Rightarrow> gpacket \<Rightarrow> gateway \<Rightarrow> u64 \<Rightarrow> gw_event \<Rightarrow> bool" where
  "answer_event e pkt s i ev \<longleftrightarrow>
     (\<exists>c out. answers_on s i c \<and> conn_id c = i \<and> answer_for e pkt s i out \<and> (ev = EvEnqueue c out \<or> ev = EvSendPacket c out))"

lemma enqueue_answers:
  assumes "conns_ok s" and "gw_clients s i \<noteq> None" and "answer_for e pkt s i out"
  shows "\<exists>ev. enqueue_to_client s i out = [ev] \<and> answer_event e pkt s i ev"
proof -
  have "gw_udp s i = None" using assms(1) by (simp add: conns_ok_def)
  moreover have "conn_id c = i" if "answers_on s i c" for c
    using that assms(1) unfolding conns_ok_def answers_on_def by (metis conn_id.simps(3))
  ultimately show ?thesis using assms(2,3)
    by (cases "gw_ws s i"; cases "gw_kcp s i") (auto simp: enqueue_to_client_def answer_event_def answers_on_def)
qed

lemma response_answers:
  assumes "gw_ok s" and "drop 8 (gp_payload pkt) = [] \<or> gw_sessions s i \<noteq> None"
    and "\<And>n k x. length k = 32 \<Longrightarrow> ge_encrypt e n k x \<noteq> None"
  shows "\<exists>out. build_response_for e n (plain_response pkt) s i = Some out \<and> answer_for e pkt s i out"
proof (cases "drop 8 (gp_payload pkt) = []")
  case True
  then show ?thesis
    by (simp add: build_response_for_def answer_for_def with_payload_def) (simp add: plain_response_def)
next
  case False
  then obtain key where key: "gw_sessions s i = Some key" using assms(2) by auto
  then have k: "length key = 32" using assms(1) by (simp add: gw_ok_def keys_ok_def)
  then have "key \<noteq> []" by auto
  obtain ct where ct: "ge_encrypt e n key (drop 8 (gp_payload pkt)) = Some ct" using assms(3) [OF k] by blast
  have f: "or_flag (f AND NOT (flag_bit FlagEncrypt)) FlagEncrypt = f OR flag_bit FlagEncrypt" for f
    by (rule bit_word_eqI) (auto simp: or_flag_def bit_simps)
  show ?thesis
    using False key k \<open>key \<noteq> []\<close> ct
    by (simp add: build_response_for_def get_session_key_def encrypt_packet_payload_def answer_for_def f mark_encrypted_def
          with_payload_def plain_response_def) blast
qed

text \<open>C11: An answer reaches exactly those it is meant for, once, and nothing else happens. For an upstream packet that is
  no answer to a bind request and no room command: without the eight bytes of a target nothing is sent; otherwise the targets
  (every member of the room a broadcast names, in the order of the members, or the one connection a plain answer names)
  are distinct, and the gateway's actions are, in the order of the targets, one packet for each target that is connected and
  has a session (for an answer with no bytes behind the target, each that is connected), handed to the connection
  held for that id. The packet has the header of the service's packet and its bytes, encrypted with the key of that
  very connection; no connection is closed and no state changes. It is assumed that encryption with a key of 32 bytes succeeds.\<close>

theorem response_reaches_targets:
  assumes "gw_reachable s" and "on_upstream_packet e pkt s = (s', evs)"
    and "ph_cmd (gp_header pkt) \<notin> {CMD_GW_ROOM_JOIN, CMD_GW_ROOM_LEAVE, CMD_GW_PLAYER_BIND}"
    and "\<And>n k x. length k = 32 \<Longrightarrow> ge_encrypt e n k x \<noteq> None"
  shows "s' = s \<and> distinct (response_targets pkt s) \<and>
    (if length (gp_payload pkt) < 8 then evs = []
     else list_all2 (answer_event e pkt s)
       (filter (\<lambda>i. gw_clients s i \<noteq> None \<and> (length (gp_payload pkt) = 8 \<or> gw_sessions s i \<noteq> None)) (response_targets pkt s)) evs)"
proof -
  have ok: "gw_ok s" by (rule gw_reachable_ok [OF assms(1)])
  have body: "drop 8 (gp_payload pkt) = [] \<longleftrightarrow> length (gp_payload pkt) = 8" if "8 \<le> length (gp_payload pkt)" using that by auto
  let ?live = "\<lambda>i. gw_clients s i \<noteq> None \<and> (length (gp_payload pkt) = 8 \<or> gw_sessions s i \<noteq> None)"
  have one: "list_all2 (answer_event e pkt s) (if ?live i then [i] else []) (respond_to e (plain_response pkt) s (n, i))"
    if len: "8 \<le> length (gp_payload pkt)" for n i
  proof (cases "length (gp_payload pkt) = 8 \<or> gw_sessions s i \<noteq> None")
    case True
    then obtain out where out: "build_response_for e n (plain_response pkt) s i = Some out" "answer_for e pkt s i out"
      using response_answers [OF ok _ assms(4)] body [OF len] by blast
    show ?thesis
    proof (cases "gw_clients s i = None")
      case False
      then obtain ev where "enqueue_to_client s i out = [ev]" "answer_event e pkt s i ev"
        using enqueue_answers out(2) ok gw_ok_def by blast
      then show ?thesis using True False out(1) by (simp add: respond_to_def)
    qed (simp add: respond_to_def out(1) enqueue_to_client_def)
  next
    case False
    then show ?thesis using body [OF len] by (simp add: respond_to_def build_response_for_def get_session_key_def)
  qed
  have all: "list_all2 (answer_event e pkt s) (filter ?live ts) (concat (map (respond_to e (plain_response pkt) s) (enumerate n ts)))"
    if "8 \<le> length (gp_payload pkt)" for n ts
  proof (induction ts arbitrary: n)
    case (Cons i ts)
    have "filter ?live (i # ts) = (if ?live i then [i] else []) @ filter ?live ts" by simp
    then show ?case using list_all2_appendI [OF one [OF that] Cons] by (simp only: enumerate_simps list.map concat.simps)
  qed simp
  have "distinct (response_targets pkt s)"
    using gw_reachable_rooms [OF assms(1)] by (auto simp: response_targets_def rooms_ok_def Let_def split: option.split)
  moreover have "s' = s" "evs = deliver_response e pkt s"
    using assms(2,3) by (auto simp: on_upstream_packet_def Let_def split: if_splits)
  ultimately show ?thesis using all by (simp add: deliver_response_def)
qed

section \<open>What a closed connection leaves behind\<close>

text \<open>The part the closes of the three servers share, as one update of the state.\<close>

lemma close_effect:
  assumes "bind_inverse s"
  shows "drop_client cid (cleanup_player_state cid (leave_room cid s)) = s\<lparr>gw_clients := (gw_clients s)(cid := None),
      gw_sessions := (gw_sessions s)(cid := None),
      gw_rooms := (\<lambda>r. case gw_rooms s r of None \<Rightarrow> None
         | Some ms \<Rightarrow> if gw_conn_room s cid \<noteq> Some r then Some ms else if set ms \<subseteq> {cid} then None else Some (removeAll cid ms)),
      gw_conn_room := (gw_conn_room s)(cid := None),
      gw_player_conn := (\<lambda>p. if gw_player_conn s p = Some cid then None else gw_player_conn s p),
      gw_conn_player := (gw_conn_player s)(cid := None),
      gw_pending := (gw_pending s)(cid := None), gw_gauge := gw_gauge s - 1\<rparr>"
proof -
  have e: "removeAll cid ms = [] \<longleftrightarrow> set ms \<subseteq> {cid}" for ms by (auto simp: removeAll_filter_not_eq filter_empty_conv)
  have l: "leave_room cid s = s\<lparr>gw_rooms := (\<lambda>r. case gw_rooms s r of None \<Rightarrow> None
         | Some ms \<Rightarrow> if gw_conn_room s cid \<noteq> Some r then Some ms else if set ms \<subseteq> {cid} then None else Some (removeAll cid ms)),
      gw_conn_room := (gw_conn_room s)(cid := None)\<rparr>"
    by (cases s) (auto simp: leave_room_def e fun_eq_iff split: option.split)
  have p: "gw_player_conn s p = Some cid \<longleftrightarrow> gw_conn_player s cid = Some p" for p
    using assms by (simp add: bind_inverse_def)
  have c: "cleanup_player_state cid t = t\<lparr>gw_pending := (gw_pending t)(cid := None),
      gw_player_conn := (\<lambda>p. if gw_player_conn t p = Some cid then None else gw_player_conn t p),
      gw_conn_player := (gw_conn_player t)(cid := None)\<rparr>"
    if "gw_player_conn t = gw_player_conn s" "gw_conn_player t = gw_conn_player s" for t
  proof (cases "gw_conn_player s cid")
    case None
    then have "gw_player_conn t p \<noteq> Some cid" for p using p that by simp
    then show ?thesis using None that by (cases t) (simp add: cleanup_player_state_def Let_def fun_upd_idem)
  next
    case (Some q)
    then have "(\<lambda>p. if gw_player_conn t p = Some cid then None else gw_player_conn t p) = (gw_player_conn t)(q := None)"
      using p that by (auto simp: fun_eq_iff)
    then show ?thesis using Some p that by (simp add: cleanup_player_state_def Let_def)
  qed
  show ?thesis unfolding l by (subst c) (simp_all add: drop_client_def remove_session_def Let_def cong: if_cong)
qed

text \<open>C12: What the close of a TCP, WebSocket or KCP connection with the id \<open>cid\<close> does to the gateway, the whole of it. Its
  client entry, session key, pending bind request, player and current room are gone, no player is bound to it, a WebSocket or KCP
  connection is out of the table of its server, and it has left the room it was last put into (which goes with its last
  member). What belongs to other ids, and every other room, is untouched; nothing is sent. So the id stays behind only in
  rooms it was put into before its last one, see \<open>room_switch_leaks\<close>.\<close>

theorem close_cleans_up:
  assumes "gw_reachable s" and "gw_step e i s = Some (s', evs)"
    and "i = InTcpClose n \<and> cid = n \<or> i = InWsClose n \<and> cid = conn_id (CWs n) \<and> gw_ws s cid \<noteq> None \<or>
         i = InKcpClose n \<and> cid = n \<and> gw_kcp s cid \<noteq> None"
  shows "evs = [] \<and> s' = s\<lparr>gw_clients := (gw_clients s)(cid := None),
      gw_ws := (if i = InWsClose n then (gw_ws s)(cid := None) else gw_ws s),
      gw_kcp := (if i = InKcpClose n then (gw_kcp s)(cid := None) else gw_kcp s),
      gw_sessions := (gw_sessions s)(cid := None),
      gw_rooms := (\<lambda>r. case gw_rooms s r of None \<Rightarrow> None
         | Some ms \<Rightarrow> if gw_conn_room s cid \<noteq> Some r then Some ms else if set ms \<subseteq> {cid} then None else Some (removeAll cid ms)),
      gw_conn_room := (gw_conn_room s)(cid := None),
      gw_player_conn := (\<lambda>p. if gw_player_conn s p = Some cid then None else gw_player_conn s p),
      gw_conn_player := (gw_conn_player s)(cid := None),
      gw_pending := (gw_pending s)(cid := None), gw_gauge := gw_gauge s - 1\<rparr>"
proof -
  have ok: "gw_ok s" by (rule gw_reachable_ok [OF assms(1)])
  have c: "gw_ws s i = Some a \<Longrightarrow> conn_id a = i" "gw_kcp s i = Some a \<Longrightarrow> conn_id a = i" for i a
    using ok unfolding gw_ok_def conns_ok_def by (metis conn_id.simps(3))+
  have k: "bind_inverse (s\<lparr>gw_ws := m\<rparr>)" "bind_inverse (s\<lparr>gw_kcp := m\<rparr>)" "bind_inverse s" for m
    using ok by (simp_all add: gw_ok_def bind_inverse_def)
  show ?thesis
    using assms(3)
  proof (elim disjE conjE)
    assume "i = InTcpClose n" "cid = n"
    then show ?thesis using assms(2) close_effect [OF k(3), of cid] by (simp add: on_client_close_def)
  next
    assume a: "i = InWsClose n" "cid = conn_id (CWs n)" "gw_ws s cid \<noteq> None"
    then obtain x where x: "gw_ws s cid = Some x" by auto
    then show ?thesis using assms(2) a c(1) [OF x] close_effect [OF k(1), of cid] by (simp add: on_ws_close_def Let_def cong: if_cong option.case_cong) (cases s, simp)
  next
    assume a: "i = InKcpClose n" "cid = n" "gw_kcp s cid \<noteq> None"
    then obtain x where x: "gw_kcp s cid = Some x" by auto
    then show ?thesis using assms(2) a c(2) [OF x] close_effect [OF k(2), of cid] by (simp add: on_kcp_close_def Let_def cong: if_cong option.case_cong) (cases s, simp)
  qed
qed

text \<open>The membership of a room is not part of that: a connection that was put into a second room without leaving the
  first stays a member of the first one for ever, and a connection that closed before its join arrives is
  entered all the same.\<close>

definition room_packet :: "u32 \<Rightarrow> u64 \<Rightarrow> u64 \<Rightarrow> gpacket" where
  "room_packet cmd room cid =
     \<lparr>gp_header = default_header\<lparr>ph_cmd := cmd\<rparr>, gp_payload = write_u64be room @ write_u64be cid\<rparr>"

lemma room_packet_fields:
  "ph_cmd (gp_header (room_packet cmd room cid)) = cmd" "length (gp_payload (room_packet cmd room cid)) = 16"
  "read_u64be (gp_payload (room_packet cmd room cid)) = room" "read_u64be (drop 8 (gp_payload (room_packet cmd room cid))) = cid"
  by (simp_all add: room_packet_def read_be_get write_be_put be_get_put)

lemma room_switch_leaks:
  assumes "r1 \<noteq> r2" and "s2 = fst (on_upstream_packet e (room_packet CMD_GW_ROOM_JOIN r2 n)
      (fst (on_upstream_packet e (room_packet CMD_GW_ROOM_JOIN r1 n) s)))"
  shows "\<exists>ms. gw_rooms (on_client_close (CTcp n) s2) r1 = Some ms \<and> n \<in> set ms"
proof -
  have j: "on_upstream_packet e (room_packet CMD_GW_ROOM_JOIN r n) t = (on_room_join (gp_payload (room_packet CMD_GW_ROOM_JOIN r n)) t, [])"
    for r t by (simp add: on_upstream_packet_def room_packet_fields)
  have "gw_conn_room s2 n = Some r2" "\<exists>ms. gw_rooms s2 r1 = Some ms \<and> n \<in> set ms"
    using assms by (auto simp: j on_room_join_def room_packet_fields Let_def)
  then show ?thesis using assms(1) by (auto simp: on_client_close_def leave_room_def split: option.split)
qed

section \<open>Ids of the four servers\<close>

text \<open>A UDP sender needs no authentication at all. For every id that is bound to a player, a packet from the UDP
  peer with that number is treated exactly like a decrypted packet of the bound TCP connection: the services receive
  the very same packet, and the UDP peer has done no handshake, holds no key and was never bound.\<close>

theorem udp_speaks_for_bound_client:
  assumes "is_player_bound s n" and "ph_cmd (gp_header pkt) \<noteq> CMD_GW_PLAYER_BIND"
  shows "gw_step e (InUdpData n pkt) s = Some (on_client_packet e (CTcp n) pkt s)"
  using assms by (simp add: on_udp_packet_def on_client_packet_def Let_def)

lemma direct_targets:
  assumes "conns_ok s"
  shows "ev \<in> set (kick_connection e i r s) \<Longrightarrow> ev_target ev \<noteq> Some (CUdp n)"
    "ev \<in> set (send_to_client_direct e i p b s) \<Longrightarrow> ev_target ev \<noteq> Some (CUdp n)"
    "ev \<in> set (send_error_and_close e i q code msg s) \<Longrightarrow> ev_target ev \<noteq> Some (CUdp n)"
proof -
  have it: "gw_clients s i = Some c \<Longrightarrow> c \<noteq> CUdp n" for c using assms by (auto simp: conns_ok_def)
  have "gw_clients s i = Some c \<Longrightarrow> pick_conn s i c \<noteq> CUdp n" for c
    using assms by (auto simp: conns_ok_def pick_conn_def split: option.split)
  then show "ev \<in> set (kick_connection e i r s) \<Longrightarrow> ev_target ev \<noteq> Some (CUdp n)"
    "ev \<in> set (send_to_client_direct e i p b s) \<Longrightarrow> ev_target ev \<noteq> Some (CUdp n)"
    "ev \<in> set (send_error_and_close e i q code msg s) \<Longrightarrow> ev_target ev \<noteq> Some (CUdp n)"
    using it by (auto simp: kick_connection_def send_to_client_direct_def send_error_and_close_def Let_def split: option.splits if_splits)
qed

lemma client_packet_targets:
  assumes "gw_ok s" and "\<And>n. c \<noteq> CUdp n" and "on_client_packet e c pkt s = (s', evs)" and "ev \<in> set evs"
  shows "ev_target ev \<noteq> Some (CUdp n)"
proof -
  have t: "conns_ok (s\<lparr>gw_requests := k\<rparr>)" "conns_ok (s\<lparr>gw_requests := k, gw_pending := m\<rparr>)" for k m
    using assms(1) by (simp_all add: gw_ok_def conns_ok_def)
  show ?thesis
    using assms(3,4) direct_targets [OF t(1)] direct_targets [OF t(2)]
    by (auto simp: on_client_packet_def handle_player_bind_def forward_packet_def Let_def split: if_splits option.splits)
qed

lemma conn_data_targets:
  assumes "gw_ok s" and c: "\<And>n. c \<noteq> CUdp n" and "on_conn_data e c pkt s = Some (s', evs)" and "ev \<in> set evs"
  shows "ev_target ev \<noteq> Some (CUdp n)"
  using assms(3)
proof (cases rule: conn_data_cases)
  case handshake
  then have "ev = EvClose c \<or> (\<exists>p. ev = EvSendPacket c p)" using handshake_frame(3) assms(4) by blast
  then show ?thesis using c by auto
next
  case stopped
  then show ?thesis using assms(4) c by simp
next
  case (packet key pkt1)
  then show ?thesis using client_packet_targets assms(1,4) c by metis
qed

lemma bind_response_targets:
  assumes "conns_ok s" and "ev \<in> set (fst (snd (on_bind_response e pkt s)))"
  shows "ev_target ev \<noteq> Some (CUdp n)"
proof -
  have p: "conns_ok (s\<lparr>gw_pending := m\<rparr>)" for m using assms(1) by (simp add: conns_ok_def)
  have "ev_target ev \<noteq> Some (CUdp n)" if "ev \<in> set (snd (bind_player e q i (s\<lparr>gw_pending := m\<rparr>)))" for q i m
  proof -
    let ?b = "bind_player e q i (s\<lparr>gw_pending := m\<rparr>)"
    have "conns_ok (fst ?b)" using p [of m] by (simp add: conns_ok_def)
    moreover have "\<exists>old r. ev \<in> set (kick_connection e old r (fst ?b))"
      using that by (auto simp: bind_player_def Let_def split_beta split: if_splits)
    ultimately show ?thesis using direct_targets(1) by blast
  qed
  then show ?thesis
    using assms(2) direct_targets(2) [OF p]
    by (auto simp: on_bind_response_def Let_def split_beta split: option.splits if_splits)
qed

text \<open>And no UDP peer ever gets an answer: in no reachable state does any input make the gateway send anything to a
  UDP connection, because nothing is ever filed in its table of UDP clients.\<close>

theorem udp_never_answered:
  assumes "gw_reachable s" and "gw_step e i s = Some (s', evs)" and "ev \<in> set evs"
  shows "ev_target ev \<noteq> Some (CUdp n)"
proof -
  have ok: "gw_ok s" by (rule gw_reachable_ok [OF assms(1)])
  show ?thesis
    using assms(2)
  proof (cases rule: step_cases)
    case (data c pkt)
    have "c \<noteq> CUdp m" for m
    proof -
      have "gw_ws s k = Some c \<Longrightarrow> c \<noteq> CUdp m" for k using ok by (auto simp: gw_ok_def conns_ok_def)
      then show ?thesis using data(1) by (cases i) (auto split: option.splits if_splits)
    qed
    then show ?thesis using conn_data_targets [OF ok _ data(2) assms(3)] by blast
  next
    case (upstream pkt)
    have ok': "gw_ok s'" using gw_ok_upstream [OF ok, of e pkt] upstream(2) by simp
    then have "ev \<in> set (deliver_response e pkt s') \<Longrightarrow> ev_target ev \<noteq> Some (CUdp n)"
      using deliver_sealed [of s' ev e pkt] by (auto simp: gw_ok_def)
    moreover have "ev \<in> set (fst (snd (on_bind_response e pkt s))) \<Longrightarrow> ev_target ev \<noteq> Some (CUdp n)"
      using bind_response_targets [of s ev e pkt n] ok by (simp add: gw_ok_def)
    ultimately show ?thesis
      using upstream(2) assms(3) by (auto simp: on_upstream_packet_def Let_def split_beta split: if_splits)
  next
    case (udp m pkt)
    then show ?thesis using assms(3) by (auto simp: forward_packet_def split: option.splits)
  next
    case other
    then show ?thesis using assms(3) by auto
  qed
qed

text \<open>The KCP server counts its connections from 1, as the TCP server does, and the gateway files both under the same
  ids. So the n-th KCP connection speaks for the n-th TCP connection: when that one has a session and
  is bound, a KCP client that has only connected, without any handshake, makes the gateway forward its packet as
  one of the bound player, and from then on it gets the answers meant for the TCP client.\<close>

theorem kcp_speaks_for_tcp:
  assumes "gw_sessions s n = Some key" and "key \<noteq> []" and "is_player_bound s n" and "gp_payload pkt = []"
    and "0xFF < ph_cmd (gp_header pkt)" and "ph_cmd (gp_header pkt) \<noteq> CMD_GW_PLAYER_BIND"
    and "route_to_pool e s (ph_cmd (gp_header pkt)) = Some svc" and "gw_ws s n = None"
    and "gw_step e (InKcpConnect n) s = Some (s1, evs1)"
  shows "\<exists>s2. gw_step e (InKcpData n pkt) s1 = Some (s2, [EvForward svc (extend_payload n pkt)]) \<and>
    (\<forall>response. enqueue_to_client s2 n response = [EvSendPacket (CKcp n) response])"
proof -
  have s1: "s1 = on_kcp_connect (CKcp n) s" using assms(9) by simp
  have r: "route_to_pool e s1 c = route_to_pool e s c" for c
    by (rule fun_cong [OF route_frame]) (simp add: s1 on_kcp_connect_def)
  have h: "ph_cmd (gp_header pkt) \<noteq> CMD_SYS_HANDSHAKE" using assms(5) by (auto simp: gw_consts)
  show ?thesis
    using assms(1-8) h
    by (auto simp: on_conn_data_def handshake_on_packet_def encryption_on_packet_def get_session_key_def on_client_packet_def
        forward_packet_def r Let_def) (auto simp: s1 on_kcp_connect_def is_player_bound_def enqueue_to_client_def)
qed

section \<open>Bind requests\<close>

text \<open>Bind requests can be confused. A client that sends a bind request for a player whose token it has and, with the
  same sequence number and before the answer comes, a second one for another player and any token, is bound to
  the second player by the answer to the first: the answer does not name the player, the gateway keeps
  only the latest request, and it tells them apart by the sequence number the client chooses.\<close>

theorem bind_confusion:
  assumes "ge_bind_req e (gp_payload req1) = Some (p1, token1)" and "ge_bind_req e (gp_payload req2) = Some (p2, token2)"
    and "p1 \<noteq> 0" and "p2 \<noteq> 0" and "token1 \<noteq> []" and "token2 \<noteq> []"
    and "ph_cmd (gp_header req1) = CMD_GW_PLAYER_BIND" and "ph_cmd (gp_header req2) = CMD_GW_PLAYER_BIND"
    and "ph_seq (gp_header req1) = ph_seq (gp_header req2)" and "\<not> is_player_bound s (conn_id c)"
    and "route_to_pool e s CMD_GW_PLAYER_BIND = Some svc" and "\<And>out. ge_pool_send e svc out"
    and "ph_cmd (gp_header answer) = CMD_GW_PLAYER_BIND" and "ph_seq (gp_header answer) = ph_seq (gp_header req1)"
    and "8 \<le> length (gp_payload answer)" and "read_u64be (gp_payload answer) = conn_id c"
    and "ge_bind_res e (drop 8 (gp_payload answer)) = Some 0"
    and "on_client_packet e c req1 s = (s1, evs1)" and "on_client_packet e c req2 s1 = (s2, evs2)"
    and "on_upstream_packet e answer s2 = (s3, evs3)"
  shows "evs1 = [EvForward svc (extend_payload (conn_id c) req1)] \<and> gw_conn_player s3 (conn_id c) = Some p2"
proof -
  have r: "route_to_pool e (s\<lparr>gw_requests := k, gw_pending := m\<rparr>) cmd = route_to_pool e s cmd" for k m cmd
    by (rule fun_cong [OF route_frame]) simp
  have s1: "s1 = s\<lparr>gw_requests := gw_requests s + 1, gw_pending := (gw_pending s)(conn_id c \<mapsto>
      \<lparr>pb_player = p1, pb_seq = ph_seq (gp_header req1), pb_at = ge_now e\<rparr>)\<rparr>"
    and f1: "evs1 = [EvForward svc (extend_payload (conn_id c) req1)]"
    using assms by (auto simp: on_client_packet_def handle_player_bind_def r Let_def)
  have "is_player_bound s1 (conn_id c) = is_player_bound s (conn_id c)" by (simp add: s1 is_player_bound_def)
  then have s2: "gw_pending s2 (conn_id c) = Some \<lparr>pb_player = p2, pb_seq = ph_seq (gp_header req2), pb_at = ge_now e\<rparr>"
    using assms by (auto simp: on_client_packet_def handle_player_bind_def s1 r is_player_bound_def Let_def)
  have "gw_conn_player (fst (bind_player e p2 (conn_id c) t)) (conn_id c) = Some p2" for t
    by (simp add: bind_player_def Let_def split_beta)
  then show ?thesis
    using assms s2 f1
    by (auto simp: on_upstream_packet_def on_bind_response_def gw_consts Let_def split_beta word_gt_0)
qed

section \<open>Error payloads\<close>

fun read_varint :: "bytes \<Rightarrow> (nat \<times> bytes) option" where
  "read_varint [] = None"
| "read_varint (b # bs) =
     (if unat b < 128 then Some (unat b, bs)
      else map_option (\<lambda>(n, r). (unat b - 128 + 128 * n, r)) (read_varint bs))"

text \<open>A reader of the message \<open>common.Result\<close>: the field \<open>code\<close> is number 2, a varint, the field \<open>msg\<close> number 3, its
  length and its bytes.\<close>

definition read_result :: "bytes \<Rightarrow> (nat \<times> string) option" where
  "read_result bs =
     (case bs of b # r \<Rightarrow>
        (if b = 16 then
           (case read_varint r of None \<Rightarrow> None
            | Some (code, []) \<Rightarrow> Some (code, [])
            | Some (code, b2 # r2) \<Rightarrow>
                (if b2 = 26 then
                   (case read_varint r2 of None \<Rightarrow> None
                    | Some (n, msg) \<Rightarrow> if length msg = n then Some (code, map (\<lambda>x. char_of (unat x)) msg) else None)
                 else None))
         else None)
      | [] \<Rightarrow> None)"

lemma append_varint_out: "append_varint out v = out @ append_varint [] v"
proof (induction "unat v" arbitrary: out v rule: less_induct)
  case less
  show ?case
  proof (cases "v \<ge> 0x80")
    case True
    then have "unat (drop_bit 7 v) < unat v"
      by (simp add: word_le_nat_alt unat_div_distrib drop_bit_eq_div)
    then have "append_varint o2 (drop_bit 7 v) = o2 @ append_varint [] (drop_bit 7 v)" for o2
      using less by blast
    note ih = this [of "out @ [ucast v OR 0x80]"] this [of "[ucast v OR 0x80]"]
    have "append_varint out v = append_varint (out @ [ucast v OR 0x80]) (drop_bit 7 v)"
      "append_varint [] v = append_varint [ucast v OR 0x80] (drop_bit 7 v)"
      using True append_varint.simps [of out v] append_varint.simps [of "[]" v] by simp_all
    then show ?thesis using ih by simp
  next
    case False
    then show ?thesis by (subst (1 2) append_varint.simps) simp
  qed
qed

lemma varint_byte:
  "unat (ucast (v :: u64) OR 0x80 :: u8) = 128 + unat v mod 128"
  "v < 0x80 \<Longrightarrow> unat (ucast (v :: u64) :: u8) = unat v"
proof -
  have m: "(ucast v OR 0x80 :: u8) = ucast (take_bit 7 v) + 128"
  proof -
    define h :: u8 where "h = 0x80"
    have "h = push_bit 7 1" by (simp add: h_def)
    then have b: "bit h n \<longleftrightarrow> n = 7" for n by (simp only: bit_simps) auto
    have "(ucast v OR h) = ucast (take_bit 7 v) OR h" "ucast (take_bit 7 v) AND h = 0"
      by (rule bit_word_eqI, auto simp: bit_simps b)+
    then have "ucast v OR h = ucast (take_bit 7 v) + h"
      using word_plus_and_or [of "ucast (take_bit 7 v)" h] by (simp only: add_0)
    then show ?thesis by (simp only: h_def)
  qed
  have "unat (take_bit 7 v) = take_bit 7 (unat v)" by (rule unsigned_take_bit_eq)
  also have "\<dots> = unat v mod 128" by (simp add: take_bit_eq_mod)
  finally have "unat (take_bit 7 v) = unat v mod 128" .
  then have "unat (ucast (take_bit 7 v) :: u8) = unat v mod 128" by (simp add: unsigned_ucast_eq take_bit_nat_eq_self)
  then show "unat (ucast v OR 0x80 :: u8) = 128 + unat v mod 128"
    unfolding m by (simp add: unat_word_ariths)
  show "v < 0x80 \<Longrightarrow> unat (ucast v :: u8) = unat v"
    by (simp add: word_less_nat_alt unsigned_ucast_eq take_bit_nat_eq_self)
qed

lemma read_append_varint: "read_varint (append_varint [] v @ r) = Some (unat v, r)"
proof (induction "unat v" arbitrary: v rule: less_induct)
  case less
  show ?case
  proof (cases "v \<ge> 0x80")
    case True
    have d: "unat (drop_bit 7 v) = unat v div 128" by (simp add: unat_div_distrib drop_bit_eq_div)
    moreover have "unat (drop_bit 7 v) < unat v" using True d by (simp add: word_le_nat_alt)
    ultimately have "read_varint (append_varint [] (drop_bit 7 v) @ r) = Some (unat v div 128, r)"
      using less by fastforce
    moreover have "append_varint [] v = (ucast v OR 0x80) # append_varint [] (drop_bit 7 v)"
      using True append_varint.simps [of "[]" v] append_varint_out [of "[ucast v OR 0x80]" "drop_bit 7 v"] by simp
    ultimately show ?thesis by (simp add: varint_byte)
  next
    case False
    then have "append_varint [] v = [ucast v]" by (subst append_varint.simps) simp
    moreover have "unat v < 128" using False by (simp add: word_le_nat_alt)
    ultimately show ?thesis using False varint_byte(2) [of v] by simp
  qed
qed

text \<open>The body of an error packet is read back by a reader of the message \<open>common.Result\<close>, for every code and every
  text shorter than 2 to the 64 characters: the varints of \<open>AppendVarint\<close> are those of the protobuf encoding.\<close>

theorem error_payload_roundtrip:
  assumes "length msg < 2 ^ 64"
  shows "read_result (encode_common_result code msg) = Some (unat code, msg)"
proof -
  have tags: "append_varint out 16 = out @ [16]" "append_varint out 26 = out @ [26]" for out
    by (subst append_varint.simps, simp)+
  define vc where "vc = append_varint [] (ucast code)"
  have c: "append_varint [16] (ucast code) = 16 # vc" by (simp add: append_varint_out [of "[16]"] vc_def)
  have rc: "read_varint (vc @ r) = Some (unat code, r)" for r
  proof -
    have "unat (ucast code :: u64) = unat code" 
      using unsigned_less [of code, where ?'a = nat] by (simp add: unsigned_ucast_eq take_bit_nat_eq_self)
    then show ?thesis by (simp add: vc_def read_append_varint)
  qed
  have dec: "map (\<lambda>x. char_of (unat x)) (map of_char m :: bytes) = m" for m
  proof (induction m)
    case (Cons x m)
    have "(of_char x :: u8) = of_nat (of_char x :: nat)" by (rule of_nat_of_char [symmetric])
    then have "unat (of_char x :: u8) = of_char x"
      by (simp only: unat_of_nat) simp
    then show ?case using Cons by simp
  qed simp
  show ?thesis
  proof (cases "msg = []")
    case True
    then show ?thesis using rc [of "[]"] by (simp add: encode_common_result_def read_result_def tags c)
  next
    case False
    define body :: bytes where "body = map of_char msg"
    have "unat (of_nat (length msg) :: u64) = length msg" using assms by (simp add: unat_of_nat)
    then have n: "read_varint (append_varint [] (of_nat (length msg)) @ body) = Some (length msg, body)"
      by (simp add: read_append_varint)
    have "encode_common_result code msg = 16 # vc @ 26 # append_varint [] (of_nat (length msg)) @ body"
      using False append_varint_out [of "16 # vc @ [26]" "of_nat (length msg)"]
      by (simp add: encode_common_result_def tags c body_def Let_def)
    moreover have "length body = length msg" by (simp add: body_def)
    moreover have "map (\<lambda>x. char_of (unat x)) body = msg" unfolding body_def by (rule dec)
    ultimately show ?thesis by (simp add: read_result_def rc n)
  qed
qed

end
