(* ===== verification/GM_GatewayDemo.thy ===== *)
theory GM_GatewayDemo
  imports GM_GatewayFlow
begin

text \<open>
  A run of the gateway, from the start to a bound player, and the properties of GM_GatewayProps and GM_GatewayFlow at
  its states.
\<close>

section \<open>A run of the gateway\<close>

text \<open>The witnesses of the properties: a client connects, shakes hands and is bound to player 5. In the environment
  of this run encryption is the identity and a bind request is the number of its player and a token.\<close>

definition gw_demo_env :: gw_env where
  "gw_demo_env = \<lparr>ge_now = 0, ge_wall = 0, ge_random = Some (\<lambda>_. 7), ge_hmac = (\<lambda>_ _. Some (replicate 32 1)),
     ge_encrypt = (\<lambda>_ _ x. Some x), ge_decrypt = (\<lambda>_ x. Some x),
     ge_bind_req = (\<lambda>x. case x of p # t \<Rightarrow> Some (ucast p, t) | [] \<Rightarrow> None),
     ge_bind_res = (\<lambda>x. case x of c # _ \<Rightarrow> Some (ucast c) | [] \<Rightarrow> Some 0),
     ge_kick = (\<lambda>_. Some [9]), ge_mgr = True, ge_pool = (\<lambda>_. True), ge_pool_send = (\<lambda>_ _. True)\<rparr>"

definition gw_demo_pkt :: "u32 \<Rightarrow> bytes \<Rightarrow> gpacket" where
  "gw_demo_pkt cmd pl = \<lparr>gp_header = default_header\<lparr>ph_cmd := cmd, ph_seq := 3\<rparr>, gp_payload = pl\<rparr>"

definition gw_demo_s0 :: gateway where "gw_demo_s0 = gateway_new 0 60 (replicate 32 0) [''biz'']"
definition gw_demo_s1 :: gateway where "gw_demo_s1 = on_client_connect (CTcp 1) gw_demo_s0"
definition gw_demo_s2 :: gateway where
  "gw_demo_s2 = gw_demo_s1\<lparr>gw_replay := snd (checker_check 0 0 (replicate 8 (CHR 0x00)) (gw_replay gw_demo_s1)),
     gw_sessions := [1 \<mapsto> replicate 32 1]\<rparr>"
definition gw_demo_s3 :: gateway where
  "gw_demo_s3 = gw_demo_s2\<lparr>gw_requests := 1, gw_pending := [1 \<mapsto> \<lparr>pb_player = 5, pb_seq = 3, pb_at = 0\<rparr>]\<rparr>"
definition gw_demo_s4 :: gateway where
  "gw_demo_s4 = gw_demo_s3\<lparr>gw_pending := Map.empty, gw_player_conn := [5 \<mapsto> 1], gw_conn_player := [1 \<mapsto> 5]\<rparr>"

lemmas gw_demo_states = gw_demo_s0_def gw_demo_s1_def gw_demo_s2_def gw_demo_s3_def gw_demo_s4_def on_client_connect_def gateway_new_def

definition gw_demo_hello :: gpacket where "gw_demo_hello = gw_demo_pkt CMD_SYS_HANDSHAKE (1 # replicate 32 0)"
definition gw_demo_answer :: gpacket where "gw_demo_answer = gw_demo_pkt CMD_GW_PLAYER_BIND [0, 0, 0, 0, 0, 0, 0, 1]"

lemma gw_demo_step2: "\<exists>evs. gw_step gw_demo_env (InTcpData 1 gw_demo_hello) gw_demo_s1 = Some (gw_demo_s2, evs)"
proof -
  have z: "read_u64be (drop 1 (1 # replicate 32 0)) = 0" by (simp add: read_u64be_def)
  have n: "map (\<lambda>b. char_of (unat b)) (take 8 (drop 9 (1 # replicate 32 (0 :: u8)))) = replicate 8 (CHR 0x00)"
    by (simp add: char_of_def eval_nat_numeral)
  have "fst (checker_check 0 0 nn (gw_replay gw_demo_s1))" for nn
    by (simp add: gw_demo_states checker_check_def checker_new_def)
  then obtain ck where ck: "checker_check 0 0 (replicate 8 (CHR 0x00)) (gw_replay gw_demo_s1) = (True, ck)"
    by (metis prod.collapse)
  define pl :: bytes where "pl = 1 # replicate 32 0"
  have pl: "length pl = 33" "pl ! 0 = 1" "gp_payload gw_demo_hello = pl" "ph_cmd (gp_header gw_demo_hello) = CMD_SYS_HANDSHAKE"
    by (simp_all add: pl_def gw_demo_hello_def gw_demo_pkt_def)
  have e: "ge_wall gw_demo_env = 0" "random_bytes (ge_random gw_demo_env) 16 = Some (replicate 16 7)"
    "\<And>a b. derive_session_key (ge_hmac gw_demo_env) (gw_master gw_demo_s1) a b = Some (replicate 32 1)"
    "\<And>a. encrypt_packet_payload (ge_encrypt gw_demo_env 0) (replicate 32 1) a = Some a" "from_time_t 0 = 0"
    by (simp_all add: gw_demo_env_def random_bytes_def derive_session_key_def encrypt_packet_payload_def gw_demo_states
        from_time_t_def map_replicate_const)
  have "handle_handshake gw_demo_env (CTcp 1) gw_demo_hello gw_demo_s1 \<noteq> None \<and>
      fst (the (handle_handshake gw_demo_env (CTcp 1) gw_demo_hello gw_demo_s1)) = gw_demo_s2"
    using n z
    by (simp add: handle_handshake_def pl e ck Let_def flip: pl_def)
      (simp add: gw_demo_s2_def ck, simp add: gw_demo_s1_def gw_demo_s0_def on_client_connect_def gateway_new_def)
  then show ?thesis
    using pl(4) by (auto simp: on_conn_data_def handshake_on_packet_def)
qed

lemma gw_demo_step3: "gw_step gw_demo_env (InTcpData 1 (gw_demo_pkt CMD_GW_PLAYER_BIND [5, 1])) gw_demo_s2 =
    Some (gw_demo_s3, [EvForward ''biz'' (extend_payload 1 (gw_demo_pkt CMD_GW_PLAYER_BIND [5, 1]))])"
  by (simp add: gw_demo_states gw_demo_env_def gw_demo_pkt_def on_conn_data_def handshake_on_packet_def encryption_on_packet_def
      get_session_key_def decrypt_packet_payload_def on_client_packet_def handle_player_bind_def is_player_bound_def
      route_to_pool_def service_of_def gw_consts Let_def)

lemma gw_demo_step4: "on_upstream_packet gw_demo_env gw_demo_answer gw_demo_s3 = (gw_demo_s4, [EvEnqueue (CTcp 1) (with_payload (plain_response gw_demo_answer) [])])"
  by (simp add: gw_demo_states gw_demo_env_def gw_demo_pkt_def gw_demo_answer_def on_upstream_packet_def on_bind_response_def read_u64be_def
      bind_player_def release_old_player_def deliver_response_def response_targets_def respond_to_def build_response_for_def
      enqueue_to_client_def gw_consts has_flag_def default_header_def Let_def)

lemma gw_demo_reachable: "gw_reachable gw_demo_s2" "gw_reachable gw_demo_s3" "gw_reachable gw_demo_s4"
proof -
  have "gw_reachable gw_demo_s0" unfolding gw_demo_s0_def by (rule gw_start)
  then have "gw_reachable gw_demo_s1"
    by (rule gw_next [where i = "InTcpConnect 1" and evs = "[]"]) (simp add: gw_demo_s1_def)
  then show r2: "gw_reachable gw_demo_s2" using gw_demo_step2 gw_next by blast
  then show "gw_reachable gw_demo_s3" using gw_demo_step3 gw_next by blast
  then show "gw_reachable gw_demo_s4" using gw_next [where i = "InUpstream gw_demo_answer"] gw_demo_step4 by simp
qed

lemma one_connection_per_player_witness:
  "gw_player_conn gw_demo_s4 5 = Some 1 \<and> gw_conn_player gw_demo_s4 1 = Some 5 \<and> gw_pending gw_demo_s4 1 = None"
proof -
  have "gw_player_conn gw_demo_s4 5 = Some 1" by (simp add: gw_demo_states)
  then show ?thesis
    using one_connection_per_player [OF gw_demo_reachable(3), of 5 1] by (simp add: is_player_bound_def)
qed

lemma bind_needs_ok_answer_witness:
  "gw_conn_player gw_demo_s4 1 = Some 5 \<and> gw_conn_player gw_demo_s3 1 \<noteq> Some 5 \<and>
   (\<exists>pb. gw_pending gw_demo_s3 1 = Some pb \<and> pb_player pb = 5)"
proof -
  have "gw_step gw_demo_env (InUpstream gw_demo_answer) gw_demo_s3 = Some (gw_demo_s4, [EvEnqueue (CTcp 1) (with_payload (plain_response gw_demo_answer) [])])"
    by (simp add: gw_demo_step4)
  moreover have "gw_conn_player gw_demo_s4 1 = Some 5" "gw_conn_player gw_demo_s3 1 \<noteq> Some 5" by (simp_all add: gw_demo_states)
  ultimately show ?thesis using bind_needs_ok_answer by blast
qed

lemma pending_needs_request_witness:
  "\<exists>pb. gw_pending gw_demo_s3 1 = Some pb \<and> \<not> is_player_bound gw_demo_s2 1"
proof -
  define pb where "pb = \<lparr>pb_player = 5, pb_seq = 3, pb_at = 0\<rparr>"
  have "gw_pending gw_demo_s3 1 = Some pb" "gw_pending gw_demo_s2 1 \<noteq> Some pb" by (simp_all add: gw_demo_states pb_def)
  then show ?thesis using pending_needs_request [OF gw_demo_step3] by blast
qed

lemma gw_demo_game_step: "gw_step gw_demo_env (InTcpData 1 (gw_demo_pkt 0x10001 [8])) gw_demo_s4 =
    Some (gw_demo_s4\<lparr>gw_requests := 2\<rparr>, [EvForward ''biz'' (extend_payload 1 (gw_demo_pkt 0x10001 [8]))])"
  by (simp add: gw_demo_states gw_demo_env_def gw_demo_pkt_def on_conn_data_def handshake_on_packet_def encryption_on_packet_def
      get_session_key_def decrypt_packet_payload_def on_client_packet_def forward_packet_def is_player_bound_def
      route_to_pool_def service_of_def gw_consts Let_def)

lemma forwarded_is_authenticated_witness:
  "\<exists>key pl. gw_sessions gw_demo_s4 1 = Some key \<and>
     decrypt_packet_payload (ge_decrypt gw_demo_env) key [8] = Some pl \<and>
     gp_payload (extend_payload 1 (gw_demo_pkt 0x10001 [8])) = write_u64be 1 @ pl \<and> is_player_bound gw_demo_s4 1"
  using forwarded_is_authenticated [OF gw_demo_game_step, of "CTcp 1" "gw_demo_pkt 0x10001 [8]" "''biz''"]
  by (auto simp: gw_demo_pkt_def gw_consts)

lemma unbound_client_rejected_witness:
  "\<exists>s' out. gw_step gw_demo_env (InTcpData 1 (gw_demo_pkt 0x10001 [8])) gw_demo_s2 =
     Some (s', [EvSend (CTcp 1) (gp_encode out), EvCloseAfterWrite (CTcp 1)]) \<and> ph_cmd (gp_header out) = CMD_SYS_ERROR_PACKET"
proof -
  obtain s' evs where st: "gw_step gw_demo_env (InTcpData 1 (gw_demo_pkt 0x10001 [8])) gw_demo_s2 = Some (s', evs)" "evs \<noteq> [EvClose (CTcp 1)]"
    by (simp add: gw_demo_states gw_demo_env_def gw_demo_pkt_def on_conn_data_def handshake_on_packet_def encryption_on_packet_def
      get_session_key_def decrypt_packet_payload_def on_client_packet_def is_player_bound_def gw_consts Let_def
      send_error_and_close_def seal_packet_def encrypt_packet_payload_def split: if_splits)
  have h: "\<not> is_player_bound gw_demo_s2 (conn_id (CTcp 1))" "gw_clients gw_demo_s2 (conn_id (CTcp 1)) = Some (CTcp 1)"
    "pick_conn gw_demo_s2 1 (CTcp 1) = CTcp 1" "\<exists>y. ge_encrypt gw_demo_env 0 k x = Some y" for k x
    by (simp_all add: gw_demo_states gw_demo_env_def is_player_bound_def pick_conn_def)
  show ?thesis
    using unbound_client_rejected [OF gw_demo_reachable(1) st(1) _ h(1) _ _ h(2,4), of "gw_demo_pkt 0x10001 [8]"] st h(3)
    by (auto simp: gw_demo_pkt_def gw_consts)
qed

definition gw_demo_reply :: gpacket where "gw_demo_reply = gw_demo_pkt 0x10002 [0, 0, 0, 0, 0, 0, 0, 1, 42]"

lemma gw_demo_reply_events: "on_upstream_packet gw_demo_env gw_demo_reply gw_demo_s4 = (gw_demo_s4,
    [EvEnqueue (CTcp 1) (mark_encrypted (with_payload (plain_response gw_demo_reply) [42]))])"
  by (simp add: gw_demo_states gw_demo_env_def gw_demo_pkt_def gw_demo_reply_def on_upstream_packet_def read_u64be_def
      deliver_response_def response_targets_def respond_to_def build_response_for_def encrypt_packet_payload_def
      get_session_key_def enqueue_to_client_def gw_consts has_flag_def default_header_def Let_def)

lemma responses_encrypted_witness:
  "sealed_response gw_demo_env gw_demo_s4 gw_demo_reply (CTcp 1) (mark_encrypted (with_payload (plain_response gw_demo_reply) [42]))"
  using responses_encrypted [OF gw_demo_reachable(3) gw_demo_reply_events, of "EvEnqueue (CTcp 1) (mark_encrypted (with_payload (plain_response gw_demo_reply) [42]))"]
  by auto

lemma response_reaches_targets_witness:
  "\<exists>ev out. on_upstream_packet gw_demo_env gw_demo_reply gw_demo_s4 = (gw_demo_s4, [ev]) \<and>
     (ev = EvEnqueue (CTcp 1) out \<or> ev = EvSendPacket (CTcp 1) out) \<and> gp_payload out = [42] \<and> ph_seq (gp_header out) = 3"
proof -
  have h: "ph_cmd (gp_header gw_demo_reply) \<notin> {CMD_GW_ROOM_JOIN, CMD_GW_ROOM_LEAVE, CMD_GW_PLAYER_BIND}"
    "\<And>n k x. length k = 32 \<Longrightarrow> ge_encrypt gw_demo_env n k x \<noteq> None"
    by (simp_all add: gw_demo_reply_def gw_demo_pkt_def gw_demo_env_def gw_consts)
  have r: "response_targets gw_demo_reply gw_demo_s4 = [1]"
    by (simp add: response_targets_def gw_demo_reply_def gw_demo_pkt_def default_header_def has_flag_def read_u64be_def)
  have g: "length (gp_payload gw_demo_reply) = 9" "drop 8 (gp_payload gw_demo_reply) = [42]" "ph_seq (gp_header gw_demo_reply) = 3"
    "gw_clients gw_demo_s4 1 = Some (CTcp 1)" "gw_sessions gw_demo_s4 1 = Some (replicate 32 1)"
    "answers_on gw_demo_s4 1 c \<Longrightarrow> c = CTcp 1" "ge_encrypt gw_demo_env n k x = Some x" for c n k x
    by (simp_all add: gw_demo_reply_def gw_demo_pkt_def gw_demo_states answers_on_def gw_demo_env_def)
  obtain s' evs where o: "on_upstream_packet gw_demo_env gw_demo_reply gw_demo_s4 = (s', evs)" by fastforce
  note t = response_reaches_targets [OF gw_demo_reachable(3) o h]
  then have s: "s' = gw_demo_s4" by blast
  have "list_all2 (answer_event gw_demo_env gw_demo_reply gw_demo_s4) [1] evs" using t g(1,4,5) by (simp add: r)
  then obtain ev where "evs = [ev]" "answer_event gw_demo_env gw_demo_reply gw_demo_s4 1 ev" by (auto simp: list_all2_Cons1)
  then show ?thesis using o s g(6) by (fastforce simp: answer_event_def answer_for_def g(2,3,7))
qed

definition gw_demo_s5 :: gateway where
  "gw_demo_s5 = gw_demo_s4\<lparr>gw_rooms := [7 \<mapsto> [1]], gw_conn_room := [1 \<mapsto> 7]\<rparr>"

lemma gw_demo_in_room: "gw_reachable gw_demo_s5"
proof -
  have "on_upstream_packet gw_demo_env (room_packet CMD_GW_ROOM_JOIN 7 1) gw_demo_s4 = (gw_demo_s5, [])"
    by (simp add: on_upstream_packet_def on_room_join_def room_packet_fields Let_def) (simp add: gw_demo_s5_def gw_demo_states)
  then show ?thesis using gw_next [OF gw_demo_reachable(3), where i = "InUpstream (room_packet CMD_GW_ROOM_JOIN 7 1)"] by simp
qed

lemma close_cleans_up_witness:
  "\<exists>s'. gw_step gw_demo_env (InTcpClose 1) gw_demo_s5 = Some (s', []) \<and> is_player_bound gw_demo_s5 1 \<and> \<not> is_player_bound s' 1 \<and>
     gw_rooms gw_demo_s5 7 = Some [1] \<and> gw_rooms s' 7 = None \<and> gw_player_conn s' 5 = None"
proof -
  have g: "is_player_bound gw_demo_s5 1" "gw_rooms gw_demo_s5 7 = Some [1]" "gw_conn_room gw_demo_s5 1 = Some 7" "gw_player_conn gw_demo_s5 5 = Some 1"
    by (simp_all add: gw_demo_s5_def gw_demo_states is_player_bound_def)
  obtain s' evs where o: "gw_step gw_demo_env (InTcpClose 1) gw_demo_s5 = Some (s', evs)" by simp
  have "InTcpClose 1 = InTcpClose 1 \<and> (1 :: u64) = 1" by simp
  note t = close_cleans_up [OF gw_demo_in_room o, of 1 1, OF disjI1, OF this]
  show ?thesis using o t g by (auto simp: is_player_bound_def)
qed

lemma udp_speaks_for_bound_client_witness:
  "gw_step gw_demo_env (InUdpData 1 (gw_demo_pkt 0x10001 [8])) gw_demo_s4 =
     Some (on_client_packet gw_demo_env (CTcp 1) (gw_demo_pkt 0x10001 [8]) gw_demo_s4)"
proof -
  have "is_player_bound gw_demo_s4 1" by (simp add: gw_demo_states is_player_bound_def)
  then show ?thesis
    using udp_speaks_for_bound_client [of gw_demo_s4 1 "gw_demo_pkt 0x10001 [8]" gw_demo_env] by (simp add: gw_demo_pkt_def gw_consts)
qed

lemma udp_never_answered_witness:
  "\<exists>evs. gw_step gw_demo_env (InUpstream gw_demo_reply) gw_demo_s4 = Some (gw_demo_s4, evs) \<and> evs \<noteq> [] \<and>
     list_all (\<lambda>ev. ev_target ev \<noteq> Some (CUdp 1)) evs"
proof -
  obtain evs where g: "gw_step gw_demo_env (InUpstream gw_demo_reply) gw_demo_s4 = Some (gw_demo_s4, evs)" "evs \<noteq> []"
    by (simp add: gw_demo_reply_events)
  show ?thesis using udp_never_answered [OF gw_demo_reachable(3) g(1)] g by (auto simp: list_all_iff)
qed

lemma kcp_speaks_for_tcp_witness:
  "\<exists>s1 s2. gw_step gw_demo_env (InKcpConnect 1) gw_demo_s4 = Some (s1, []) \<and>
     gw_step gw_demo_env (InKcpData 1 (gw_demo_pkt 0x10001 [])) s1 = Some (s2, [EvForward ''biz'' (extend_payload 1 (gw_demo_pkt 0x10001 []))])"
proof -
  have h: "gw_sessions gw_demo_s4 1 = Some (replicate 32 1)" "replicate 32 (1 :: u8) \<noteq> []" "is_player_bound gw_demo_s4 1"
      "gp_payload (gw_demo_pkt 0x10001 []) = []" "0xFF < ph_cmd (gp_header (gw_demo_pkt 0x10001 []))"
      "ph_cmd (gp_header (gw_demo_pkt 0x10001 [])) \<noteq> CMD_GW_PLAYER_BIND"
      "route_to_pool gw_demo_env gw_demo_s4 (ph_cmd (gp_header (gw_demo_pkt 0x10001 []))) = Some ''biz''" "gw_ws gw_demo_s4 1 = None"
    by (simp_all add: gw_demo_states gw_demo_env_def gw_demo_pkt_def is_player_bound_def route_to_pool_def service_of_def gw_consts)
  show ?thesis using kcp_speaks_for_tcp [OF h, of "on_kcp_connect (CKcp 1) gw_demo_s4" "[]"] by auto
qed

lemma bind_confusion_witness:
  "let (s1, evs1) = on_client_packet gw_demo_env (CTcp 1) (gw_demo_pkt CMD_GW_PLAYER_BIND [5, 1]) gw_demo_s2;
       (s2, evs2) = on_client_packet gw_demo_env (CTcp 1) (gw_demo_pkt CMD_GW_PLAYER_BIND [6, 9]) s1;
       (s3, evs3) = on_upstream_packet gw_demo_env gw_demo_answer s2
   in evs1 = [EvForward ''biz'' (extend_payload 1 (gw_demo_pkt CMD_GW_PLAYER_BIND [5, 1]))] \<and> gw_conn_player s3 1 = Some 6"
proof -
  let ?r1 = "gw_demo_pkt CMD_GW_PLAYER_BIND [5, 1]" and ?r2 = "gw_demo_pkt CMD_GW_PLAYER_BIND [6, 9]"
  obtain s1 evs1 where 1: "on_client_packet gw_demo_env (CTcp 1) ?r1 gw_demo_s2 = (s1, evs1)" by fastforce
  obtain s2 evs2 where 2: "on_client_packet gw_demo_env (CTcp 1) ?r2 s1 = (s2, evs2)" by fastforce
  obtain s3 evs3 where 3: "on_upstream_packet gw_demo_env gw_demo_answer s2 = (s3, evs3)" by fastforce
  have "evs1 = [EvForward ''biz'' (extend_payload (conn_id (CTcp 1)) ?r1)] \<and> gw_conn_player s3 (conn_id (CTcp 1)) = Some 6"
    by (rule bind_confusion [OF _ _ _ _ _ _ _ _ _ _ _ _ _ _ _ _ _ 1 2 3, of 5 "[1]" 6 "[9]" "''biz''"])
      (simp_all add: gw_demo_env_def gw_demo_pkt_def gw_demo_answer_def gw_demo_states is_player_bound_def route_to_pool_def service_of_def
        gw_consts read_u64be_def)
  then show ?thesis by (simp add: 1 2 3)
qed

lemma error_payload_roundtrip_witness:
  "read_result (encode_common_result ERR_AUTH_FAILED ''player not bound'') = Some (100, ''player not bound'')"
  using error_payload_roundtrip [of "''player not bound''" ERR_AUTH_FAILED] by (simp add: gw_consts)

end
