(* ===== verification/GM_Realtime.thy ===== *)
theory GM_Realtime
  imports GM_BattleInv GM_Compute GM_GatewayDemo
begin

text \<open>
  The realtime server (\<open>services/realtime-cpp/main.cpp\<close>): it turns the packets the gateways forward into messages for
  the rooms of a compute pool, and what a room broadcasts into packets for the gateway through which each client was
  last heard. A gateway connection is given by its id. Every handler is one step; what it sends is the list of its
  \<open>SendPacket\<close> calls. The protobuf parsers of generated code are the fields of an environment. Floats are copied to the
  wire in the byte order of the host, which is taken to be little-endian. Starting and stopping threads and the listener, the registration
  with the discovery service, logging and the command line are not modelled.
\<close>

definition CMD_REALTIME_ENTER :: u32 where "CMD_REALTIME_ENTER = 0x00020000"
definition CMD_REALTIME_LEAVE :: u32 where "CMD_REALTIME_LEAVE = 0x00020002"
definition CMD_REALTIME_MOVE :: u32 where "CMD_REALTIME_MOVE = 0x00020020"
definition CMD_REALTIME_ACTION :: u32 where "CMD_REALTIME_ACTION = 0x00020021"
definition CMD_REALTIME_INPUT :: u32 where "CMD_REALTIME_INPUT = 0x00020022"
definition CMD_REALTIME_SYNC :: u32 where "CMD_REALTIME_SYNC = 0x00020005"
definition CMD_BATTLE_READY :: u32 where "CMD_BATTLE_READY = 0x00020030"
definition CMD_BATTLE_MOVE :: u32 where "CMD_BATTLE_MOVE = 0x00020031"
definition CMD_BATTLE_CAST :: u32 where "CMD_BATTLE_CAST = 0x00020032"
definition CMD_BATTLE_RECONNECT :: u32 where "CMD_BATTLE_RECONNECT = 0x00020033"

lemmas rt_consts = CMD_REALTIME_ENTER_def CMD_REALTIME_LEAVE_def CMD_REALTIME_MOVE_def CMD_REALTIME_ACTION_def
  CMD_REALTIME_INPUT_def CMD_REALTIME_SYNC_def CMD_BATTLE_READY_def CMD_BATTLE_MOVE_def CMD_BATTLE_CAST_def
  CMD_BATTLE_RECONNECT_def

text \<open>The parsers of the battle requests: the room, the player, and the other fields.\<close>

record rt_env =
  re_ready :: "bytes \<Rightarrow> (u32 \<times> u64) option"
  re_move :: "bytes \<Rightarrow> (u32 \<times> u64 \<times> f32 \<times> f32 \<times> u32) option"
  re_cast :: "bytes \<Rightarrow> (u32 \<times> u64 \<times> u32 \<times> f32 \<times> f32 \<times> u64 \<times> u32) option"
  re_reconnect :: "bytes \<Rightarrow> (u32 \<times> u64) option"

record realtime =
  rt_battle :: bool
  rt_pool :: compute_pool
  rt_conns :: "u64 set"
  rt_routes :: "u64 \<Rightarrow> u64 option"

datatype rt_event = RtSend u64 gpacket

section \<open>Start\<close>

text \<open>The factory of \<open>Start\<close> makes a battle room of every room, in both modes.\<close>

definition rt_battle_config :: "room_config \<Rightarrow> battle_config" where
  "rt_battle_config cfg = default_battle_config\<lparr>bc_base := cfg, bc_team_size := 5, bc_spawn_sec := 30, bc_checkpoint := 60,
     bc_reconnect_sec := 60, bc_lockstep_ms := 200,
     bc_blue_spawn := [V3 (f32_lit 10) 0 (f32_lit 10), V3 (f32_lit 15) 0 (f32_lit 10), V3 (f32_lit 10) 0 (f32_lit 15),
       V3 (f32_lit 15) 0 (f32_lit 15), V3 (f32_lit 12) 0 (f32_lit 12)],
     bc_red_spawn := [V3 (f32_lit 90) 0 (f32_lit 90), V3 (f32_lit 85) 0 (f32_lit 90), V3 (f32_lit 90) 0 (f32_lit 85),
       V3 (f32_lit 85) 0 (f32_lit 85), V3 (f32_lit 88) 0 (f32_lit 88)]\<rparr>"

definition rt_factory :: room_factory where
  "rt_factory cfg = Some (BattleRoom (battle_new (rt_battle_config cfg)))"

definition rt_room_config :: "bool \<Rightarrow> u32 \<Rightarrow> room_config" where
  "rt_room_config battle_mode room_id =
     default_room_config\<lparr>rc_room_id := room_id, rc_max_players := if battle_mode then 10 else 20,
       rc_map_x := if battle_mode then f32_lit 100 else f32_lit 1000, rc_map_z := if battle_mode then f32_lit 100 else f32_lit 1000,
       rc_tick_hz := 60, rc_enable_aoi := True, rc_aoi_radius := if battle_mode then f32_lit 50 else f32_lit 200\<rparr>"

fun rt_create_rooms :: "bool \<Rightarrow> u32 list \<Rightarrow> compute_pool \<Rightarrow> compute_pool option" where
  "rt_create_rooms battle_mode [] p = Some p"
| "rt_create_rooms battle_mode (i # is) p =
     (case pool_create_room (rt_room_config battle_mode i) p of
        None \<Rightarrow> None | Some (ok, p1) \<Rightarrow> rt_create_rooms battle_mode is p1)"

definition rt_start :: "bool \<Rightarrow> u32 \<Rightarrow> realtime option" where
  "rt_start battle_mode hw =
     map_option (\<lambda>p. \<lparr>rt_battle = battle_mode, rt_pool = pool_start p, rt_conns = {}, rt_routes = Map.empty\<rparr>)
       (rt_create_rooms battle_mode (if battle_mode then [1, 2, 3] else [1, 2, 3, 4, 5])
          (pool_set_factory rt_factory (pool_set_output (compute_pool_new hw 4))))"

section \<open>Packets of the gateways\<close>

definition bind_client_route :: "u64 \<Rightarrow> u64 \<Rightarrow> realtime \<Rightarrow> realtime" where
  "bind_client_route cid gate s = (if cid = 0 then s else s\<lparr>rt_routes := (rt_routes s)(cid \<mapsto> gate)\<rparr>)"

definition note_route :: "bytes \<Rightarrow> u64 \<Rightarrow> realtime \<Rightarrow> realtime" where
  "note_route d gate s = (if length d \<ge> 8 then bind_client_route (read_u64be d) gate s else s)"

definition rt_push :: "u32 \<Rightarrow> message \<Rightarrow> realtime \<Rightarrow> realtime" where
  "rt_push room_id m s = s\<lparr>rt_pool := pool_push room_id m (rt_pool s)\<rparr>"

definition rt_enter :: "bytes \<Rightarrow> realtime \<Rightarrow> realtime option" where
  "rt_enter d s =
     (let gw_conn_id = read_u64be d; room0 = read_u32be (drop 8 d); player_id = read_u64be (drop 12 d);
          spawn_x = read_f32be (drop 20 d); spawn_z = read_f32be (drop 24 d);
          room_id = (if room0 = 0 then 1 else room0)
      in case pool_create_room (rt_room_config (rt_battle s) room_id) (rt_pool s) of
           None \<Rightarrow> None
         | Some (ok, p) \<Rightarrow> Some (rt_push room_id (PlayerEnterMsg player_id (V3 spawn_x 0 spawn_z) gw_conn_id) (s\<lparr>rt_pool := p\<rparr>)))"

text \<open>The message of every other command with the room it is for; a request that does not parse has none.\<close>

definition rt_message :: "rt_env \<Rightarrow> u32 \<Rightarrow> bytes \<Rightarrow> (u32 \<times> message) option" where
  "rt_message e cmd d =
     (if cmd = CMD_REALTIME_LEAVE then
        (if length d < 20 then None else Some (read_u32be (drop 8 d), PlayerLeaveMsg (read_u64be (drop 12 d))))
      else if cmd = CMD_REALTIME_MOVE then
        (if length d < 32 then None
         else Some (read_u32be (drop 8 d), PlayerMoveMsg (read_u64be (drop 12 d))
                (V3 (read_f32be (drop 20 d)) 0 (read_f32be (drop 24 d))) (read_f32be (drop 28 d))))
      else if cmd = CMD_REALTIME_ACTION then
        (if length d < 32 then None
         else Some (read_u32be (drop 8 d), PlayerActionMsg (read_u64be (drop 12 d)) (read_u32be (drop 20 d))
                (V3 (read_f32be (drop 24 d)) 0 (read_f32be (drop 28 d)))))
      else if cmd = CMD_REALTIME_INPUT then
        (if length d < 12 then None else Some (read_u32be (drop 8 d), RoomBroadcastMsg (drop 12 d)))
      else if cmd = CMD_BATTLE_READY then
        (if length d < 8 then None
         else map_option (\<lambda>(room, player). (room, BattleReadyMsg player)) (re_ready e (drop 8 d)))
      else if cmd = CMD_BATTLE_MOVE then
        (if length d < 8 then None
         else map_option (\<lambda>(room, player, x, z, seq). (room, HeroMoveInputMsg player x z seq)) (re_move e (drop 8 d)))
      else if cmd = CMD_BATTLE_CAST then
        (if length d < 8 then None
         else map_option (\<lambda>(room, player, slot, x, z, target, seq).
                (room, HeroCastSkillMsg player (ucast slot) (V3 x 0 z) target seq)) (re_cast e (drop 8 d)))
      else if cmd = CMD_BATTLE_RECONNECT then
        (if length d < 8 then None
         else map_option (\<lambda>(room, player). (room, PlayerReconnectMsg player (read_u64be d))) (re_reconnect e (drop 8 d)))
      else None)"

definition rt_on_packet :: "rt_env \<Rightarrow> u64 \<Rightarrow> gpacket \<Rightarrow> realtime \<Rightarrow> realtime option" where
  "rt_on_packet e gate pkt s0 =
     (let d = gp_payload pkt; cmd = ph_cmd (gp_header pkt); s = note_route d gate s0
      in if cmd = CMD_REALTIME_ENTER then (if length d < 28 then Some s else rt_enter d s)
         else case rt_message e cmd d of None \<Rightarrow> Some s | Some (room_id, m) \<Rightarrow> Some (rt_push room_id m s))"

definition rt_on_connect :: "u64 \<Rightarrow> realtime \<Rightarrow> realtime" where
  "rt_on_connect gate s = s\<lparr>rt_conns := insert gate (rt_conns s)\<rparr>"

definition rt_on_close :: "u64 \<Rightarrow> realtime \<Rightarrow> realtime" where
  "rt_on_close gate s = s\<lparr>rt_conns := rt_conns s - {gate},
     rt_routes := (\<lambda>c. if rt_routes s c = Some gate then None else rt_routes s c)\<rparr>"

section \<open>Broadcasts of the rooms\<close>

definition host_float :: "f32 \<Rightarrow> bytes" where
  "host_float v = [ucast (v AND 0xFF), ucast (drop_bit 8 v AND 0xFF), ucast (drop_bit 16 v AND 0xFF), ucast (drop_bit 24 v AND 0xFF)]"

definition player_bytes :: "player_state \<Rightarrow> bytes" where
  "player_bytes p = write_u64be (ps_player p) @ host_float (vx (ps_pos p)) @ host_float (vy (ps_pos p)) @
     host_float (vz (ps_pos p)) @ host_float (ps_yaw p) @ write_u32be (ps_hp p) @ write_u32be (ps_anim p)"

definition snapshot_bytes :: "room_snapshot \<Rightarrow> bytes" where
  "snapshot_bytes sn =
     (if sn_payload sn \<noteq> [] then sn_payload sn
      else write_u32be (sn_frame sn) @ write_u64be (sn_time sn) @ write_u32be (of_nat (length (sn_players sn))) @
        concat (map player_bytes (sn_players sn)))"

definition sync_packet :: "bytes \<Rightarrow> u64 \<Rightarrow> gpacket" where
  "sync_packet payload cid =
     \<lparr>gp_header = default_header\<lparr>ph_length := HEADER_SIZE + of_nat (length payload + 8), ph_magic := MAGIC_VALUE,
        ph_cmd := CMD_REALTIME_SYNC, ph_seq := 0, ph_flags := flag_bit FlagRpcRes\<rparr>,
      gp_payload = write_u64be cid @ payload\<rparr>"

text \<open>The targets are a set: each gets one packet.\<close>

definition on_room_broadcast :: "broadcast \<Rightarrow> realtime \<Rightarrow> rt_event list" where
  "on_room_broadcast b s = concat (map (\<lambda>cid. case rt_routes s cid of None \<Rightarrow> []
     | Some gate \<Rightarrow> [RtSend gate (sync_packet (snapshot_bytes (fst b)) cid)]) (remdups (snd b)))"

section \<open>Steps\<close>

text \<open>One turn of a compute thread: what its rooms broadcast goes to the callback one by one.\<close>

definition rt_loop :: "battle_env \<Rightarrow> nat \<Rightarrow> u64 \<Rightarrow> realtime \<Rightarrow> (realtime \<times> rt_event list) option" where
  "rt_loop be i now s =
     (case run_loop_once be now (cp_threads (rt_pool s) ! i) of None \<Rightarrow> None
      | Some (t, outs) \<Rightarrow>
          (let s1 = s\<lparr>rt_pool := (rt_pool s)\<lparr>cp_threads := (cp_threads (rt_pool s))[i := t]\<rparr>\<rparr>
           in Some (s1, concat (map (\<lambda>(rid, b). on_room_broadcast b s1) outs))))"

text \<open>No room of a thread is about to wrap its frame counter.\<close>

definition rooms_young :: "compute_thread \<Rightarrow> bool" where
  "rooms_young t = list_all (\<lambda>(rid, r). case r of BattleRoom b \<Rightarrow> unat (br_frame b) + 34 < 2 ^ 32 | PlainRoom x \<Rightarrow> True) (ct_rooms t)"

text \<open>The states of a server, without or with move commands among the packets.\<close>

inductive rt_run :: "rt_env \<Rightarrow> battle_env \<Rightarrow> bool \<Rightarrow> realtime \<Rightarrow> bool" for e be moves where
  rr_start: "rt_start mode hw = Some s \<Longrightarrow> rt_run e be moves s"
| rr_connect: "rt_run e be moves s \<Longrightarrow> rt_run e be moves (rt_on_connect gate s)"
| rr_close: "rt_run e be moves s \<Longrightarrow> rt_run e be moves (rt_on_close gate s)"
| rr_packet: "rt_run e be moves s \<Longrightarrow> gate \<in> rt_conns s \<Longrightarrow> moves \<or> ph_cmd (gp_header pkt) \<noteq> CMD_REALTIME_MOVE \<Longrightarrow>
    rt_on_packet e gate pkt s = Some s' \<Longrightarrow> rt_run e be moves s'"
| rr_loop: "rt_run e be moves s \<Longrightarrow> k < length (cp_threads (rt_pool s)) \<Longrightarrow> rooms_young (cp_threads (rt_pool s) ! k) \<Longrightarrow>
    rt_loop be k now s = Some (s', evs) \<Longrightarrow> rt_run e be moves s'"

end
