(* ===== verification/GM_RealtimeProps.thy ===== *)
theory GM_RealtimeProps
  imports GM_Realtime
begin

text \<open>
  The realtime server together with the rooms it runs and the gateway in front of it: its rooms are battle rooms in states
  a battle can reach, when its steps are defined, what one packet of a client can do, and where broadcasts go.
\<close>

section \<open>Every room is a battle room in a state a battle can reach\<close>

definition room_good :: "battle_env \<Rightarrow> any_room \<Rightarrow> bool" where
  "room_good be r \<longleftrightarrow> (\<exists>b cfg. r = BattleRoom b \<and> battle_run be (rt_battle_config cfg) b)"

definition calm :: "message \<Rightarrow> bool" where
  "calm m \<longleftrightarrow> (\<forall>pid pos yaw. m \<noteq> PlayerMoveMsg pid pos yaw)"

definition thread_good :: "battle_env \<Rightarrow> bool \<Rightarrow> compute_thread \<Rightarrow> bool" where
  "thread_good be moves t \<longleftrightarrow> ct_factory t = Some rt_factory \<and>
     (\<forall>r \<in> snd ` set (ct_rooms t). room_good be r) \<and> (moves \<or> (\<forall>m \<in> snd ` set (ct_queue t). calm m))"

lemma rt_config_ok: "cfg_ok (rt_battle_config cfg)"
  by (simp add: cfg_ok_def rt_battle_config_def default_battle_config_def)

lemma room_good_inv: "room_good be (BattleRoom b) \<Longrightarrow> battle_inv 0 b \<and> cfg_ok (br_cfg b)"
  by (auto simp: room_good_def rt_config_ok dest: run_inv [OF _ rt_config_ok])

lemma room_good_message:
  assumes "room_good be r" and "any_on_message m r = Some (r', out)"
  shows "room_good be r' \<and> (\<exists>b b'. r = BattleRoom b \<and> r' = BattleRoom b' \<and> br_frame b' = br_frame b)"
proof -
  obtain b cfg where b: "r = BattleRoom b" "battle_run be (rt_battle_config cfg) b" using assms(1) by (auto simp: room_good_def)
  obtain b' where b': "battle_on_message m b = Some (b', out)" "r' = BattleRoom b'"
    using assms(2) b(1) by (auto simp: any_on_message_def)
  have "br_frame b' = br_frame b" using inv_on_message [OF _ b'(1)] run_inv [OF b(2) rt_config_ok] by blast
  then show ?thesis using b b' run_message [OF b(2) b'(1)] by (auto simp: room_good_def)
qed


lemma alist_update_values: "snd ` set (AList.update k v m) \<subseteq> insert v (snd ` set m)"
  by (induction m) auto

lemma alist_update_all: "\<forall>r \<in> snd ` set m. P r \<Longrightarrow> P v \<Longrightarrow> \<forall>r \<in> snd ` set (AList.update k v m). P r"
  using alist_update_values [of k v m] by blast

lemma rooms_young_update:
  "rooms_young t \<Longrightarrow> map_of (ct_rooms t) rid = Some (BattleRoom b) \<Longrightarrow> br_frame b' = br_frame b \<Longrightarrow>
   rooms_young (t\<lparr>ct_rooms := AList.update rid (BattleRoom b') (ct_rooms t)\<rparr>)"
proof -
  assume a: "rooms_young t" "map_of (ct_rooms t) rid = Some (BattleRoom b)" "br_frame b' = br_frame b"
  have "unat (br_frame b') + 34 < 2 ^ 32" using a map_of_SomeD [OF a(2)] unfolding rooms_young_def list_all_iff by fastforce
  then show ?thesis using a(1) alist_update_values [of rid "BattleRoom b'" "ct_rooms t"]
    unfolding rooms_young_def list_all_iff by (fastforce split: any_room.splits)
qed


lemma process_queue_keeps:
  assumes "process_queue q t = Some (t', outs)" and "\<forall>r \<in> snd ` set (ct_rooms t). room_good be r"
  shows "(\<forall>r \<in> snd ` set (ct_rooms t'). room_good be r) \<and> ct_factory t' = ct_factory t \<and> ct_queue t' = ct_queue t \<and>
    ct_has_out t' = ct_has_out t \<and> (rooms_young t \<longrightarrow> rooms_young t')"
  using assms
proof (induction q arbitrary: t t' outs)
  case (Cons x q)
  obtain rid m where x: "x = (rid, m)" by (cases x)
  show ?case
  proof (cases "map_of (ct_rooms t) rid")
    case None
    then show ?thesis using Cons x by simp
  next
    case (Some r)
    then have g: "room_good be r" using Cons(3) by (metis image_eqI map_of_SomeD snd_conv)
    obtain r' out os where m: "any_on_message m r = Some (r', out)"
      and q: "process_queue q (t\<lparr>ct_rooms := AList.update rid r' (ct_rooms t)\<rparr>) = Some (t', os)"
      using Cons(2) x Some by (auto split: bind_splits prod.splits)
    obtain b b' where r': "room_good be r'" "r = BattleRoom b" "r' = BattleRoom b'" "br_frame b' = br_frame b"
      using room_good_message [OF g m] by blast
    have "\<forall>r \<in> snd ` set (ct_rooms (t\<lparr>ct_rooms := AList.update rid r' (ct_rooms t)\<rparr>)). room_good be r"
      using alist_update_all [OF Cons(3) r'(1)] by simp
    from Cons(1) [OF q this]
    have ih: "\<forall>r \<in> snd ` set (ct_rooms t'). room_good be r" "ct_factory t' = ct_factory t" "ct_queue t' = ct_queue t"
        "ct_has_out t' = ct_has_out t" "rooms_young (t\<lparr>ct_rooms := AList.update rid r' (ct_rooms t)\<rparr>) \<longrightarrow> rooms_young t'"
      by simp_all
    have "rooms_young t \<longrightarrow> rooms_young (t\<lparr>ct_rooms := AList.update rid r' (ct_rooms t)\<rparr>)"
      using rooms_young_update [of t rid b b'] Some r' by simp
    with ih show ?thesis by blast
  qed
qed simp

lemma tick_each_good:
  assumes "\<forall>r \<in> snd ` set rs. room_good be r"
    and "list_all (\<lambda>(rid, r). case r of BattleRoom b \<Rightarrow> unat (br_frame b) + 34 < 2 ^ 32 | PlainRoom x \<Rightarrow> True) rs"
  shows "\<exists>rs' outs. tick_each be now rs = Some (rs', outs) \<and> (\<forall>r \<in> snd ` set rs'. room_good be r)"
  using assms
proof (induction rs)
  case (Cons x rs)
  obtain rid b cfg where x: "x = (rid, BattleRoom b)" and b: "battle_run be (rt_battle_config cfg) b"
    using Cons(2) by (cases x) (auto simp: room_good_def)
  have y: "unat (br_frame b) + 34 < 2 ^ 32" using Cons(3) x by simp
  obtain b' out where t: "battle_tick be now b = Some (b', out)"
    using inv_tick [of b be now] run_inv [OF b rt_config_ok] y rt_config_ok by auto
  obtain rs' outs where r: "tick_each be now rs = Some (rs', outs)" "\<forall>r \<in> snd ` set rs'. room_good be r"
    using Cons by auto
  have "room_good be (BattleRoom b')" using run_tick [OF b y t] by (auto simp: room_good_def)
  then show ?case using x t r by (auto simp: any_tick_def)
qed simp


lemma run_loop_keeps:
  assumes "thread_good be moves t" and "rooms_young t" and "run_loop_once be now t = Some (t', outs)"
  shows "thread_good be moves t'"
proof (cases "ct_running t")
  case True
  obtain t1 o1 t2 o2 where p: "process_queue (ct_queue t) (t\<lparr>ct_queue := []\<rparr>) = Some (t1, o1)"
    and r: "tick_rooms be now t1 = Some (t2, o2)" "t' = t2"
    using assms(3) True by (auto simp: run_loop_once_def process_messages_def split: bind_splits prod.splits)
  have y: "rooms_young (t\<lparr>ct_queue := []\<rparr>)" using assms(2) by (simp add: rooms_young_def)
  have k: "\<forall>r \<in> snd ` set (ct_rooms t1). room_good be r" "rooms_young t1" "ct_factory t1 = ct_factory t" "ct_queue t1 = []"
    using process_queue_keeps [OF p, of be] assms(1) y by (auto simp: thread_good_def)
  obtain rs os where "tick_each be now (ct_rooms t1) = Some (rs, os)" "\<forall>r \<in> snd ` set rs. room_good be r"
    using tick_each_good [OF k(1)] k(2) unfolding rooms_young_def by blast
  then have "t' = t1\<lparr>ct_rooms := rs\<rparr>" "\<forall>r \<in> snd ` set rs. room_good be r" using r by (auto simp: tick_rooms_def)
  then show ?thesis using assms(1) k by (simp add: thread_good_def)
qed (use assms in \<open>simp add: run_loop_once_def\<close>)

section \<open>The invariant of the server\<close>

definition rt_good :: "battle_env \<Rightarrow> bool \<Rightarrow> realtime \<Rightarrow> bool" where
  "rt_good be moves s \<longleftrightarrow> pool_run (rt_pool s) \<and> length (cp_threads (rt_pool s)) = 4 \<and>
     (\<forall>t \<in> set (cp_threads (rt_pool s)). thread_good be moves t) \<and>
     (\<forall>c g. rt_routes s c = Some g \<longrightarrow> c \<noteq> 0 \<and> g \<in> rt_conns s)"

lemma threads_update: "\<forall>t \<in> set ts. P t \<Longrightarrow> P t' \<Longrightarrow> \<forall>t \<in> set (ts[i := t']). P t"
  using set_update_subset_insert [of ts i t'] by blast

lemma pool_thread_good:
  "pool_run p \<Longrightarrow> \<forall>t \<in> set (cp_threads p). P t \<Longrightarrow> P (cp_threads p ! pick_thread p rid)"
  using pick_thread_bound [OF pool_run_ok] by (meson nth_mem)

lemma pool_push_good:
  assumes "pool_run p" and "\<forall>t \<in> set (cp_threads p). thread_good be moves t" and "moves \<or> calm m"
  shows "pool_run (pool_push rid m p) \<and> length (cp_threads (pool_push rid m p)) = length (cp_threads p) \<and>
    (\<forall>t \<in> set (cp_threads (pool_push rid m p)). thread_good be moves t)"
proof -
  have "thread_good be moves (cp_threads p ! pick_thread p rid)" by (rule pool_thread_good [OF assms(1,2)])
  then have "thread_good be moves (ct_push rid m (cp_threads p ! pick_thread p rid))"
    using assms(3) by (auto simp: thread_good_def ct_push_def)
  from threads_update [OF assms(2) this] pr_push [OF assms(1)] show ?thesis by (simp add: pool_push_def pool_at_def)
qed

lemma create_good:
  assumes "ct_create_room cfg t = Some (ok, t')" and "thread_good be moves t"
  shows "thread_good be moves t'"
proof -
  have "room_good be (any_set_callback (BattleRoom (battle_new (rt_battle_config cfg))))"
    using run_start [of be "rt_battle_config cfg"] by (auto simp: room_good_def any_set_callback_def)
  moreover have "\<forall>r \<in> snd ` set (ct_rooms t). room_good be r" using assms(2) unfolding thread_good_def by (elim conjE)
  ultimately have "\<forall>r \<in> snd ` set (AList.update rid (any_set_callback (BattleRoom (battle_new (rt_battle_config cfg)))) (ct_rooms t)). room_good be r"
    for rid by (intro alist_update_all)
  then have r: "thread_good be moves (ct_add_room rid (BattleRoom (battle_new (rt_battle_config cfg))) t)" for rid
    using assms(2) by (simp add: thread_good_def ct_add_room_def)
  have "ct_factory t = Some rt_factory" using assms(2) by (simp add: thread_good_def)
  then have "t' = t \<or> t' = ct_add_room (rc_room_id cfg) (BattleRoom (battle_new (rt_battle_config cfg))) t"
    using assms(1) by (simp add: ct_create_room_def rt_factory_def split: if_splits)
  then show ?thesis using assms(2) r by blast
qed

lemma pool_create_good:
  assumes "pool_create_room cfg p = Some (ok, p')" and "pool_run p" and "\<forall>t \<in> set (cp_threads p). thread_good be moves t"
  shows "pool_run p' \<and> length (cp_threads p') = length (cp_threads p) \<and> (\<forall>t \<in> set (cp_threads p'). thread_good be moves t)"
proof -
  obtain t where t: "ct_create_room cfg (cp_threads p ! pick_thread p (rc_room_id cfg)) = Some (ok, t)"
    "p' = pool_at (rc_room_id cfg) p t" using assms(1) by (auto simp: pool_create_room_def)
  have "thread_good be moves t" by (rule create_good [OF t(1) pool_thread_good [OF assms(2,3)]])
  from threads_update [OF assms(3) this] pr_create [OF assms(2,1)] show ?thesis by (simp add: t(2) pool_at_def)
qed

lemma pool_create_defined:
  assumes "pool_run p" and "\<forall>t \<in> set (cp_threads p). thread_good be moves t"
  shows "pool_create_room cfg p \<noteq> None"
  using pool_thread_good [OF assms, of "rc_room_id cfg"]
  by (auto simp: pool_create_room_def ct_create_room_def thread_good_def rt_factory_def)

lemma create_rooms_good:
  "rt_create_rooms mode is p = Some p' \<Longrightarrow> pool_run p \<Longrightarrow> \<forall>t \<in> set (cp_threads p). thread_good be moves t \<Longrightarrow>
   pool_run p' \<and> length (cp_threads p') = length (cp_threads p) \<and> (\<forall>t \<in> set (cp_threads p'). thread_good be moves t)"
proof (induction "is" arbitrary: p)
  case (Cons i "is")
  obtain ok p1 where p1: "pool_create_room (rt_room_config mode i) p = Some (ok, p1)" "rt_create_rooms mode is p1 = Some p'"
    using Cons(2) by (auto split: option.splits)
  show ?case using Cons(1) [OF p1(2)] pool_create_good [OF p1(1) Cons(3,4)] by simp
qed simp

definition rt_fresh_pool :: "u32 \<Rightarrow> compute_pool" where
  "rt_fresh_pool hw = pool_set_factory rt_factory (pool_set_output (compute_pool_new hw 4))"

lemma fresh_pool_good:
  "pool_run (rt_fresh_pool hw)" "length (cp_threads (rt_fresh_pool hw)) = 4" "\<forall>t \<in> set (cp_threads (rt_fresh_pool hw)). thread_good be moves t"
  by (auto simp: rt_fresh_pool_def intro: pr_factory pr_output pr_new)
    (auto simp: pool_set_factory_def pool_set_output_def pool_upd_def compute_pool_new_def thread_good_def ct_set_factory_def
      ct_set_output_def compute_thread_new_def)

lemma rt_start_good: "rt_start mode hw = Some s \<Longrightarrow> rt_good be moves s"
proof -
  assume a: "rt_start mode hw = Some s"
  obtain p "is" where p: "rt_create_rooms mode is (rt_fresh_pool hw) = Some p"
    and s: "s = \<lparr>rt_battle = mode, rt_pool = pool_start p, rt_conns = {}, rt_routes = Map.empty\<rparr>"
    using a by (auto simp: rt_start_def rt_fresh_pool_def)
  have g: "pool_run p" "length (cp_threads p) = 4" "\<forall>t \<in> set (cp_threads p). thread_good be moves t"
    using create_rooms_good [OF p fresh_pool_good(1) fresh_pool_good(3)] fresh_pool_good(2) by auto
  have "thread_good be moves (ct_start t) = thread_good be moves t" for t by (simp add: thread_good_def ct_start_def)
  then show ?thesis using g pr_start [OF g(1)] by (auto simp: s rt_good_def pool_start_def pool_upd_def)
qed

lemma rt_message_calm: "rt_message e cmd d = Some (rid, m) \<Longrightarrow> cmd \<noteq> CMD_REALTIME_MOVE \<Longrightarrow> calm m"
  by (auto simp: rt_message_def calm_def split: if_splits)

lemma bind_route_fields [simp]:
  "rt_pool (bind_client_route c g s) = rt_pool s" "rt_battle (bind_client_route c g s) = rt_battle s"
  "rt_conns (bind_client_route c g s) = rt_conns s"
  by (simp_all add: bind_client_route_def)

lemma rt_good_bind: "rt_good be moves s \<Longrightarrow> g \<in> rt_conns s \<Longrightarrow> rt_good be moves (bind_client_route c g s)"
  by (auto simp: rt_good_def bind_client_route_def)

lemma rt_good_push: "rt_good be moves s \<Longrightarrow> moves \<or> calm m \<Longrightarrow> rt_good be moves (rt_push rid m s)"
  using pool_push_good [of "rt_pool s" be moves m rid] by (simp add: rt_good_def rt_push_def)

lemma rt_good_enter:
  assumes "rt_good be moves s" and "rt_enter d s = Some s'"
  shows "rt_good be moves s'"
proof -
  obtain rid pid pos cid ok p where p: "pool_create_room (rt_room_config (rt_battle s) rid) (rt_pool s) = Some (ok, p)"
    and s': "s' = rt_push rid (PlayerEnterMsg pid pos cid) (s\<lparr>rt_pool := p\<rparr>)"
    using assms(2) by (auto simp: rt_enter_def Let_def split: option.splits)
  have "rt_good be moves (s\<lparr>rt_pool := p\<rparr>)" using pool_create_good [OF p, of be moves] assms(1) by (simp add: rt_good_def)
  then show ?thesis unfolding s' by (rule rt_good_push) (simp add: calm_def)
qed

lemma rt_packet_cases [consumes 1, case_names none enter message]:
  assumes "rt_on_packet e gate pkt s = Some s'"
  obtains "s' = note_route (gp_payload pkt) gate s"
  | "rt_enter (gp_payload pkt) (note_route (gp_payload pkt) gate s) = Some s'"
  | rid m where "rt_message e (ph_cmd (gp_header pkt)) (gp_payload pkt) = Some (rid, m)"
      "s' = rt_push rid m (note_route (gp_payload pkt) gate s)"
proof (cases "ph_cmd (gp_header pkt) = CMD_REALTIME_ENTER")
  case True
  then show thesis using assms that(1,2) by (cases "length (gp_payload pkt) < 28") (simp_all add: rt_on_packet_def Let_def)
next
  case False
  show thesis
  proof (cases "rt_message e (ph_cmd (gp_header pkt)) (gp_payload pkt)")
    case None
    then show thesis using assms that(1) False by (simp add: rt_on_packet_def Let_def)
  next
    case (Some x)
    obtain rid m where x: "x = (rid, m)" by (cases x)
    show thesis using assms False by (intro that(3)) (auto simp: rt_on_packet_def Let_def Some x)
  qed
qed

lemma note_route_fields [simp]:
  "rt_pool (note_route d g s) = rt_pool s" "rt_battle (note_route d g s) = rt_battle s" "rt_conns (note_route d g s) = rt_conns s"
  by (simp_all add: note_route_def)

lemma rt_good_note: "rt_good be moves s \<Longrightarrow> g \<in> rt_conns s \<Longrightarrow> rt_good be moves (note_route d g s)"
  by (simp add: note_route_def rt_good_bind)

lemma rt_good_packet:
  assumes "rt_good be moves s" and "gate \<in> rt_conns s" and "moves \<or> ph_cmd (gp_header pkt) \<noteq> CMD_REALTIME_MOVE"
    and "rt_on_packet e gate pkt s = Some s'"
  shows "rt_good be moves s'"
  using assms(4)
proof (cases rule: rt_packet_cases)
  case none
  then show ?thesis using rt_good_note [OF assms(1,2)] by simp
next
  case enter
  then show ?thesis using rt_good_note [OF assms(1,2)] rt_good_enter by blast
next
  case (message rid m)
  then show ?thesis using assms(3) rt_good_note [OF assms(1,2)] rt_good_push rt_message_calm by blast
qed

lemma rt_good_loop:
  assumes "rt_good be moves s" and "k < length (cp_threads (rt_pool s))" and "rooms_young (cp_threads (rt_pool s) ! k)"
    and "rt_loop be k now s = Some (s', evs)"
  shows "rt_good be moves s'"
proof -
  obtain t outs where t: "run_loop_once be now (cp_threads (rt_pool s) ! k) = Some (t, outs)"
    and s': "s' = s\<lparr>rt_pool := (rt_pool s)\<lparr>cp_threads := (cp_threads (rt_pool s))[k := t]\<rparr>\<rparr>"
    using assms(4) by (auto simp: rt_loop_def Let_def split: option.splits)
  have g: "pool_run (rt_pool s)" "\<forall>t \<in> set (cp_threads (rt_pool s)). thread_good be moves t"
    using assms(1) by (auto simp: rt_good_def)
  have "thread_good be moves t" by (rule run_loop_keeps [OF _ assms(3) t]) (use g(2) assms(2) in simp)
  from threads_update [OF g(2) this] pr_loop [OF g(1) assms(2) t] show ?thesis
    using assms(1) by (simp add: s' rt_good_def)
qed

lemma rt_run_good: "rt_run e be moves s \<Longrightarrow> rt_good be moves s"
proof (induction rule: rt_run.induct)
  case (rr_start mode hw s)
  then show ?case by (rule rt_start_good)
next
  case (rr_connect s gate)
  then show ?case by (auto simp: rt_good_def rt_on_connect_def)
next
  case (rr_close s gate)
  then show ?case by (auto simp: rt_good_def rt_on_close_def)
next
  case (rr_packet s gate pkt s')
  then show ?case using rt_good_packet by blast
next
  case (rr_loop s k now s' evs)
  then show ?case using rt_good_loop by blast
qed

section \<open>Without move commands nothing is undefined\<close>


section \<open>The move command\<close>

definition rt_live :: "realtime \<Rightarrow> bool" where
  "rt_live s \<longleftrightarrow> cp_count (rt_pool s) = 4 \<and> length (cp_threads (rt_pool s)) = 4 \<and>
     (\<forall>t \<in> set (cp_threads (rt_pool s)). ct_running t) \<and>
     (\<forall>rid \<in> {1, 2, 3}. map_of (ct_rooms (cp_threads (rt_pool s) ! pick_thread (rt_pool s) rid)) rid \<noteq> None)"

definition thread_grows :: "compute_thread \<Rightarrow> compute_thread \<Rightarrow> bool" where
  "thread_grows t t' \<longleftrightarrow> (ct_running t \<longrightarrow> ct_running t') \<and> (\<forall>rid. map_of (ct_rooms t) rid \<noteq> None \<longrightarrow> map_of (ct_rooms t') rid \<noteq> None)"

lemma rt_live_thread:
  assumes "rt_live s" and "k < 4" and "thread_grows (cp_threads (rt_pool s) ! k) t"
  shows "rt_live (s\<lparr>rt_pool := (rt_pool s)\<lparr>cp_threads := (cp_threads (rt_pool s))[k := t]\<rparr>\<rparr>)"
proof -
  let ?ts = "cp_threads (rt_pool s)"
  have r: "\<forall>t \<in> set (?ts[k := t]). ct_running t"
    using assms by (intro threads_update) (auto simp: rt_live_def thread_grows_def)
  have "map_of (ct_rooms (?ts[k := t] ! i)) rid \<noteq> None" if "map_of (ct_rooms (?ts ! i)) rid \<noteq> None" "i < 4" for i rid
    using that assms by (cases "i = k") (auto simp: rt_live_def thread_grows_def)
  moreover have "pick_thread (rt_pool s) rid < 4" for rid
    using assms(1) by (simp add: rt_live_def pick_thread_def unat_mod)
  ultimately show ?thesis using assms(1) r by (auto simp: rt_live_def pick_thread_def)
qed

lemma pick_lt: "rt_live s \<Longrightarrow> pick_thread (rt_pool s) rid < 4"
  by (simp add: rt_live_def pick_thread_def unat_mod)

lemma rt_live_push: "rt_live s \<Longrightarrow> rt_live (rt_push rid m s)"
  using rt_live_thread [OF _ pick_lt [of s rid]] by (simp add: rt_push_def pool_push_def pool_at_def ct_push_def thread_grows_def)

lemma create_grows: "ct_create_room cfg t = Some (ok, t') \<Longrightarrow> thread_grows t t'"
  by (auto simp: ct_create_room_def ct_add_room_def thread_grows_def um_get_update split: if_splits)

lemma create_has: "ct_create_room cfg t = Some (ok, t') \<Longrightarrow> map_of (ct_rooms t') (rc_room_id cfg) \<noteq> None"
  by (auto simp: ct_create_room_def ct_add_room_def um_get_update split: if_splits)

lemma rt_live_enter: "rt_live s \<Longrightarrow> rt_enter d s = Some s' \<Longrightarrow> rt_live s'"
proof -
  assume a: "rt_live s" "rt_enter d s = Some s'"
  obtain cfg m rid ok p where p: "pool_create_room cfg (rt_pool s) = Some (ok, p)" and s': "s' = rt_push rid m (s\<lparr>rt_pool := p\<rparr>)"
    using a(2) by (auto simp: rt_enter_def Let_def split: option.splits)
  obtain t where "ct_create_room cfg (cp_threads (rt_pool s) ! pick_thread (rt_pool s) (rc_room_id cfg)) = Some (ok, t)"
    "p = pool_at (rc_room_id cfg) (rt_pool s) t" using p by (auto simp: pool_create_room_def)
  then have "rt_live (s\<lparr>rt_pool := p\<rparr>)" using rt_live_thread [OF a(1) pick_lt [OF a(1)] create_grows] by (simp add: pool_at_def)
  then show ?thesis unfolding s' by (rule rt_live_push)
qed

lemma rt_live_other: "rt_pool s' = rt_pool s \<Longrightarrow> rt_live s' = rt_live s"
  by (simp add: rt_live_def)

lemma process_queue_keys:
  "process_queue q t = Some (t', outs) \<Longrightarrow> map_of (ct_rooms t') rid = None \<longleftrightarrow> map_of (ct_rooms t) rid = None"
proof (induction q t arbitrary: t' outs rule: process_queue.induct)
  case (2 i m q t)
  show ?case
  proof (cases "map_of (ct_rooms t) i")
    case None
    then show ?thesis using 2 by (auto split: option.splits)
  next
    case (Some r)
    then obtain r' out os where s: "any_on_message m r = Some (r', out)"
      "process_queue q (t\<lparr>ct_rooms := AList.update i r' (ct_rooms t)\<rparr>) = Some (t', os)"
      using "2.prems" by (auto split: bind_splits prod.splits)
    from "2.IH"(2) [OF Some s(1) refl s(2)] show ?thesis using Some by (simp add: um_get_update)
  qed
qed simp

lemma run_loop_grows: "run_loop_once be now t = Some (t', outs) \<Longrightarrow> thread_grows t t'"
proof (cases "ct_running t")
  case True
  assume "run_loop_once be now t = Some (t', outs)"
  then obtain t1 o1 rs os where p: "process_queue (ct_queue t) (t\<lparr>ct_queue := []\<rparr>) = Some (t1, o1)"
    and r: "tick_each be now (ct_rooms t1) = Some (rs, os)" "t' = t1\<lparr>ct_rooms := rs\<rparr>"
    using True by (auto simp: run_loop_once_def process_messages_def tick_rooms_def split: bind_splits prod.splits)
  have "ct_running t1" using process_queue_room [OF p] True by simp
  then show ?thesis using r map_of_keys_eq [OF tick_each_keys [OF r(1)]] process_queue_keys [OF p] by (simp add: thread_grows_def)
qed (simp add: run_loop_once_def thread_grows_def)

lemma rt_create_has:
  "rt_create_rooms mode is p = Some p' \<Longrightarrow> cp_count p = 4 \<Longrightarrow> length (cp_threads p) = 4 \<Longrightarrow>
   cp_count p' = 4 \<and> length (cp_threads p') = 4 \<and>
   (\<forall>rid. rid \<in> set is \<or> map_of (ct_rooms (cp_threads p ! pick_thread p rid)) rid \<noteq> None \<longrightarrow>
      map_of (ct_rooms (cp_threads p' ! pick_thread p' rid)) rid \<noteq> None)"
proof (induction "is" arbitrary: p)
  case (Cons i "is")
  obtain ok p1 where p1: "pool_create_room (rt_room_config mode i) p = Some (ok, p1)" "rt_create_rooms mode is p1 = Some p'"
    using Cons(2) by (auto split: option.splits)
  obtain t where t: "ct_create_room (rt_room_config mode i) (cp_threads p ! pick_thread p i) = Some (ok, t)" "p1 = pool_at i p t"
    using p1(1) by (auto simp: pool_create_room_def rt_room_config_def)
  have l: "pick_thread p rid < 4" for rid using Cons(3) by (simp add: pick_thread_def unat_mod)
  have n: "cp_count p1 = 4" "length (cp_threads p1) = 4" using Cons(3,4) by (simp_all add: t(2) pool_at_def)
  have k: "map_of (ct_rooms (cp_threads p1 ! pick_thread p1 rid)) rid \<noteq> None"
    if "rid = i \<or> map_of (ct_rooms (cp_threads p ! pick_thread p rid)) rid \<noteq> None" for rid
  proof (cases "pick_thread p rid = pick_thread p i")
    case True
    have "map_of (ct_rooms t) i \<noteq> None" using create_has [OF t(1)] by (simp add: rt_room_config_def)
    then have "map_of (ct_rooms t) rid \<noteq> None" using that True create_grows [OF t(1)] by (auto simp: thread_grows_def)
    then show ?thesis using True l [of i] Cons(4) by (simp add: t(2) pool_at_def pick_thread_def)
  next
    case False
    then show ?thesis using that l [of i] Cons(4) by (auto simp: t(2) pool_at_def pick_thread_def)
  qed
  show ?case using Cons(1) [OF p1(2) n] k by auto
qed simp

lemma rt_start_live: "rt_start mode hw = Some s \<Longrightarrow> rt_live s"
proof -
  assume a: "rt_start mode hw = Some s"
  define ids :: "u32 list" where "ids = (if mode then [1, 2, 3] else [1, 2, 3, 4, 5])"
  obtain p where p: "rt_create_rooms mode ids (rt_fresh_pool hw) = Some p"
    and s: "s = \<lparr>rt_battle = mode, rt_pool = pool_start p, rt_conns = {}, rt_routes = Map.empty\<rparr>"
    using a by (auto simp: rt_start_def rt_fresh_pool_def ids_def)
  have "cp_count (rt_fresh_pool hw) = 4"
    by (simp add: rt_fresh_pool_def pool_set_factory_def pool_set_output_def pool_upd_def compute_pool_new_def)
  from rt_create_has [OF p this fresh_pool_good(2)]
  have h: "cp_count p = 4" "length (cp_threads p) = 4"
    "\<And>rid. rid \<in> {1, 2, 3} \<Longrightarrow> map_of (ct_rooms (cp_threads p ! pick_thread p rid)) rid \<noteq> None"
    by (auto simp: ids_def split: if_splits)
  have "map_of (ct_rooms (map ct_start (cp_threads p) ! pick_thread p rid)) rid \<noteq> None" if "rid \<in> {1, 2, 3}" for rid
  proof -
    have "pick_thread p rid < length (cp_threads p)" using h(1,2) by (simp add: pick_thread_def unat_mod)
    then show ?thesis using h(3) [OF that] by (simp add: ct_start_def)
  qed
  then show ?thesis using h(1,2) by (auto simp: s rt_live_def pool_start_def pool_upd_def pick_thread_def ct_start_def)
qed

lemma rt_run_live: "rt_run e be moves s \<Longrightarrow> rt_live s"
proof (induction rule: rt_run.induct)
  case (rr_start mode hw s)
  then show ?case by (rule rt_start_live)
next
  case (rr_packet s gate pkt s')
  have l: "rt_live (note_route (gp_payload pkt) gate s)" using rr_packet(5) rt_live_other [of "note_route (gp_payload pkt) gate s" s] by simp
  from rr_packet(4) show ?case
    by (cases rule: rt_packet_cases) (use l rt_live_enter rt_live_push in blast)+
next
  case (rr_loop s k now s' evs)
  obtain t outs where t: "run_loop_once be now (cp_threads (rt_pool s) ! k) = Some (t, outs)"
    and s': "s' = s\<lparr>rt_pool := (rt_pool s)\<lparr>cp_threads := (cp_threads (rt_pool s))[k := t]\<rparr>\<rparr>"
    using rr_loop(4) by (auto simp: rt_loop_def Let_def split: option.splits)
  show ?case unfolding s' by (rule rt_live_thread [OF rr_loop(5) _ run_loop_grows [OF t]]) (use rr_loop(2,5) in \<open>simp add: rt_live_def\<close>)
next
  case (rr_connect s gate)
  then show ?case by (simp add: rt_live_def rt_on_connect_def)
next
  case (rr_close s gate)
  then show ?case by (simp add: rt_live_def rt_on_close_def)
qed

lemma process_queue_move:
  assumes "(rid, PlayerMoveMsg pid pos yaw) \<in> set q" and "map_of (ct_rooms t) rid \<noteq> None"
    and "\<forall>r \<in> snd ` set (ct_rooms t). room_good be r"
  shows "process_queue q t = None"
proof (rule ccontr)
  assume "process_queue q t \<noteq> None"
  then obtain t' outs where "process_queue q t = Some (t', outs)" by auto
  then show False
    using assms
  proof (induction q t arbitrary: t' outs rule: process_queue.induct)
    case (2 i m q t)
    show ?case
    proof (cases "map_of (ct_rooms t) i")
      case None
      then show ?thesis using 2 by auto
    next
      case (Some r)
      obtain r' out os where s: "any_on_message m r = Some (r', out)"
        "process_queue q (t\<lparr>ct_rooms := AList.update i r' (ct_rooms t)\<rparr>) = Some (t', os)"
        using Some "2.prems"(1) by (auto split: bind_splits prod.splits)
      have g: "room_good be r" using "2.prems"(4) Some by (metis image_eqI map_of_SomeD snd_conv)
      have r': "room_good be r'" using room_good_message [OF g s(1)] by blast
      have n: "m \<noteq> PlayerMoveMsg pid pos yaw" using s(1) g by (auto simp: any_on_message_def room_good_def battle_on_message_def msg_type_of_def)
      show ?thesis
      proof (rule "2.IH"(2) [OF Some s(1) refl s(2)])
        show "(rid, PlayerMoveMsg pid pos yaw) \<in> set q" using "2.prems"(2) n by auto
        show "map_of (ct_rooms (t\<lparr>ct_rooms := AList.update i r' (ct_rooms t)\<rparr>)) rid \<noteq> None"
          using "2.prems"(3) by (simp add: um_get_update)
        show "\<forall>r \<in> snd ` set (ct_rooms (t\<lparr>ct_rooms := AList.update i r' (ct_rooms t)\<rparr>)). room_good be r"
          using alist_update_all [OF "2.prems"(4) r'] by simp
      qed
    qed
  qed simp
qed

lemma read_u32be_after: "length a = 8 \<Longrightarrow> read_u32be (drop 8 (a @ d)) = read_u32be d"
  by simp

lemma gateway_forwards_bound:
  assumes "on_client_packet ge c pkt gs = (gs', evs)" and "is_player_bound gs (conn_id c)"
    and "ph_cmd (gp_header pkt) = CMD_REALTIME_MOVE" and "ge_mgr ge" and "ge_pool ge ''realtime''"
  shows "evs = [EvForward ''realtime'' (extend_payload (conn_id c) pkt)]"
proof -
  have "service_of CMD_REALTIME_MOVE = ''realtime''" by (simp add: service_of_def CMD_REALTIME_MOVE_def)
  then have "route_to_pool ge (gs\<lparr>gw_requests := gw_requests gs + 1\<rparr>) CMD_REALTIME_MOVE = Some ''realtime''"
    using assms(4,5) by (simp add: route_to_pool_def)
  moreover have "CMD_REALTIME_MOVE \<noteq> CMD_GW_PLAYER_BIND" "\<not> CMD_REALTIME_MOVE \<le> 0xFF"
    by (simp_all add: CMD_REALTIME_MOVE_def CMD_GW_PLAYER_BIND_def)
  ultimately show ?thesis using assms(1-3)
    by (auto simp: on_client_packet_def forward_packet_def is_player_bound_def Let_def)
qed

text \<open>C20: a logged-in client can bring the realtime server into undefined behaviour with one packet. When a bound client
  sends the reserved command \<open>0x00020020\<close> with any payload of 24 bytes or more that begins with the number of one of the first three rooms,
  the gateway forwards it to the realtime service like any other packet; the server accepts it from the gateway's
  connection, and then the next turn of the thread that runs the room is undefined: the room casts the
  \<open>PlayerMoveMsg\<close> to the class of hero inputs. This holds in every state of the server, in both of its modes.\<close>

theorem client_breaks_realtime:
  assumes "rt_run e be moves s" and "gate \<in> rt_conns s"
    and "on_client_packet ge c pkt gs = (gs', evs)" and "is_player_bound gs (conn_id c)" and "ge_mgr ge" and "ge_pool ge ''realtime''"
    and "ph_cmd (gp_header pkt) = CMD_REALTIME_MOVE" and "24 \<le> length (gp_payload pkt)"
    and "read_u32be (gp_payload pkt) \<in> {1, 2, 3}"
  shows "\<exists>out s'. evs = [EvForward ''realtime'' out] \<and> rt_on_packet e gate out s = Some s' \<and>
    rt_loop be (pick_thread (rt_pool s') (read_u32be (gp_payload pkt))) now s' = None"
proof -
  define rid where "rid = read_u32be (gp_payload pkt)"
  define out where "out = extend_payload (conn_id c) pkt"
  define s1 where "s1 = note_route (gp_payload out) gate s"
  define d where "d = gp_payload out"
  obtain m where m: "m = PlayerMoveMsg (read_u64be (drop 12 d)) (V3 (read_f32be (drop 20 d)) 0 (read_f32be (drop 24 d))) (read_f32be (drop 28 d))"
    by simp
  have d: "d = write_u64be (conn_id c) @ gp_payload pkt" by (simp add: d_def out_def extend_payload_def)
  have l8: "length (write_u64be (conn_id c)) = 8" by (simp add: write_u64be_def)
  have len: "\<not> length d < 32" using assms(8) l8 by (simp add: d)
  have r: "read_u32be (drop 8 d) = rid" unfolding d rid_def by (rule read_u32be_after [OF l8])
  have cmd: "ph_cmd (gp_header out) = CMD_REALTIME_MOVE" using assms(7) by (simp add: out_def extend_payload_def with_payload_def)
  have "rt_message e CMD_REALTIME_MOVE d = Some (rid, m)"
    using len r m by (simp add: rt_message_def CMD_REALTIME_LEAVE_def CMD_REALTIME_MOVE_def)
  then have p: "rt_on_packet e gate out s = Some (rt_push rid m s1)"
    using cmd by (simp add: rt_on_packet_def Let_def s1_def d_def CMD_REALTIME_MOVE_def CMD_REALTIME_ENTER_def)
  have evs: "evs = [EvForward ''realtime'' out]"
    unfolding out_def by (rule gateway_forwards_bound [OF assms(3,4,7,5,6)])
  have live: "rt_live s1" using rt_run_live [OF assms(1)] by (simp add: rt_live_def s1_def)
  have good: "rt_good be moves s1" using rt_good_note [OF rt_run_good [OF assms(1)] assms(2)] by (simp add: s1_def)
  define k where "k = pick_thread (rt_pool s1) rid"
  define t where "t = cp_threads (rt_pool s1) ! k"
  have k: "k < 4" unfolding k_def by (rule pick_lt [OF live])
  have t: "ct_running t" "map_of (ct_rooms t) rid \<noteq> None" "\<forall>r \<in> snd ` set (ct_rooms t). room_good be r"
    using live good k assms(9) unfolding t_def k_def rid_def by (auto simp: rt_live_def rt_good_def thread_good_def)
  have "process_queue (ct_queue t @ [(rid, m)]) (t\<lparr>ct_queue := []\<rparr>) = None"
    by (rule process_queue_move [of _ "read_u64be (drop 12 d)" "V3 (read_f32be (drop 20 d)) 0 (read_f32be (drop 24 d))" "read_f32be (drop 28 d)"])
      (use t(2,3) m in auto)
  then have n: "run_loop_once be now (ct_push rid m t) = None"
    using t(1) by (simp add: run_loop_once_def process_messages_def ct_push_def)
  have "cp_threads (rt_pool (rt_push rid m s1)) ! k = ct_push rid m t" "pick_thread (rt_pool (rt_push rid m s1)) rid = k"
    using k live by (simp_all add: rt_push_def pool_push_def pool_at_def t_def k_def rt_live_def pick_thread_def)
  then have "rt_loop be (pick_thread (rt_pool (rt_push rid m s1)) rid) now (rt_push rid m s1) = None"
    using n by (simp add: rt_loop_def)
  then show ?thesis using evs p unfolding rid_def by blast
qed

section \<open>Broadcasts reach the clients\<close>

lemma read_u64be_head: "read_u64be (write_u64be c @ d) = c"
  by (simp add: read_be_get write_be_put be_get_put)

lemma sync_deliver:
  "deliver_response ge (sync_packet pl cid) gs = respond_to ge (plain_response (sync_packet pl cid)) gs (0, cid)"
proof -
  have "response_targets (sync_packet pl cid) gs = [cid]"
    by (simp add: response_targets_def sync_packet_def read_u64be_head has_flag_def flag_bit_def Let_def)
  then show ?thesis by (simp add: deliver_response_def sync_packet_def write_u64be_def enumerate_eq_zip)
qed

text \<open>C21: what a room broadcasts reaches its clients. In every state of the server each broadcast is sent, in one
  packet for each target with a route and none for the others, to the connection of the gateway through which the client was
  last heard, which is connected; and that gateway takes the packet for the client of this id and for no other: it
  answers it, encrypted with its session key, with exactly the bytes of the snapshot.\<close>

theorem broadcast_reaches_clients:
  assumes "rt_run e be moves s"
  shows "(RtSend gate out \<in> set (on_room_broadcast b s) \<longleftrightarrow>
      (\<exists>cid \<in> set (snd b). rt_routes s cid = Some gate \<and> out = sync_packet (snapshot_bytes (fst b)) cid)) \<and>
    distinct (on_room_broadcast b s) \<and> (RtSend gate out \<in> set (on_room_broadcast b s) \<longrightarrow> gate \<in> rt_conns s) \<and>
    on_upstream_packet ge (sync_packet (snapshot_bytes (fst b)) cid) gs =
      (gs, respond_to ge (plain_response (sync_packet (snapshot_bytes (fst b)) cid)) gs (0, cid)) \<and>
    gp_payload (plain_response (sync_packet (snapshot_bytes (fst b)) cid)) = snapshot_bytes (fst b)"
proof (intro conjI)
  show m: "RtSend gate out \<in> set (on_room_broadcast b s) \<longleftrightarrow>
      (\<exists>cid \<in> set (snd b). rt_routes s cid = Some gate \<and> out = sync_packet (snapshot_bytes (fst b)) cid)"
  proof -
    have "RtSend gate out \<in> set (case rt_routes s cid of None \<Rightarrow> [] | Some g \<Rightarrow> [RtSend g (sync_packet pl cid)]) \<longleftrightarrow>
        rt_routes s cid = Some gate \<and> out = sync_packet pl cid" for cid pl by (auto split: option.split)
    then show ?thesis unfolding on_room_broadcast_def by simp
  qed
  have inj: "sync_packet pl c = sync_packet pl c' \<longleftrightarrow> c = c'" for pl c c'
  proof
    assume "sync_packet pl c = sync_packet pl c'"
    then have "write_u64be c @ pl = write_u64be c' @ pl" by (simp add: sync_packet_def)
    then show "c = c'" by (metis read_u64be_head)
  qed simp
  have "distinct (concat (map (\<lambda>cid. case rt_routes s cid of None \<Rightarrow> [] | Some gate \<Rightarrow> [RtSend gate (sync_packet pl cid)]) cs))"
    if "distinct cs" for cs pl
    using that by (induction cs) (auto simp: inj split: option.splits)
  then show "distinct (on_room_broadcast b s)" by (simp add: on_room_broadcast_def)
  show "RtSend gate out \<in> set (on_room_broadcast b s) \<longrightarrow> gate \<in> rt_conns s"
    using m rt_run_good [OF assms] by (auto simp: rt_good_def)
  show "on_upstream_packet ge (sync_packet (snapshot_bytes (fst b)) cid) gs =
      (gs, respond_to ge (plain_response (sync_packet (snapshot_bytes (fst b)) cid)) gs (0, cid))"
    using sync_deliver [of ge "snapshot_bytes (fst b)" cid gs]
    by (simp add: on_upstream_packet_def sync_packet_def gw_consts CMD_REALTIME_SYNC_def)
  show "gp_payload (plain_response (sync_packet (snapshot_bytes (fst b)) cid)) = snapshot_bytes (fst b)"
    by (simp add: sync_packet_def write_u64be_def)
qed

section \<open>What a client reads\<close>

text \<open>The reader of a snapshot: integers in network order, floats in the order of the host that wrote them. The velocity
  of a player is not sent.\<close>

definition read_host_float :: "bytes \<Rightarrow> f32" where
  "read_host_float d = read_u32be (rev (take 4 d))"

fun parse_players :: "nat \<Rightarrow> bytes \<Rightarrow> player_state list" where
  "parse_players 0 d = []"
| "parse_players (Suc n) d =
     \<lparr>ps_player = read_u64be d,
      ps_pos = V3 (read_host_float (drop 8 d)) (read_host_float (drop 12 d)) (read_host_float (drop 16 d)), ps_vel = V3 0 0 0,
      ps_yaw = read_host_float (drop 20 d), ps_hp = read_u32be (drop 24 d), ps_anim = read_u32be (drop 28 d)\<rparr>
     # parse_players n (drop 32 d)"

definition parse_snapshot :: "bytes \<Rightarrow> u32 \<times> u64 \<times> player_state list" where
  "parse_snapshot d = (read_u32be d, read_u64be (drop 4 d), parse_players (unat (read_u32be (drop 12 d))) (drop 16 d))"

lemma read_u32be_head: "read_u32be (write_u32be v @ d) = v"
  by (simp add: read_be_get write_be_put be_get_put)

lemma read_write_u32 [simp]: "read_u32be (write_u32be v) = v"
  using read_u32be_head [of v "[]"] by simp

lemma host_float_rev: "host_float v = rev (write_u32be v)"
  by (simp add: host_float_def write_u32be_def)

lemma read_host_head: "read_host_float (host_float v @ d) = v"
  by (simp add: read_host_float_def host_float_rev write_u32be_def [of v]) (simp add: write_u32be_def [symmetric])

lemma field_lengths: "length (write_u64be a) = 8" "length (write_u32be b) = 4" "length (host_float f) = 4"
  by (simp_all add: write_u64be_def write_u32be_def host_float_def)

lemma drop_field: "length a = n \<Longrightarrow> drop (n + m) (a @ d) = drop m d"
  by simp

lemma parse_player_bytes:
  "parse_players (Suc n) (player_bytes p @ d) = p\<lparr>ps_vel := V3 0 0 0\<rparr> # parse_players n d"
proof -
  have e: "player_bytes p @ d = write_u64be (ps_player p) @ host_float (vx (ps_pos p)) @ host_float (vy (ps_pos p)) @
      host_float (vz (ps_pos p)) @ host_float (ps_yaw p) @ write_u32be (ps_hp p) @ write_u32be (ps_anim p) @ d"
    by (simp add: player_bytes_def)
  have v: "V3 (vx v) (vy v) (vz v) = v" for v by (simp add: V3_def)
  show ?thesis
    unfolding e by (cases p) (simp add: field_lengths read_u64be_head read_host_head read_u32be_head v)
qed

text \<open>A client can read back every snapshot of a room: from the bytes of a broadcast without a payload of its own a reader gets the
  frame number, the time and every player with its position, yaw, hit points and animation, in order, whatever the floats are,
  infinities and NaNs included. Only the velocity is not sent.\<close>

theorem snapshot_roundtrip:
  assumes "sn_payload sn = []" and "length (sn_players sn) < 2 ^ 32"
  shows "parse_snapshot (snapshot_bytes sn) = (sn_frame sn, sn_time sn, map (\<lambda>p. p\<lparr>ps_vel := V3 0 0 0\<rparr>) (sn_players sn)) \<and>
    length (snapshot_bytes sn) = 16 + 32 * length (sn_players sn)"
proof -
  have p: "parse_players (length ps) (concat (map player_bytes ps)) = map (\<lambda>p. p\<lparr>ps_vel := V3 0 0 0\<rparr>) ps" for ps
    by (induction ps) (simp_all del: parse_players.simps(2) add: parse_player_bytes)
  have l: "length (concat (map player_bytes ps)) = 32 * length ps" for ps
    by (induction ps) (simp_all add: player_bytes_def field_lengths)
  have "unat (of_nat (length (sn_players sn)) :: u32) = length (sn_players sn)"
    using assms(2) by (simp add: unat_of_nat)
  then show ?thesis
    using assms(1) p l by (simp add: snapshot_bytes_def parse_snapshot_def field_lengths read_u32be_head read_u64be_head)
qed

text \<open>The gateways number their clients independently: the last gateway that forwards a packet for an id gets everything for it.\<close>

lemma route_stolen:
  assumes "8 \<le> length (gp_payload pkt)" and "read_u64be (gp_payload pkt) = cid" and "cid \<noteq> 0"
    and "rt_on_packet e gate pkt s = Some s'" and "rt_routes s cid = Some other"
  shows "rt_routes s' cid = Some gate"
proof -
  have n: "rt_routes (note_route (gp_payload pkt) gate s) cid = Some gate"
    using assms(1-3) by (simp add: note_route_def bind_client_route_def)
  have p: "rt_routes (rt_push rid m s1) = rt_routes s1" for rid m s1 by (simp add: rt_push_def)
  have e: "rt_enter d s1 = Some s2 \<Longrightarrow> rt_routes s2 = rt_routes s1" for d s1 s2
    by (auto simp: rt_enter_def rt_push_def Let_def split: option.splits)
  from assms(4) show ?thesis
    by (cases rule: rt_packet_cases) (use n p e in auto)
qed

section \<open>Examples\<close>

definition demo_rt_env :: rt_env where
  "demo_rt_env = \<lparr>re_ready = (\<lambda>_. None), re_move = (\<lambda>_. None), re_cast = (\<lambda>_. None), re_reconnect = (\<lambda>_. None)\<rparr>"

lemma rt_start_defined: "\<exists>s. rt_start mode hw = Some s"
proof -
  have "\<exists>p'. rt_create_rooms mode is p = Some p'" if "pool_run p" "\<forall>t \<in> set (cp_threads p). thread_good be True t" for "is" p be
    using that
  proof (induction "is" arbitrary: p)
    case (Cons i "is")
    obtain ok p1 where p1: "pool_create_room (rt_room_config mode i) p = Some (ok, p1)"
      using pool_create_defined [OF Cons(2,3), of "rt_room_config mode i"] by auto
    show ?case using Cons(1) [of p1] pool_create_good [OF p1 Cons(2,3)] p1 by simp
  qed simp
  from this [OF fresh_pool_good(1,3)] show ?thesis by (simp add: rt_start_def rt_fresh_pool_def)
qed


lemma snapshot_roundtrip_witness:
  "parse_snapshot (snapshot_bytes \<lparr>sn_room = 1, sn_frame = 7, sn_time = 9,
      sn_players = [\<lparr>ps_player = 5, ps_pos = V3 1 2 0x7FC00000, ps_vel = V3 3 3 3, ps_yaw = 4, ps_hp = 100, ps_anim = 2\<rparr>], sn_payload = []\<rparr>) =
    (7, 9, [\<lparr>ps_player = 5, ps_pos = V3 1 2 0x7FC00000, ps_vel = V3 0 0 0, ps_yaw = 4, ps_hp = 100, ps_anim = 2\<rparr>])"
  using snapshot_roundtrip [of "\<lparr>sn_room = 1, sn_frame = 7, sn_time = 9,
      sn_players = [\<lparr>ps_player = 5, ps_pos = V3 1 2 0x7FC00000, ps_vel = V3 3 3 3, ps_yaw = 4, ps_hp = 100, ps_anim = 2\<rparr>], sn_payload = []\<rparr>"]
  by simp

lemma client_breaks_realtime_witness:
  "\<exists>s gs' out s'. rt_start True 8 = Some s \<and>
     on_client_packet (gw_demo_env\<lparr>ge_mgr := True, ge_pool := (\<lambda>_. True)\<rparr>) (CTcp 1)
       (gw_demo_pkt CMD_REALTIME_MOVE ([0, 0, 0, 2] @ replicate 20 0)) gw_demo_s4 =
       (gs', [EvForward ''realtime'' out]) \<and>
     rt_on_packet demo_rt_env 1 out (rt_on_connect 1 s) = Some s' \<and> rt_loop demo_env 2 33 s' = None"
proof -
  let ?ge = "gw_demo_env\<lparr>ge_mgr := True, ge_pool := (\<lambda>_. True)\<rparr>"
  let ?p = "gw_demo_pkt CMD_REALTIME_MOVE ([0, 0, 0, 2] @ replicate 20 0)"
  obtain s where s: "rt_start True 8 = Some s" using rt_start_defined by blast
  have r: "rt_run demo_rt_env demo_env True (rt_on_connect 1 s)" by (intro rr_connect rr_start [OF s])
  have c: "1 \<in> rt_conns (rt_on_connect 1 s)" by (simp add: rt_on_connect_def)
  obtain gs' evs where g: "on_client_packet ?ge (CTcp 1) ?p gw_demo_s4 = (gs', evs)" by fastforce
  have rd: "read_u32be (gp_payload ?p) = 2" by (simp add: gw_demo_pkt_def read_u32be_def)
  have "is_player_bound gw_demo_s4 (conn_id (CTcp 1))" by (simp add: is_player_bound_def gw_demo_states)
  from client_breaks_realtime [OF r c g this, of 33] rd
  obtain out s' where o: "evs = [EvForward ''realtime'' out]" "rt_on_packet demo_rt_env 1 out (rt_on_connect 1 s) = Some s'"
    "rt_loop demo_env (pick_thread (rt_pool s') 2) 33 s' = None"
    by (auto simp: gw_demo_pkt_def read_u32be_def)
  have "rt_run demo_rt_env demo_env True s'" by (rule rr_packet [OF r c _ o(2)]) simp
  then have "pick_thread (rt_pool s') 2 = 2" using rt_run_live by (fastforce simp: rt_live_def pick_thread_def)
  then show ?thesis using s g o by auto
qed

lemma broadcast_reaches_clients_witness:
  "\<exists>s. rt_start True 8 = Some s \<and> (let s1 = note_route (write_u64be 9) 1 (rt_on_connect 1 s);
       snap = \<lparr>sn_room = 1, sn_frame = 7, sn_time = 9, sn_players = [], sn_payload = [4, 2]\<rparr> in
     RtSend 1 (sync_packet [4, 2] 9) \<in> set (on_room_broadcast (snap, [9, 8, 9]) s1) \<and> 1 \<in> rt_conns s1)"
proof -
  obtain s where s: "rt_start True 8 = Some s" using rt_start_defined by blast
  define snap where "snap = \<lparr>sn_room = 1, sn_frame = 7, sn_time = 9, sn_players = [], sn_payload = [4, 2 :: u8]\<rparr>"
  define s1 where "s1 = note_route (write_u64be 9) 1 (rt_on_connect 1 s)"
  have rd: "read_u64be (write_u64be 9) = 9" using read_u64be_head [of 9 "[]"] by simp
  have p: "rt_on_packet demo_rt_env 1 (gw_demo_pkt 0 (write_u64be 9)) (rt_on_connect 1 s) = Some s1"
    by (simp add: rt_on_packet_def gw_demo_pkt_def s1_def rt_message_def rt_consts Let_def)
  have "rt_run demo_rt_env gw_be True s1" for gw_be
    by (rule rr_packet [OF rr_connect [OF rr_start [OF s]] _ _ p]) (simp_all add: rt_on_connect_def)
  note b = broadcast_reaches_clients [OF this, of 1 "sync_packet [4, 2] 9" "(snap, [9, 8, 9])"]
  have "rt_routes s1 9 = Some 1" using rd by (simp add: s1_def note_route_def bind_client_route_def field_lengths)
  then have "RtSend 1 (sync_packet [4, 2] 9) \<in> set (on_room_broadcast (snap, [9, 8, 9]) s1) \<and> 1 \<in> rt_conns s1"
    using b by (auto simp: snap_def snapshot_bytes_def)
  then show ?thesis using s unfolding s1_def snap_def Let_def by blast
qed

end
