(* ===== verification/GM_WSConn.thy ===== *)
theory GM_WSConn
  imports GM_WSFrame
begin

text \<open>
  The WebSocket connection (\<open>net/async/ws_connection.hpp\<close>, \<open>ws_connection.cpp\<close>): the HTTP handshake, the frames
  of the client, the messages they make up, the write queue, and closing. The state is that of the C++ object
  with what libuv keeps for it: whether the handle is being read or closing, the tasks posted to the loop and the
  write in flight. Each operation is one step; the clock is an argument.

  \<open>AsyncEventLoop::Post\<close> runs its task at once on the loop's thread and queues it on any other: the field
  \<open>ws_here\<close>, set by every step, says where the operation runs. The field \<open>ws_uv_ok\<close>, also set by every step, is
  what libuv answers to the next \<open>uv_write\<close>: an operation calls it at most once. What was written is logged in \<open>ws_wrote\<close>.

  The ring buffer of received bytes is the queue of its bytes (GM_RingBuffer shows that it is one), buffers
  are given by their bytes. The message callback is code of the application: a function of its own state
  and of the message that says which public operations it calls on the connection.
\<close>

datatype ws_state = KHandshaking | KConnected | KClosing | KClosed

datatype ws_task = WtClose | WtWrite | WtStopRead

datatype message_type = MsgText | MsgBinary

record 'u ws =
  ws_handle :: bool
  ws_uv_closing :: bool
  ws_reading :: bool
  ws_timer :: bool
  ws_closed :: bool
  ws_closing :: bool
  ws_caw :: bool
  ws_st :: ws_state
  ws_hs_buf :: bytes
  ws_buf :: bytes
  ws_queue :: "bytes list"
  ws_qbytes :: nat
  ws_writing :: bool
  ws_inflight :: "bytes list option"
  ws_frag :: bytes
  ws_frag_op :: u8
  ws_fragmenting :: bool
  ws_accepted_at :: u64
  ws_activity :: u64
  ws_last_ping :: u64
  ws_deadline :: u64
  ws_ping_out :: bool
  ws_paused :: bool
  ws_keep_alive :: bool
  ws_posted :: "ws_task list"
  ws_here :: bool
  ws_uv_ok :: bool
  ws_wrote :: "bytes list list"
  ws_user :: 'u

datatype ws_call = WcSend message_type bytes | WcSendBatch message_type "bytes list" | WcSendFrame bytes
  | WcClose | WcCloseAfterWrite

type_synonym 'u ws_callback = "('u \<Rightarrow> message_type \<Rightarrow> bytes \<Rightarrow> 'u \<times> ws_call list) option"

datatype ws_out = WoMessage message_type bytes | WoClosed

definition WS_MAX_WRITE_QUEUE_BYTES :: nat where "WS_MAX_WRITE_QUEUE_BYTES = 16 * 1024 * 1024"
definition WS_RESUME_THRESHOLD :: nat where "WS_RESUME_THRESHOLD = 8 * 1024 * 1024"
definition WS_MAX_READ_BUF_BYTES :: nat where "WS_MAX_READ_BUF_BYTES = 64 * 1024 * 1024"
definition MAX_HANDSHAKE_BYTES :: nat where "MAX_HANDSHAKE_BYTES = 8192"
definition MAX_MESSAGE_BYTES :: u64 where "MAX_MESSAGE_BYTES = 16 * 1024 * 1024"
definition HANDSHAKE_TIMEOUT_MS :: u64 where "HANDSHAKE_TIMEOUT_MS = 10000"
definition IDLE_TIMEOUT_MS :: u64 where "IDLE_TIMEOUT_MS = 120000"
definition PING_INTERVAL_MS :: u64 where "PING_INTERVAL_MS = 30000"
definition PONG_TIMEOUT_MS :: u64 where "PONG_TIMEOUT_MS = 15000"

definition ws_new :: "'u \<Rightarrow> 'u ws" where
  "ws_new u = \<lparr>ws_handle = False, ws_uv_closing = False, ws_reading = False, ws_timer = False, ws_closed = False,
     ws_closing = False, ws_caw = False, ws_st = KHandshaking, ws_hs_buf = [], ws_buf = [], ws_queue = [], ws_qbytes = 0,
     ws_writing = False, ws_inflight = None, ws_frag = [], ws_frag_op = 0, ws_fragmenting = False, ws_accepted_at = 0,
     ws_activity = 0, ws_last_ping = 0, ws_deadline = 0, ws_ping_out = False, ws_paused = False, ws_keep_alive = False,
     ws_posted = [], ws_here = True, ws_uv_ok = True, ws_wrote = [], ws_user = u\<rparr>"

section \<open>Strings of the HTTP request\<close>

definition CRLF :: bytes where "CRLF = [13, 10]"

definition to_lower :: "bytes \<Rightarrow> bytes" where
  "to_lower s = map (\<lambda>c. if 65 \<le> c \<and> c \<le> 90 then c + 32 else c) s"

text \<open>\<open>std::string::find\<close> of a non-empty pattern.\<close>

fun find_sub :: "bytes \<Rightarrow> bytes \<Rightarrow> nat option" where
  "find_sub p [] = (if p = [] then Some 0 else None)"
| "find_sub p (c # s) = (if take (length p) (c # s) = p then Some 0 else map_option Suc (find_sub p s))"

definition is_blank :: "u8 \<Rightarrow> bool" where "is_blank c \<longleftrightarrow> c = 32 \<or> c = 9"
definition is_blank_or_eol :: "u8 \<Rightarrow> bool" where "is_blank_or_eol c \<longleftrightarrow> c = 32 \<or> c = 9 \<or> c = 13 \<or> c = 10"

text \<open>\<open>Trim\<close>: when nothing but blanks and line ends is there, the end of the search is \<open>npos\<close> and the length
  \<open>npos - start + 1\<close> takes the whole rest, except for a start of 0, where it wraps around to 0.\<close>

definition trim_ws :: "bytes \<Rightarrow> bytes" where
  "trim_ws s =
     (let t = dropWhile is_blank s; upto = length (dropWhile is_blank_or_eol (rev s))
      in if t = [] then []
         else if upto = 0 then (if length t = length s then [] else t)
         else take (upto - (length s - length t)) t)"

definition line_header :: "bytes \<Rightarrow> (bytes \<times> bytes) option" where
  "line_header line =
     (case find_sub [58] line of None \<Rightarrow> None
      | Some colon \<Rightarrow> Some (to_lower (take colon line), trim_ws (drop (colon + 1) line)))"

lemma find_sub_bound: "find_sub p s = Some n \<Longrightarrow> n + length p \<le> length s"
proof (induction p s arbitrary: n rule: find_sub.induct)
  case (2 p c s)
  then show ?case by (auto split: if_splits) (metis length_Cons length_take min_def not_less_eq_eq nle_le)
qed (auto split: if_splits)

function header_contains :: "bytes \<Rightarrow> bytes \<Rightarrow> bytes \<Rightarrow> bool" where
  "header_contains headers key value =
     (case find_sub CRLF headers of None \<Rightarrow> False
      | Some line_end \<Rightarrow>
          (case line_header (take line_end headers) of
             Some (hkey, hval) \<Rightarrow>
               (if hkey = to_lower key \<and> find_sub (to_lower value) (to_lower hval) \<noteq> None then True
                else header_contains (drop (line_end + 2) headers) key value)
           | None \<Rightarrow> header_contains (drop (line_end + 2) headers) key value))"
  by auto
termination
  by (relation "measure (\<lambda>(h, _, _). length h)") (auto dest: find_sub_bound simp: CRLF_def)

function extract_header :: "bytes \<Rightarrow> bytes \<Rightarrow> bytes" where
  "extract_header headers key =
     (case find_sub CRLF headers of None \<Rightarrow> []
      | Some line_end \<Rightarrow>
          (case line_header (take line_end headers) of
             Some (hkey, hval) \<Rightarrow>
               (if hkey = to_lower key then hval else extract_header (drop (line_end + 2) headers) key)
           | None \<Rightarrow> extract_header (drop (line_end + 2) headers) key))"
  by auto
termination
  by (relation "measure (\<lambda>(h, _). length h)") (auto dest: find_sub_bound simp: CRLF_def)

declare header_contains.simps [simp del] extract_header.simps [simp del]

definition is_http_get_upgrade :: "bytes \<Rightarrow> bool" where
  "is_http_get_upgrade request =
     (case find_sub CRLF request of None \<Rightarrow> False
      | Some line_end \<Rightarrow>
          (let line = to_lower (take line_end request)
           in take 4 line = chars ''get '' \<and> find_sub (chars '' http/1.1'') line \<noteq> None))"

section \<open>Closing\<close>

definition ws_do_close :: "'u ws \<Rightarrow> 'u ws" where
  "ws_do_close c =
     (let c1 = c\<lparr>ws_closing := True, ws_st := KClosing, ws_timer := False\<rparr>
      in if ws_handle c1 \<and> \<not> ws_uv_closing c1 then c1\<lparr>ws_uv_closing := True, ws_reading := False\<rparr>
         else if \<not> ws_handle c1 then c1\<lparr>ws_keep_alive := False\<rparr> else c1)"

text \<open>\<open>AsyncEventLoop::Post\<close>: \<open>run\<close> is what the task does, \<open>t\<close> its name in the queue.\<close>

definition ws_post :: "ws_task \<Rightarrow> ('u ws \<Rightarrow> 'u ws) \<Rightarrow> 'u ws \<Rightarrow> 'u ws" where
  "ws_post t run c = (if ws_here c then run c else c\<lparr>ws_posted := ws_posted c @ [t]\<rparr>)"

definition ws_close :: "'u ws \<Rightarrow> 'u ws" where
  "ws_close c =
     (if ws_closed c then c
      else let c1 = c\<lparr>ws_closed := True\<rparr>
           in if ws_closing c1 then c1 else ws_post WtClose ws_do_close (c1\<lparr>ws_closing := True, ws_keep_alive := True\<rparr>))"

definition ws_on_close_done :: "'u ws \<Rightarrow> 'u ws \<times> ws_out list" where
  "ws_on_close_done c = (c\<lparr>ws_handle := False, ws_uv_closing := False, ws_st := KClosed, ws_keep_alive := False\<rparr>, [WoClosed])"

definition ws_init_from_accepted :: "bool \<Rightarrow> u64 \<Rightarrow> 'u ws \<Rightarrow> bool \<times> 'u ws" where
  "ws_init_from_accepted timer_ok now c =
     (if \<not> timer_ok \<or> ws_timer c then (False, c\<lparr>ws_handle := False\<rparr>)
      else (True, c\<lparr>ws_handle := True, ws_timer := True, ws_accepted_at := now, ws_activity := now, ws_last_ping := now,
              ws_reading := True\<rparr>))"

section \<open>Writing\<close>

definition ws_writable :: "'u ws \<Rightarrow> bool" where
  "ws_writable c \<longleftrightarrow> \<not> ws_closed c \<and> \<not> ws_closing c \<and> \<not> ws_caw c \<and> ws_handle c"

text \<open>\<open>ProcessWriteQueue\<close>: up to 128 buffers, of which the empty ones are left out; when nothing is left to write
  the function calls itself for the next batch.\<close>

function ws_process_write_queue :: "'u ws \<Rightarrow> 'u ws" where
  "ws_process_write_queue c =
     (if \<not> ws_handle c \<or> ws_uv_closing c then c\<lparr>ws_writing := False\<rparr>
      else let batch = take 128 (ws_queue c);
               c1 = c\<lparr>ws_queue := drop 128 (ws_queue c), ws_qbytes := ws_qbytes c - sum_list (map length batch)\<rparr>
           in if batch = []
              then let c2 = c1\<lparr>ws_writing := False\<rparr> in if ws_caw c2 then ws_do_close (c2\<lparr>ws_caw := False\<rparr>) else c2
              else let c2 = (if ws_paused c1 \<and> ws_qbytes c1 < WS_RESUME_THRESHOLD
                             then c1\<lparr>ws_paused := False, ws_reading := True\<rparr> else c1);
                       bufs = filter (\<lambda>b. b \<noteq> []) batch
                   in if bufs = [] then ws_process_write_queue c2
                      else let c3 = c2\<lparr>ws_wrote := ws_wrote c2 @ [bufs]\<rparr>
                           in if ws_uv_ok c3 then c3\<lparr>ws_inflight := Some batch\<rparr> else ws_close (c3\<lparr>ws_writing := False\<rparr>))"
  by auto
termination
  by (relation "measure (\<lambda>c. length (ws_queue c))") auto

declare ws_process_write_queue.simps [simp del]

definition ws_trigger_write :: "'u ws \<Rightarrow> 'u ws" where
  "ws_trigger_write c = (if ws_writing c then c else ws_post WtWrite ws_process_write_queue (c\<lparr>ws_writing := True\<rparr>))"

definition ws_close_after_write :: "'u ws \<Rightarrow> 'u ws" where
  "ws_close_after_write c =
     (if ws_closed c \<or> ws_closing c \<or> ws_caw c \<or> \<not> ws_handle c then c
      else ws_trigger_write (c\<lparr>ws_keep_alive := True, ws_closed := True, ws_caw := True\<rparr>))"

definition ws_stop_read :: "'u ws \<Rightarrow> 'u ws" where
  "ws_stop_read c = c\<lparr>ws_reading := ws_reading c \<and> \<not> ws_handle c\<rparr>"

definition queue_frame_parts :: "bytes list \<Rightarrow> 'u ws \<Rightarrow> 'u ws" where
  "queue_frame_parts parts c =
     (if parts = [] \<or> ws_closed c \<or> ws_closing c \<or> \<not> ws_handle c then c
      else let c1 = c\<lparr>ws_queue := ws_queue c @ parts, ws_qbytes := ws_qbytes c + sum_list (map length parts)\<rparr>;
               pause = (ws_qbytes c1 > WS_MAX_WRITE_QUEUE_BYTES \<and> \<not> ws_paused c1);
               c2 = (if pause then ws_post WtStopRead ws_stop_read (c1\<lparr>ws_paused := True\<rparr>) else c1)
           in ws_trigger_write c2)"

definition queue_frame :: "bytes \<Rightarrow> 'u ws \<Rightarrow> 'u ws" where
  "queue_frame frame c = queue_frame_parts [frame] c"

definition type_opcode :: "message_type \<Rightarrow> u8" where
  "type_opcode ty = (if ty = MsgText then OPCODE_TEXT else OPCODE_BINARY)"

definition message_parts :: "message_type \<Rightarrow> bytes \<Rightarrow> bytes list" where
  "message_parts ty d = encode_ws_frame_header (type_opcode ty) (of_nat (length d)) # (if d \<noteq> [] then [d] else [])"

definition ws_send_message :: "message_type \<Rightarrow> bytes \<Rightarrow> 'u ws \<Rightarrow> bool \<times> 'u ws" where
  "ws_send_message ty d c = (if \<not> ws_writable c then (False, c) else (True, queue_frame_parts (message_parts ty d) c))"

definition ws_send_message_batch :: "message_type \<Rightarrow> bytes list \<Rightarrow> 'u ws \<Rightarrow> bool \<times> 'u ws" where
  "ws_send_message_batch ty ds c =
     (if \<not> ws_writable c \<or> ds = [] then (False, c) else (True, queue_frame_parts (concat (map (message_parts ty) ds)) c))"

definition ws_send :: "bytes \<Rightarrow> 'u ws \<Rightarrow> bool \<times> 'u ws" where
  "ws_send d c = ws_send_message MsgBinary d c"

definition ws_send_frame_buffer :: "bytes \<Rightarrow> 'u ws \<Rightarrow> bool \<times> 'u ws" where
  "ws_send_frame_buffer frame c = (if \<not> ws_writable c then (False, c) else (True, queue_frame frame c))"

definition ws_on_write_done :: "bool \<Rightarrow> 'u ws \<Rightarrow> 'u ws" where
  "ws_on_write_done status_ok c =
     (let c1 = c\<lparr>ws_inflight := None\<rparr> in if \<not> status_ok then ws_close c1 else ws_process_write_queue c1)"

text \<open>\<open>SendCloseAndDrain\<close>, which \<open>FailProtocol\<close> calls with its code.\<close>

definition send_close_and_drain :: "u16 \<Rightarrow> 'u ws \<Rightarrow> 'u ws" where
  "send_close_and_drain code c =
     (if ws_closed c \<or> ws_closing c then c
      else if ws_handle c
      then let c1 = (queue_frame (encode_ws_close_frame code None 0) c)\<lparr>ws_closed := True, ws_caw := True\<rparr>
           in if \<not> ws_writing c1 then ws_do_close c1 else c1
      else ws_close c)"

definition fail_protocol :: "u16 \<Rightarrow> 'u ws \<Rightarrow> 'u ws" where
  "fail_protocol code c = send_close_and_drain code c"

definition ws_exec_call :: "ws_call \<Rightarrow> 'u ws \<Rightarrow> 'u ws" where
  "ws_exec_call k c = (case k of
      WcSend ty d \<Rightarrow> snd (ws_send_message ty d c)
    | WcSendBatch ty ds \<Rightarrow> snd (ws_send_message_batch ty ds c)
    | WcSendFrame d \<Rightarrow> snd (ws_send_frame_buffer d c)
    | WcClose \<Rightarrow> ws_close c
    | WcCloseAfterWrite \<Rightarrow> ws_close_after_write c)"

section \<open>Frames of the client\<close>

datatype ws_head = HeadMore | HeadFail u16 | Head bool u8 u64 nat bytes

definition head_length :: "bytes \<Rightarrow> u64 \<Rightarrow> ws_head + u64 \<times> nat" where
  "head_length d len =
     (if len = 126
      then if length d < 4 then Inl HeadMore
           else let l = push_bit 8 (ucast (d ! 2)) OR ucast (d ! 3)
                in if l < 126 then Inl (HeadFail 1002) else Inr (l, 4)
      else if len = 127
      then if length d < 10 then Inl HeadMore
           else if d ! 2 AND 0x80 \<noteq> 0 then Inl (HeadFail 1002)
           else let l = foldl (\<lambda>l i. push_bit 8 l OR ucast (d ! (2 + i))) 0 [0..<8]
                in if l < 65536 then Inl (HeadFail 1002) else Inr (l, 10)
      else Inr (len, 2))"

definition is_control :: "u8 \<Rightarrow> bool" where
  "is_control op \<longleftrightarrow> op = OPCODE_CLOSE \<or> op = OPCODE_PING \<or> op = OPCODE_PONG"

definition is_message_opcode :: "u8 \<Rightarrow> bool" where
  "is_message_opcode op \<longleftrightarrow> op = OPCODE_TEXT \<or> op = OPCODE_BINARY"

definition to_message_type :: "u8 \<Rightarrow> message_type" where
  "to_message_type op = (if op = OPCODE_TEXT then MsgText else MsgBinary)"

text \<open>The header at the front of the received bytes: more bytes are needed, the connection is failed with a code, or the
  final bit, the opcode, the length of the payload, where it starts, and the mask.\<close>

definition ws_header :: "bytes \<Rightarrow> ws_head" where
  "ws_header d =
     (if length d < 2 then HeadMore
      else let fin = d ! 0 AND 0x80 \<noteq> 0; op = d ! 0 AND 0x0F; masked = d ! 1 AND 0x80 \<noteq> 0
           in if d ! 0 AND 0x70 \<noteq> 0 \<or> \<not> masked then HeadFail 1002
              else case head_length d (ucast (d ! 1 AND 0x7F)) of
                  Inl r \<Rightarrow> r
                | Inr (len, hl0) \<Rightarrow>
                    (let hl = hl0 + 4
                     in if len > MAX_MESSAGE_BYTES \<or> len > - 1 - of_nat hl then HeadFail 1009
                        else if length d < hl + unat len then HeadMore
                        else if \<not> is_known_opcode op then HeadFail 1002
                        else if is_control op \<and> (\<not> fin \<or> len > 125) then HeadFail 1002
                        else Head fin op len hl (take 4 (drop (hl - 4) d))))"

definition deliver_message :: "'u ws_callback \<Rightarrow> message_type \<Rightarrow> bytes \<Rightarrow> 'u ws \<Rightarrow> 'u ws \<times> ws_out list" where
  "deliver_message cb ty msg c =
     (case cb of None \<Rightarrow> (c, [])
      | Some f \<Rightarrow>
          (case f (ws_user c) ty msg of
             (u, calls) \<Rightarrow> (foldl (\<lambda>c k. ws_exec_call k c) (c\<lparr>ws_user := u\<rparr>) calls, [WoMessage ty msg])))"

text \<open>One turn of the loop of \<open>ProcessWSFrames\<close>; the flag says whether it goes round again.\<close>

definition ws_turn :: "'u ws_callback \<Rightarrow> u64 \<Rightarrow> 'u ws \<Rightarrow> bool \<times> 'u ws \<times> ws_out list" where
  "ws_turn cb now c =
     (if ws_st c \<noteq> KConnected then (False, c, [])
      else case ws_header (ws_buf c) of
        HeadMore \<Rightarrow> (False, c, [])
      | HeadFail code \<Rightarrow> (False, fail_protocol code c, [])
      | Head fin op len hl key \<Rightarrow>
          (let payload = unmask_ws_payload (take (unat len) (drop hl (ws_buf c))) key;
               rest = drop (hl + unat len) (ws_buf c);
               c1 = c\<lparr>ws_activity := now\<rparr>
           in if op = OPCODE_CLOSE then (False, send_close_and_drain 1000 c1, [])
              else if op = OPCODE_PING then
                (True, (queue_frame (encode_ws_pong_frame (if len > 0 then Some payload else None) len) c1)\<lparr>ws_buf := rest\<rparr>, [])
              else if op = OPCODE_PONG then
                (True, c1\<lparr>ws_ping_out := False, ws_deadline := 0, ws_buf := rest\<rparr>, [])
              else if is_message_opcode op then
                (if ws_fragmenting c1 then (False, fail_protocol 1002 c1, [])
                 else if fin then
                   (case deliver_message cb (to_message_type op) payload (c1\<lparr>ws_buf := rest\<rparr>) of (c2, outs) \<Rightarrow> (True, c2, outs))
                 else (True, c1\<lparr>ws_fragmenting := True, ws_frag_op := op, ws_frag := payload, ws_buf := rest\<rparr>, []))
              else if op = OPCODE_CONTINUATION then
                (if \<not> ws_fragmenting c1 then (False, fail_protocol 1002 c1, [])
                 else if length (ws_frag c1) + unat len > unat MAX_MESSAGE_BYTES then (False, fail_protocol 1009 c1, [])
                 else let frag = ws_frag c1 @ payload
                      in if fin then
                           (case deliver_message cb (to_message_type (ws_frag_op c1)) frag
                                   (c1\<lparr>ws_frag := [], ws_frag_op := 0, ws_fragmenting := False, ws_buf := rest\<rparr>) of
                              (c2, outs) \<Rightarrow> (True, c2, outs))
                         else (True, c1\<lparr>ws_frag := frag, ws_buf := rest\<rparr>, []))
              else (False, fail_protocol 1002 c1, [])))"

text \<open>What the operations for writing and closing leave alone: the side of the state that reading depends on,
  but for the state of the connection, which may become closing.\<close>

definition read_side :: "'u ws \<Rightarrow> bytes \<times> bytes \<times> u8 \<times> bool \<times> bytes" where
  "read_side c = (ws_buf c, ws_frag c, ws_frag_op c, ws_fragmenting c, ws_hs_buf c)"

lemma read_side_close [simp]: "read_side (ws_do_close c) = read_side c" "read_side (ws_close c) = read_side c"
  by (simp_all add: read_side_def ws_close_def ws_post_def ws_do_close_def Let_def)

lemma read_side_write [simp]: "read_side (ws_process_write_queue c) = read_side c"
proof (induction c rule: ws_process_write_queue.induct)
  case (1 c)
  have u: "read_side (c\<lparr>ws_writing := a\<rparr>) = read_side c" "read_side (c\<lparr>ws_queue := q, ws_qbytes := n\<rparr>) = read_side c"
    "read_side (c\<lparr>ws_queue := q\<rparr>) = read_side c" "read_side (c\<lparr>ws_caw := a\<rparr>) = read_side c" "read_side (c\<lparr>ws_wrote := w\<rparr>) = read_side c" "read_side (c\<lparr>ws_inflight := x\<rparr>) = read_side c"
    "read_side (c\<lparr>ws_paused := a, ws_reading := b\<rparr>) = read_side c" for c :: "'a ws" and a b q n w x
    by (simp_all add: read_side_def)
  show ?case
    by (subst ws_process_write_queue.simps) (use 1 in \<open>simp add: Let_def u\<close>)
qed

lemma read_side_trigger [simp]: "read_side (ws_trigger_write c) = read_side c"
proof -
  have "read_side (c\<lparr>ws_writing := True\<rparr>) = read_side c" "read_side (c\<lparr>ws_writing := True, ws_posted := p\<rparr>) = read_side c" for p
    by (simp_all add: read_side_def)
  then show ?thesis by (simp add: ws_trigger_write_def ws_post_def)
qed

lemma read_side_ops [simp]:
  "read_side (ws_close_after_write c) = read_side c"
  "read_side (queue_frame_parts ps c) = read_side c" "read_side (queue_frame f c) = read_side c"
  "read_side (c\<lparr>ws_user := u\<rparr>) = read_side c" "read_side (c\<lparr>ws_activity := now\<rparr>) = read_side c"
proof -
  have u: "read_side (c\<lparr>ws_keep_alive := a, ws_closed := b, ws_caw := d\<rparr>) = read_side c" "read_side (c\<lparr>ws_queue := q, ws_qbytes := n\<rparr>) = read_side c"
    "read_side (c\<lparr>ws_paused := a\<rparr>) = read_side c" "read_side (c\<lparr>ws_reading := a\<rparr>) = read_side c" "read_side (c\<lparr>ws_posted := p\<rparr>) = read_side c"
    for c :: "'a ws" and a b d q n p
    by (simp_all add: read_side_def)
  show "read_side (ws_close_after_write c) = read_side c" by (simp add: ws_close_after_write_def u)
  show p: "read_side (queue_frame_parts ps c) = read_side c" for ps by (simp add: queue_frame_parts_def ws_post_def ws_stop_read_def u Let_def)
  show "read_side (queue_frame f c) = read_side c" by (simp add: queue_frame_def p)
qed (simp_all add: read_side_def)

lemma read_side_call [simp]: "read_side (ws_exec_call k c) = read_side c"
  by (cases k) (simp_all add: ws_exec_call_def ws_send_message_def ws_send_message_batch_def ws_send_frame_buffer_def)

lemma read_side_deliver [simp]: "read_side (fst (deliver_message cb ty m c)) = read_side c"
proof -
  have "read_side (foldl (\<lambda>c k. ws_exec_call k c) c calls) = read_side c" for calls and c :: "'a ws"
    by (rule foldl_frame) simp
  then show ?thesis by (simp add: deliver_message_def split: option.split prod.split)
qed

lemma read_side_eq: "read_side c = read_side c' \<longleftrightarrow> ws_buf c = ws_buf c' \<and> ws_frag c = ws_frag c' \<and>
    ws_frag_op c = ws_frag_op c' \<and> ws_fragmenting c = ws_fragmenting c' \<and> ws_hs_buf c = ws_hs_buf c'"
  by (simp add: read_side_def)

lemma queue_frame_fields [simp]: "ws_buf (queue_frame f c) = ws_buf c"
  "ws_frag (queue_frame f c) = ws_frag c" "ws_frag_op (queue_frame f c) = ws_frag_op c"
  "ws_fragmenting (queue_frame f c) = ws_fragmenting c" "ws_hs_buf (queue_frame f c) = ws_hs_buf c"
  using read_side_ops(3) [of f c] unfolding read_side_eq by blast+

lemma deliver_eq_fields:
  assumes "deliver_message cb ty m c = (c1, outs)"
  shows "ws_buf c1 = ws_buf c" "ws_frag c1 = ws_frag c" "ws_frag_op c1 = ws_frag_op c"
    "ws_fragmenting c1 = ws_fragmenting c"
  using read_side_deliver [where cb = cb and ty = ty and m = m and c = c] unfolding read_side_eq by (simp_all add: assms)

lemma head_length_pos: "head_length d l = Inr (len, hl) \<Longrightarrow> hl = 2 \<or> hl = 4 \<or> hl = 10"
  by (auto simp: head_length_def Let_def split: if_splits)

lemma head_length_not_head [simp]: "head_length d l \<noteq> Inl (Head fin op len hl key)"
  by (auto simp: head_length_def Let_def)

lemma ws_header_bounds:
  assumes "ws_header d = Head fin op len hl key"
  shows "6 \<le> hl \<and> hl \<le> 14 \<and> hl + unat len \<le> length d \<and> unat len \<le> 16777216 \<and> is_known_opcode op \<and>
    (is_control op \<longrightarrow> fin \<and> len \<le> 125)"
proof -
  have "\<not> len > MAX_MESSAGE_BYTES \<and> hl + unat len \<le> length d \<and> is_known_opcode op \<and> (is_control op \<longrightarrow> fin \<and> \<not> len > 125) \<and>
      (\<exists>hl0. hl = hl0 + 4 \<and> head_length d (ucast (d ! 1 AND 0x7F)) = Inr (len, hl0))"
    using assms unfolding ws_header_def Let_def by (auto split: if_splits sum.splits prod.splits)
  then show ?thesis using head_length_pos by (fastforce simp: MAX_MESSAGE_BYTES_def word_le_nat_alt not_less)
qed

lemma ws_turn_shrinks:
  assumes "ws_turn cb now c = (True, c1, outs)"
  shows "length (ws_buf c1) < length (ws_buf c)"
proof -
  obtain fin op len hl key where h: "ws_header (ws_buf c) = Head fin op len hl key"
    using assms by (auto simp: ws_turn_def split: if_splits ws_head.splits)
  have "ws_buf c1 = drop (hl + unat len) (ws_buf c)"
    using assms by (auto simp: ws_turn_def h Let_def deliver_eq_fields split: if_splits prod.splits)
  moreover have "6 \<le> hl" "hl + unat len \<le> length (ws_buf c)" using ws_header_bounds [OF h] by auto
  ultimately show ?thesis by simp
qed

function process_ws_frames :: "'u ws_callback \<Rightarrow> u64 \<Rightarrow> 'u ws \<Rightarrow> 'u ws \<times> ws_out list" where
  "process_ws_frames cb now c =
     (case ws_turn cb now c of
        (again, c1, outs) \<Rightarrow>
          (if again then (case process_ws_frames cb now c1 of (c2, outs2) \<Rightarrow> (c2, outs @ outs2)) else (c1, outs)))"
  by auto
termination
  by (relation "measure (\<lambda>(_, _, c). length (ws_buf c))") (auto dest: sym intro: ws_turn_shrinks)

declare process_ws_frames.simps [simp del]

section \<open>Received data\<close>

definition handshake_response :: "bytes \<Rightarrow> bytes" where
  "handshake_response accept =
     chars ''HTTP/1.1 101 Switching Protocols'' @ CRLF @ chars ''Upgrade: websocket'' @ CRLF @
     chars ''Connection: Upgrade'' @ CRLF @ chars ''Sec-WebSocket-Accept: '' @ accept @ CRLF @ CRLF"

text \<open>The argument \<open>junk\<close> is that of \<open>compute_ws_accept\<close>: memory the hash does not depend on.\<close>

definition process_handshake :: "bytes \<Rightarrow> 'u ws \<Rightarrow> bool \<times> 'u ws" where
  "process_handshake junk c =
     (case find_sub (CRLF @ CRLF) (ws_hs_buf c) of
        None \<Rightarrow> (False, c)
      | Some n \<Rightarrow>
          (let request = take (n + 4) (ws_hs_buf c);
               c1 = c\<lparr>ws_hs_buf := drop (n + 4) (ws_hs_buf c)\<rparr>
           in if \<not> is_http_get_upgrade request \<or> \<not> header_contains request (chars ''Upgrade'') (chars ''websocket'') \<or>
                 \<not> header_contains request (chars ''Connection'') (chars ''upgrade'')
              then (False, ws_close c1)
              else let ws_key = extract_header request (chars ''sec-websocket-key'');
                       version = extract_header request (chars ''sec-websocket-version'')
                   in if ws_key = [] \<or> version \<noteq> chars ''13'' then (False, ws_close c1)
                      else (True, queue_frame (handshake_response (compute_ws_accept junk ws_key)) c1)))"

definition on_data_received :: "bytes \<Rightarrow> 'u ws_callback \<Rightarrow> u64 \<Rightarrow> bytes \<Rightarrow> 'u ws \<Rightarrow> 'u ws \<times> ws_out list" where
  "on_data_received junk cb now d c =
     (if ws_st c = KHandshaking then
        (if length (ws_hs_buf c) + length d > MAX_HANDSHAKE_BYTES then (ws_close c, [])
         else case process_handshake junk (c\<lparr>ws_hs_buf := ws_hs_buf c @ d\<rparr>) of
             (True, c1) \<Rightarrow>
               process_ws_frames cb now
                 (c1\<lparr>ws_buf := ws_buf c1 @ ws_hs_buf c1, ws_hs_buf := [], ws_st := KConnected, ws_activity := now\<rparr>)
           | (False, c1) \<Rightarrow> (c1, []))
      else if ws_st c = KConnected then
        (if length (ws_buf c) + length d > WS_MAX_READ_BUF_BYTES then (fail_protocol 1009 c, [])
         else process_ws_frames cb now (c\<lparr>ws_buf := ws_buf c @ d\<rparr>))
      else (c, []))"

text \<open>What libuv reads comes in pieces, as long as the handle is being read.\<close>

fun on_data_list :: "bytes \<Rightarrow> 'u ws_callback \<Rightarrow> (u64 \<times> bytes) list \<Rightarrow> 'u ws \<Rightarrow> 'u ws \<times> ws_out list" where
  "on_data_list junk cb [] c = (c, [])"
| "on_data_list junk cb ((now, d) # ds) c =
     (if \<not> ws_reading c then (c, [])
      else case on_data_received junk cb now d c of
        (c1, o1) \<Rightarrow> (case on_data_list junk cb ds c1 of (c2, o2) \<Rightarrow> (c2, o1 @ o2)))"

section \<open>The timer and the steps of a connection\<close>

definition check_liveness :: "u64 \<Rightarrow> 'u ws \<Rightarrow> 'u ws" where
  "check_liveness now c =
     (if ws_closed c \<or> ws_closing c then c
      else if ws_st c = KHandshaking then
        (if now - ws_accepted_at c \<ge> HANDSHAKE_TIMEOUT_MS then ws_close c else c)
      else if ws_st c \<noteq> KConnected then c
      else if ws_ping_out c \<and> now \<ge> ws_deadline c then ws_close c
      else if now - ws_activity c \<ge> IDLE_TIMEOUT_MS then ws_close c
      else if \<not> ws_ping_out c \<and> now - ws_last_ping c \<ge> PING_INTERVAL_MS
      then (queue_frame (encode_ws_frame OPCODE_PING None 0) c)
             \<lparr>ws_ping_out := True, ws_last_ping := now, ws_deadline := now + PONG_TIMEOUT_MS\<rparr>
      else c)"

text \<open>At the end of the stream and on an error libuv stops reading by itself, also when \<open>Close\<close> does nothing.\<close>

definition ws_on_read_error :: "'u ws \<Rightarrow> 'u ws" where
  "ws_on_read_error c = ws_close (c\<lparr>ws_reading := False\<rparr>)"

text \<open>A public operation may be called on the loop's thread or on another; everything else runs on the loop's thread.\<close>

definition ws_on :: "bool \<Rightarrow> bool \<Rightarrow> 'u ws \<Rightarrow> 'u ws" where
  "ws_on here uv_ok c = c\<lparr>ws_here := here, ws_uv_ok := uv_ok\<rparr>"

inductive ws_step :: "bytes \<Rightarrow> 'u ws_callback \<Rightarrow> 'u ws \<Rightarrow> ws_out list \<Rightarrow> 'u ws \<Rightarrow> bool" for junk cb where
  wstep_call: "ws_step junk cb c [] (ws_exec_call k (ws_on here uv_ok c))"
| wstep_write: "ws_posted c = WtWrite # ts \<Longrightarrow> ws_step junk cb c [] (ws_process_write_queue (ws_on True uv_ok (c\<lparr>ws_posted := ts\<rparr>)))"
| wstep_close: "ws_posted c = WtClose # ts \<Longrightarrow> ws_step junk cb c [] (ws_do_close (ws_on True uv_ok (c\<lparr>ws_posted := ts\<rparr>)))"
| wstep_stop_read: "ws_posted c = WtStopRead # ts \<Longrightarrow> ws_step junk cb c [] (ws_stop_read (ws_on True uv_ok (c\<lparr>ws_posted := ts\<rparr>)))"
| wstep_read: "ws_handle c \<Longrightarrow> ws_reading c \<Longrightarrow> \<not> ws_uv_closing c \<Longrightarrow>
    on_data_received junk cb now d (ws_on True uv_ok c) = (c', outs) \<Longrightarrow> ws_step junk cb c outs c'"
| wstep_error: "ws_handle c \<Longrightarrow> ws_reading c \<Longrightarrow> \<not> ws_uv_closing c \<Longrightarrow> ws_step junk cb c [] (ws_on_read_error (ws_on True uv_ok c))"
| wstep_written: "ws_inflight c \<noteq> None \<Longrightarrow> ws_step junk cb c [] (ws_on_write_done status_ok (ws_on True uv_ok c))"
| wstep_closed: "ws_handle c \<Longrightarrow> ws_uv_closing c \<Longrightarrow> ws_inflight c = None \<Longrightarrow> ws_on_close_done (ws_on True uv_ok c) = (c', outs) \<Longrightarrow>
    ws_step junk cb c outs c'"
| wstep_timer: "ws_timer c \<Longrightarrow> ws_step junk cb c [] (check_liveness now (ws_on True uv_ok c))"

inductive ws_steps :: "bytes \<Rightarrow> 'u ws_callback \<Rightarrow> 'u ws \<Rightarrow> ws_out list \<Rightarrow> 'u ws \<Rightarrow> bool" for junk cb where
  wsteps_none: "ws_steps junk cb c [] c"
| wsteps_more: "ws_steps junk cb c outs c' \<Longrightarrow> ws_step junk cb c' outs' c'' \<Longrightarrow> ws_steps junk cb c (outs @ outs') c''"

end
