(* ===== verification/GM_WSHandshake.thy ===== *)
theory GM_WSHandshake
  imports GM_WSConn "HOL-Library.Sublist"
begin

text \<open>
  The handshake of a WebSocket connection on requests as HTTP renders them: which are accepted, and with what answer.
\<close>

section \<open>The handshake\<close>

lemma find_sub_at: "p \<noteq> [] \<Longrightarrow> hd p \<notin> set a \<Longrightarrow> find_sub p (a @ p @ b) = Some (length a)"
proof (induction a)
  case Nil
  then show ?case by (cases p) auto
next
  case (Cons x a)
  have "take (length p) ((x # a) @ p @ b) \<noteq> p" using Cons(2,3) by (cases p) auto
  then show ?case using Cons by simp
qed

lemma find_sub_append: "find_sub p a = Some n \<Longrightarrow> p \<noteq> [] \<Longrightarrow> find_sub p (a @ b) = Some n"
proof (induction a arbitrary: n)
  case (Cons x a)
  show ?case
  proof (cases "take (length p) (x # a) = p")
    case True
    have "take (length p) ((x # a) @ b) = p"
      using True by (metis append_take_drop_id length_take min_def take_all_iff take_append nle_le append_Nil2 diff_is_0_eq take0)
    then show ?thesis using True Cons(2) by simp
  next
    case False
    then obtain m where m: "find_sub p a = Some m" "n = Suc m" using Cons(2) by auto
    have "length p \<le> length a" using find_sub_bound [OF m(1)] by simp
    then have "take (length p) (x # a @ b) = take (length p) (x # a)" by (simp add: take_Cons')
    then show ?thesis using False Cons(1) [OF m(1) Cons(3)] m by simp
  qed
qed simp

lemma find_sub_exists: "find_sub p (a @ p @ b) \<noteq> None"
proof (induction a)
  case Nil
  then show ?case by (cases p; cases b) auto
next
  case (Cons x a)
  then show ?case by simp
qed

lemma find_sub_sublist: "(find_sub p s \<noteq> None) = sublist p s"
proof
  assume "find_sub p s \<noteq> None"
  then show "sublist p s"
  proof (induction s)
    case (Cons c s)
    show ?case
    proof (cases "take (length p) (c # s) = p")
      case True
      then show ?thesis by (metis prefix_imp_sublist take_is_prefix)
    next
      case False
      then have "sublist p s" using Cons by auto
      then show ?thesis by (simp add: sublist_Cons_right)
    qed
  qed (simp split: if_splits)
qed (use find_sub_exists [of p] in \<open>auto simp: sublist_def\<close>)

definition http_line :: "bytes \<Rightarrow> bytes" where "http_line l = l @ CRLF"

lemma find_crlf_line: "13 \<notin> set l \<Longrightarrow> find_sub CRLF (l @ CRLF @ s) = Some (length l)"
  using find_sub_at [of CRLF l s] by (simp add: CRLF_def)

lemma find_end_line:
  assumes "13 \<notin> set l" and "s = [] \<or> hd s \<noteq> 13"
  shows "find_sub (CRLF @ CRLF) (l @ CRLF @ s) = map_option (\<lambda>n. length l + 2 + n) (find_sub (CRLF @ CRLF) s)"
  using assms(1)
proof (induction l)
  case Nil
  show ?case using assms(2) by (cases s) (auto simp: CRLF_def option.map_comp o_def)
next
  case (Cons x l)
  then show ?case by (simp add: CRLF_def option.map_comp o_def)
qed

lemma find_end_lines:
  assumes "\<forall>l\<in>set ls. 13 \<notin> set l \<and> l \<noteq> []" and "ls \<noteq> []"
  shows "find_sub (CRLF @ CRLF) (concat (map http_line ls) @ CRLF @ rest) = Some (length (concat (map http_line ls)) - 2)"
  using assms
proof (induction ls)
  case (Cons l ls)
  show ?case
  proof (cases ls)
    case Nil
    have "find_sub (CRLF @ CRLF) (l @ (CRLF @ CRLF) @ rest) = Some (length l)"
      by (rule find_sub_at) (use Cons(2) in \<open>auto simp: CRLF_def\<close>)
    then show ?thesis using Nil by (simp add: http_line_def CRLF_def)
  next
    case (Cons m ms)
    have "hd (concat (map http_line ls) @ CRLF @ rest) \<noteq> 13" using Cons.prems(1) Cons by (cases m) (auto simp: http_line_def)
    then have "find_sub (CRLF @ CRLF) (l @ CRLF @ concat (map http_line ls) @ CRLF @ rest) =
        map_option (\<lambda>n. length l + 2 + n) (Some (length (concat (map http_line ls)) - 2))"
      using Cons.IH Cons.prems(1) Cons by (subst find_end_line) auto
    moreover have "2 \<le> length (concat (map http_line ls))" using Cons by (simp add: http_line_def CRLF_def)
    moreover have "concat (map http_line (l # ls)) = l @ CRLF @ concat (map http_line ls)" by (simp add: http_line_def)
    ultimately show ?thesis by (simp add: CRLF_def)
  qed
qed simp

text \<open>The headers the code looks at are those of the lines.\<close>

definition lines_contain :: "bytes list \<Rightarrow> bytes \<Rightarrow> bytes \<Rightarrow> bool" where
  "lines_contain ls key value = (\<exists>l\<in>set ls. \<exists>v. line_header l = Some (to_lower key, v) \<and> find_sub (to_lower value) (to_lower v) \<noteq> None)"

fun lines_field :: "bytes list \<Rightarrow> bytes \<Rightarrow> bytes" where
  "lines_field [] key = []"
| "lines_field (l # ls) key = (case line_header l of
      Some (k, v) \<Rightarrow> (if k = to_lower key then v else lines_field ls key) | None \<Rightarrow> lines_field ls key)"

lemma end_of_lines: "header_contains CRLF key value = False" "extract_header CRLF key = []"
  by (simp_all add: header_contains.simps [of CRLF] extract_header.simps [of CRLF] header_contains.simps [of "[]"] extract_header.simps [of "[]"])
    (simp_all add: CRLF_def line_header_def header_contains.simps [of "[]"] extract_header.simps [of "[]"])

lemma header_step:
  assumes "13 \<notin> set l"
  shows "header_contains (l @ CRLF @ r) key value = (case line_header l of
      Some (k, v) \<Rightarrow> (if k = to_lower key \<and> find_sub (to_lower value) (to_lower v) \<noteq> None then True else header_contains r key value)
    | None \<Rightarrow> header_contains r key value)"
    "extract_header (l @ CRLF @ r) key = (case line_header l of
      Some (k, v) \<Rightarrow> (if k = to_lower key then v else extract_header r key) | None \<Rightarrow> extract_header r key)"
proof -
  have d: "drop (length l + 2) (l @ CRLF @ r) = r" "take (length l) (l @ CRLF @ r) = l" by (simp_all add: CRLF_def)
  note f = find_crlf_line [OF assms, of r]
  show "header_contains (l @ CRLF @ r) key value = (case line_header l of
      Some (k, v) \<Rightarrow> (if k = to_lower key \<and> find_sub (to_lower value) (to_lower v) \<noteq> None then True else header_contains r key value)
    | None \<Rightarrow> header_contains r key value)"
    by (subst header_contains.simps) (simp only: f d option.case)
  show "extract_header (l @ CRLF @ r) key = (case line_header l of
      Some (k, v) \<Rightarrow> (if k = to_lower key then v else extract_header r key) | None \<Rightarrow> extract_header r key)"
    by (subst extract_header.simps) (simp only: f d option.case)
qed

lemma http_lines_cons: "concat (map http_line (l # ls)) @ CRLF = l @ CRLF @ concat (map http_line ls) @ CRLF"
  by (simp add: http_line_def)

lemma header_contains_lines:
  "\<forall>l\<in>set ls. 13 \<notin> set l \<Longrightarrow> header_contains (concat (map http_line ls) @ CRLF) key value = lines_contain ls key value"
proof (induction ls)
  case (Cons l ls)
  have "header_contains (concat (map http_line (l # ls)) @ CRLF) key value =
      (case line_header l of Some (k, v) \<Rightarrow> (if k = to_lower key \<and> find_sub (to_lower value) (to_lower v) \<noteq> None then True
           else lines_contain ls key value) | None \<Rightarrow> lines_contain ls key value)"
    unfolding http_lines_cons using Cons by (subst header_step) (simp_all split: option.split)
  then show ?case by (auto simp: lines_contain_def split: option.splits)
qed (simp add: end_of_lines lines_contain_def)

lemma extract_header_lines:
  "\<forall>l\<in>set ls. 13 \<notin> set l \<Longrightarrow> extract_header (concat (map http_line ls) @ CRLF) key = lines_field ls key"
proof (induction ls)
  case (Cons l ls)
  then show ?case unfolding http_lines_cons by (subst header_step) (simp_all split: option.split)
qed (simp add: end_of_lines)

text \<open>A request as HTTP renders it: the request line, one line for each header, an empty line.\<close>

definition http_header_line :: "bytes \<times> bytes \<Rightarrow> bytes" where
  "http_header_line h = fst h @ chars '': '' @ snd h"

definition http_request_lines :: "bytes \<Rightarrow> (bytes \<times> bytes) list \<Rightarrow> bytes list" where
  "http_request_lines line hs = line # map http_header_line hs"

definition http_request :: "bytes \<Rightarrow> (bytes \<times> bytes) list \<Rightarrow> bytes" where
  "http_request line hs = concat (map http_line (http_request_lines line hs)) @ CRLF"

text \<open>What the code asks of the request line.\<close>

definition http_get_line :: "bytes \<Rightarrow> bool" where
  "http_get_line line \<longleftrightarrow> prefix (chars ''get '') (to_lower line) \<and> sublist (chars '' http/1.1'') (to_lower line)"

definition http_header_ok :: "bytes \<times> bytes \<Rightarrow> bool" where
  "http_header_ok h \<longleftrightarrow> fst h \<noteq> [] \<and> 58 \<notin> set (fst h) \<and> 13 \<notin> set (fst h) \<and> 13 \<notin> set (snd h) \<and>
     (snd h \<noteq> [] \<longrightarrow> \<not> is_blank (hd (snd h)) \<and> \<not> is_blank_or_eol (last (snd h)))"

definition http_has :: "(bytes \<times> bytes) list \<Rightarrow> string \<Rightarrow> string \<Rightarrow> bool" where
  "http_has hs key value = (\<exists>h\<in>set hs. to_lower (fst h) = chars key \<and> sublist (chars value) (to_lower (snd h)))"

definition http_field :: "(bytes \<times> bytes) list \<Rightarrow> string \<Rightarrow> bytes" where
  "http_field hs key = (case find (\<lambda>h. to_lower (fst h) = chars key) hs of None \<Rightarrow> [] | Some h \<Rightarrow> snd h)"

lemma trim_value:
  assumes "v \<noteq> [] \<longrightarrow> \<not> is_blank (hd v) \<and> \<not> is_blank_or_eol (last v)"
  shows "trim_ws (32 # v) = v"
proof (cases v rule: rev_cases)
  case (snoc w x)
  have d: "dropWhile is_blank (32 # v) = v" using assms snoc by (cases w) (auto simp: is_blank_def)
  have r: "dropWhile is_blank_or_eol (rev (32 # v)) = rev (32 # v)" using assms snoc by simp
  show ?thesis using snoc unfolding trim_ws_def d r Let_def by simp
qed (simp add: trim_ws_def is_blank_def)

lemma line_of_header:
  assumes "http_header_ok h"
  shows "line_header (http_header_line h) = Some (to_lower (fst h), snd h)"
proof -
  have f: "find_sub [58] (fst h @ [58] @ (32 # snd h)) = Some (length (fst h))"
    by (rule find_sub_at) (use assms in \<open>auto simp: http_header_ok_def\<close>)
  have e: "http_header_line h = fst h @ [58] @ (32 # snd h)" by (simp add: http_header_line_def)
  show ?thesis unfolding line_header_def e f using trim_value assms by (simp add: http_header_ok_def)
qed

lemma lines_of_request:
  assumes "\<forall>h\<in>set hs. http_header_ok h"
  shows "lines_contain (map http_header_line hs) (chars key) (chars value) =
      (\<exists>h\<in>set hs. to_lower (fst h) = to_lower (chars key) \<and> find_sub (to_lower (chars value)) (to_lower (snd h)) \<noteq> None)"
    "to_lower (chars key) = chars key \<Longrightarrow> lines_field (map http_header_line hs) (chars key) = http_field hs key"
proof -
  show "lines_contain (map http_header_line hs) (chars key) (chars value) =
      (\<exists>h\<in>set hs. to_lower (fst h) = to_lower (chars key) \<and> find_sub (to_lower (chars value)) (to_lower (snd h)) \<noteq> None)"
    using assms line_of_header by (auto simp: lines_contain_def)
  show "lines_field (map http_header_line hs) (chars key) = http_field hs key" if "to_lower (chars key) = chars key"
    using assms that by (induction hs) (auto simp: line_of_header http_field_def)
qed

lemma chars_lower: "to_lower (chars ''upgrade'') = chars ''upgrade''" "to_lower (chars ''websocket'') = chars ''websocket''"
  "to_lower (chars ''Upgrade'') = chars ''upgrade''" "to_lower (chars ''Connection'') = chars ''connection''"
  "to_lower (chars ''sec-websocket-key'') = chars ''sec-websocket-key''"
  "to_lower (chars ''sec-websocket-version'') = chars ''sec-websocket-version''"
  by (simp_all add: to_lower_def)

lemma to_lower_append: "to_lower (a @ b) = to_lower a @ to_lower b"
  by (simp add: to_lower_def)

lemma request_line_get:
  assumes "13 \<notin> set line"
  shows "is_http_get_upgrade (http_request line hs) = http_get_line line"
proof -
  have e: "http_request line hs = line @ CRLF @ concat (map http_line (map http_header_line hs)) @ CRLF"
    by (simp add: http_request_def http_request_lines_def http_line_def)
  have f: "find_sub CRLF (http_request line hs) = Some (length line)" "take (length line) (http_request line hs) = line"
    unfolding e by (rule find_crlf_line [OF assms]) simp
  have "(take 4 (to_lower line) = chars ''get '') = prefix (chars ''get '') (to_lower line)"
    using take_is_prefix [of 4 "to_lower line"] by (auto simp: prefix_def)
  then show ?thesis unfolding is_http_get_upgrade_def f option.case Let_def http_get_line_def find_sub_sublist by simp
qed

lemma request_line_header:
  assumes "line_header line = Some (k, v)" and "http_get_line line"
  shows "k \<noteq> chars ''upgrade''" "k \<noteq> chars ''connection''" "k \<noteq> chars ''sec-websocket-key''" "k \<noteq> chars ''sec-websocket-version''"
proof -
  obtain n where n: "find_sub [58] line = Some n" and k: "k = to_lower (take n line)"
    using assms by (auto simp: line_header_def split: option.splits)
  obtain c r where l: "line = c # r" using n by (cases line) auto
  have c: "to_lower [c] = [103]" using assms(2) by (auto simp: http_get_line_def l to_lower_def prefix_def)
  have "0 < n" using n c by (auto simp: l to_lower_def split: if_splits)
  then have "hd k = 103" using c unfolding k by (cases n) (simp_all add: l to_lower_def)
  then show "k \<noteq> chars ''upgrade''" "k \<noteq> chars ''connection''" "k \<noteq> chars ''sec-websocket-key''" "k \<noteq> chars ''sec-websocket-version''"
    by auto
qed

lemma headers_of_request:
  assumes "13 \<notin> set line" and "\<forall>h\<in>set hs. http_header_ok h" and "http_get_line line"
  shows "header_contains (http_request line hs) (chars ''Upgrade'') (chars ''websocket'') = http_has hs ''upgrade'' ''websocket''"
    "header_contains (http_request line hs) (chars ''Connection'') (chars ''upgrade'') = http_has hs ''connection'' ''upgrade''"
    "extract_header (http_request line hs) (chars ''sec-websocket-key'') = http_field hs ''sec-websocket-key''"
    "extract_header (http_request line hs) (chars ''sec-websocket-version'') = http_field hs ''sec-websocket-version''"
proof -
  have c: "\<forall>l\<in>set (http_request_lines line hs). 13 \<notin> set l"
    using assms by (auto simp: http_request_lines_def http_header_line_def http_header_ok_def)
  have h: "header_contains (http_request line hs) key val = lines_contain (http_request_lines line hs) key val" for key val
    unfolding http_request_def by (rule header_contains_lines [OF c])
  have x: "extract_header (http_request line hs) key = lines_field (http_request_lines line hs) key" for key
    unfolding http_request_def by (rule extract_header_lines) (use c in simp)
  have skip: "lines_contain (http_request_lines line hs) key val = lines_contain (map http_header_line hs) key val"
    if "to_lower key \<in> {chars ''upgrade'', chars ''connection''}" for key val
    using that request_line_header [OF _ assms(3)] by (auto simp: lines_contain_def http_request_lines_def)
  have skip': "lines_field (http_request_lines line hs) key = lines_field (map http_header_line hs) key"
    if "to_lower key \<in> {chars ''sec-websocket-key'', chars ''sec-websocket-version''}" for key
    using that request_line_header(3,4) [OF _ assms(3)] unfolding http_request_lines_def lines_field.simps
    by (auto simp del: list.map split: option.split)
  show "header_contains (http_request line hs) (chars ''Upgrade'') (chars ''websocket'') = http_has hs ''upgrade'' ''websocket''"
    unfolding h by (subst skip) (use lines_of_request(1) [OF assms(2), of "''Upgrade''" "''websocket''"] in
      \<open>simp_all only: chars_lower http_has_def find_sub_sublist insert_iff simp_thms\<close>)
  show "header_contains (http_request line hs) (chars ''Connection'') (chars ''upgrade'') = http_has hs ''connection'' ''upgrade''"
    unfolding h by (subst skip) (use lines_of_request(1) [OF assms(2), of "''Connection''" "''upgrade''"] in
      \<open>simp_all only: chars_lower http_has_def find_sub_sublist insert_iff simp_thms\<close>)
  show "extract_header (http_request line hs) (chars ''sec-websocket-key'') = http_field hs ''sec-websocket-key''"
    unfolding x by (subst skip') (use lines_of_request(2) [OF assms(2), of "''sec-websocket-key''"] in
      \<open>simp_all only: chars_lower insert_iff simp_thms\<close>)
  show "extract_header (http_request line hs) (chars ''sec-websocket-version'') = http_field hs ''sec-websocket-version''"
    unfolding x by (subst skip') (use lines_of_request(2) [OF assms(2), of "''sec-websocket-version''"] in
      \<open>simp_all only: chars_lower insert_iff simp_thms\<close>)
qed

definition http_accepts :: "bytes \<Rightarrow> (bytes \<times> bytes) list \<Rightarrow> bool" where
  "http_accepts line hs \<longleftrightarrow> http_get_line line \<and> http_has hs ''upgrade'' ''websocket'' \<and> http_has hs ''connection'' ''upgrade'' \<and>
     http_field hs ''sec-websocket-key'' \<noteq> [] \<and> http_field hs ''sec-websocket-version'' = chars ''13''"

lemma request_end:
  assumes "13 \<notin> set line" "line \<noteq> []" and "\<forall>h\<in>set hs. http_header_ok h"
  shows "find_sub (CRLF @ CRLF) (http_request line hs @ rest) = Some (length (http_request line hs) - 4)" "4 \<le> length (http_request line hs)"
proof -
  have c: "\<forall>l\<in>set (http_request_lines line hs). 13 \<notin> set l \<and> l \<noteq> []"
    using assms by (auto simp: http_request_lines_def http_header_line_def http_header_ok_def)
  have "find_sub (CRLF @ CRLF) (concat (map http_line (http_request_lines line hs)) @ CRLF @ rest) =
      Some (length (concat (map http_line (http_request_lines line hs))) - 2)"
    by (rule find_end_lines [OF c]) (simp add: http_request_lines_def)
  then show "find_sub (CRLF @ CRLF) (http_request line hs @ rest) = Some (length (http_request line hs) - 4)"
    by (simp add: http_request_def CRLF_def)
  show "4 \<le> length (http_request line hs)" by (simp add: http_request_def http_request_lines_def CRLF_def http_line_def)
qed

lemma process_handshake_request:
  assumes "13 \<notin> set line" "line \<noteq> []" and "\<forall>h\<in>set hs. http_header_ok h" and "ws_hs_buf c = http_request line hs @ rest"
  shows "process_handshake junk c =
    (if http_accepts line hs
     then (True, queue_frame (handshake_response (compute_ws_accept junk (http_field hs ''sec-websocket-key''))) (c\<lparr>ws_hs_buf := rest\<rparr>))
     else (False, ws_close (c\<lparr>ws_hs_buf := rest\<rparr>)))"
proof -
  note e = request_end [OF assms(1-3)]
  have n: "length (http_request line hs) - 4 + 4 = length (http_request line hs)" using e(2) by simp
  have t: "take (length (http_request line hs)) (http_request line hs @ rest) = http_request line hs"
    "drop (length (http_request line hs)) (http_request line hs @ rest) = rest" by simp_all
  show ?thesis
  proof (cases "http_get_line line")
    case True
    then show ?thesis
      unfolding process_handshake_def assms(4) e(1) option.case n t headers_of_request [OF assms(1,3) True] Let_def
      using request_line_get [OF assms(1), of hs] by (auto simp: http_accepts_def)
  next
    case False
    then show ?thesis
      unfolding process_handshake_def assms(4) e(1) option.case n t Let_def
      using request_line_get [OF assms(1), of hs] by (simp add: http_accepts_def)
  qed
qed

lemma frames_of_nothing: "ws_buf c = [] \<Longrightarrow> process_ws_frames cb now c = (c, [])"
  by (simp add: process_ws_frames.simps [of cb now c] ws_turn_def ws_header_def)

lemma find_sub_prefix_none:
  assumes "find_sub p (a @ b) = Some n" and "p \<noteq> []" and "length a < n + length p"
  shows "find_sub p a = None"
proof (cases "find_sub p a")
  case (Some m)
  then have "m = n" using find_sub_append [OF Some assms(2), of b] assms(1) by simp
  then show ?thesis using find_sub_bound [OF Some] assms(3) by simp
qed

text \<open>What the handshake leaves of a connection.\<close>

definition handshake_result :: "bytes \<Rightarrow> bytes \<Rightarrow> (bytes \<times> bytes) list \<Rightarrow> u64 \<Rightarrow> 'u ws \<Rightarrow> 'u ws" where
  "handshake_result junk line hs now c =
     (if http_accepts line hs
      then (queue_frame (handshake_response (compute_ws_accept junk (http_field hs ''sec-websocket-key''))) c)
             \<lparr>ws_st := KConnected, ws_activity := now\<rparr>
      else ws_close c)"

lemma handshake_chunks:
  assumes "13 \<notin> set line" "line \<noteq> []" and "\<forall>h\<in>set hs. http_header_ok h" and "length (http_request line hs) \<le> MAX_HANDSHAKE_BYTES"
    and "ws_st c = KHandshaking" and "ws_hs_buf c = []" and "ws_buf c = []" and "ws_reading c"
    and "p @ concat (map snd ds) = http_request line hs" and "length p < length (http_request line hs)" and "[] \<notin> snd ` set ds"
  shows "on_data_list junk cb ds (c\<lparr>ws_hs_buf := p\<rparr>) = (handshake_result junk line hs (fst (last ds)) c, [])"
  using assms(9-11)
proof (induction ds arbitrary: p)
  case (Cons d ds)
  obtain now x where d: "d = (now, x)" by (cases d)
  have len: "\<not> MAX_HANDSHAKE_BYTES < length p + length x" using arg_cong [OF Cons(2), of length] assms(4) d by simp
  show ?case
  proof (cases "p @ x = http_request line hs")
    case True
    then have "concat (map snd ds) = []" using Cons(2) d unfolding True [symmetric] by simp
    then have n: "ds = []" using Cons(4) by (cases ds) force+
    have c: "c\<lparr>ws_hs_buf := []\<rparr> = c" using assms(6) by simp
    have "process_handshake junk (c\<lparr>ws_hs_buf := p @ x\<rparr>) =
      (if http_accepts line hs then (True, queue_frame (handshake_response (compute_ws_accept junk (http_field hs ''sec-websocket-key''))) c)
       else (False, ws_close c))"
      using process_handshake_request [OF assms(1-3), of "c\<lparr>ws_hs_buf := p @ x\<rparr>" "[]" junk] True c by simp
    then show ?thesis using assms(5-8) len d n
      by (auto simp: on_data_received_def handshake_result_def frames_of_nothing split: if_splits)
  next
    case False
    have l: "length (p @ x) < length (http_request line hs)"
    proof (rule ccontr)
      assume "\<not> ?thesis"
      moreover have "length p + length x + length (concat (map snd ds)) = length (http_request line hs)"
        using arg_cong [OF Cons(2), of length] unfolding d by (simp del: length_0_conv)
      ultimately have "length (concat (map snd ds)) = 0" unfolding length_append by linarith
      then have n: "concat (map snd ds) = []" unfolding length_0_conv .
      show False using False Cons(2) unfolding d list.map concat.simps snd_conv n by simp
    qed
    have e: "find_sub (CRLF @ CRLF) ((p @ x) @ concat (map snd ds)) = Some (length (http_request line hs) - 4)"
      using request_end(1) [OF assms(1-3), of "[]"] Cons(2) d by simp
    have "find_sub (CRLF @ CRLF) (p @ x) = None"
      by (rule find_sub_prefix_none [OF e]) (use l request_end(2) [OF assms(1-3)] in \<open>simp_all add: CRLF_def\<close>)
    then have "process_handshake junk (c\<lparr>ws_hs_buf := p @ x\<rparr>) = (False, c\<lparr>ws_hs_buf := p @ x\<rparr>)"
      by (simp add: process_handshake_def)
    moreover have "on_data_list junk cb ds (c\<lparr>ws_hs_buf := p @ x\<rparr>) = (handshake_result junk line hs (fst (last ds)) c, [])"
      using Cons(1) [of "p @ x"] Cons(2,4) d l by simp
    moreover have "ds \<noteq> []" using Cons(2) d False by auto
    ultimately show ?thesis using assms(5,8) len d by (simp add: on_data_received_def)
  qed
qed simp

lemma http_field_length: "length (http_field hs key) \<le> length (http_request line hs)"
proof (cases "find (\<lambda>h. to_lower (fst h) = chars key) hs")
  case (Some h)
  then have "h \<in> set hs" by (auto simp: find_Some_iff)
  then have "length (http_header_line h) \<le> sum_list (map (length \<circ> http_header_line) hs)"
    by (intro member_le_sum_list) (auto simp: image_iff)
  moreover have "length (snd h) \<le> length (http_header_line h)" by (simp add: http_header_line_def)
  moreover have "sum_list (map (length \<circ> http_header_line) hs) \<le> length (concat (map http_line (map http_header_line hs)))"
    by (induction hs) (simp_all add: http_line_def)
  ultimately show ?thesis using Some by (simp add: http_field_def http_request_def http_request_lines_def)
qed (simp add: http_field_def)

lemma base64_length: "length (base64_encode d i) \<le> 4 * (length d - i)"
proof (induction d i rule: base64_encode.induct)
  case (1 d i)
  show ?case
  proof (cases "i < length d")
    case True
    have "length (base64_encode d i) = 4 + length (base64_encode d (i + 3))"
      using True by (subst base64_encode.simps) (simp add: Let_def)
    moreover have "length (base64_encode d (i + 3)) \<le> 4 * (length d - (i + 3))" by (rule 1 [OF True]) (rule refl)+
    ultimately show ?thesis using True by linarith
  qed (simp add: base64_encode.simps)
qed

lemma sha1_raw_length: "length (sha1_raw junk d) = 20"
  unfolding sha1_raw_def sha1_final_def Let_def case_prod_beta length_map length_upt by simp

lemma accept_length: "length (compute_ws_accept junk key) \<le> 80"
  using base64_length [of "sha1_raw junk (key @ ws_magic)" 0] by (simp add: compute_ws_accept_def sha1_raw_length)

lemma queue_frame_fresh:
  assumes "ws_init_from_accepted True t0 (ws_new u) = (True, c)" and "fr \<noteq> []" and "length fr \<le> WS_MAX_WRITE_QUEUE_BYTES"
  shows "queue_frame fr c = c\<lparr>ws_writing := True, ws_inflight := Some [fr], ws_wrote := [[fr]]\<rparr>"
proof -
  have c: "c = (ws_new u)\<lparr>ws_handle := True, ws_timer := True, ws_accepted_at := t0, ws_activity := t0, ws_last_ping := t0, ws_reading := True\<rparr>"
    using assms(1) by (simp add: ws_init_from_accepted_def ws_new_def)
  have "queue_frame fr c = ws_process_write_queue (c\<lparr>ws_queue := [fr], ws_qbytes := length fr, ws_writing := True\<rparr>)"
    using assms(3) by (simp add: c ws_new_def queue_frame_def queue_frame_parts_def ws_trigger_write_def ws_post_def)
  also have "\<dots> = c\<lparr>ws_writing := True, ws_inflight := Some [fr], ws_wrote := [[fr]]\<rparr>"
    by (subst ws_process_write_queue.simps) (simp add: c ws_new_def assms(2) Let_def)
  finally show ?thesis .
qed

text \<open>C31: The handshake of a WebSocket connection, for a request of at most 8192 bytes made of any request line, header lines
  and an empty line, however the network cuts it into pieces. It is accepted exactly when, without regard to case, the request
  line begins with \<open>GET\<close> and a space and has \<open> HTTP/1.1\<close> somewhere, the value of some \<open>Upgrade\<close> header has \<open>websocket\<close> as a
  substring and that of some \<open>Connection\<close> header \<open>upgrade\<close> (substrings, not tokens as RFC 6455 wants: \<open>notwebsocket\<close> counts),
  the first key is not empty and the first version is 13. Then the connection becomes connected and the 101 response is
  handed to the socket at once, the only thing written; its accept key decodes from Base64 to the SHA-1 digest of the client's
  key, taken from its header without the surrounding blanks, followed by the protocol's identifier. Every other such request closes
  the connection and nothing is written. The socket is one that takes the write; when it does not, see
  \<open>handshake_revives_closed\<close>.\<close>

theorem ws_handshake_decides:
  assumes "13 \<notin> set line" "line \<noteq> []" and "\<forall>h\<in>set hs. http_header_ok h" and "length (http_request line hs) \<le> MAX_HANDSHAKE_BYTES"
    and "ws_init_from_accepted True t0 (ws_new u) = (True, c)" and "length junk = 64"
    and "concat (map snd ds) = http_request line hs" and "[] \<notin> snd ` set ds"
  shows "\<exists>accept. base64_decode accept = Some (sha1_standard (http_field hs ''sec-websocket-key'' @ ws_magic)) \<and>
    on_data_list junk cb ds c =
      (if http_accepts line hs
       then c\<lparr>ws_st := KConnected, ws_activity := fst (last ds), ws_writing := True, ws_inflight := Some [handshake_response accept],
              ws_wrote := [[handshake_response accept]]\<rparr>
       else c\<lparr>ws_closed := True, ws_closing := True, ws_keep_alive := True, ws_st := KClosing, ws_timer := False,
              ws_uv_closing := True, ws_reading := False\<rparr>, [])"
proof -
  have c: "ws_st c = KHandshaking" "ws_hs_buf c = []" "ws_buf c = []" "ws_reading c" "c\<lparr>ws_hs_buf := []\<rparr> = c"
    using assms(5) by (auto simp: ws_init_from_accepted_def ws_new_def)
  define accept where "accept = compute_ws_accept junk (http_field hs ''sec-websocket-key'')"
  have "0 < length (http_request line hs)" using request_end(2) [OF assms(1-3)] by linarith
  then have d: "on_data_list junk cb ds c = (handshake_result junk line hs (fst (last ds)) c, [])"
    using handshake_chunks [OF assms(1-4) c(1-4), of "[]" ds junk cb] assms(7,8) c(5) by simp
  have "length (http_field hs ''sec-websocket-key'') < 2 ^ 60"
    using http_field_length [of hs "''sec-websocket-key''" line] assms(4) by (simp add: MAX_HANDSHAKE_BYTES_def)
  then have a: "base64_decode accept = Some (sha1_standard (http_field hs ''sec-websocket-key'' @ ws_magic))"
    using ws_accept_correct [OF assms(6)] by (simp add: accept_def)
  have q: "queue_frame (handshake_response accept) c =
      c\<lparr>ws_writing := True, ws_inflight := Some [handshake_response accept], ws_wrote := [[handshake_response accept]]\<rparr>"
    by (rule queue_frame_fresh [OF assms(5)])
      (use accept_length [of junk "http_field hs ''sec-websocket-key''"] in
        \<open>simp_all add: handshake_response_def CRLF_def WS_MAX_WRITE_QUEUE_BYTES_def flip: accept_def\<close>)
  have x: "ws_close c = c\<lparr>ws_closed := True, ws_closing := True, ws_keep_alive := True, ws_st := KClosing, ws_timer := False,
              ws_uv_closing := True, ws_reading := False\<rparr>"
    using assms(5) by (auto simp: ws_init_from_accepted_def ws_new_def ws_close_def ws_post_def ws_do_close_def)
  show ?thesis
    by (rule exI [of _ accept], rule conjI [OF a]) (simp add: d handshake_result_def q x flip: accept_def)
qed

definition demo_request_line :: bytes where "demo_request_line = chars ''GET /ws?a:b HTTP/1.1''"

definition demo_request_headers :: "(bytes \<times> bytes) list" where
  "demo_request_headers = [(chars ''Host'', chars ''localhost:8081''), (chars ''Upgrade'', chars ''websocket''),
     (chars ''Connection'', chars ''keep-alive, Upgrade''), (chars ''Sec-WebSocket-Key'', chars ''dGhlIHNhbXBsZSBub25jZQ==''),
     (chars ''Sec-WebSocket-Version'', chars ''13'')]"

lemma ws_handshake_decides_witness:
  "\<exists>accept c. ws_init_from_accepted True 5 (ws_new ()) = (True, c) \<and>
    base64_decode accept = Some (sha1_standard (chars ''dGhlIHNhbXBsZSBub25jZQ==258EAFA5-E914-47DA-95CA-C5AB0DC85B11'')) \<and>
    on_data_list (replicate 64 7) None [(6, take 40 (http_request demo_request_line demo_request_headers)),
        (9, drop 40 (http_request demo_request_line demo_request_headers))] c =
      (c\<lparr>ws_st := KConnected, ws_activity := 9, ws_writing := True, ws_inflight := Some [handshake_response accept],
              ws_wrote := [[handshake_response accept]]\<rparr>, [])"
proof -
  let ?r = "http_request demo_request_line demo_request_headers"
  define c where "c = snd (ws_init_from_accepted True 5 (ws_new ()))"
  have i: "ws_init_from_accepted True 5 (ws_new ()) = (True, c)" by (simp add: c_def ws_init_from_accepted_def ws_new_def)
  have l: "length ?r = 171" by (simp add: http_request_def http_request_lines_def http_header_line_def http_line_def CRLF_def
      demo_request_headers_def demo_request_line_def)
  have g: "http_get_line demo_request_line"
    unfolding http_get_line_def find_sub_sublist [symmetric] by (simp add: demo_request_line_def to_lower_def)
  have a: "http_accepts demo_request_line demo_request_headers"
    and k: "http_field demo_request_headers ''sec-websocket-key'' = chars ''dGhlIHNhbXBsZSBub25jZQ==''"
    unfolding http_accepts_def http_has_def find_sub_sublist [symmetric]
    using g by (simp_all add: http_field_def demo_request_headers_def to_lower_def)
  have ne: "take 40 ?r \<noteq> []" "drop 40 ?r \<noteq> []" using l by (auto simp del: length_0_conv simp flip: length_0_conv)
  have w: "fst (last [(6 :: u64, take 40 ?r), (9, drop 40 ?r)]) = 9" by simp
  have m: "chars ''dGhlIHNhbXBsZSBub25jZQ=='' @ ws_magic = chars ''dGhlIHNhbXBsZSBub25jZQ==258EAFA5-E914-47DA-95CA-C5AB0DC85B11''"
    by (simp add: ws_magic_def)
  have "13 \<notin> set demo_request_line" "demo_request_line \<noteq> []" by (simp_all add: demo_request_line_def)
  moreover have "\<forall>h\<in>set demo_request_headers. http_header_ok h"
    by (simp add: demo_request_headers_def http_header_ok_def is_blank_def is_blank_or_eol_def)
  moreover have "length ?r \<le> MAX_HANDSHAKE_BYTES" unfolding l by (simp add: MAX_HANDSHAKE_BYTES_def)
  moreover have "length (replicate 64 (7 :: u8)) = 64" by simp
  moreover have "concat (map snd [(6 :: u64, take 40 ?r), (9, drop 40 ?r)]) = ?r" by simp
  moreover have "[] \<notin> snd ` set [(6 :: u64, take 40 ?r), (9, drop 40 ?r)]"
    using ne by (auto simp only: set_simps image_insert image_empty snd_conv insert_iff empty_iff)
  ultimately obtain accept where
    s: "base64_decode accept = Some (sha1_standard (http_field demo_request_headers ''sec-websocket-key'' @ ws_magic))"
    and d: "on_data_list (replicate 64 7) None [(6, take 40 ?r), (9, drop 40 ?r)] c =
      (if http_accepts demo_request_line demo_request_headers
       then c\<lparr>ws_st := KConnected, ws_activity := fst (last [(6, take 40 ?r), (9, drop 40 ?r)]), ws_writing := True,
              ws_inflight := Some [handshake_response accept], ws_wrote := [[handshake_response accept]]\<rparr>
       else c\<lparr>ws_closed := True, ws_closing := True, ws_keep_alive := True, ws_st := KClosing, ws_timer := False,
              ws_uv_closing := True, ws_reading := False\<rparr>, [])"
    using ws_handshake_decides [OF _ _ _ _ i, where cb = None] by meson
  show ?thesis by (rule exI [of _ accept], rule exI [of _ c], intro conjI)
    (rule i, rule s [unfolded k m], rule d [unfolded if_P [OF a] w])
qed

text \<open>When the response of an accepted handshake cannot be written, the connection is closed at once, on the loop's thread,
  and \<open>OnDataReceived\<close> then makes it connected all the same: a closing connection that goes on to read frames.\<close>

lemma handshake_revives_closed:
  assumes "http_accepts line hs" and "ws_handle c" "\<not> ws_closed c" "\<not> ws_closing c" "\<not> ws_uv_closing c" "\<not> ws_writing c" "ws_queue c = []"
    and "ws_here c" "\<not> ws_uv_ok c"
  shows "ws_st (handshake_result junk line hs now c) = KConnected \<and> ws_closed (handshake_result junk line hs now c) \<and>
    ws_uv_closing (handshake_result junk line hs now c)"
proof -
  define fr where "fr = handshake_response (compute_ws_accept junk (http_field hs ''sec-websocket-key''))"
  have ne: "fr \<noteq> []" by (simp add: fr_def handshake_response_def)
  define c1 where "c1 = c\<lparr>ws_queue := [fr], ws_qbytes := ws_qbytes c + length fr\<rparr>"
  define c2 where "c2 = (if ws_qbytes c1 > WS_MAX_WRITE_QUEUE_BYTES \<and> \<not> ws_paused c1 then ws_stop_read (c1\<lparr>ws_paused := True\<rparr>) else c1)"
  have c2: "ws_handle c2" "\<not> ws_closed c2" "\<not> ws_closing c2" "\<not> ws_uv_closing c2" "\<not> ws_writing c2" "ws_queue c2 = [fr]" "ws_here c2" "\<not> ws_uv_ok c2"
    using assms by (simp_all add: c2_def c1_def ws_stop_read_def)
  have "queue_frame fr c = ws_trigger_write c2"
    using assms(2-9) by (simp add: queue_frame_def queue_frame_parts_def ws_post_def Let_def c2_def c1_def)
  then have q: "queue_frame fr c = ws_process_write_queue (c2\<lparr>ws_writing := True\<rparr>)"
    using c2(5,7) by (simp add: ws_trigger_write_def ws_post_def)
  have "ws_closed (queue_frame fr c)" "ws_uv_closing (queue_frame fr c)"
    unfolding q by (subst ws_process_write_queue.simps,
      use c2 ne in \<open>simp add: ws_close_def ws_post_def ws_do_close_def Let_def\<close>)+
  then show ?thesis using assms(1) by (simp add: handshake_result_def fr_def)
qed

end
