(* ===== verification/GM_WSConnRead.thy ===== *)
theory GM_WSConnRead
  imports GM_WSConn "HOL-Library.Sublist"
begin

text \<open>
  What a WebSocket connection makes of the bytes of its client: however the network cuts them into pieces, the
  messages of the frames come out.
\<close>

section \<open>Reading as a function of the received bytes\<close>

text \<open>The messages among the outputs.\<close>

definition messages :: "ws_out list \<Rightarrow> (message_type \<times> bytes) list" where
  "messages outs = concat (map (\<lambda>x. case x of WoMessage ty m \<Rightarrow> [(ty, m)] | _ \<Rightarrow> []) outs)"

lemma messages_simps [simp]: "messages [] = []" "messages (WoMessage ty m # os) = (ty, m) # messages os"
  "messages (a @ b) = messages a @ messages b"
  by (simp_all add: messages_def)

type_synonym rstate = "bytes \<times> u8 \<times> bool \<times> bytes"

text \<open>One turn on the reading side: \<open>None\<close> when the loop stops.\<close>

definition rd_turn :: "rstate \<Rightarrow> (rstate \<times> (message_type \<times> bytes) list) option" where
  "rd_turn r =
     (case r of (frag, fop, fing, b) \<Rightarrow>
        (case ws_header b of
           Head fin op len hl key \<Rightarrow>
             (let payload = unmask_ws_payload (take (unat len) (drop hl b)) key; rest = drop (hl + unat len) b
              in if op = OPCODE_CLOSE then None
                 else if op = OPCODE_PING \<or> op = OPCODE_PONG then Some ((frag, fop, fing, rest), [])
                 else if is_message_opcode op then
                   (if fing then None
                    else if fin then Some ((frag, fop, fing, rest), [(to_message_type op, payload)])
                    else Some ((payload, op, True, rest), []))
                 else if \<not> fing \<or> length frag + unat len > unat MAX_MESSAGE_BYTES then None
                 else if fin then Some (([], 0, False, rest), [(to_message_type fop, frag @ payload)])
                 else Some ((frag @ payload, fop, True, rest), []))
         | _ \<Rightarrow> None))"

definition rproj :: "'u ws \<Rightarrow> rstate" where
  "rproj c = (ws_frag c, ws_frag_op c, ws_fragmenting c, ws_buf c)"

lemma close_drain_side [simp]: "read_side (send_close_and_drain code c) = read_side c"
proof -
  have "read_side (d\<lparr>ws_closed := True, ws_caw := True\<rparr>) = read_side d" for d :: "'a ws" by (simp add: read_side_def)
  then show ?thesis by (simp add: send_close_and_drain_def Let_def)
qed

lemma close_drain_fields [simp]: "rproj (send_close_and_drain code c) = rproj c"
    "ws_frag (send_close_and_drain code c) = ws_frag c" "ws_frag_op (send_close_and_drain code c) = ws_frag_op c"
    "ws_fragmenting (send_close_and_drain code c) = ws_fragmenting c" "ws_buf (send_close_and_drain code c) = ws_buf c"
  using close_drain_side [of code c] unfolding read_side_eq rproj_def by auto

text \<open>While it reads frames a connection can only become closing.\<close>

definition st_in :: "ws_state \<Rightarrow> 'u ws \<Rightarrow> bool" where
  "st_in s c \<longleftrightarrow> ws_st c = s \<or> ws_st c = KClosing"

lemma st_in_update [simp]:
  "st_in s (c\<lparr>ws_activity := x0\<rparr>) = st_in s c" "st_in s (c\<lparr>ws_buf := x1\<rparr>) = st_in s c"
  "st_in s (c\<lparr>ws_frag := x2\<rparr>) = st_in s c" "st_in s (c\<lparr>ws_frag_op := x3\<rparr>) = st_in s c"
  "st_in s (c\<lparr>ws_fragmenting := x4\<rparr>) = st_in s c" "st_in s (c\<lparr>ws_ping_out := x5\<rparr>) = st_in s c"
  "st_in s (c\<lparr>ws_deadline := x6\<rparr>) = st_in s c" "st_in s (c\<lparr>ws_user := x7\<rparr>) = st_in s c"
  "st_in s (c\<lparr>ws_keep_alive := x8\<rparr>) = st_in s c" "st_in s (c\<lparr>ws_closed := x9\<rparr>) = st_in s c"
  "st_in s (c\<lparr>ws_caw := x10\<rparr>) = st_in s c" "st_in s (c\<lparr>ws_queue := x11\<rparr>) = st_in s c"
  "st_in s (c\<lparr>ws_qbytes := x12\<rparr>) = st_in s c" "st_in s (c\<lparr>ws_paused := x13\<rparr>) = st_in s c"
  "st_in s (c\<lparr>ws_reading := x14\<rparr>) = st_in s c" "st_in s (c\<lparr>ws_posted := x15\<rparr>) = st_in s c"
  "st_in s (c\<lparr>ws_writing := x16\<rparr>) = st_in s c" "st_in s (c\<lparr>ws_inflight := x17\<rparr>) = st_in s c"
  "st_in s (c\<lparr>ws_wrote := x18\<rparr>) = st_in s c"
  by (simp_all add: st_in_def)

lemma st_in_close: "st_in s c \<Longrightarrow> st_in s (ws_close c)" "st_in s (ws_do_close c)"
  by (simp_all add: st_in_def ws_close_def ws_post_def ws_do_close_def Let_def)

lemma st_in_write: "st_in s c \<Longrightarrow> st_in s (ws_process_write_queue c)"
proof (induction c rule: ws_process_write_queue.induct)
  case (1 c)
  show ?case
    by (subst ws_process_write_queue.simps) (use 1 in \<open>simp add: Let_def st_in_close\<close>)
qed

lemma st_in_trigger: "st_in s c \<Longrightarrow> st_in s (ws_trigger_write c)"
  by (simp add: ws_trigger_write_def ws_post_def st_in_write)

lemma st_in_ops:
  assumes "st_in s c"
  shows "st_in s (ws_close_after_write c)" "st_in s (queue_frame_parts ps c)" "st_in s (queue_frame fr c)" "st_in s (send_close_and_drain code c)"
proof -
  show "st_in s (ws_close_after_write c)" using assms by (simp add: ws_close_after_write_def st_in_trigger)
  show q: "st_in s (queue_frame_parts ps c)" for ps
    using assms by (simp add: queue_frame_parts_def ws_post_def ws_stop_read_def Let_def st_in_trigger)
  then show f: "st_in s (queue_frame fr c)" for fr by (simp add: queue_frame_def)
  show "st_in s (send_close_and_drain code c)" using assms f by (simp add: send_close_and_drain_def st_in_close Let_def)
qed

lemma st_in_call: "st_in s c \<Longrightarrow> st_in s (ws_exec_call k c)"
  by (cases k) (simp_all add: ws_exec_call_def ws_send_message_def ws_send_message_batch_def ws_send_frame_buffer_def st_in_ops st_in_close)

lemma st_in_deliver: "st_in s c \<Longrightarrow> deliver_message cb ty m c = (c1, outs) \<Longrightarrow> st_in s c1"
proof -
  assume a: "st_in s c" "deliver_message cb ty m c = (c1, outs)"
  have "st_in s (foldl (\<lambda>c k. ws_exec_call k c) (c\<lparr>ws_user := u\<rparr>) calls)" for u calls
    by (rule foldl_invariant) (use a(1) in \<open>auto intro: st_in_call\<close>)
  then show ?thesis using a by (auto simp: deliver_message_def split: option.splits prod.splits)
qed

lemma st_in_turn: "st_in s c \<Longrightarrow> ws_turn cb now c = (again, c1, outs) \<Longrightarrow> st_in s c1"
proof -
  assume a: "st_in s c" "ws_turn cb now c = (again, c1, outs)"
  have d: "deliver_message cb ty m (c\<lparr>ws_activity := n, ws_buf := b\<rparr>) = (c2, o2) \<Longrightarrow> st_in s c2"
    "deliver_message cb ty m (c\<lparr>ws_activity := n, ws_frag := fr, ws_frag_op := op, ws_fragmenting := x, ws_buf := b\<rparr>) = (c2, o2) \<Longrightarrow> st_in s c2"
    for ty m n b c2 o2 fr op x
    by (rule st_in_deliver [rotated], assumption, simp add: a(1))+
  have o: "st_in s (send_close_and_drain code (c\<lparr>ws_activity := n\<rparr>))" "st_in s (send_close_and_drain code c)"
    "st_in s (queue_frame fr (c\<lparr>ws_activity := n\<rparr>))" for code n fr
    using a(1) by (simp_all add: st_in_ops)
  show ?thesis
    using a d o unfolding ws_turn_def fail_protocol_def Let_def
    by (auto split: if_splits ws_head.splits prod.splits)
qed

lemma process_frames_state: "st_in s c \<Longrightarrow> process_ws_frames cb now c = (c', outs) \<Longrightarrow> st_in s c'"
proof (induction cb now c arbitrary: c' outs rule: process_ws_frames.induct)
  case (1 cb now c)
  obtain again c1 o1 where t: "ws_turn cb now c = (again, c1, o1)" by (cases "ws_turn cb now c")
  obtain c2 o2 where p: "process_ws_frames cb now c1 = (c2, o2)" by fastforce
  have i: "st_in s c1" by (rule st_in_turn [OF 1(2) t])
  have "st_in s c2" if again using 1(1) [OF t [symmetric] refl that i p] .
  then show ?case using 1(3) t p i by (auto simp: process_ws_frames.simps [of cb now c] split: if_splits)
qed

lemma ws_turn_read:
  assumes "ws_st c = KConnected" and "ws_turn (Some f) now c = (again, c1, outs)"
  shows "case rd_turn (rproj c) of
       None \<Rightarrow> \<not> again \<and> messages outs = [] \<and> rproj c1 = rproj c
     | Some (r, ms) \<Rightarrow> again \<and> messages outs = ms \<and> rproj c1 = r"
proof (cases "ws_header (ws_buf c)")
  case HeadMore
  then show ?thesis using assms by (simp add: ws_turn_def rd_turn_def rproj_def)
next
  case (HeadFail code)
  then have c1: "again = False" "c1 = send_close_and_drain code c" "outs = []" using assms by (auto simp: ws_turn_def fail_protocol_def)
  moreover have "rd_turn (rproj c) = None" by (simp add: rd_turn_def rproj_def HeadFail)
  ultimately show ?thesis by simp
next
  case (Head fin op len hl key)
  have out: "messages o2 = [(ty, m)]" if "deliver_message (Some f) ty m d = (c2, o2)" for ty m d c2 o2
    using that by (auto simp: deliver_message_def split: prod.splits)
  note unf = ws_turn_def rd_turn_def fail_protocol_def Head rproj_def Let_def deliver_eq_fields
  have ne: "OPCODE_PING \<noteq> OPCODE_CLOSE" "OPCODE_PONG \<noteq> OPCODE_CLOSE" "OPCODE_PONG \<noteq> OPCODE_PING"
    "OPCODE_CONTINUATION \<noteq> OPCODE_CLOSE" "OPCODE_CONTINUATION \<noteq> OPCODE_PING" "OPCODE_CONTINUATION \<noteq> OPCODE_PONG"
    "\<not> is_message_opcode OPCODE_CONTINUATION" "is_message_opcode x \<Longrightarrow> x \<noteq> OPCODE_CLOSE \<and> x \<noteq> OPCODE_PING \<and> x \<noteq> OPCODE_PONG" for x
    by (auto simp: opcode_defs is_message_opcode_def)
  consider "op = OPCODE_CLOSE" | "op = OPCODE_PING" | "op = OPCODE_PONG" | "is_message_opcode op" | "op = OPCODE_CONTINUATION"
    using ws_header_bounds [OF Head] by (auto simp: is_known_opcode_def is_message_opcode_def)
  then show ?thesis
  proof cases
    case 4
    show ?thesis
    proof (cases "ws_fragmenting c \<or> \<not> fin")
      case True
      then show ?thesis using assms 4 ne(8) [OF 4] by (auto simp: unf)
    next
      case False
      define c0 where "c0 = c\<lparr>ws_activity := now, ws_buf := drop (hl + unat len) (ws_buf c)\<rparr>"
      obtain c2 o2 where d: "deliver_message (Some f) (to_message_type op)
          (unmask_ws_payload (take (unat len) (drop hl (ws_buf c))) key) c0 = (c2, o2)" by fastforce
      have "again" "c1 = c2" "outs = o2"
        using assms False 4 ne(8) [OF 4] d unfolding ws_turn_def by (auto simp: Head Let_def c0_def)
      then show ?thesis using False 4 ne(8) [OF 4] out [OF d] deliver_eq_fields [OF d]
        by (simp add: rd_turn_def rproj_def Head Let_def) (simp add: c0_def)
    qed
  next
    case 5
    show ?thesis
    proof (cases "\<not> ws_fragmenting c \<or> length (ws_frag c) + unat len > unat MAX_MESSAGE_BYTES \<or> \<not> fin")
      case True
      then show ?thesis using assms 5 ne by (auto simp: unf split: if_splits)
    next
      case False
      define c0 where "c0 = c\<lparr>ws_activity := now, ws_frag := [], ws_frag_op := 0, ws_fragmenting := False,
        ws_buf := drop (hl + unat len) (ws_buf c)\<rparr>"
      obtain c2 o2 where d: "deliver_message (Some f) (to_message_type (ws_frag_op c))
          (ws_frag c @ unmask_ws_payload (take (unat len) (drop hl (ws_buf c))) key) c0 = (c2, o2)" by fastforce
      have "again" "c1 = c2" "outs = o2"
        using assms False 5 ne d unfolding ws_turn_def by (auto simp: Head Let_def c0_def)
      then show ?thesis using False 5 ne out [OF d] deliver_eq_fields [OF d]
        by (simp add: rd_turn_def rproj_def Head Let_def) (simp add: c0_def)
    qed
  qed (use assms ne in \<open>auto simp: unf\<close>)
qed

lemma rd_turn_shrinks:
  "rd_turn (frag, fop, fing, b) = Some ((frag', fop', fing', b'), ms) \<Longrightarrow> length b' < length b"
proof -
  assume a: "rd_turn (frag, fop, fing, b) = Some ((frag', fop', fing', b'), ms)"
  then obtain fin op len hl key where h: "ws_header b = Head fin op len hl key" by (auto simp: rd_turn_def split: ws_head.splits)
  have "b' = drop (hl + unat len) b" using a by (auto simp: rd_turn_def h Let_def split: if_splits)
  then show ?thesis using ws_header_bounds [OF h] by auto
qed

function rd_all :: "rstate \<Rightarrow> (message_type \<times> bytes) list \<times> rstate" where
  "rd_all r = (case rd_turn r of None \<Rightarrow> ([], r) | Some (r1, ms) \<Rightarrow> (case rd_all r1 of (ms2, r2) \<Rightarrow> (ms @ ms2, r2)))"
  by auto
termination
  by (relation "measure (\<lambda>(_, _, _, b). length b)") (auto dest: rd_turn_shrinks)

declare rd_all.simps [simp del]

text \<open>The frames of the buffer are taken one by one as long as the connection is connected: a callback that closes it, or
  an answer that cannot be written, ends the loop.\<close>

lemma not_connected_frames: "ws_st c \<noteq> KConnected \<Longrightarrow> process_ws_frames cb now c = (c, [])"
  by (simp add: process_ws_frames.simps [of cb now c] ws_turn_def)

lemma process_frames_read:
  assumes "ws_st c = KConnected" and "process_ws_frames (Some f) now c = (c', outs)"
  shows "prefix (messages outs) (fst (rd_all (rproj c))) \<and>
    (ws_st c' = KConnected \<longrightarrow> rd_all (rproj c) = (messages outs, rproj c'))"
  using assms
proof (induction "Some f" now c arbitrary: c' outs rule: process_ws_frames.induct)
  case (1 now c)
  obtain again c1 o1 where t: "ws_turn (Some f) now c = (again, c1, o1)" by (cases "ws_turn (Some f) now c")
  note r = ws_turn_read [OF 1(2) t]
  show ?case
  proof (cases again)
    case False
    then show ?thesis using 1(3) t r
      by (auto simp: process_ws_frames.simps [of "Some f" now c] rd_all.simps [of "rproj c"] split: option.splits)
  next
    case True
    obtain c2 o2 where p: "process_ws_frames (Some f) now c1 = (c2, o2)" by fastforce
    then have c': "c' = c2" "outs = o1 @ o2" using 1(3) t True by (simp_all add: process_ws_frames.simps [of "Some f" now c])
    have n: "rd_all (rproj c) = (messages o1 @ fst (rd_all (rproj c1)), snd (rd_all (rproj c1)))"
      using r True by (auto simp: rd_all.simps [of "rproj c"] split: option.splits prod.splits)
    show ?thesis
    proof (cases "ws_st c1 = KConnected")
      case True
      from 1(1) [OF t [symmetric] refl \<open>again\<close> this p] show ?thesis unfolding c' n by simp
    next
      case False
      then show ?thesis using p not_connected_frames [OF False, of "Some f" now] unfolding c' n by simp
    qed
  qed
qed

text \<open>What has been decided about a header does not change when more bytes come.\<close>

lemma head_length_more:
  "head_length b l \<noteq> Inl HeadMore \<Longrightarrow> 2 \<le> length b \<Longrightarrow> head_length (b @ d) l = head_length b l"
proof -
  assume a: "head_length b l \<noteq> Inl HeadMore" "2 \<le> length b"
  have "foldl (\<lambda>l i. push_bit 8 l OR ucast ((b @ d) ! (2 + i))) 0 [0..<8] =
      (foldl (\<lambda>l i. push_bit 8 l OR ucast (b ! (2 + i))) 0 [0..<8] :: u64)" if "10 \<le> length b"
    by (rule foldl_cong) (use that in \<open>auto simp: nth_append\<close>)
  then show ?thesis using a by (auto simp: head_length_def nth_append Let_def)
qed

lemma ws_header_more: "ws_header b \<noteq> HeadMore \<Longrightarrow> ws_header (b @ d) = ws_header b"
proof -
  assume a: "ws_header b \<noteq> HeadMore"
  then have n: "2 \<le> length b" by (cases "length b < 2") (simp_all add: ws_header_def)
  have e: "(b @ d) ! 0 = b ! 0" "(b @ d) ! 1 = b ! 1" "(b @ d) ! Suc 0 = b ! Suc 0" using n by (auto simp: nth_append)
  show ?thesis
  proof (cases "b ! 0 AND 0x70 \<noteq> 0 \<or> \<not> b ! 1 AND 0x80 \<noteq> 0")
    case True
    then show ?thesis using n by (simp add: ws_header_def e Let_def)
  next
    case False
    have h: "head_length b (ucast (b ! 1 AND 0x7F)) \<noteq> Inl HeadMore"
      using a False n by (auto simp: ws_header_def Let_def)
    have l: "head_length (b @ d) (ucast (b ! 1 AND 0x7F)) = head_length b (ucast (b ! 1 AND 0x7F))"
      by (rule head_length_more [OF h n])
    show ?thesis
    proof (cases "head_length b (ucast (b ! 1 AND 0x7F))")
      case (Inl r)
      then show ?thesis using False n by (simp add: ws_header_def e l [simplified] Let_def)
    next
      case (Inr p)
      obtain len hl0 where p: "p = (len, hl0)" by (cases p)
      have "\<not> len > MAX_MESSAGE_BYTES \<and> \<not> len > - 1 - of_nat (hl0 + 4) \<longrightarrow> hl0 + 4 + unat len \<le> length b"
        using a False n by (auto simp: ws_header_def Inr [simplified] p Let_def split: if_splits)
      then show ?thesis using False n by (auto simp: ws_header_def e l [simplified] Inr [simplified] p Let_def)
    qed
  qed
qed

lemma rd_turn_more:
  assumes "rd_turn (frag, fop, fing, b) = Some ((frag', fop', fing', b'), ms)"
  shows "rd_turn (frag, fop, fing, b @ d) = Some ((frag', fop', fing', b' @ d), ms)"
proof -
  obtain fin op len hl key where h: "ws_header b = Head fin op len hl key"
    using assms by (auto simp: rd_turn_def split: ws_head.splits)
  then have h': "ws_header (b @ d) = Head fin op len hl key" using ws_header_more [of b d] by simp
  have l: "hl + unat len \<le> length b" using ws_header_bounds [OF h] by auto
  have e: "take (unat len) (drop hl (b @ d)) = take (unat len) (drop hl b)" "drop (hl + unat len) (b @ d) = drop (hl + unat len) b @ d"
    using l by simp_all
  show ?thesis using assms unfolding rd_turn_def prod.case h h' ws_head.case e Let_def by (auto split: if_splits)
qed

text \<open>Reading the bytes at once or in two pieces is the same.\<close>

lemma rd_all_append:
  "rd_all (frag, fop, fing, b) = (ms, (frag1, fop1, fing1, b1)) \<Longrightarrow>
   rd_all (frag, fop, fing, b @ d) = (ms @ fst (rd_all (frag1, fop1, fing1, b1 @ d)), snd (rd_all (frag1, fop1, fing1, b1 @ d)))"
proof (induction "length b" arbitrary: frag fop fing b ms rule: less_induct)
  case less
  show ?case
  proof (cases "rd_turn (frag, fop, fing, b)")
    case None
    then show ?thesis using less(2) by (simp add: rd_all.simps [of "(frag, fop, fing, b)"])
  next
    case (Some t)
    obtain frag2 fop2 fing2 b2 m2 where t: "t = ((frag2, fop2, fing2, b2), m2)" by (cases t) auto
    obtain ms2 where r: "rd_all (frag2, fop2, fing2, b2) = (ms2, (frag1, fop1, fing1, b1))" "ms = m2 @ ms2"
      using less(2) Some t by (auto simp: rd_all.simps [of "(frag, fop, fing, b)"] split: prod.splits)
    have "length b2 < length b" using rd_turn_shrinks Some t by blast
    from less(1) [OF this r(1)]
    show ?thesis using rd_turn_more [OF Some [unfolded t], of d] r(2)
      by (simp add: rd_all.simps [of "(frag, fop, fing, b @ d)"] split: prod.split)
  qed
qed

lemma ws_header_size: "ws_header b = HeadMore \<Longrightarrow> length b < 16777230"
proof -
  assume a: "ws_header b = HeadMore"
  have hl: "head_length b l = Inl HeadMore \<Longrightarrow> length b < 10" for l
    by (auto simp: head_length_def Let_def split: if_splits)
  consider "length b < 10" | len hl0 where "head_length b (ucast (b ! 1 AND 0x7F)) = Inr (len, hl0)" "\<not> len > MAX_MESSAGE_BYTES"
      "length b < hl0 + 4 + unat len"
    using a hl unfolding ws_header_def Let_def by (fastforce split: if_splits sum.splits prod.splits)
  then show ?thesis
  proof cases
    case (2 len hl0)
    then have "unat len \<le> 16777216" by (simp add: MAX_MESSAGE_BYTES_def word_le_nat_alt not_less)
    then show ?thesis using 2 head_length_pos [OF 2(1)] by auto
  qed simp
qed

section \<open>What clients send\<close>

text \<open>A frame of a client, with its payload before the masking, and its bytes.\<close>

record client_frame =
  cf_fin :: bool
  cf_op :: u8
  cf_key :: bytes
  cf_data :: bytes

definition client_bytes :: "client_frame \<Rightarrow> bytes" where
  "client_bytes f =
     wire_frame \<lparr>wf_fin = cf_fin f, wf_opcode = cf_op f, wf_masked = True, wf_len = of_nat (length (cf_data f)),
       wf_mask = cf_key f\<rparr> (unmask_ws_payload (cf_data f) (cf_key f))"

definition client_frame_ok :: "client_frame \<Rightarrow> bool" where
  "client_frame_ok f \<longleftrightarrow> length (cf_key f) = 4 \<and> is_known_opcode (cf_op f) \<and> length (cf_data f) \<le> 16777216 \<and>
     (is_control (cf_op f) \<longrightarrow> cf_fin f \<and> length (cf_data f) \<le> 125)"

text \<open>The length field is read as \<open>ParseWSFrame\<close> reads it.\<close>

lemma head_length_parse:
  "head_length d l = (case ws_length d l of Inl WsMore \<Rightarrow> Inl HeadMore | Inl _ \<Rightarrow> Inl (HeadFail 1002) | Inr r \<Rightarrow> Inr r)"
  by (simp add: head_length_def ws_length_def Let_def)

lemma ws_header_client:
  assumes "client_frame_ok f"
  shows "\<exists>hl. ws_header (client_bytes f @ rest) = Head (cf_fin f) (cf_op f) (of_nat (length (cf_data f))) hl (cf_key f) \<and>
    take (length (cf_data f)) (drop hl (client_bytes f @ rest)) = unmask_ws_payload (cf_data f) (cf_key f) \<and>
    drop (hl + length (cf_data f)) (client_bytes f @ rest) = rest"
proof -
  define n where "n = length (cf_data f)"
  define len where "len = (of_nat n :: u64)"
  define masked where "masked = unmask_ws_payload (cf_data f) (cf_key f)"
  define ext where "ext = wire_extended len"
  define a where "a = (if cf_fin f then 0x80 else 0) OR cf_op f"
  define b where "b = (if True then 0x80 else 0) OR wire_length len"
  define tail where "tail = cf_key f @ masked @ rest"
  have ok: "length (cf_key f) = 4" "is_known_opcode (cf_op f)" "n \<le> 16777216" "is_control (cf_op f) \<longrightarrow> cf_fin f \<and> n \<le> 125"
    using assms by (auto simp: client_frame_ok_def n_def)
  have ml: "length masked = n" by (simp add: masked_def n_def)
  have u: "unat len = n" using ok(3) by (simp add: len_def unat_of_nat)
  have d: "client_bytes f @ rest = a # b # ext @ tail"
    by (simp add: client_bytes_def wire_frame_def wire_header_def a_def b_def ext_def tail_def masked_def len_def n_def)
  have lb: "b AND 0x7F = wire_length len" "b AND 0x80 \<noteq> 0"
    unfolding b_def using second_byte_fields [OF wire_length_le(1), of True len] by simp_all
  have la: "a AND 0x70 = 0" "a AND 0x0F = cf_op f" "a AND 0x80 \<noteq> 0 \<longleftrightarrow> cf_fin f"
    unfolding a_def by (rule first_byte_fields [OF known_opcode_small [OF ok(2)]])+
  have "len < 2 ^ 63" using ok(3) u by (simp add: word_less_nat_alt)
  then have hl: "head_length (a # b # ext @ tail) (ucast (wire_length len)) = Inr (len, 2 + length ext)"
    unfolding head_length_parse ext_def using wire_ws_length [of len a b tail] by simp
  have el: "length ext \<le> 8" by (simp add: ext_def wire_extended_def)
  have c: "\<not> len > MAX_MESSAGE_BYTES" "\<not> len > - 1 - (of_nat (2 + length ext + 4) :: u64)" "len > 125 \<longleftrightarrow> n > 125"
  proof -
    show "\<not> len > MAX_MESSAGE_BYTES" using ok(3) u by (simp add: word_less_nat_alt MAX_MESSAGE_BYTES_def)
    show "\<not> len > - 1 - (of_nat (2 + length ext + 4) :: u64)"
      using size_max_check [of len "2 + length ext + 4"] \<open>len < 2 ^ 63\<close> el by auto
    show "len > 125 \<longleftrightarrow> n > 125" by (simp add: word_less_nat_alt u)
  qed
  have dr: "drop (2 + length ext) (a # b # ext @ tail) = tail" by simp
  have dr2: "drop (2 + length ext + 4) (a # b # ext @ tail) = masked @ rest"
  proof -
    have "drop (2 + length ext + 4) (a # b # ext @ tail) = drop 4 tail" using dr by (metis drop_drop add.commute)
    then show ?thesis using ok(1) by (simp add: tail_def)
  qed
  have "ws_header (client_bytes f @ rest) = Head (cf_fin f) (cf_op f) len (2 + length ext + 4) (cf_key f)"
  proof -
    have k: "take 4 (drop (2 + length ext + 4 - 4) (a # b # ext @ tail)) = cf_key f"
      using dr ok(1) by (simp only: diff_add_inverse2) (simp add: tail_def)
    have size: "\<not> length (a # b # ext @ tail) < 2 + length ext + 4 + unat len" "\<not> length (a # b # ext @ tail) < 2"
      using ok(1) by (simp_all add: tail_def u ml)
    have n01: "(a # b # ext @ tail) ! 0 = a" "(a # b # ext @ tail) ! 1 = b" by simp_all
    show ?thesis
      unfolding d ws_header_def Let_def n01 lb(1) hl sum.case prod.case k la(2)
      using la lb c ok size by auto
  qed
  moreover have "take n (drop (2 + length ext + 4) (client_bytes f @ rest)) = masked" unfolding d dr2 using ml by simp
  moreover have "drop (2 + length ext + 4 + n) (client_bytes f @ rest) = rest"
  proof -
    have "drop (2 + length ext + 4 + n) (client_bytes f @ rest) = drop n (masked @ rest)"
      unfolding d dr2 [symmetric] by (simp only: drop_drop add.commute)
    then show ?thesis using ml by simp
  qed
  ultimately show ?thesis unfolding n_def masked_def len_def by blast
qed

lemma rd_turn_client:
  assumes "client_frame_ok f"
  shows "rd_turn (frag, fop, fing, client_bytes f @ rest) =
    (if cf_op f = OPCODE_CLOSE then None
     else if cf_op f = OPCODE_PING \<or> cf_op f = OPCODE_PONG then Some ((frag, fop, fing, rest), [])
     else if is_message_opcode (cf_op f) then
       (if fing then None
        else if cf_fin f then Some ((frag, fop, fing, rest), [(to_message_type (cf_op f), cf_data f)])
        else Some ((cf_data f, cf_op f, True, rest), []))
     else if \<not> fing \<or> length frag + length (cf_data f) > 16777216 then None
     else if cf_fin f then Some (([], 0, False, rest), [(to_message_type fop, frag @ cf_data f)])
     else Some ((frag @ cf_data f, fop, True, rest), []))"
proof -
  obtain hl where h: "ws_header (client_bytes f @ rest) = Head (cf_fin f) (cf_op f) (of_nat (length (cf_data f))) hl (cf_key f)"
    "take (length (cf_data f)) (drop hl (client_bytes f @ rest)) = unmask_ws_payload (cf_data f) (cf_key f)"
    "drop (hl + length (cf_data f)) (client_bytes f @ rest) = rest"
    using ws_header_client [OF assms] by blast
  have u: "unat (of_nat (length (cf_data f)) :: u64) = length (cf_data f)" "length (cf_key f) = 4"
    using assms by (simp_all add: client_frame_ok_def unat_of_nat)
  have m: "unat MAX_MESSAGE_BYTES = 16777216" by (simp add: MAX_MESSAGE_BYTES_def)
  show ?thesis
    unfolding rd_turn_def prod.case h(1) ws_head.case u(1) h(2,3) unmask_involution [OF u(2)] m Let_def by (rule refl)
qed

text \<open>What a client sends: a ping or a pong, or a message, whole or cut into fragments, each with its own mask and each
  fragment but the first preceded by any number of control frames.\<close>

definition control_frame :: "bool \<times> bytes \<times> bytes \<Rightarrow> client_frame" where
  "control_frame x = (case x of (ping, key, data) \<Rightarrow>
     \<lparr>cf_fin = True, cf_op = (if ping then OPCODE_PING else OPCODE_PONG), cf_key = key, cf_data = data\<rparr>)"

type_synonym fragment = "(bool \<times> bytes \<times> bytes) list \<times> bytes \<times> bytes"

datatype sent = SentControl "bool \<times> bytes \<times> bytes" | SentMessage message_type bytes bytes "fragment list"

fun more_frames :: "fragment list \<Rightarrow> client_frame list" where
  "more_frames [] = []"
| "more_frames ((ctl, key, data) # r) =
     map control_frame ctl @
     \<lparr>cf_fin = (r = []), cf_op = OPCODE_CONTINUATION, cf_key = key, cf_data = data\<rparr> # more_frames r"

fun sent_frames :: "sent \<Rightarrow> client_frame list" where
  "sent_frames (SentControl x) = [control_frame x]"
| "sent_frames (SentMessage ty key data r) =
     \<lparr>cf_fin = (r = []), cf_op = type_opcode ty, cf_key = key, cf_data = data\<rparr> # more_frames r"

definition rest_data :: "fragment list \<Rightarrow> bytes" where
  "rest_data r = concat (map (\<lambda>(_, _, data). data) r)"

fun sent_messages :: "sent \<Rightarrow> (message_type \<times> bytes) list" where
  "sent_messages (SentControl x) = []"
| "sent_messages (SentMessage ty key data r) = [(ty, data @ rest_data r)]"

definition control_ok :: "bool \<times> bytes \<times> bytes \<Rightarrow> bool" where
  "control_ok x = (case x of (_, key, data) \<Rightarrow> length key = 4 \<and> length data \<le> 125)"

definition fragment_ok :: "fragment \<Rightarrow> bool" where
  "fragment_ok x = (case x of (ctl, key, data) \<Rightarrow> list_all control_ok ctl \<and> length key = 4)"

fun sent_ok :: "sent \<Rightarrow> bool" where
  "sent_ok (SentControl x) = control_ok x"
| "sent_ok (SentMessage ty key data r) \<longleftrightarrow> length key = 4 \<and> list_all fragment_ok r \<and> length (data @ rest_data r) \<le> 16777216"

definition sent_bytes :: "sent list \<Rightarrow> bytes" where
  "sent_bytes ss = concat (map client_bytes (concat (map sent_frames ss)))"

lemma opcode_kinds:
  "is_control OPCODE_PING" "is_control OPCODE_PONG" "is_known_opcode OPCODE_PING" "is_known_opcode OPCODE_PONG"
  "\<not> is_control OPCODE_CONTINUATION" "is_known_opcode OPCODE_CONTINUATION" "\<not> is_control (type_opcode ty)"
  "is_known_opcode (type_opcode ty)" "is_message_opcode (type_opcode ty)" "to_message_type (type_opcode ty) = ty"
  "\<not> is_message_opcode OPCODE_CONTINUATION" "OPCODE_PING \<noteq> OPCODE_CLOSE" "OPCODE_PONG \<noteq> OPCODE_CLOSE"
  "OPCODE_CONTINUATION \<noteq> OPCODE_CLOSE" "OPCODE_CONTINUATION \<noteq> OPCODE_PING" "OPCODE_CONTINUATION \<noteq> OPCODE_PONG"
  "type_opcode ty \<noteq> OPCODE_CLOSE" "type_opcode ty \<noteq> OPCODE_PING" "type_opcode ty \<noteq> OPCODE_PONG"
  by (cases ty; simp add: is_control_def is_known_opcode_def is_message_opcode_def type_opcode_def to_message_type_def opcode_defs)+

lemma rd_step: "rd_turn r = Some (r1, ms) \<Longrightarrow> rd_all r = (ms @ fst (rd_all r1), snd (rd_all r1))"
  by (simp add: rd_all.simps [of r] split: prod.split)

lemma rd_control:
  "list_all control_ok ctl \<Longrightarrow>
   rd_all (frag, fop, fing, concat (map client_bytes (map control_frame ctl)) @ rest) = rd_all (frag, fop, fing, rest)"
proof (induction ctl)
  case (Cons x ctl)
  obtain ping key data where x: "x = (ping, key, data)" by (cases x)
  have "client_frame_ok (control_frame x)"
    using Cons.prems by (simp add: x control_ok_def control_frame_def client_frame_ok_def opcode_kinds)
  from rd_turn_client [OF this, of frag fop fing "concat (map client_bytes (map control_frame ctl)) @ rest"]
  have "rd_turn (frag, fop, fing, concat (map client_bytes (map control_frame (x # ctl))) @ rest) =
      Some ((frag, fop, fing, concat (map client_bytes (map control_frame ctl)) @ rest), [])"
    by (simp add: x control_frame_def opcode_kinds)
  from rd_step [OF this] show ?case using Cons by simp
qed simp

lemma rd_more:
  assumes "r \<noteq> []" and "list_all fragment_ok r" and "length (frag @ rest_data r) \<le> 16777216"
  shows "rd_all (frag, type_opcode ty, True, concat (map client_bytes (more_frames r)) @ rest) =
    (let (ms, s) = rd_all ([], 0, False, rest) in ((ty, frag @ rest_data r) # ms, s))"
  using assms
proof (induction r arbitrary: frag)
  case (Cons x r)
  obtain ctl key data where x: "x = (ctl, key, data)" by (cases x)
  define f where "f = \<lparr>cf_fin = (r = []), cf_op = OPCODE_CONTINUATION, cf_key = key, cf_data = data\<rparr>"
  have ok: "list_all control_ok ctl" "client_frame_ok f" "length frag + length data \<le> 16777216"
    using Cons.prems by (auto simp: x fragment_ok_def f_def client_frame_ok_def opcode_kinds rest_data_def)
  define more where "more = concat (map client_bytes (more_frames r)) @ rest"
  have "rd_all (frag, type_opcode ty, True, concat (map client_bytes (more_frames (x # r))) @ rest) =
      rd_all (frag, type_opcode ty, True, client_bytes f @ more)"
    using rd_control [OF ok(1), of frag "type_opcode ty" True "client_bytes f @ more"] by (simp add: x f_def more_def)
  moreover have t: "rd_turn (frag, type_opcode ty, True, client_bytes f @ more) =
      (if r = [] then Some (([], 0, False, more), [(ty, frag @ data)])
       else Some ((frag @ data, type_opcode ty, True, more), []))"
    using rd_turn_client [OF ok(2), of frag "type_opcode ty" True more] ok(3) by (simp add: f_def opcode_kinds)
  ultimately have e: "rd_all (frag, type_opcode ty, True, concat (map client_bytes (more_frames (x # r))) @ rest) =
      (if r = [] then ((ty, frag @ data) # fst (rd_all ([], 0, False, more)), snd (rd_all ([], 0, False, more)))
       else rd_all (frag @ data, type_opcode ty, True, more))"
    by (cases "r = []") (auto dest!: rd_step)
  show ?case
  proof (cases "r = []")
    case True
    then show ?thesis unfolding e by (simp add: more_def x rest_data_def split_beta Let_def)
  next
    case False
    have "rd_all (frag @ data, type_opcode ty, True, more) =
        (let (ms, s) = rd_all ([], 0, False, rest) in ((ty, (frag @ data) @ rest_data r) # ms, s))"
      unfolding more_def using Cons.prems False by (intro Cons.IH) (simp_all add: x rest_data_def)
    then show ?thesis unfolding e using False by (simp add: x rest_data_def Let_def split_beta)
  qed
qed simp

lemma rd_sent:
  "list_all sent_ok ss \<Longrightarrow> rd_all ([], 0, False, sent_bytes ss) = (concat (map sent_messages ss), ([], 0, False, []))"
proof (induction ss)
  case Nil
  have "rd_turn ([], 0, False, []) = None" by (simp add: rd_turn_def ws_header_def)
  then show ?case by (simp add: sent_bytes_def rd_all.simps)
next
  case (Cons s ss)
  have ih: "rd_all ([], 0, False, sent_bytes ss) = (concat (map sent_messages ss), ([], 0, False, []))"
    using Cons by simp
  have b: "sent_bytes (s # ss) = concat (map client_bytes (sent_frames s)) @ sent_bytes ss" by (simp add: sent_bytes_def)
  show ?case
  proof (cases s)
    case (SentControl x)
    then have "list_all control_ok [x]" using Cons.prems by simp
    from rd_control [OF this, of "[]" 0 False "sent_bytes ss"] show ?thesis
      unfolding b using ih by (simp add: SentControl)
  next
    case (SentMessage ty key data r)
    define f where "f = \<lparr>cf_fin = (r = []), cf_op = type_opcode ty, cf_key = key, cf_data = data\<rparr>"
    define more where "more = concat (map client_bytes (more_frames r)) @ sent_bytes ss"
    have ok: "client_frame_ok f" "list_all fragment_ok r" "length (data @ rest_data r) \<le> 16777216"
      using Cons.prems by (auto simp: SentMessage f_def client_frame_ok_def opcode_kinds)
    have bb: "sent_bytes (s # ss) = client_bytes f @ more" unfolding b by (simp add: SentMessage f_def more_def)
    have t: "rd_turn ([], 0, False, client_bytes f @ more) =
        (if r = [] then Some (([], 0, False, more), [(ty, data)]) else Some ((data, type_opcode ty, True, more), []))"
      using rd_turn_client [OF ok(1), of "[]" 0 False more] by (simp add: f_def opcode_kinds)
    show ?thesis
    proof (cases "r = []")
      case True
      then show ?thesis unfolding bb using t rd_step [of "([], 0, False, client_bytes f @ more)" "([], 0, False, more)" "[(ty, data)]"] ih
        by (simp add: SentMessage more_def rest_data_def)
    next
      case False
      have "rd_all (data, type_opcode ty, True, more) = ((ty, data @ rest_data r) # concat (map sent_messages ss), ([], 0, False, []))"
        unfolding more_def using rd_more [OF False ok(2,3), of ty "sent_bytes ss"] ih by simp
      then show ?thesis unfolding bb using t False rd_step [of "([], 0, False, client_bytes f @ more)" "(data, type_opcode ty, True, more)" "[]"]
        by (simp add: SentMessage)
    qed
  qed
qed

section \<open>Chunks\<close>

text \<open>A state from which all the bytes to come can be read is one that waits for more.\<close>

lemma rd_all_stopped: "rd_all r = (ms, r1) \<Longrightarrow> rd_turn r1 = None"
proof (induction r arbitrary: ms rule: rd_all.induct)
  case (1 r)
  then show ?case by (auto simp: rd_all.simps [of r] split: option.splits prod.splits)
qed

lemma rd_stuck:
  assumes "rd_turn (frag, fop, fing, b) = None" and "ws_header b \<noteq> HeadMore"
  shows "rd_turn (frag, fop, fing, b @ d) = None"
proof (cases "ws_header b")
  case (HeadFail code)
  then show ?thesis using ws_header_more [OF assms(2), of d] by (simp add: rd_turn_def)
next
  case (Head fin op len hl key)
  then have h': "ws_header (b @ d) = Head fin op len hl key" using ws_header_more [OF assms(2), of d] by simp
  show ?thesis using assms(1) unfolding rd_turn_def prod.case h' Head ws_head.case Let_def by (auto split: if_splits)
qed (use assms(2) in simp)

lemma rd_waits:
  assumes "rd_all (frag, fop, fing, b) = (ms, (frag1, fop1, fing1, b1))" and "snd (rd_all (frag, fop, fing, b @ d)) = (frag2, fop2, fing2, [])"
  shows "length b1 < 16777230"
proof -
  have s: "rd_turn (frag1, fop1, fing1, b1) = None" by (rule rd_all_stopped [OF assms(1)])
  have e: "snd (rd_all (frag1, fop1, fing1, b1 @ d)) = (frag2, fop2, fing2, [])"
    using rd_all_append [OF assms(1), of d] assms(2) by simp
  have "ws_header b1 = HeadMore"
  proof (rule ccontr)
    assume n: "ws_header b1 \<noteq> HeadMore"
    then have "rd_turn (frag1, fop1, fing1, b1 @ d) = None" by (rule rd_stuck [OF s])
    then have "b1 = []" using e by (simp add: rd_all.simps)
    then show False using n by (simp add: ws_header_def)
  qed
  then show ?thesis by (rule ws_header_size)
qed

lemma not_connected_data: "ws_st c \<notin> {KHandshaking, KConnected} \<Longrightarrow> on_data_received junk cb now d c = (c, [])"
  by (simp add: on_data_received_def)

lemma not_connected_list: "ws_st c \<notin> {KHandshaking, KConnected} \<Longrightarrow> on_data_list junk cb ds c = (c, [])"
  by (induction ds) (auto simp: not_connected_data)

lemma not_reading_list: "\<not> ws_reading c \<Longrightarrow> on_data_list junk cb ds c = (c, [])"
  by (cases ds) auto

lemma data_list_read:
  assumes "ws_st c = KConnected" and "list_all (\<lambda>(_, d). length d \<le> 33554432) ds" and "rd_turn (rproj c) = None"
    and "rproj c = (frag, fop, fing, b)" and "rd_all (frag, fop, fing, b @ concat (map snd ds)) = (ms, (frag2, fop2, fing2, []))"
    and "on_data_list junk (Some f) ds c = (c', outs)"
  shows "prefix (messages outs) ms \<and> (ws_st c' = KConnected \<and> ws_reading c' \<longrightarrow> messages outs = ms)"
  using assms
proof (induction ds arbitrary: c frag fop fing b ms outs)
  case Nil
  then show ?case by (simp add: rd_all.simps)
next
  case (Cons x ds)
  obtain now d where x: "x = (now, d)" by (cases x)
  show ?case
  proof (cases "ws_reading c")
    case False
    then show ?thesis using Cons.prems(6) by (simp add: not_reading_list)
  next
    case True
    have w: "length b < 16777230"
      using rd_waits [of frag fop fing b "[]" frag fop fing b "concat (map snd (x # ds))"] Cons.prems(3-5) by (simp add: rd_all.simps)
    have bb: "ws_buf c = b" using Cons.prems(4) by (simp add: rproj_def)
    define c0 where "c0 = c\<lparr>ws_buf := b @ d\<rparr>"
    have d: "on_data_received junk (Some f) now d c = process_ws_frames (Some f) now c0"
      using Cons.prems(1,2) w by (simp add: on_data_received_def bb c0_def WS_MAX_READ_BUF_BYTES_def x)
    obtain c1 o1 where p: "process_ws_frames (Some f) now c0 = (c1, o1)" by fastforce
    obtain c2 o2 where q: "on_data_list junk (Some f) ds c1 = (c2, o2)" by fastforce
    have e: "c' = c2" "outs = o1 @ o2" using Cons.prems(6) True d p q by (simp_all add: x)
    have c0: "ws_st c0 = KConnected" "rproj c0 = (frag, fop, fing, b @ d)" using Cons.prems(1,4) by (simp_all add: c0_def rproj_def)
    note r = process_frames_read [OF c0(1) p, unfolded c0(2)]
    obtain m1 frag1 fop1 fing1 b1 where a1: "rd_all (frag, fop, fing, b @ d) = (m1, (frag1, fop1, fing1, b1))"
      by (cases "rd_all (frag, fop, fing, b @ d)") auto
    obtain ms2 where m: "rd_all (frag1, fop1, fing1, b1 @ concat (map snd ds)) = (ms2, (frag2, fop2, fing2, []))" "ms = m1 @ ms2"
      using rd_all_append [OF a1, of "concat (map snd ds)"] Cons.prems(5)
      by (cases "rd_all (frag1, fop1, fing1, b1 @ concat (map snd ds))") (auto simp: x)
    show ?thesis
    proof (cases "ws_st c1 = KConnected")
      case True
      then have k: "m1 = messages o1" "rproj c1 = (frag1, fop1, fing1, b1)" using r a1 by simp_all
      have s: "rd_turn (rproj c1) = None" unfolding k(2) by (rule rd_all_stopped [OF a1])
      have "list_all (\<lambda>(_, d). length d \<le> 33554432) ds" using Cons.prems(2) by simp
      from Cons.IH [OF True this s k(2) m(1), of o2] show ?thesis using q unfolding e m(2) k(1) by simp
    next
      case False
      have st: "ws_st c1 \<notin> {KHandshaking, KConnected}"
        using process_frames_state [OF _ p, of KConnected] c0(1) False by (auto simp: st_in_def)
      have "c2 = c1" "o2 = []" using q not_connected_list [OF st] by simp_all
      moreover have "prefix (messages o1) m1" using r a1 by simp
      ultimately show ?thesis using False unfolding e m(2) by (auto simp: prefix_def)
    qed
  qed
qed

text \<open>C28: whatever a client sends arrives. Take any sequence of text and binary messages of up to 16 MB each, every message
  whole or cut into fragments with masks of their own and with pings and pongs in between, and cut the bytes into reads in
  any way. Whatever the message callback calls on the connection, it is given messages from the front of this
  sequence only, in order and unchanged; and if the connection is still connected and read after the last read, it was
  given all of them.\<close>

theorem ws_messages_arrive:
  assumes "ws_st c = KConnected" and "rproj c = ([], 0, False, [])" and "list_all sent_ok ss"
    and "concat (map snd ds) = sent_bytes ss" and "list_all (\<lambda>(_, d). length d \<le> 33554432) ds"
    and "on_data_list junk (Some f) ds c = (c', outs)"
  shows "prefix (messages outs) (concat (map sent_messages ss)) \<and>
    (ws_st c' = KConnected \<and> ws_reading c' \<longrightarrow> messages outs = concat (map sent_messages ss))"
proof (rule data_list_read [OF assms(1,5) _ assms(2) _ assms(6)])
  show "rd_turn (rproj c) = None" by (simp add: assms(2) rd_turn_def ws_header_def)
  show "rd_all ([], 0, False, [] @ concat (map snd ds)) = (concat (map sent_messages ss), ([], 0, False, []))"
    using rd_sent [OF assms(3)] assms(4) by simp
qed

end
