(* ===== verification/GM_WSConnWrite.thy ===== *)
theory GM_WSConnWrite
  imports GM_WSConn
begin

text \<open>
  The write side of a WebSocket connection: an invariant of the queue, the posted tasks and the write in
  flight that every step keeps, the order of what goes out, what draining does, and what happens when it fails.
\<close>

section \<open>The write side\<close>

definition ws_pending :: "'u ws \<Rightarrow> nat" where
  "ws_pending c = count_list (ws_posted c) WtWrite + (if ws_inflight c = None then 0 else 1)"

definition ws_inv :: "'u ws \<Rightarrow> bool" where
  "ws_inv c \<longleftrightarrow> ws_qbytes c = sum_list (map length (ws_queue c)) \<and> ws_pending c \<le> 1 \<and>
     (\<not> ws_writing c \<longrightarrow> ws_pending c = 0) \<and> (ws_writing c \<and> \<not> ws_closed c \<longrightarrow> ws_pending c = 1) \<and>
     (ws_queue c \<noteq> [] \<and> \<not> ws_closed c \<longrightarrow> ws_writing c) \<and>
     (ws_caw c \<longrightarrow> ws_closed c \<and> (ws_closing c \<longrightarrow> ws_pending c = 0)) \<and> (ws_closing c \<longrightarrow> ws_closed c) \<and>
     (WtClose \<in> set (ws_posted c) \<or> ws_uv_closing c \<or> \<not> ws_handle c \<longrightarrow> ws_closing c)"

lemma ws_inv_start: "ws_init_from_accepted True now (ws_new u) = (True, c) \<Longrightarrow> ws_inv c"
  by (auto simp: ws_init_from_accepted_def ws_new_def ws_inv_def ws_pending_def)

text \<open>Fields the invariant does not look at.\<close>

lemma ws_inv_other [simp]:
  "ws_inv (c\<lparr>ws_user := u\<rparr>) = ws_inv c" "ws_inv (c\<lparr>ws_activity := n\<rparr>) = ws_inv c" "ws_inv (c\<lparr>ws_buf := b\<rparr>) = ws_inv c"
  "ws_inv (c\<lparr>ws_hs_buf := b\<rparr>) = ws_inv c" "ws_inv (c\<lparr>ws_st := st\<rparr>) = ws_inv c" "ws_inv (c\<lparr>ws_frag := b\<rparr>) = ws_inv c"
  "ws_inv (c\<lparr>ws_frag_op := op\<rparr>) = ws_inv c" "ws_inv (c\<lparr>ws_fragmenting := x\<rparr>) = ws_inv c"
  "ws_inv (c\<lparr>ws_ping_out := x\<rparr>) = ws_inv c" "ws_inv (c\<lparr>ws_deadline := n\<rparr>) = ws_inv c" "ws_inv (c\<lparr>ws_last_ping := n\<rparr>) = ws_inv c"
  "ws_inv (c\<lparr>ws_reading := x\<rparr>) = ws_inv c" "ws_inv (c\<lparr>ws_paused := x\<rparr>) = ws_inv c" "ws_inv (c\<lparr>ws_timer := x\<rparr>) = ws_inv c"
  "ws_inv (ws_on here uv_ok c) = ws_inv c" "ws_inv (ws_stop_read c) = ws_inv c" "ws_inv (c\<lparr>ws_keep_alive := x\<rparr>) = ws_inv c"
  by (simp_all add: ws_inv_def ws_pending_def ws_on_def ws_stop_read_def)

lemma ws_inv_close [gm_inv]: "ws_inv c \<Longrightarrow> ws_inv (ws_close c)"
  by (auto simp: ws_inv_def ws_close_def ws_post_def ws_do_close_def ws_pending_def Let_def)

lemma ws_inv_read_error [gm_inv]: "ws_inv c \<Longrightarrow> ws_inv (ws_on_read_error c)"
  by (simp add: ws_on_read_error_def ws_inv_close)

lemma ws_inv_do_close: "ws_inv c \<Longrightarrow> ws_closed c \<Longrightarrow> \<not> ws_caw c \<or> ws_pending c = 0 \<Longrightarrow> ws_inv (ws_do_close c)"
  by (auto simp: ws_inv_def ws_do_close_def ws_pending_def Let_def)

text \<open>The write queue runs with no write pending but its own.\<close>

lemma ws_inv_process_write:
  assumes "ws_pending c = 0" and "ws_writing c" and "ws_qbytes c = sum_list (map length (ws_queue c))"
    and "ws_caw c \<longrightarrow> ws_closed c \<and> \<not> ws_closing c" and "ws_closing c \<longrightarrow> ws_closed c"
    and "WtClose \<in> set (ws_posted c) \<or> ws_uv_closing c \<or> \<not> ws_handle c \<longrightarrow> ws_closing c"
  shows "ws_inv (ws_process_write_queue c)"
  using assms
proof (induction c rule: ws_process_write_queue.induct)
  case (1 c)
  define q where "q = ws_queue c"
  have z: "count_list (ws_posted c) WtWrite = 0" "ws_inflight c = None" using 1(2) by (auto simp: ws_pending_def split: if_splits)
  have sp: "sum_list (map length q) - sum_list (map length (take 128 q)) = sum_list (map length (drop 128 q))"
    by (metis append_take_drop_id map_append sum_list_append diff_add_inverse)
  consider (off) "\<not> ws_handle c \<or> ws_uv_closing c" | (empty) "ws_handle c" "\<not> ws_uv_closing c" "q = []"
    | (batch) "ws_handle c" "\<not> ws_uv_closing c" "q \<noteq> []" by blast
  then show ?case
  proof cases
    case off
    then have "ws_process_write_queue c = c\<lparr>ws_writing := False\<rparr>" by (auto simp: ws_process_write_queue.simps [of c])
    then show ?thesis using z 1(3-7) off by (auto simp: ws_inv_def ws_pending_def)
  next
    case empty
    let ?c = "c\<lparr>ws_queue := [], ws_qbytes := 0, ws_writing := False\<rparr>"
    have c': "ws_process_write_queue c = (if ws_caw c then ws_do_close (?c\<lparr>ws_caw := False\<rparr>) else ?c)"
      using empty 1(4) by (auto simp: ws_process_write_queue.simps [of c] q_def Let_def)
    show ?thesis
    proof (cases "ws_caw c")
      case True
      then have "ws_inv (?c\<lparr>ws_caw := False\<rparr>)" "ws_closed (?c\<lparr>ws_caw := False\<rparr>)"
        using z 1(3-7) empty by (auto simp: ws_inv_def ws_pending_def)
      then show ?thesis unfolding c' using True by (simp add: ws_inv_do_close)
    next
      case False
      then show ?thesis unfolding c' using z 1(3-7) empty by (auto simp: ws_inv_def ws_pending_def)
    qed
  next
    case batch
    define c1 where "c1 = c\<lparr>ws_queue := drop 128 (ws_queue c), ws_qbytes := ws_qbytes c - sum_list (map length (take 128 (ws_queue c)))\<rparr>"
    define c2 where "c2 = (if ws_paused c1 \<and> ws_qbytes c1 < WS_RESUME_THRESHOLD then c1\<lparr>ws_paused := False, ws_reading := True\<rparr> else c1)"
    define c3 where "c3 = c2\<lparr>ws_wrote := ws_wrote c2 @ [filter (\<lambda>b. b \<noteq> []) (take 128 (ws_queue c))]\<rparr>"
    have c2: "ws_pending c2 = 0" "ws_writing c2" "ws_qbytes c2 = sum_list (map length (ws_queue c2))"
      "ws_caw c2 \<longrightarrow> ws_closed c2 \<and> \<not> ws_closing c2" "ws_closing c2 \<longrightarrow> ws_closed c2"
      "WtClose \<in> set (ws_posted c2) \<or> ws_uv_closing c2 \<or> \<not> ws_handle c2 \<longrightarrow> ws_closing c2"
      using z 1(3-7) sp by (auto simp: c2_def c1_def ws_pending_def q_def)
    have ne: "take 128 (ws_queue c) \<noteq> []" using batch(3) by (simp add: q_def)
    have st: "ws_process_write_queue c =
        (if filter (\<lambda>b. b \<noteq> []) (take 128 (ws_queue c)) = [] then ws_process_write_queue c2
         else if ws_uv_ok c3 then c3\<lparr>ws_inflight := Some (take 128 (ws_queue c))\<rparr> else ws_close (c3\<lparr>ws_writing := False\<rparr>))"
      using batch ne by (subst ws_process_write_queue.simps) (simp add: Let_def c1_def [symmetric] c2_def c3_def)
    show ?thesis
    proof (cases "filter (\<lambda>b. b \<noteq> []) (take 128 (ws_queue c)) = []")
      case True
      have "ws_inv (ws_process_write_queue c2)"
        by (rule 1(1) [OF _ refl c1_def ne c2_def refl True c2]) (use batch in simp)
      then show ?thesis using st True by simp
    next
      case False
      have "ws_inv (c3\<lparr>ws_inflight := Some (take 128 (ws_queue c))\<rparr>)"
        using c2 unfolding c3_def by (auto simp: ws_inv_def ws_pending_def split: if_splits)
      moreover have "ws_inv (ws_close (c3\<lparr>ws_writing := False\<rparr>))"
        using c2 unfolding c3_def by (auto simp: ws_inv_def ws_pending_def ws_close_def ws_do_close_def ws_post_def Let_def split: if_splits)
      ultimately show ?thesis using st False by simp
    qed
  qed
qed

text \<open>Starting a write, at once or by a posted task, restores what queueing broke.\<close>

lemma ws_inv_trigger:
  assumes "ws_pending c \<le> 1" and "\<not> ws_writing c \<longrightarrow> ws_pending c = 0" and "ws_writing c \<and> \<not> ws_closed c \<longrightarrow> ws_pending c = 1"
    and "ws_qbytes c = sum_list (map length (ws_queue c))"
    and "ws_caw c \<longrightarrow> ws_closed c \<and> \<not> ws_closing c" and "ws_closing c \<longrightarrow> ws_closed c"
    and "WtClose \<in> set (ws_posted c) \<or> ws_uv_closing c \<or> \<not> ws_handle c \<longrightarrow> ws_closing c"
  shows "ws_inv (ws_trigger_write c)"
proof (cases "ws_writing c")
  case True
  then show ?thesis using assms by (auto simp: ws_inv_def ws_trigger_write_def)
next
  case False
  have "ws_inv (ws_process_write_queue (c\<lparr>ws_writing := True\<rparr>))"
    by (rule ws_inv_process_write) (use assms False in \<open>auto simp: ws_pending_def\<close>)
  moreover have "ws_inv (c\<lparr>ws_writing := True, ws_posted := ws_posted c @ [WtWrite]\<rparr>)"
    using assms False by (auto simp: ws_inv_def ws_pending_def)
  ultimately show ?thesis using False by (simp add: ws_trigger_write_def ws_post_def)
qed

lemma ws_inv_caw [gm_inv]: "ws_inv c \<Longrightarrow> ws_inv (ws_close_after_write c)"
proof (cases "ws_closed c \<or> ws_closing c \<or> ws_caw c \<or> \<not> ws_handle c")
  case False
  assume i: "ws_inv c"
  have "ws_inv (ws_trigger_write (c\<lparr>ws_keep_alive := True, ws_closed := True, ws_caw := True\<rparr>))"
    by (rule ws_inv_trigger) (use i False in \<open>auto simp: ws_inv_def ws_pending_def\<close>)
  then show ?thesis using False by (simp add: ws_close_after_write_def)
qed (auto simp: ws_close_after_write_def)

lemma ws_inv_parts [gm_inv]: "ws_inv c \<Longrightarrow> ws_inv (queue_frame_parts ps c)"
proof (cases "ps = [] \<or> ws_closed c \<or> ws_closing c \<or> \<not> ws_handle c")
  case False
  assume i: "ws_inv c"
  define c1 where "c1 = c\<lparr>ws_queue := ws_queue c @ ps, ws_qbytes := ws_qbytes c + sum_list (map length ps)\<rparr>"
  define c2 where "c2 = (if ws_qbytes c1 > WS_MAX_WRITE_QUEUE_BYTES \<and> \<not> ws_paused c1
    then ws_post WtStopRead ws_stop_read (c1\<lparr>ws_paused := True\<rparr>) else c1)"
  have "ws_inv (ws_trigger_write c2)"
    by (rule ws_inv_trigger)
      (use i False in \<open>auto simp: ws_inv_def ws_pending_def c2_def c1_def ws_post_def ws_stop_read_def\<close>)
  then show ?thesis using False by (simp only: queue_frame_parts_def c1_def c2_def Let_def if_False)
qed (auto simp: queue_frame_parts_def)

lemma ws_inv_frame [gm_inv]: "ws_inv c \<Longrightarrow> ws_inv (queue_frame f c)"
  by (simp add: queue_frame_def ws_inv_parts)

lemma ws_inv_call [gm_inv]: "ws_inv c \<Longrightarrow> ws_inv (ws_exec_call k c)"
  by (cases k) (auto simp: ws_exec_call_def ws_send_message_def ws_send_message_batch_def ws_send_frame_buffer_def intro: gm_inv)

lemma ws_inv_mark: "ws_inv c \<Longrightarrow> ws_closing c \<longrightarrow> ws_pending c = 0 \<Longrightarrow> ws_inv (c\<lparr>ws_closed := True, ws_caw := True\<rparr>)"
  by (auto simp: ws_inv_def ws_pending_def)

text \<open>When a frame is queued on an open connection, the write may start and fail: then the connection is closing, with no
  write left.\<close>

definition write_failed :: "bool \<Rightarrow> 'u ws \<Rightarrow> bool" where
  "write_failed b c \<longleftrightarrow> ws_closing c = b \<or> (ws_closing c \<and> \<not> ws_writing c)"

lemma write_failed_same: "ws_closing c = b \<Longrightarrow> write_failed b c"
  by (simp add: write_failed_def)

lemma write_failed_close: "ws_closing c = b \<Longrightarrow> \<not> ws_writing c \<Longrightarrow> write_failed b (ws_close c)" "\<not> ws_writing c \<Longrightarrow> write_failed b (ws_do_close c)"
  by (auto simp: write_failed_def ws_close_def ws_post_def ws_do_close_def Let_def)

lemma write_failed_write: "ws_closing c = b \<Longrightarrow> write_failed b (ws_process_write_queue c)"
proof (induction c rule: ws_process_write_queue.induct)
  case (1 c)
  show ?case
    by (subst ws_process_write_queue.simps) (use 1 in \<open>simp add: Let_def write_failed_same write_failed_close\<close>)
qed

lemma write_failed_trigger: "ws_closing c = b \<Longrightarrow> write_failed b (ws_trigger_write c)"
  by (simp add: ws_trigger_write_def ws_post_def write_failed_write write_failed_same)

lemma queue_frame_failed: "write_failed (ws_closing c) (queue_frame f c)"
  by (simp add: queue_frame_def queue_frame_parts_def ws_post_def ws_stop_read_def Let_def write_failed_trigger write_failed_same)

lemma ws_inv_drain [gm_inv]:
  assumes "ws_inv c"
  shows "ws_inv (send_close_and_drain code c)"
proof (cases "ws_closed c \<or> ws_closing c \<or> \<not> ws_handle c")
  case True
  then show ?thesis using assms by (auto simp: send_close_and_drain_def intro: gm_inv)
next
  case False
  define d where "d = queue_frame (encode_ws_close_frame code None 0) c"
  have d: "ws_inv d" "\<not> ws_closing d \<or> \<not> ws_writing d"
    using assms False queue_frame_failed [of c "encode_ws_close_frame code None 0"] by (auto simp: d_def write_failed_def intro: gm_inv)
  then have z: "ws_closing d \<or> \<not> ws_writing d \<longrightarrow> ws_pending d = 0" by (auto simp: ws_inv_def)
  have m: "ws_inv (d\<lparr>ws_closed := True, ws_caw := True\<rparr>)" by (rule ws_inv_mark) (use d z in auto)
  have "ws_inv (ws_do_close (d\<lparr>ws_closed := True, ws_caw := True\<rparr>))" if "\<not> ws_writing d"
    by (rule ws_inv_do_close [OF m]) (use z that in \<open>simp_all add: ws_pending_def\<close>)
  then show ?thesis using m False by (simp add: send_close_and_drain_def d_def [symmetric] Let_def)
qed

lemma ws_inv_deliver [gm_inv]: "ws_inv c \<Longrightarrow> deliver_message cb ty m c = (c', outs) \<Longrightarrow> ws_inv c'"
proof -
  assume a: "ws_inv c" "deliver_message cb ty m c = (c', outs)"
  have "ws_inv (foldl (\<lambda>c k. ws_exec_call k c) (c\<lparr>ws_user := u\<rparr>) calls)" for u calls
    by (rule foldl_invariant) (use a(1) in \<open>auto intro: gm_inv\<close>)
  then show ?thesis using a by (auto simp: deliver_message_def split: option.splits prod.splits)
qed

lemma ws_inv_turn: "ws_inv c \<Longrightarrow> ws_turn cb now c = (again, c', outs) \<Longrightarrow> ws_inv c'"
proof -
  assume a: "ws_inv c" "ws_turn cb now c = (again, c', outs)"
  have d1: "deliver_message cb ty m (c\<lparr>ws_activity := n, ws_buf := b\<rparr>) = (c2, o2) \<Longrightarrow> ws_inv c2" for ty m n b c2 o2
    by (rule ws_inv_deliver [of "c\<lparr>ws_activity := n, ws_buf := b\<rparr>"]) (simp add: a(1))
  have d2: "deliver_message cb ty m (c\<lparr>ws_activity := n, ws_frag := [], ws_frag_op := 0, ws_fragmenting := False, ws_buf := b\<rparr>) = (c2, o2) \<Longrightarrow> ws_inv c2"
    for ty m n b c2 o2
    by (rule ws_inv_deliver [of "c\<lparr>ws_activity := n, ws_frag := [], ws_frag_op := 0, ws_fragmenting := False, ws_buf := b\<rparr>"])
      (simp add: a(1))
  have "ws_inv (send_close_and_drain code (c\<lparr>ws_activity := n\<rparr>))" "ws_inv (send_close_and_drain code c)"
      "ws_inv (queue_frame f (c\<lparr>ws_activity := n\<rparr>))" for code n f
    using a(1) by (simp_all add: ws_inv_drain ws_inv_frame)
  then show ?thesis
    using a d1 d2 unfolding ws_turn_def fail_protocol_def Let_def
    by (auto split: if_splits ws_head.splits prod.splits)
qed

lemma ws_inv_frames: "ws_inv c \<Longrightarrow> process_ws_frames cb now c = (c', outs) \<Longrightarrow> ws_inv c'"
proof (induction cb now c arbitrary: c' outs rule: process_ws_frames.induct)
  case (1 cb now c)
  obtain again c1 o1 where t: "ws_turn cb now c = (again, c1, o1)" by (cases "ws_turn cb now c")
  have i: "ws_inv c1" by (rule ws_inv_turn [OF 1(2) t])
  show ?case
  proof (cases again)
    case False
    then show ?thesis using 1(3) t i by (simp add: process_ws_frames.simps [of cb now c])
  next
    case True
    obtain c2 o2 where p: "process_ws_frames cb now c1 = (c2, o2)" by fastforce
    then have "ws_inv c2" using 1(1) [OF t [symmetric] refl True i p] by simp
    then show ?thesis using 1(3) t p True by (simp add: process_ws_frames.simps [of cb now c])
  qed
qed

lemma ws_inv_data: "ws_inv c \<Longrightarrow> on_data_received junk cb now d c = (c', outs) \<Longrightarrow> ws_inv c'"
proof -
  assume a: "ws_inv c" "on_data_received junk cb now d c = (c', outs)"
  have h: "ws_inv c1" if "process_handshake junk (c\<lparr>ws_hs_buf := b\<rparr>) = (ok, c1)" for b ok c1
    using that a(1) by (auto simp: process_handshake_def Let_def split: option.splits if_splits intro!: ws_inv_close ws_inv_frame)
  show ?thesis
  proof (cases "ws_st c = KHandshaking \<and> \<not> length (ws_hs_buf c) + length d > MAX_HANDSHAKE_BYTES")
    case True
    obtain ok c1 where p: "process_handshake junk (c\<lparr>ws_hs_buf := ws_hs_buf c @ d\<rparr>) = (ok, c1)" by fastforce
    have "ws_inv (c1\<lparr>ws_buf := ws_buf c1 @ ws_hs_buf c1, ws_hs_buf := [], ws_st := KConnected, ws_activity := now\<rparr>)"
      using h [OF p] by simp
    then have f: "process_ws_frames cb now (c1\<lparr>ws_buf := ws_buf c1 @ ws_hs_buf c1, ws_hs_buf := [], ws_st := KConnected, ws_activity := now\<rparr>)
        = (c', outs) \<Longrightarrow> ws_inv c'" by (rule ws_inv_frames)
    show ?thesis using a(2) True h [OF p] f by (cases ok) (simp_all add: on_data_received_def p)
  next
    case False
    have "ws_inv (c\<lparr>ws_buf := ws_buf c @ d\<rparr>)" using a(1) by simp
    then have f: "process_ws_frames cb now (c\<lparr>ws_buf := ws_buf c @ d\<rparr>) = (c', outs) \<Longrightarrow> ws_inv c'" by (rule ws_inv_frames)
    show ?thesis using a False f ws_inv_close [OF a(1)] ws_inv_drain [OF a(1)]
      by (auto simp: on_data_received_def fail_protocol_def split: if_splits)
  qed
qed

text \<open>What holds when the pending write is taken up.\<close>

lemma ws_inv_taken:
  assumes "ws_inv c" and "ws_pending c \<noteq> 0"
  shows "ws_pending c = 1" "ws_writing c" "ws_qbytes c = sum_list (map length (ws_queue c))" "ws_caw c \<longrightarrow> ws_closed c \<and> \<not> ws_closing c"
    "ws_closing c \<longrightarrow> ws_closed c" "WtClose \<in> set (ws_posted c) \<or> ws_uv_closing c \<or> \<not> ws_handle c \<longrightarrow> ws_closing c"
  using assms unfolding ws_inv_def by auto

lemma ws_inv_resume:
  assumes "ws_inv c" and "ws_pending c \<noteq> 0" and "ws_pending d = 0" and "set (ws_posted d) \<subseteq> set (ws_posted c)"
    and "ws_writing d = ws_writing c" "ws_qbytes d = ws_qbytes c" "ws_queue d = ws_queue c" "ws_caw d = ws_caw c"
    "ws_closed d = ws_closed c" "ws_closing d = ws_closing c" "ws_uv_closing d = ws_uv_closing c" "ws_handle d = ws_handle c"
  shows "ws_inv (ws_process_write_queue d)" "ws_inv (ws_close d)"
proof -
  note t = ws_inv_taken [OF assms(1,2)]
  have p: "WtClose \<in> set (ws_posted d) \<or> ws_uv_closing d \<or> \<not> ws_handle d \<longrightarrow> ws_closing d" using t(6) assms(4,10-12) by auto
  show "ws_inv (ws_process_write_queue d)"
    by (rule ws_inv_process_write [OF assms(3) _ _ _ _ p]) (use t assms(5-12) in simp_all)
  have z: "ws_pending (ws_close d) = 0" using assms(3) by (auto simp: ws_close_def ws_post_def ws_do_close_def ws_pending_def Let_def split: if_splits)
  have f: "ws_closed (ws_close d)" "ws_caw (ws_close d) = ws_caw d" "ws_queue (ws_close d) = ws_queue d" "ws_qbytes (ws_close d) = ws_qbytes d"
    by (auto simp: ws_close_def ws_post_def ws_do_close_def Let_def)
  have g: "ws_closing d \<longrightarrow> ws_closing (ws_close d)"
    "WtClose \<in> set (ws_posted (ws_close d)) \<or> ws_uv_closing (ws_close d) \<or> \<not> ws_handle (ws_close d) \<longrightarrow> ws_closing (ws_close d)"
    using p by (auto simp: ws_close_def ws_post_def ws_do_close_def Let_def)
  have h: "ws_qbytes d = sum_list (map length (ws_queue d))" using t(3) assms(6,7) by simp
  show "ws_inv (ws_close d)" unfolding ws_inv_def z f using g h f(1) by simp
qed

lemma ws_inv_step: "ws_step junk cb c outs c' \<Longrightarrow> ws_inv c \<Longrightarrow> ws_inv c'"
proof (induction rule: ws_step.induct)
  case (wstep_write c ts uv_ok)
  have "ws_pending c \<noteq> 0" "ws_pending (ws_on True uv_ok (c\<lparr>ws_posted := ts\<rparr>)) = 0"
    using wstep_write ws_inv_taken(1) [OF wstep_write(2)] by (auto simp: ws_pending_def ws_on_def)
  then show ?case by (rule ws_inv_resume(1) [OF wstep_write(2)]) (use wstep_write(1) in \<open>auto simp: ws_on_def\<close>)
next
  case (wstep_close c ts uv_ok)
  have p: "ws_pending (c\<lparr>ws_posted := ts\<rparr>) = ws_pending c" using wstep_close(1) by (simp add: ws_pending_def)
  have cl: "ws_closing c" "ws_closed c" using wstep_close unfolding ws_inv_def by simp_all
  have i: "ws_inv (c\<lparr>ws_posted := ts\<rparr>)" using wstep_close(2) cl unfolding ws_inv_def p by simp
  show ?case
  proof (rule ws_inv_do_close)
    show "\<not> ws_caw (ws_on True uv_ok (c\<lparr>ws_posted := ts\<rparr>)) \<or> ws_pending (ws_on True uv_ok (c\<lparr>ws_posted := ts\<rparr>)) = 0"
      using wstep_close(2) cl p unfolding ws_inv_def by (auto simp: ws_on_def ws_pending_def)
    show "ws_closed (ws_on True uv_ok (c\<lparr>ws_posted := ts\<rparr>))" using cl by (simp add: ws_on_def)
  qed (simp add: i)
next
  case (wstep_written c status_ok uv_ok)
  define c1 where "c1 = (ws_on True uv_ok c)\<lparr>ws_inflight := None\<rparr>"
  have n: "ws_pending c \<noteq> 0" using wstep_written(1) by (auto simp: ws_pending_def)
  have z: "ws_pending c1 = 0"
    using ws_inv_taken(1) [OF wstep_written(2) n] wstep_written(1) by (simp add: ws_pending_def c1_def ws_on_def)
  have "ws_inv (ws_process_write_queue c1)" "ws_inv (ws_close c1)"
    by (rule ws_inv_resume [OF wstep_written(2) n z]; simp add: c1_def ws_on_def)+
  then show ?case by (simp add: ws_on_write_done_def c1_def Let_def)
next
  case (wstep_closed c uv_ok c' outs)
  have cl: "ws_closing c" using wstep_closed(2,5) unfolding ws_inv_def by simp
  have e: "c' = (ws_on True uv_ok c)\<lparr>ws_handle := False, ws_uv_closing := False, ws_st := KClosed, ws_keep_alive := False\<rparr>"
    using wstep_closed(4) by (simp add: ws_on_close_done_def)
  have "ws_pending c' = ws_pending c" by (simp add: e ws_pending_def ws_on_def)
  then show ?case using wstep_closed(5) cl unfolding ws_inv_def by (simp add: e ws_on_def)
next
  case (wstep_timer c now uv_ok)
  define d where "d = ws_on True uv_ok c"
  have "ws_inv (queue_frame f d)" "ws_inv (ws_close d)" "ws_inv d" for f using wstep_timer(2) by (auto simp: d_def intro: gm_inv)
  then show ?case unfolding d_def [symmetric] by (simp add: check_liveness_def)
next
  case (wstep_stop_read c ts uv_ok)
  then have "ws_inv (c\<lparr>ws_posted := ts\<rparr>)" by (auto simp: ws_inv_def ws_pending_def)
  then show ?case by simp
next
  case (wstep_read c now d uv_ok c' outs)
  then show ?case using ws_inv_data [of "ws_on True uv_ok c" junk cb now d c' outs] by simp
qed (auto intro: gm_inv)

lemma ws_inv_steps: "ws_steps junk cb c outs c' \<Longrightarrow> ws_inv c \<Longrightarrow> ws_inv c'"
  by (induction rule: ws_steps.induct) (auto intro: ws_inv_step)

section \<open>What goes out\<close>

definition ws_wire :: "'u ws \<Rightarrow> bytes" where
  "ws_wire c = concat (concat (ws_wrote c))"

text \<open>What was written and what is still queued.\<close>

definition ws_stream :: "'u ws \<Rightarrow> bytes" where
  "ws_stream c = ws_wire c @ concat (ws_queue c)"

lemma concat_nonempty: "concat (filter (\<lambda>b. b \<noteq> []) xs) = concat xs"
  by (induction xs) auto

text \<open>The part of the state that writing and closing depend on.\<close>

definition ws_flags :: "'u ws \<Rightarrow> bool \<times> bool \<times> bool \<times> bool \<times> bool \<times> bool \<times> bytes list option \<times> ws_task list \<times> bool" where
  "ws_flags c = (ws_handle c, ws_uv_closing c, ws_closed c, ws_closing c, ws_caw c, ws_writing c, ws_inflight c, ws_posted c, ws_uv_ok c)"

lemma ws_batch_cases [case_names off empty again batch]:
  obtains (off) "\<not> ws_handle c \<or> ws_uv_closing c" "ws_process_write_queue c = c\<lparr>ws_writing := False\<rparr>"
  | (empty) "ws_handle c" "\<not> ws_uv_closing c" "ws_queue c = []"
      "ws_process_write_queue c = (let c2 = c\<lparr>ws_queue := [], ws_writing := False\<rparr> in if ws_caw c then ws_do_close (c2\<lparr>ws_caw := False\<rparr>) else c2)"
  | (again) c2 where "ws_handle c" "\<not> ws_uv_closing c" "ws_queue c \<noteq> []" "concat (take 128 (ws_queue c)) = []"
      "ws_process_write_queue c = ws_process_write_queue c2" "ws_queue c2 = drop 128 (ws_queue c)" "ws_flags c2 = ws_flags c" "ws_wrote c2 = ws_wrote c"
  | (batch) c2 where "ws_handle c" "\<not> ws_uv_closing c" "ws_queue c \<noteq> []" "concat (take 128 (ws_queue c)) \<noteq> []"
      "ws_queue c2 = drop 128 (ws_queue c)" "ws_flags c2 = ws_flags c"
      "ws_process_write_queue c = (if ws_uv_ok c then c2\<lparr>ws_inflight := Some (take 128 (ws_queue c))\<rparr> else ws_close (c2\<lparr>ws_writing := False\<rparr>))"
      "ws_wire c2 = ws_wire c @ concat (take 128 (ws_queue c))"
proof -
  define c1 where "c1 = c\<lparr>ws_queue := drop 128 (ws_queue c), ws_qbytes := ws_qbytes c - sum_list (map length (take 128 (ws_queue c)))\<rparr>"
  define c2 where "c2 = (if ws_paused c1 \<and> ws_qbytes c1 < WS_RESUME_THRESHOLD then c1\<lparr>ws_paused := False, ws_reading := True\<rparr> else c1)"
  define c3 where "c3 = c2\<lparr>ws_wrote := ws_wrote c2 @ [filter (\<lambda>b. b \<noteq> []) (take 128 (ws_queue c))]\<rparr>"
  have c2: "ws_queue c2 = drop 128 (ws_queue c)" "ws_flags c2 = ws_flags c" "ws_wrote c2 = ws_wrote c"
    by (simp_all add: c2_def c1_def ws_flags_def)
  have c3: "ws_queue c3 = drop 128 (ws_queue c)" "ws_flags c3 = ws_flags c" "ws_wire c3 = ws_wire c @ concat (take 128 (ws_queue c))"
    using c2 by (simp_all add: c3_def ws_flags_def ws_wire_def concat_nonempty)
  consider "\<not> ws_handle c \<or> ws_uv_closing c" | "ws_handle c" "\<not> ws_uv_closing c" "ws_queue c = []"
    | "ws_handle c" "\<not> ws_uv_closing c" "ws_queue c \<noteq> []" by blast
  then show thesis
  proof cases
    case 1
    then show thesis using off by (auto simp: ws_process_write_queue.simps [of c])
  next
    case 2
    then show thesis by (intro empty) (auto simp: ws_process_write_queue.simps [of c] Let_def split: if_splits)
  next
    case 3
    then have st: "ws_process_write_queue c =
        (if filter (\<lambda>b. b \<noteq> []) (take 128 (ws_queue c)) = [] then ws_process_write_queue c2
         else if ws_uv_ok c3 then c3\<lparr>ws_inflight := Some (take 128 (ws_queue c))\<rparr> else ws_close (c3\<lparr>ws_writing := False\<rparr>))"
      by (subst ws_process_write_queue.simps) (simp add: Let_def c1_def [symmetric] c2_def c3_def)
    show thesis
    proof (cases "filter (\<lambda>b. b \<noteq> []) (take 128 (ws_queue c)) = []")
      case True
      then have "concat (take 128 (ws_queue c)) = []" using concat_nonempty [of "take 128 (ws_queue c)"] by simp
      then show thesis using again [OF 3 _ _ c2] True st by simp
    next
      case False
      then have "concat (take 128 (ws_queue c)) \<noteq> []" by (auto simp: filter_empty_conv)
      moreover have "ws_uv_ok c3 = ws_uv_ok c" using c3(2) by (simp add: ws_flags_def)
      ultimately show thesis using batch [OF 3 _ c3(1,2) _ c3(3)] False st by simp
    qed
  qed
qed

lemma ws_stream_close [simp]: "ws_stream (ws_do_close c) = ws_stream c" "ws_stream (ws_close c) = ws_stream c"
  by (simp_all add: ws_stream_def ws_wire_def ws_close_def ws_post_def ws_do_close_def Let_def)

lemma ws_stream_update [simp]: "ws_stream (c\<lparr>ws_writing := a\<rparr>) = ws_stream c" "ws_stream (c\<lparr>ws_caw := a\<rparr>) = ws_stream c"
  "ws_stream (c\<lparr>ws_inflight := x\<rparr>) = ws_stream c" "ws_stream (c\<lparr>ws_posted := p\<rparr>) = ws_stream c" "ws_stream (ws_on here uv_ok c) = ws_stream c"
  "ws_stream (ws_stop_read c) = ws_stream c" "ws_stream (c\<lparr>ws_closed := a\<rparr>) = ws_stream c" "ws_stream (c\<lparr>ws_keep_alive := a\<rparr>) = ws_stream c"
  "ws_stream (c\<lparr>ws_paused := a\<rparr>) = ws_stream c"
  by (simp_all add: ws_stream_def ws_wire_def ws_on_def ws_stop_read_def)

lemma ws_stream_write [simp]: "ws_stream (ws_process_write_queue c) = ws_stream c"
proof (induction "length (ws_queue c)" arbitrary: c rule: less_induct)
  case less
  have sp: "concat (take 128 (ws_queue c)) @ concat (drop 128 (ws_queue c)) = concat (ws_queue c)"
    by (metis append_take_drop_id concat_append)
  show ?case
  proof (cases rule: ws_batch_cases [of c])
    case (again c2)
    have "ws_stream (ws_process_write_queue c2) = ws_stream c2" by (rule less) (use again in simp)
    then show ?thesis unfolding again(5) using sp [symmetric] by (simp add: ws_stream_def ws_wire_def again(4,6,8))
  next
    case (batch c2)
    have "ws_stream c2 = ws_stream c" using batch(5,8) sp by (simp add: ws_stream_def)
    then show ?thesis unfolding batch(7) by simp
  qed (auto simp: Let_def ws_stream_def ws_wire_def ws_do_close_def)
qed

lemma ws_stream_trigger [simp]: "ws_stream (ws_trigger_write c) = ws_stream c"
  by (simp add: ws_trigger_write_def ws_post_def)

lemma ws_stream_caw [simp]: "ws_stream (ws_close_after_write c) = ws_stream c"
  by (simp add: ws_close_after_write_def)

lemma ws_stream_frame: "\<not> ws_closed c \<Longrightarrow> \<not> ws_closing c \<Longrightarrow> ws_handle c \<Longrightarrow> ws_stream (queue_frame f c) = ws_stream c @ f"
proof -
  assume a: "\<not> ws_closed c" "\<not> ws_closing c" "ws_handle c"
  have "ws_stream (c\<lparr>ws_queue := ws_queue c @ [f], ws_qbytes := n\<rparr>) = ws_stream c @ f" for n by (simp add: ws_stream_def ws_wire_def)
  then show ?thesis using a by (simp add: queue_frame_def queue_frame_parts_def ws_post_def Let_def)
qed

section \<open>Draining\<close>

text \<open>What the loop does with a connection nobody calls and no peer talks to: the posted tasks first, then the
  completion of the write, then the close callback; every call succeeds.\<close>

definition ws_idle :: "'u ws \<Rightarrow> ('u ws \<times> ws_out list) option" where
  "ws_idle c0 = (let c = ws_on True True c0 in case ws_posted c of
      WtWrite # ts \<Rightarrow> Some (ws_process_write_queue (c\<lparr>ws_posted := ts\<rparr>), [])
    | WtClose # ts \<Rightarrow> Some (ws_do_close (c\<lparr>ws_posted := ts\<rparr>), [])
    | WtStopRead # ts \<Rightarrow> Some (ws_stop_read (c\<lparr>ws_posted := ts\<rparr>), [])
    | [] \<Rightarrow> (if ws_inflight c \<noteq> None then Some (ws_on_write_done True c, [])
             else if ws_handle c \<and> ws_uv_closing c then Some (ws_on_close_done c) else None))"

definition ws_work :: "'u ws \<Rightarrow> nat" where
  "ws_work c = 3 * length (ws_posted c) + 2 * length (ws_queue c) + (if ws_inflight c = None then 0 else 1) +
     (if ws_handle c then if ws_uv_closing c then 1 else 2 else 0)"

lemma ws_work_on [simp]: "ws_work (ws_on here uv_ok c) = ws_work c"
  by (simp add: ws_work_def ws_on_def)

lemma ws_on_fields [simp]: "ws_posted (ws_on here uv_ok c) = ws_posted c" "ws_queue (ws_on here uv_ok c) = ws_queue c"
  "ws_inflight (ws_on here uv_ok c) = ws_inflight c" "ws_handle (ws_on here uv_ok c) = ws_handle c"
  "ws_uv_closing (ws_on here uv_ok c) = ws_uv_closing c" "ws_uv_ok (ws_on here uv_ok c) = uv_ok" "ws_closed (ws_on here uv_ok c) = ws_closed c"
  "ws_closing (ws_on here uv_ok c) = ws_closing c" "ws_caw (ws_on here uv_ok c) = ws_caw c" "ws_writing (ws_on here uv_ok c) = ws_writing c"
  "ws_here (ws_on here uv_ok c) = here" "ws_st (ws_on here uv_ok c) = ws_st c"
  by (simp_all add: ws_on_def)

lemma ws_work_write: "ws_uv_ok c \<Longrightarrow> ws_work (ws_process_write_queue c) \<le> ws_work c"
proof (induction "length (ws_queue c)" arbitrary: c rule: less_induct)
  case less
  show ?case
  proof (cases rule: ws_batch_cases [of c])
    case (again c2)
    have "ws_work (ws_process_write_queue c2) \<le> ws_work c2"
      by (rule less) (use again less(2) in \<open>auto simp: ws_flags_def\<close>)
    also have "\<dots> \<le> ws_work c" using again(6,7) by (simp add: ws_work_def ws_flags_def)
    finally show ?thesis unfolding again(5) .
  next
    case (batch c2)
    have "2 * length (drop 128 (ws_queue c)) + 1 \<le> 2 * length (ws_queue c)" using batch(3) by (cases "ws_queue c") simp_all
    then show ?thesis unfolding batch(7) using less(2) batch(5,6) by (simp add: ws_work_def ws_flags_def)
  qed (auto simp: ws_work_def ws_do_close_def Let_def)
qed

lemma ws_work_idle:
  assumes "ws_idle c0 = Some (c', outs)"
  shows "ws_work c' < ws_work c0"
proof -
  define c where "c = ws_on True True c0"
  have ok: "ws_uv_ok (c\<lparr>ws_posted := ts\<rparr>)" "ws_uv_ok (c\<lparr>ws_inflight := None\<rparr>)" for ts by (simp_all add: c_def)
  have "ws_work c' < ws_work c"
  proof (cases "ws_posted c")
    case Nil
    show ?thesis
    proof (cases "ws_inflight c = None")
      case True
      then show ?thesis using assms Nil
        by (auto simp: ws_idle_def c_def [symmetric] ws_on_close_done_def ws_work_def Let_def split: if_splits)
    next
      case False
      then have "c' = ws_process_write_queue (c\<lparr>ws_inflight := None\<rparr>)"
        using assms Nil by (simp add: ws_idle_def c_def [symmetric] ws_on_write_done_def Let_def)
      then have "ws_work c' \<le> ws_work (c\<lparr>ws_inflight := None\<rparr>)" using ws_work_write [OF ok(2)] by simp
      also have "\<dots> < ws_work c" using False by (simp add: ws_work_def)
      finally show ?thesis .
    qed
  next
    case (Cons t ts)
    show ?thesis
    proof (cases t)
      case WtWrite
      have "c' = ws_process_write_queue (c\<lparr>ws_posted := ts\<rparr>)" using assms Cons WtWrite by (simp add: ws_idle_def c_def [symmetric] Let_def)
      then have "ws_work c' \<le> ws_work (c\<lparr>ws_posted := ts\<rparr>)" using ws_work_write [OF ok(1)] by simp
      also have "\<dots> < ws_work c" using Cons by (simp add: ws_work_def)
      finally show ?thesis .
    qed (use assms Cons in \<open>auto simp: ws_idle_def c_def [symmetric] ws_work_def ws_do_close_def ws_stop_read_def Let_def\<close>)
  qed
  then show ?thesis by (simp add: c_def)
qed

function ws_settle :: "'u ws \<Rightarrow> 'u ws \<times> ws_out list" where
  "ws_settle c = (case ws_idle c of None \<Rightarrow> (c, [])
     | Some (c1, o1) \<Rightarrow> (case ws_settle c1 of (c2, o2) \<Rightarrow> (c2, o1 @ o2)))"
  by auto
termination
  by (relation "measure ws_work") (auto intro: ws_work_idle)

declare ws_settle.simps [simp del]

text \<open>Settling is a run of the step relation.\<close>

lemma ws_idle_step: "ws_idle c = Some (c', outs) \<Longrightarrow> ws_step junk cb c outs c'"
proof -
  have e: "(ws_on True True c)\<lparr>ws_posted := ts\<rparr> = ws_on True True (c\<lparr>ws_posted := ts\<rparr>)" for ts by (simp add: ws_on_def)
  show "ws_idle c = Some (c', outs) \<Longrightarrow> ws_step junk cb c outs c'"
    unfolding ws_idle_def Let_def e
    by (auto split: list.splits ws_task.splits if_splits intro: ws_step.intros)
qed

lemma ws_steps_pre: "ws_steps junk cb c1 o2 c2 \<Longrightarrow> ws_step junk cb c o1 c1 \<Longrightarrow> ws_steps junk cb c (o1 @ o2) c2"
proof (induction rule: ws_steps.induct)
  case (wsteps_none c1)
  then show ?case using wsteps_more [OF ws_steps.wsteps_none, of junk cb c o1 c1] by simp
next
  case (wsteps_more c1 outs c' outs' c'')
  then show ?case using ws_steps.wsteps_more [of junk cb c "o1 @ outs" c' outs' c''] by simp
qed

lemma ws_settle_steps: "ws_settle c = (c', outs) \<Longrightarrow> ws_steps junk cb c outs c'"
proof (induction c arbitrary: c' outs rule: ws_settle.induct)
  case (1 c)
  show ?case
  proof (cases "ws_idle c")
    case None
    then show ?thesis using 1(2) by (simp add: ws_settle.simps [of c] wsteps_none)
  next
    case (Some r)
    obtain c1 o1 where r: "r = (c1, o1)" by (cases r)
    obtain c2 o2 where s: "ws_settle c1 = (c2, o2)" by (cases "ws_settle c1")
    have "c' = c2" "outs = o1 @ o2" using 1(2) Some r s by (simp_all add: ws_settle.simps [of c])
    then show ?thesis using ws_steps_pre [OF 1(1) [OF Some r [symmetric] s] ws_idle_step] Some r by simp
  qed
qed

lemma ws_flags_eq: "ws_flags c = ws_flags c' \<longleftrightarrow> ws_handle c = ws_handle c' \<and> ws_uv_closing c = ws_uv_closing c' \<and>
    ws_closed c = ws_closed c' \<and> ws_closing c = ws_closing c' \<and> ws_caw c = ws_caw c' \<and> ws_writing c = ws_writing c' \<and>
    ws_inflight c = ws_inflight c' \<and> ws_posted c = ws_posted c' \<and> ws_uv_ok c = ws_uv_ok c'"
  by (auto simp: ws_flags_def)

lemma ws_write_result:
  assumes "ws_uv_ok c" and "ws_handle c" and "\<not> ws_uv_closing c"
  shows "(ws_queue (ws_process_write_queue c) = [] \<and> concat (ws_queue c) = [] \<and> ws_flags (ws_process_write_queue c) = ws_flags (if ws_caw c
        then c\<lparr>ws_writing := False, ws_caw := False, ws_closing := True, ws_uv_closing := True\<rparr> else c\<lparr>ws_writing := False\<rparr>)) \<or>
    (concat (ws_queue c) \<noteq> [] \<and> (\<exists>b. ws_flags (ws_process_write_queue c) = ws_flags (c\<lparr>ws_inflight := Some b\<rparr>)))"
  using assms
proof (induction "length (ws_queue c)" arbitrary: c rule: less_induct)
  case less
  have sp: "concat (ws_queue c) = concat (take 128 (ws_queue c)) @ concat (drop 128 (ws_queue c))"
    by (metis append_take_drop_id concat_append)
  show ?case
  proof (cases rule: ws_batch_cases [of c])
    case off
    then show ?thesis using less(3,4) by blast
  next
    case empty
    then show ?thesis by (auto simp: Let_def ws_do_close_def ws_flags_eq)
  next
    case (again c2)
    have f: "ws_handle c2 = ws_handle c" "ws_uv_closing c2 = ws_uv_closing c" "ws_caw c2 = ws_caw c" "ws_uv_ok c2 = ws_uv_ok c"
      using again(7) by (auto simp: ws_flags_eq)
    have "concat (ws_queue c) = concat (ws_queue c2)" using again(4,6) sp by simp
    moreover have "ws_flags (c2\<lparr>ws_inflight := Some b\<rparr>) = ws_flags (c\<lparr>ws_inflight := Some b\<rparr>)"
      "ws_flags (c2\<lparr>ws_writing := False\<rparr>) = ws_flags (c\<lparr>ws_writing := False\<rparr>)"
      "ws_flags (c2\<lparr>ws_writing := False, ws_caw := False, ws_closing := True, ws_uv_closing := True\<rparr>) =
       ws_flags (c\<lparr>ws_writing := False, ws_caw := False, ws_closing := True, ws_uv_closing := True\<rparr>)" for b
      using again(7) by (simp_all add: ws_flags_def)
    moreover have "length (ws_queue c2) < length (ws_queue c)" using again(3,6) by (cases "ws_queue c") simp_all
    ultimately show ?thesis using less(1) [of c2] less(2-4) f unfolding again(5) by (cases "ws_caw c") simp_all
  next
    case (batch c2)
    then have "ws_flags (ws_process_write_queue c) = ws_flags (c\<lparr>ws_inflight := Some (take 128 (ws_queue c))\<rparr>)"
      using less(2) by (simp add: ws_flags_def)
    then show ?thesis using batch(4) sp by auto
  qed
qed

definition ws_draining :: "'u ws \<Rightarrow> bool" where
  "ws_draining c \<longleftrightarrow> ws_inv c \<and> ws_caw c \<and> ws_pending c = 1"

definition ws_shutting :: "'u ws \<Rightarrow> bool" where
  "ws_shutting c \<longleftrightarrow> ws_handle c \<and> ws_uv_closing c \<and> ws_inflight c = None \<and> set (ws_posted c) \<subseteq> {WtStopRead} \<and> ws_queue c = []"

lemma ws_draining_on [simp]: "ws_draining (ws_on here uv_ok c) = ws_draining c"
  by (simp add: ws_draining_def ws_pending_def)

lemma ws_task_subset: "WtWrite \<notin> set ts \<Longrightarrow> WtClose \<notin> set ts \<Longrightarrow> set ts \<subseteq> {WtStopRead}"
proof
  fix t
  assume "WtWrite \<notin> set ts" "WtClose \<notin> set ts" "t \<in> set ts"
  then show "t \<in> {WtStopRead}" by (cases t) auto
qed

text \<open>The write queue of a connection that is to be closed runs: a write is in flight, or closing begins.\<close>

lemma ws_write_drains:
  assumes "ws_inv (ws_process_write_queue d)" and "ws_uv_ok d" "ws_handle d" "\<not> ws_uv_closing d" "ws_caw d" "ws_pending d = 0"
    and "WtClose \<notin> set (ws_posted d)"
  shows "ws_draining (ws_process_write_queue d) \<or> ws_shutting (ws_process_write_queue d)"
proof -
  have z: "count_list (ws_posted d) WtWrite = 0" "ws_inflight d = None" using assms(6) by (auto simp: ws_pending_def split: if_splits)
  have s: "set (ws_posted d) \<subseteq> {WtStopRead}" by (rule ws_task_subset) (use z assms(7) in \<open>simp_all add: count_list_0_iff\<close>)
  show ?thesis
    using ws_write_result [OF assms(2-4)]
  proof (elim disjE conjE exE)
    assume a: "ws_queue (ws_process_write_queue d) = []" "ws_flags (ws_process_write_queue d) = ws_flags (if ws_caw d
        then d\<lparr>ws_writing := False, ws_caw := False, ws_closing := True, ws_uv_closing := True\<rparr> else d\<lparr>ws_writing := False\<rparr>)"
    show ?thesis using a assms(3,5) z s by (simp add: ws_shutting_def ws_flags_eq)
  next
    fix b
    assume a: "ws_flags (ws_process_write_queue d) = ws_flags (d\<lparr>ws_inflight := Some b\<rparr>)"
    show ?thesis using a assms(1,5) z by (simp add: ws_draining_def ws_flags_eq ws_pending_def)
  qed
qed

lemma ws_draining_flags:
  assumes "ws_draining c"
  shows "ws_inv c" "ws_closed c" "\<not> ws_closing c" "ws_writing c" "ws_handle c" "\<not> ws_uv_closing c" "WtClose \<notin> set (ws_posted c)" "ws_pending c = 1"
    "ws_caw c"
  using assms by (auto simp: ws_draining_def ws_inv_def)

lemma ws_idle_draining:
  assumes d: "ws_draining c0"
  obtains c1 where "ws_idle c0 = Some (c1, [])" "ws_draining c1 \<or> ws_shutting c1" "ws_stream c1 = ws_stream c0"
proof -
  define c where "c = ws_on True True c0"
  have dc: "ws_draining c" using d by (simp add: c_def)
  have ok: "ws_uv_ok c" "ws_stream c = ws_stream c0" by (simp_all add: c_def)
  note i = ws_draining_flags [OF dc]
  have n: "ws_pending c \<noteq> 0" using i(8) by simp
  have run: "ws_draining (ws_process_write_queue x) \<or> ws_shutting (ws_process_write_queue x)"
    if "ws_pending x = 0" "set (ws_posted x) \<subseteq> set (ws_posted c)" "ws_flags x = ws_flags (c\<lparr>ws_posted := ws_posted x, ws_inflight := ws_inflight x\<rparr>)"
      "ws_qbytes x = ws_qbytes c" "ws_queue x = ws_queue c" for x
  proof (rule ws_write_drains)
    show "ws_inv (ws_process_write_queue x)"
      by (rule ws_inv_resume(1) [OF i(1) n that(1,2)]) (use that in \<open>simp_all add: ws_flags_eq\<close>)
  qed (use that i ok in \<open>auto simp: ws_flags_eq\<close>)
  show thesis
  proof (cases "ws_posted c")
    case Nil
    then have f: "ws_inflight c \<noteq> None" using i(8) by (auto simp: ws_pending_def split: if_splits)
    have "ws_draining (ws_process_write_queue (c\<lparr>ws_inflight := None\<rparr>)) \<or> ws_shutting (ws_process_write_queue (c\<lparr>ws_inflight := None\<rparr>))"
      by (rule run) (use Nil in \<open>simp_all add: ws_pending_def ws_flags_def\<close>)
    moreover have "ws_idle c0 = Some (ws_process_write_queue (c\<lparr>ws_inflight := None\<rparr>), [])"
      using Nil f by (simp add: ws_idle_def c_def [symmetric] ws_on_write_done_def Let_def)
    ultimately show thesis using that ok by simp
  next
    case (Cons t ts)
    consider "t = WtWrite" | "t = WtStopRead" | "t = WtClose" by (cases t) auto
    then show thesis
    proof cases
      case 1
      have "ws_draining (ws_process_write_queue (c\<lparr>ws_posted := ts\<rparr>)) \<or> ws_shutting (ws_process_write_queue (c\<lparr>ws_posted := ts\<rparr>))"
        by (rule run) (use Cons 1 i(8) in \<open>auto simp: ws_pending_def ws_flags_def split: if_splits\<close>)
      moreover have "ws_idle c0 = Some (ws_process_write_queue (c\<lparr>ws_posted := ts\<rparr>), [])"
        using Cons 1 by (simp add: ws_idle_def c_def [symmetric] Let_def)
      ultimately show thesis using that ok by simp
    next
      case 2
      have p: "ws_pending (c\<lparr>ws_posted := ts\<rparr>) = ws_pending c" using Cons 2 by (simp add: ws_pending_def)
      have "ws_inv (c\<lparr>ws_posted := ts\<rparr>)" using i(1) Cons 2 unfolding ws_inv_def p by auto
      then have "ws_draining (ws_stop_read (c\<lparr>ws_posted := ts\<rparr>))"
        using i(8,9) p by (simp add: ws_draining_def) (simp add: ws_pending_def ws_stop_read_def)
      moreover have "ws_idle c0 = Some (ws_stop_read (c\<lparr>ws_posted := ts\<rparr>), [])"
        using Cons 2 by (simp add: ws_idle_def c_def [symmetric] Let_def)
      ultimately show thesis using that ok by simp
    next
      case 3
      then show thesis using i(7) Cons by simp
    qed
  qed
qed

lemma ws_settle_shutting: "ws_shutting c \<Longrightarrow> ws_settle c = (c', outs) \<Longrightarrow> outs = [WoClosed] \<and> \<not> ws_handle c' \<and> ws_wire c' = ws_stream c"
proof (induction "length (ws_posted c)" arbitrary: c c' outs)
  case 0
  define c1 where "c1 = fst (ws_on_close_done (ws_on True True c))"
  have "ws_idle c = Some (c1, [WoClosed])" using 0 by (simp add: ws_idle_def ws_shutting_def ws_on_close_done_def c1_def Let_def)
  moreover have "ws_idle c1 = None" "\<not> ws_handle c1" "ws_wire c1 = ws_stream c"
    using 0 by (simp_all add: ws_idle_def ws_on_close_done_def ws_shutting_def c1_def ws_stream_def ws_wire_def ws_on_def Let_def)
  ultimately show ?case using 0(3) by (auto simp: ws_settle.simps [of c] ws_settle.simps [of c1])
next
  case (Suc n)
  obtain ts where p: "ws_posted c = WtStopRead # ts" using Suc(2,3) by (cases "ws_posted c") (auto simp: ws_shutting_def)
  define c1 where "c1 = ws_stop_read ((ws_on True True c)\<lparr>ws_posted := ts\<rparr>)"
  have c1: "ws_shutting c1" "n = length (ws_posted c1)" using Suc(2,3) p by (auto simp: ws_shutting_def c1_def ws_stop_read_def)
  have s: "ws_stream c1 = ws_stream c" by (simp add: c1_def)
  have "ws_idle c = Some (c1, [])" using p by (simp add: ws_idle_def c1_def Let_def)
  then have "ws_settle c1 = (c', outs)" using Suc(4) by (simp add: ws_settle.simps [of c] split: prod.splits)
  then show ?case using Suc(1) [OF c1(2) c1(1)] s by simp
qed

lemma ws_settle_draining: "ws_draining c \<or> ws_shutting c \<Longrightarrow> ws_settle c = (c', outs) \<Longrightarrow>
    outs = [WoClosed] \<and> ws_wire c' = ws_stream c \<and> \<not> ws_handle c'"
proof (induction c arbitrary: c' outs rule: ws_settle.induct)
  case (1 c)
  show ?case
  proof (cases "ws_shutting c")
    case True
    then show ?thesis using ws_settle_shutting [OF True 1(3)] by simp
  next
    case False
    then have "ws_draining c" using 1(2) by simp
    then obtain c1 where s: "ws_idle c = Some (c1, [])" "ws_draining c1 \<or> ws_shutting c1" "ws_stream c1 = ws_stream c" by (rule ws_idle_draining)
    obtain c2 o2 where r: "ws_settle c1 = (c2, o2)" by (cases "ws_settle c1")
    have e: "c' = c2" "outs = o2" using 1(3) s(1) r by (simp_all add: ws_settle.simps [of c])
    show ?thesis using 1(1) [OF s(1) refl s(2) r] s(3) unfolding e by simp
  qed
qed

text \<open>Both orderly closes lead there, whether they are called on the loop's thread or on another.\<close>

lemma ws_trigger_drains:
  assumes "ws_inv (ws_trigger_write d)" and "ws_uv_ok d" "ws_handle d" "\<not> ws_uv_closing d" "ws_caw d" "ws_closed d" "\<not> ws_closing d"
    and "WtClose \<notin> set (ws_posted d)" "\<not> ws_writing d \<longrightarrow> ws_pending d = 0" "ws_writing d \<longrightarrow> ws_pending d = 1"
  shows "ws_draining (ws_trigger_write d) \<or> ws_shutting (ws_trigger_write d)"
proof (cases "ws_writing d \<or> \<not> ws_here d")
  case True
  have "ws_caw (ws_trigger_write d)" "ws_pending (ws_trigger_write d) = 1"
    using True assms(5,9,10) by (auto simp: ws_trigger_write_def ws_post_def ws_pending_def split: if_splits)
  then show ?thesis using assms(1) by (simp add: ws_draining_def)
next
  case False
  then have e: "ws_trigger_write d = ws_process_write_queue (d\<lparr>ws_writing := True\<rparr>)" by (simp add: ws_trigger_write_def ws_post_def)
  show ?thesis unfolding e
    by (rule ws_write_drains) (use assms(1) [unfolded e] assms(2-9) False in \<open>simp_all add: ws_pending_def\<close>)
qed

lemma ws_draining_caw:
  assumes "ws_inv c" and "\<not> ws_closed c" and "ws_uv_ok c"
  shows "ws_draining (ws_close_after_write c) \<or> ws_shutting (ws_close_after_write c)"
proof -
  have n: "\<not> ws_closing c" "\<not> ws_caw c" "ws_handle c" "\<not> ws_uv_closing c" "WtClose \<notin> set (ws_posted c)"
    "\<not> ws_writing c \<longrightarrow> ws_pending c = 0" "ws_writing c \<longrightarrow> ws_pending c = 1"
    using assms by (auto simp: ws_inv_def)
  define d where "d = c\<lparr>ws_keep_alive := True, ws_closed := True, ws_caw := True\<rparr>"
  have e: "ws_close_after_write c = ws_trigger_write d" using n assms(2) by (simp add: ws_close_after_write_def d_def)
  show ?thesis unfolding e
    by (rule ws_trigger_drains) (use ws_inv_caw [OF assms(1), unfolded e] n assms(3) in \<open>simp_all add: d_def ws_pending_def\<close>)
qed

lemma ws_trigger_sends:
  assumes "ws_uv_ok d" "ws_handle d" "\<not> ws_uv_closing d" "concat (ws_queue d) \<noteq> []" "ws_writing d \<longrightarrow> ws_pending d = 1" "\<not> ws_writing d \<longrightarrow> ws_pending d = 0"
  shows "ws_closing (ws_trigger_write d) = ws_closing d" "ws_writing (ws_trigger_write d)" "ws_pending (ws_trigger_write d) = 1"
proof -
  define x where "x = d\<lparr>ws_writing := True\<rparr>"
  obtain b where b: "ws_flags (ws_process_write_queue x) = ws_flags (x\<lparr>ws_inflight := Some b\<rparr>)"
    using ws_write_result [of x] assms(1-4) by (auto simp: x_def)
  have z: "count_list (ws_posted d) WtWrite = 0" "ws_inflight d = None" if "\<not> ws_writing d"
    using assms(6) that by (auto simp: ws_pending_def split: if_splits)
  show "ws_closing (ws_trigger_write d) = ws_closing d" "ws_writing (ws_trigger_write d)" "ws_pending (ws_trigger_write d) = 1"
    using b assms(5) z by (auto simp: ws_trigger_write_def ws_post_def ws_flags_eq x_def ws_pending_def)
qed

lemma ws_draining_drain:
  assumes "ws_inv c" and "\<not> ws_closed c" and "ws_uv_ok c"
  shows "ws_draining (send_close_and_drain code c)"
    "ws_stream (send_close_and_drain code c) = ws_stream c @ encode_ws_close_frame code None 0"
proof -
  define fr where "fr = encode_ws_close_frame code None 0"
  have ne: "fr \<noteq> []" by (simp add: fr_def encode_ws_close_frame_def encode_ws_frame_def Let_def encode_ws_frame_header_def)
  have n: "\<not> ws_closing c" "\<not> ws_caw c" "ws_handle c" "\<not> ws_uv_closing c" "\<not> ws_writing c \<longrightarrow> ws_pending c = 0" "ws_writing c \<longrightarrow> ws_pending c = 1"
    using assms by (auto simp: ws_inv_def)
  define c1 where "c1 = c\<lparr>ws_queue := ws_queue c @ [fr], ws_qbytes := ws_qbytes c + length fr\<rparr>"
  define c2 where "c2 = (if ws_qbytes c1 > WS_MAX_WRITE_QUEUE_BYTES \<and> \<not> ws_paused c1
    then ws_post WtStopRead ws_stop_read (c1\<lparr>ws_paused := True\<rparr>) else c1)"
  have q: "queue_frame fr c = ws_trigger_write c2"
    using n assms(2) by (simp add: queue_frame_def queue_frame_parts_def Let_def c2_def c1_def)
  have c2: "ws_uv_ok c2" "ws_handle c2" "\<not> ws_uv_closing c2" "concat (ws_queue c2) \<noteq> []" "ws_writing c2 = ws_writing c"
    "ws_pending c2 = ws_pending c" "ws_closing c2 = ws_closing c"
    using n ne assms(3) by (auto simp: c2_def c1_def ws_post_def ws_stop_read_def ws_pending_def)
  have s: "\<not> ws_closing (queue_frame fr c)" "ws_writing (queue_frame fr c)" "ws_pending (queue_frame fr c) = 1"
    using ws_trigger_sends [OF c2(1-4)] c2(5-7) n unfolding q by simp_all
  have e: "send_close_and_drain code c = (queue_frame fr c)\<lparr>ws_closed := True, ws_caw := True\<rparr>"
    using n s assms(2) by (simp add: send_close_and_drain_def fr_def Let_def)
  show "ws_draining (send_close_and_drain code c)"
    using ws_inv_drain [OF assms(1), of code] s unfolding e by (simp add: ws_draining_def ws_pending_def)
  show "ws_stream (send_close_and_drain code c) = ws_stream c @ encode_ws_close_frame code None 0"
    unfolding e using ws_stream_frame [OF assms(2) n(1,3)] by (simp add: fr_def)
qed

lemma ws_reach_inv: "ws_init_from_accepted True now (ws_new u) = (True, c0) \<Longrightarrow> ws_steps junk cb c0 outs c \<Longrightarrow> ws_inv c"
  by (rule ws_inv_steps [OF _ ws_inv_start])

text \<open>C29: An orderly close of a WebSocket connection drains the queue: from any state an accepted connection can
  reach while it is open, after \<open>CloseAfterWrite\<close>, on whatever thread, or after \<open>SendCloseAndDrain\<close> with any close code
  (\<open>FailProtocol\<close>, the answer to a close frame), the loop's turns with successful writes put exactly the queued bytes on the
  wire, in order, after what was written before (followed by the close frame in the second case), and then the close
  callback runs, once, and the handle is gone. The loop comes to rest by itself: \<open>ws_settle\<close> is a total function and a
  run of the step relation.\<close>

theorem ws_drains_then_closes:
  assumes "ws_init_from_accepted True now (ws_new u) = (True, c0)" and "ws_steps junk cb c0 outs0 c" and "\<not> ws_closed c"
    and "(c1, tail) \<in> {(ws_close_after_write (ws_on here True c), []),
      (send_close_and_drain code (ws_on True True c), encode_ws_close_frame code None 0)}"
    and "ws_settle c1 = (c', outs)"
  shows "ws_steps junk cb c1 outs c' \<and> outs = [WoClosed] \<and> ws_wire c' = ws_wire c @ concat (ws_queue c) @ tail \<and> \<not> ws_handle c'"
proof -
  have i: "ws_inv (ws_on h True c)" "\<not> ws_closed (ws_on h True c)" "ws_uv_ok (ws_on h True c)" for h
    using ws_reach_inv [OF assms(1,2)] assms(3) by simp_all
  have "ws_draining c1 \<or> ws_shutting c1" "ws_stream c1 = ws_stream c @ tail"
    using assms(4) ws_draining_caw [OF i, of here] ws_draining_drain [OF i, where code = code] by auto
  then show ?thesis using ws_settle_draining [OF _ assms(5)] ws_settle_steps [OF assms(5)] by (simp add: ws_stream_def)
qed

section \<open>A drain that fails\<close>

definition ws_stuck :: "'u ws \<Rightarrow> bool" where
  "ws_stuck c \<longleftrightarrow> ws_closed c \<and> \<not> ws_closing c \<and> ws_handle c \<and> \<not> ws_uv_closing c \<and> ws_inflight c = None \<and>
     set (ws_posted c) \<subseteq> {WtStopRead}"

lemma ws_stuck_calls [simp]:
  assumes "ws_closed c" and "\<not> ws_closing c"
  shows "ws_close c = c" "ws_close_after_write c = c" "queue_frame_parts ps c = c" "queue_frame f c = c"
    "ws_exec_call k c = c" "send_close_and_drain code c = c" "check_liveness now c = c"
  using assms
  by (auto simp: ws_close_def ws_close_after_write_def queue_frame_parts_def queue_frame_def ws_exec_call_def ws_send_message_def
      ws_send_message_batch_def ws_send_frame_buffer_def ws_writable_def send_close_and_drain_def check_liveness_def
      split: ws_call.splits)

lemma ws_stuck_other [simp]:
  "ws_stuck (c\<lparr>ws_user := u\<rparr>) = ws_stuck c" "ws_stuck (c\<lparr>ws_activity := n\<rparr>) = ws_stuck c" "ws_stuck (c\<lparr>ws_buf := b\<rparr>) = ws_stuck c"
  "ws_stuck (c\<lparr>ws_hs_buf := b\<rparr>) = ws_stuck c" "ws_stuck (c\<lparr>ws_st := st\<rparr>) = ws_stuck c" "ws_stuck (c\<lparr>ws_frag := b\<rparr>) = ws_stuck c"
  "ws_stuck (c\<lparr>ws_frag_op := op\<rparr>) = ws_stuck c" "ws_stuck (c\<lparr>ws_fragmenting := x\<rparr>) = ws_stuck c"
  "ws_stuck (c\<lparr>ws_ping_out := x\<rparr>) = ws_stuck c" "ws_stuck (c\<lparr>ws_deadline := n\<rparr>) = ws_stuck c"
  "ws_stuck (c\<lparr>ws_reading := x\<rparr>) = ws_stuck c" "ws_stuck (ws_on here uv_ok c) = ws_stuck c"
  by (simp_all add: ws_stuck_def)

lemma ws_stuck_flags: "ws_stuck c \<Longrightarrow> ws_closed c \<and> \<not> ws_closing c"
  by (simp add: ws_stuck_def)

lemma ws_stuck_call: "ws_stuck c \<Longrightarrow> ws_stuck (ws_exec_call k c)"
  by (simp add: ws_stuck_flags)

lemma ws_stuck_deliver: "ws_stuck c \<Longrightarrow> deliver_message cb ty m c = (c', outs) \<Longrightarrow> ws_stuck c' \<and> WoClosed \<notin> set outs"
proof -
  assume a: "ws_stuck c" "deliver_message cb ty m c = (c', outs)"
  have "ws_stuck (foldl (\<lambda>c k. ws_exec_call k c) (c\<lparr>ws_user := u\<rparr>) calls)" for u calls
    by (rule foldl_invariant) (use a(1) in \<open>auto intro: ws_stuck_call\<close>)
  then show ?thesis using a by (auto simp: deliver_message_def split: option.splits prod.splits)
qed

lemma ws_stuck_turn: "ws_stuck c \<Longrightarrow> ws_turn cb now c = (again, c', outs) \<Longrightarrow> ws_stuck c' \<and> WoClosed \<notin> set outs"
proof -
  assume a: "ws_stuck c" "ws_turn cb now c = (again, c', outs)"
  have f: "ws_closed c" "\<not> ws_closing c" using a(1) by (auto dest: ws_stuck_flags)
  have d1: "deliver_message cb ty m (c\<lparr>ws_activity := n, ws_buf := b\<rparr>) = (c2, o2) \<Longrightarrow> ws_stuck c2 \<and> WoClosed \<notin> set o2" for ty m n b c2 o2
    by (rule ws_stuck_deliver [of "c\<lparr>ws_activity := n, ws_buf := b\<rparr>"]) (simp add: a(1))
  have d2: "deliver_message cb ty m (c\<lparr>ws_activity := n, ws_frag := [], ws_frag_op := 0, ws_fragmenting := False, ws_buf := b\<rparr>) = (c2, o2) \<Longrightarrow>
      ws_stuck c2 \<and> WoClosed \<notin> set o2" for ty m n b c2 o2
    by (rule ws_stuck_deliver [of "c\<lparr>ws_activity := n, ws_frag := [], ws_frag_op := 0, ws_fragmenting := False, ws_buf := b\<rparr>"])
      (simp add: a(1))
  then show ?thesis
    using a f d1 d2 unfolding ws_turn_def fail_protocol_def Let_def
    by (auto split: if_splits ws_head.splits prod.splits)
qed

lemma ws_stuck_frames: "ws_stuck c \<Longrightarrow> process_ws_frames cb now c = (c', outs) \<Longrightarrow> ws_stuck c' \<and> WoClosed \<notin> set outs"
proof (induction cb now c arbitrary: c' outs rule: process_ws_frames.induct)
  case (1 cb now c)
  obtain again c1 o1 where t: "ws_turn cb now c = (again, c1, o1)" by (cases "ws_turn cb now c")
  have i: "ws_stuck c1 \<and> WoClosed \<notin> set o1" by (rule ws_stuck_turn [OF 1(2) t])
  show ?case
  proof (cases again)
    case False
    then show ?thesis using 1(3) t i by (simp add: process_ws_frames.simps [of cb now c])
  next
    case True
    obtain c2 o2 where p: "process_ws_frames cb now c1 = (c2, o2)" by fastforce
    then have "ws_stuck c2 \<and> WoClosed \<notin> set o2" using 1(1) [OF t [symmetric] refl True _ p] i by simp
    then show ?thesis using 1(3) t p i True by (auto simp: process_ws_frames.simps [of cb now c])
  qed
qed

lemma ws_stuck_data: "ws_stuck c \<Longrightarrow> on_data_received junk cb now d c = (c', outs) \<Longrightarrow> ws_stuck c' \<and> WoClosed \<notin> set outs"
proof -
  assume a: "ws_stuck c" "on_data_received junk cb now d c = (c', outs)"
  have f: "ws_closed c" "\<not> ws_closing c" using a(1) by (auto dest: ws_stuck_flags)
  have h: "ws_stuck c1" if "process_handshake junk (c\<lparr>ws_hs_buf := b\<rparr>) = (ok, c1)" for b ok c1
    using that a(1) f by (auto simp: process_handshake_def Let_def split: option.splits if_splits)
  show ?thesis
  proof (cases "ws_st c = KHandshaking \<and> \<not> length (ws_hs_buf c) + length d > MAX_HANDSHAKE_BYTES")
    case True
    obtain ok c1 where p: "process_handshake junk (c\<lparr>ws_hs_buf := ws_hs_buf c @ d\<rparr>) = (ok, c1)" by fastforce
    have "ws_stuck (c1\<lparr>ws_buf := ws_buf c1 @ ws_hs_buf c1, ws_hs_buf := [], ws_st := KConnected, ws_activity := now\<rparr>)"
      using h [OF p] by simp
    then have g: "process_ws_frames cb now (c1\<lparr>ws_buf := ws_buf c1 @ ws_hs_buf c1, ws_hs_buf := [], ws_st := KConnected, ws_activity := now\<rparr>)
        = (c', outs) \<Longrightarrow> ws_stuck c' \<and> WoClosed \<notin> set outs" by (rule ws_stuck_frames)
    show ?thesis using a(2) True h [OF p] g by (cases ok) (auto simp: on_data_received_def p)
  next
    case False
    have "ws_stuck (c\<lparr>ws_buf := ws_buf c @ d\<rparr>)" using a(1) by simp
    then have g: "process_ws_frames cb now (c\<lparr>ws_buf := ws_buf c @ d\<rparr>) = (c', outs) \<Longrightarrow> ws_stuck c' \<and> WoClosed \<notin> set outs"
      by (rule ws_stuck_frames)
    show ?thesis using a f False g
      by (auto simp: on_data_received_def fail_protocol_def split: if_splits)
  qed
qed

lemma ws_stuck_step: "ws_step junk cb c outs c' \<Longrightarrow> ws_stuck c \<Longrightarrow> ws_stuck c' \<and> WoClosed \<notin> set outs"
proof (induction rule: ws_step.induct)
  case (wstep_call c k here uv_ok)
  then show ?case using ws_stuck_call [of "ws_on here uv_ok c" k] by simp
next
  case (wstep_read c now d uv_ok c' outs)
  then show ?case using ws_stuck_data [of "ws_on True uv_ok c" junk cb now d c' outs] by simp
next
  case (wstep_error c uv_ok)
  then show ?case by (simp add: ws_on_read_error_def ws_stuck_flags)
next
  case (wstep_timer c now uv_ok)
  then show ?case by (simp add: ws_stuck_flags)
qed (auto simp: ws_stuck_def ws_stop_read_def)

lemma ws_stuck_steps: "ws_steps junk cb c outs c' \<Longrightarrow> ws_stuck c \<Longrightarrow> ws_stuck c' \<and> WoClosed \<notin> set outs"
proof (induction rule: ws_steps.induct)
  case (wsteps_more c outs c' outs' c'')
  then show ?case using ws_stuck_step [OF wsteps_more(2)] by auto
qed simp

text \<open>C30: When the write of a drain fails, the connection is never closed: from any state an accepted connection can
  reach in which \<open>CloseAfterWrite\<close> or \<open>SendCloseAndDrain\<close> is waiting for the write queue and a write is in flight,
  if that write completes with an error, then \<open>OnWriteDone\<close> calls \<open>Close\<close>, which sees \<open>closed_\<close> already set and does
  nothing: whatever calls, reads, timer ticks and loop turns follow, \<open>uv_close\<close> is never called, the handle stays, and
  the close callback, with which the server forgets the connection, never runs.\<close>

theorem ws_drain_failure_leaks:
  assumes "ws_init_from_accepted True now (ws_new u) = (True, c0)" and "ws_steps junk cb c0 outs0 c" and "ws_caw c"
    and "ws_inflight c \<noteq> None" and "ws_steps junk cb (ws_on_write_done False (ws_on True uv_ok c)) outs c'"
  shows "ws_handle c' \<and> \<not> ws_uv_closing c' \<and> ws_closed c' \<and> WoClosed \<notin> set outs"
proof -
  have i: "ws_inv c" by (rule ws_reach_inv [OF assms(1,2)])
  have n: "ws_pending c \<noteq> 0" using assms(4) by (auto simp: ws_pending_def)
  have f: "ws_closed c" "\<not> ws_closing c" "ws_handle c" "\<not> ws_uv_closing c" "WtClose \<notin> set (ws_posted c)"
    using ws_inv_taken [OF i n] assms(3) by auto
  have z: "count_list (ws_posted c) WtWrite = 0" using ws_inv_taken(1) [OF i n] assms(4) by (auto simp: ws_pending_def)
  have "set (ws_posted c) \<subseteq> {WtStopRead}" by (rule ws_task_subset) (use f z in \<open>simp_all add: count_list_0_iff\<close>)
  then have "ws_stuck (ws_on_write_done False (ws_on True uv_ok c))" using f by (simp add: ws_on_write_done_def ws_stuck_def Let_def)
  then show ?thesis using ws_stuck_steps [OF assms(5)] by (auto simp: ws_stuck_def)
qed

end
