(* ===== verification/GM_WSDemo.thy ===== *)
theory GM_WSDemo
  imports GM_WSConnRead GM_WSConnWrite
begin

text \<open>
  Concrete runs of a WebSocket connection: the properties applied to examples, and a race between pausing and resuming.
\<close>

section \<open>Reading that never resumes\<close>

text \<open>A pause of reading that the end of a write overtakes: while a write is in flight and nothing else is queued,
  another thread queues a frame above the limit, so that reading is to be paused and the task that stops it is posted. When
  the write completes before the loop runs that task, the queue is taken whole and reading is resumed at once; the posted
  task then stops it, with \<open>read_paused_\<close> clear and the queue empty, so that no later write resumes it.\<close>

lemma ws_read_stalls:
  assumes "ws_handle c" "\<not> ws_closed c" "\<not> ws_closing c" "\<not> ws_caw c" "\<not> ws_uv_closing c" "ws_writing c"
    and "ws_inflight c \<noteq> None" "ws_posted c = []" "ws_queue c = []" "ws_qbytes c = 0" "\<not> ws_paused c" "ws_reading c"
    and "length d > WS_MAX_WRITE_QUEUE_BYTES"
  shows "\<exists>c'. ws_steps junk cb c [] c' \<and> ws_wire c' = ws_wire c @ d \<and> ws_handle c' \<and> \<not> ws_closed c' \<and> \<not> ws_uv_closing c' \<and>
    \<not> ws_reading c' \<and> \<not> ws_paused c' \<and> ws_queue c' = [] \<and> ws_posted c' = []"
proof -
  define c1 where "c1 = (ws_on False True c)\<lparr>ws_queue := [d], ws_qbytes := length d, ws_paused := True, ws_posted := [WtStopRead]\<rparr>"
  define c2 where "c2 = (ws_on True True c1)\<lparr>ws_queue := [], ws_qbytes := 0, ws_paused := False, ws_reading := True,
    ws_inflight := Some [d], ws_wrote := ws_wrote c @ [[d]]\<rparr>"
  define c3 where "c3 = ws_stop_read (ws_on True True (c2\<lparr>ws_posted := []\<rparr>))"
  have "ws_exec_call (WcSendFrame d) (ws_on False True c) = c1" using assms
    by (simp add: ws_exec_call_def ws_send_frame_buffer_def ws_writable_def queue_frame_def queue_frame_parts_def
        ws_trigger_write_def ws_post_def c1_def ws_on_def)
  then have s1: "ws_step junk cb c [] c1" by (metis wstep_call)
  have "d \<noteq> []" using assms(13) by (auto simp: WS_MAX_WRITE_QUEUE_BYTES_def)
  then have "ws_on_write_done True (ws_on True True c1) = c2" using assms
    by (simp add: ws_on_write_done_def ws_process_write_queue.simps c1_def c2_def WS_RESUME_THRESHOLD_def ws_on_def Let_def)
  then have s2: "ws_step junk cb c1 [] c2" using assms wstep_written [of c1 junk cb True True] by (simp add: c1_def)
  have s3: "ws_step junk cb c2 [] c3"
    unfolding c3_def by (rule wstep_stop_read) (simp add: c2_def c1_def)
  have "ws_steps junk cb c [] c3"
    using wsteps_more [OF wsteps_more [OF wsteps_more [OF wsteps_none s1] s2] s3] by simp
  then show ?thesis using assms by (intro exI [of _ c3]) (simp add: c3_def c2_def c1_def ws_stop_read_def ws_on_def ws_wire_def)
qed

section \<open>Examples\<close>

definition demo_ws :: "unit ws" where
  "demo_ws = snd (ws_init_from_accepted True 5 (ws_new ()))"

text \<open>Two frames are sent on the loop's thread: the first is written at once, the second waits for its completion.\<close>

definition demo_ws_queued :: "unit ws" where
  "demo_ws_queued = ws_exec_call (WcSendFrame [130, 1, 7]) (ws_on True True (ws_exec_call (WcSend MsgText [104, 105]) (ws_on True True demo_ws)))"

lemma demo_ws_start: "ws_init_from_accepted True 5 (ws_new ()) = (True, demo_ws)"
  by (simp add: demo_ws_def ws_init_from_accepted_def ws_new_def)

lemma demo_ws_steps: "ws_steps junk cb demo_ws [] demo_ws_queued"
  unfolding demo_ws_queued_def using wsteps_more [OF wsteps_more [OF wsteps_none wstep_call] wstep_call] by simp

lemmas demo_ws_defs = demo_ws_queued_def demo_ws_def ws_init_from_accepted_def ws_new_def ws_exec_call_def ws_send_message_def
  ws_send_frame_buffer_def ws_writable_def queue_frame_def queue_frame_parts_def ws_trigger_write_def ws_post_def message_parts_def
  type_opcode_def encode_ws_frame_header_def WS_MAX_WRITE_QUEUE_BYTES_def ws_process_write_queue.simps ws_on_def Let_def

lemma demo_ws_queued: "demo_ws_queued = demo_ws\<lparr>ws_queue := [[130, 1, 7]], ws_qbytes := 3, ws_writing := True,
    ws_inflight := Some [[129, 2], [104, 105]], ws_wrote := [[[129, 2], [104, 105]]]\<rparr>"
  by (simp add: demo_ws_defs opcode_defs)

lemma demo_ws_queue: "ws_wire demo_ws_queued = [129, 2, 104, 105]" "concat (ws_queue demo_ws_queued) = [130, 1, 7]"
    "\<not> ws_closed demo_ws_queued"
  by (simp_all add: demo_ws_queued ws_wire_def demo_ws_def ws_init_from_accepted_def ws_new_def)

text \<open>Then the close frame with code 1001.\<close>

lemma ws_drains_then_closes_witness:
  "\<exists>c'. ws_settle (send_close_and_drain 1001 (ws_on True True demo_ws_queued)) = (c', [WoClosed]) \<and>
     ws_wire c' = [129, 2, 104, 105] @ [130, 1, 7] @ encode_ws_close_frame 1001 None 0 \<and> \<not> ws_handle c'"
proof -
  obtain c' outs where r: "ws_settle (send_close_and_drain 1001 (ws_on True True demo_ws_queued)) = (c', outs)" by fastforce
  show ?thesis using ws_drains_then_closes [OF demo_ws_start demo_ws_steps demo_ws_queue(3) _ r, of
      "encode_ws_close_frame 1001 None 0" True 1001 "[]" None] r demo_ws_queue(1,2) by auto
qed

definition demo_ws_draining :: "unit ws" where
  "demo_ws_draining = ws_exec_call WcCloseAfterWrite (ws_on True True demo_ws_queued)"

lemma demo_ws_draining_eq: "demo_ws_draining = demo_ws_queued\<lparr>ws_keep_alive := True, ws_closed := True, ws_caw := True\<rparr>"
  by (simp add: demo_ws_draining_def ws_exec_call_def ws_close_after_write_def ws_trigger_write_def demo_ws_queued ws_on_def
      demo_ws_def ws_init_from_accepted_def ws_new_def)

lemma demo_ws_draining: "ws_steps junk cb demo_ws [] demo_ws_draining" "ws_caw demo_ws_draining" "ws_inflight demo_ws_draining \<noteq> None"
proof -
  from wsteps_more [OF demo_ws_steps wstep_call]
  show "ws_steps junk cb demo_ws [] demo_ws_draining" unfolding demo_ws_draining_def by simp
  show "ws_caw demo_ws_draining" "ws_inflight demo_ws_draining \<noteq> None"
    by (simp_all add: demo_ws_draining_eq demo_ws_queued)
qed

lemma ws_drain_failure_leaks_witness:
  "\<exists>c1 c'. c1 = ws_on_write_done False (ws_on True True demo_ws_draining) \<and> c' = check_liveness 500000 (ws_on True True (ws_close (ws_on True True c1))) \<and>
     ws_handle c' \<and> \<not> ws_uv_closing c' \<and> ws_closed c'"
proof -
  define c1 where "c1 = ws_on_write_done False (ws_on True True demo_ws_draining)"
  define c2 where "c2 = ws_close (ws_on True True c1)"
  have "ws_timer c2"
    by (simp add: c2_def c1_def ws_on_write_done_def ws_close_def demo_ws_draining_eq demo_ws_queued ws_on_def
        demo_ws_def ws_init_from_accepted_def ws_new_def)
  moreover have "ws_step [] None c1 [] c2" using wstep_call [of "[]" None c1 WcClose True True] by (simp add: c2_def ws_exec_call_def)
  ultimately have "ws_steps [] None c1 [] (check_liveness 500000 (ws_on True True c2))"
    using wsteps_more [OF wsteps_more [OF wsteps_none] wstep_timer] by fastforce
  from ws_drain_failure_leaks [OF demo_ws_start demo_ws_draining(1-3), of "[]" None True, folded c1_def, OF this]
  show ?thesis by (intro exI [of _ c1] exI [of _ "check_liveness 500000 (ws_on True True c2)"]) (simp add: c1_def [symmetric] c2_def [symmetric])
qed

text \<open>A text message in two fragments with a ping in between, and an empty binary message, read byte by byte. The pong is
  written at once.\<close>

definition demo_sent :: "sent list" where
  "demo_sent = [SentMessage MsgText [1, 2, 3, 4] [104] [([(True, [9, 8, 7, 6], [5])], [0, 0, 0, 1], [105])],
     SentMessage MsgBinary [4, 3, 2, 1] [] []]"

lemma demo_sent_bytes: "sent_bytes demo_sent =
    [1, 129, 1, 2, 3, 4, 105, 137, 129, 9, 8, 7, 6, 12, 128, 129, 0, 0, 0, 1, 105, 130, 128, 4, 3, 2, 1]"
  by (simp add: sent_bytes_def demo_sent_def client_bytes_def wire_frame_def wire_header_def wire_extended_def wire_length_def
      control_frame_def opcode_defs type_opcode_def unmask_ws_payload_def)

lemma ws_messages_arrive_witness:
  "\<exists>c' outs. on_data_list [] (Some (\<lambda>u ty m. (u, []))) [(0, sent_bytes demo_sent)] (demo_ws\<lparr>ws_st := KConnected\<rparr>) =
      (c', outs) \<and> ws_st c' = KConnected \<and> ws_reading c' \<and> messages outs = [(MsgText, [104, 105]), (MsgBinary, [])]"
proof -
  define cb :: "unit ws_callback" where "cb = Some (\<lambda>u ty m. (u, []))"
  obtain c' outs where r: "on_data_list [] cb [(0, sent_bytes demo_sent)] (demo_ws\<lparr>ws_st := KConnected\<rparr>) = (c', outs)" by fastforce
  have t: "ws_st c' = KConnected \<and> ws_reading c'"
    using r by (simp add: demo_sent_bytes cb_def demo_ws_defs on_data_received_def process_ws_frames.simps ws_turn_def ws_header_def head_length_def opcode_defs
      is_known_opcode_def is_control_def is_message_opcode_def MAX_MESSAGE_BYTES_def WS_MAX_READ_BUF_BYTES_def deliver_message_def unmask_ws_payload_def
      encode_ws_pong_frame_def encode_ws_frame_def to_message_type_def) auto
  have "messages outs = concat (map sent_messages demo_sent)"
  proof -
    have "list_all sent_ok demo_sent" by (simp add: demo_sent_def control_ok_def fragment_ok_def rest_data_def)
    moreover have "length (sent_bytes demo_sent) \<le> 33554432" by (simp add: demo_sent_bytes)
    ultimately show ?thesis
      using ws_messages_arrive [where junk = "[]" and f = "\<lambda>u ty m. (u, [])" and ss = demo_sent, OF _ _ _ _ _ r [unfolded cb_def]] t
      by (simp add: demo_ws_def ws_init_from_accepted_def ws_new_def rproj_def)
  qed
  then show ?thesis using r t unfolding cb_def by (simp add: demo_sent_def rest_data_def)
qed

end
