(* ===== verification/GM_EventLoop.thy ===== *)
theory GM_EventLoop
  imports GM_Prelude
begin

text \<open>
  The event loop (\<open>net/async/event_loop.hpp\<close>, \<open>event_loop.cpp\<close>): tasks that any thread may post, run by the thread
  of the loop. A post on that thread runs the task before it returns; on any other it is queued and the loop is
  woken. The locks of the code make each operation one step. \<open>uv_async_send\<close> is the flag \<open>lp_woken\<close>: libuv calls
  \<open>OnAsyncWake\<close> at least once after it, and clears the flag before it does.
\<close>

text \<open>A task has a name and posts tasks itself while it runs.\<close>

datatype task = Task (task_name: nat) (task_posts: "task list")

record event_loop =
  lp_ready :: bool
  lp_tid :: "nat option"
  lp_running :: bool
  lp_stopping :: bool
  lp_stopped :: bool
  lp_tasks :: "task list"
  lp_woken :: bool
  lp_ran :: "nat list"

definition loop_new :: event_loop where
  "loop_new = \<lparr>lp_ready = False, lp_tid = None, lp_running = False, lp_stopping = False, lp_stopped = False, lp_tasks = [],
     lp_woken = False, lp_ran = []\<rparr>"

definition loop_init :: "bool \<Rightarrow> bool \<Rightarrow> event_loop \<Rightarrow> bool \<times> event_loop" where
  "loop_init loop_ok async_ok s =
     (if lp_ready s then (True, s)
      else if \<not> loop_ok then (False, s)
      else if \<not> async_ok then (False, s)
      else (True, s\<lparr>lp_ready := True\<rparr>))"

definition loop_run :: "nat \<Rightarrow> event_loop \<Rightarrow> event_loop" where
  "loop_run tid s =
     (if \<not> lp_ready s then s
      else s\<lparr>lp_tid := Some tid, lp_stopping := False, lp_running := True, lp_stopped := False\<rparr>)"

definition loop_return :: "event_loop \<Rightarrow> event_loop" where
  "loop_return s = s\<lparr>lp_running := False\<rparr>"

definition loop_stop :: "event_loop \<Rightarrow> event_loop" where
  "loop_stop s = s\<lparr>lp_stopping := True, lp_woken := lp_woken s \<or> lp_ready s\<rparr>"

definition is_in_loop_thread :: "nat \<Rightarrow> event_loop \<Rightarrow> bool" where
  "is_in_loop_thread tid s \<longleftrightarrow> lp_tid s = Some tid"

text \<open>Running a task on the thread of the loop: what it posts runs at once, in the middle of it.\<close>

fun run_task :: "task \<Rightarrow> event_loop \<Rightarrow> event_loop" where
  "run_task (Task n ps) s = fold run_task ps (s\<lparr>lp_ran := lp_ran s @ [n]\<rparr>)"

definition loop_post :: "nat \<Rightarrow> task \<Rightarrow> event_loop \<Rightarrow> event_loop" where
  "loop_post tid t s =
     (if is_in_loop_thread tid s then run_task t s
      else s\<lparr>lp_tasks := lp_tasks s @ [t], lp_woken := lp_woken s \<or> lp_ready s\<rparr>)"

definition on_async_wake :: "event_loop \<Rightarrow> event_loop" where
  "on_async_wake s =
     (let s1 = fold run_task (lp_tasks s) (s\<lparr>lp_tasks := []\<rparr>)
      in if lp_stopping s1 then s1\<lparr>lp_stopped := True\<rparr> else s1)"

text \<open>The steps: other threads post and stop, the thread of the loop runs it and is woken. The names of the tasks posted
  by other threads, with those of the tasks they post in turn, are recorded.\<close>

fun names :: "task \<Rightarrow> nat list" where
  "names (Task n ps) = n # concat (map names ps)"

inductive loop_steps :: "nat \<Rightarrow> event_loop \<Rightarrow> task list \<Rightarrow> bool" for tid where
  ls_init: "loop_init True True loop_new = (True, s) \<Longrightarrow> loop_steps tid s []"
| ls_run: "loop_steps tid s ts \<Longrightarrow> \<not> lp_running s \<Longrightarrow> loop_steps tid (loop_run tid s) ts"
| ls_return: "loop_steps tid s ts \<Longrightarrow> lp_running s \<Longrightarrow> lp_stopped s \<Longrightarrow> loop_steps tid (loop_return s) ts"
| ls_post: "loop_steps tid s ts \<Longrightarrow> thread \<noteq> tid \<Longrightarrow> loop_steps tid (loop_post thread t s) (ts @ [t])"
| ls_stop: "loop_steps tid s ts \<Longrightarrow> loop_steps tid (loop_stop s) ts"
| ls_wake: "loop_steps tid s ts \<Longrightarrow> lp_running s \<Longrightarrow> \<not> lp_stopped s \<Longrightarrow> lp_woken s \<Longrightarrow>
    loop_steps tid (on_async_wake (s\<lparr>lp_woken := False\<rparr>)) ts"

section \<open>Tasks run once, in order\<close>

lemma run_task_names: "run_task t s = s\<lparr>lp_ran := lp_ran s @ names t\<rparr>"
proof (induction t arbitrary: s)
  case (Task n ps)
  have "fold run_task qs x = x\<lparr>lp_ran := lp_ran x @ concat (map names qs)\<rparr>" if "set qs \<subseteq> set ps" for qs x
    using that by (induction qs arbitrary: x) (simp_all add: Task)
  then show ?case by simp
qed

lemma fold_run_names: "fold run_task ts s = s\<lparr>lp_ran := lp_ran s @ concat (map names ts)\<rparr>"
  by (induction ts arbitrary: s) (simp_all add: run_task_names)

definition loop_inv :: "nat \<Rightarrow> event_loop \<Rightarrow> task list \<Rightarrow> bool" where
  "loop_inv tid s ts \<longleftrightarrow> lp_ready s \<and> lp_tid s \<in> {None, Some tid} \<and>
     concat (map names ts) = lp_ran s @ concat (map names (lp_tasks s)) \<and> (lp_tasks s \<noteq> [] \<longrightarrow> lp_woken s)"

lemma loop_steps_inv: "loop_steps tid s ts \<Longrightarrow> loop_inv tid s ts"
proof (induction rule: loop_steps.induct)
  case (ls_post s ts thread t)
  then show ?case by (auto simp: loop_inv_def loop_post_def is_in_loop_thread_def)
next
  case (ls_wake s ts)
  then show ?case by (simp add: loop_inv_def on_async_wake_def fold_run_names Let_def)
qed (auto simp: loop_inv_def loop_init_def loop_new_def loop_run_def loop_return_def loop_stop_def split: if_splits)

text \<open>C34: tasks posted from other threads run on the thread of the loop exactly once, in the order in which they were posted,
  each with the tasks it posts in turn; a task still queued always has a wake-up coming, after which nothing that was posted is
  left; and a task posted on the thread of the loop has run when the post returns, without passing the queue.\<close>

theorem posted_tasks_run_once:
  assumes "loop_steps tid s ts"
  shows "concat (map names ts) = lp_ran s @ concat (map names (lp_tasks s)) \<and> (lp_tasks s \<noteq> [] \<longrightarrow> lp_woken s) \<and>
    lp_ran (on_async_wake s) = concat (map names ts) \<and> lp_tasks (on_async_wake s) = [] \<and>
    (lp_tid s = Some tid \<longrightarrow> loop_post tid t s = s\<lparr>lp_ran := lp_ran s @ names t\<rparr>)"
  using loop_steps_inv [OF assms]
  by (simp add: loop_inv_def on_async_wake_def fold_run_names loop_post_def is_in_loop_thread_def run_task_names Let_def)

text \<open>A stop that comes before the loop is run is lost: \<open>Run\<close> clears the flag.\<close>

lemma early_stop_lost: "lp_ready s \<Longrightarrow> \<not> lp_stopping (loop_run tid (loop_stop s))"
  by (simp add: loop_run_def loop_stop_def)

lemma posted_tasks_run_once_witness:
  "\<exists>s. loop_steps 1 s [Task 7 [Task 8 []], Task 9 []] \<and> lp_ran (on_async_wake s) = [7, 8, 9]"
proof -
  define s where "s = loop_post 3 (Task 9 []) (loop_post 2 (Task 7 [Task 8 []]) (loop_run 1 (loop_new\<lparr>lp_ready := True\<rparr>)))"
  have "loop_steps 1 (loop_new\<lparr>lp_ready := True\<rparr>) []" by (rule ls_init) (simp add: loop_init_def loop_new_def)
  then have "loop_steps 1 (loop_run 1 (loop_new\<lparr>lp_ready := True\<rparr>)) []" by (rule ls_run) (simp add: loop_new_def)
  from ls_post [OF ls_post [OF this, of 2 "Task 7 [Task 8 []]"], of 3 "Task 9 []"]
  have s: "loop_steps 1 s [Task 7 [Task 8 []], Task 9 []]" by (simp add: s_def)
  show ?thesis using posted_tasks_run_once [OF s] s by (intro exI [of _ s]) simp
qed

end
