(* ===== verification/GM_RpcClient.thy ===== *)
theory GM_RpcClient
  imports GM_Packet "HOL-Library.AList"
begin

text \<open>
  The RPC client (\<open>rpc/client.hpp\<close>, \<open>client.cpp\<close>): calls with a sequence number each, answers that complete them, and the
  thread that is to complete the late ones with an error. A future is the number of its call, and what it gets is
  entered into \<open>rpc_results\<close>. The connection is the application's; whether it takes a packet is an argument, and deadlines are.

  The mutex of the deadlines is part of the state, because the timeout thread keeps it between its turns: a call that wants
  to store its deadline, and the destructor, wait until \<open>rpc_locked\<close> is clear. The other mutex is held within single
  operations only.
\<close>

type_synonym rpc_packet = "packet_header \<times> bytes"

datatype rpc_result = RpcAnswer rpc_packet | RpcTimeout | RpcDestroyed | RpcBroken | RpcSendFailed

text \<open>Where the timeout thread is: before it has taken the mutex, at the head of its loop, waiting for a deadline to be
  stored, past the loop, and finished.\<close>

datatype timeout_place = TlStart | TlTop | TlAsleep | TlExit | TlGone

record rpc =
  rpc_conn :: bool
  rpc_seq :: u32
  rpc_pending :: "(u32 \<times> nat) list"
  rpc_calls :: nat
  rpc_results :: "(nat \<times> rpc_result) list"
  rpc_entering :: "(nat \<times> u32) list"
  rpc_timeouts :: "(nat \<times> u32) list"
  rpc_stop :: bool
  rpc_place :: timeout_place
  rpc_locked :: bool

definition rpc_new :: "bool \<Rightarrow> rpc" where
  "rpc_new conn = \<lparr>rpc_conn = conn, rpc_seq = 0, rpc_pending = [], rpc_calls = 0, rpc_results = [], rpc_entering = [],
     rpc_timeouts = [], rpc_stop = False, rpc_place = TlStart, rpc_locked = False\<rparr>"

definition rpc_set_conn :: "bool \<Rightarrow> rpc \<Rightarrow> rpc" where
  "rpc_set_conn conn s = s\<lparr>rpc_conn := conn\<rparr>"

text \<open>Fulfilling the promise of a pending call.\<close>

definition rpc_complete :: "u32 \<Rightarrow> rpc_result \<Rightarrow> rpc \<Rightarrow> rpc" where
  "rpc_complete seq r s =
     (case map_of (rpc_pending s) seq of None \<Rightarrow> s
      | Some call \<Rightarrow> s\<lparr>rpc_results := rpc_results s @ [(call, r)], rpc_pending := AList.delete seq (rpc_pending s)\<rparr>)"

definition rpc_on_packet :: "rpc_packet \<Rightarrow> rpc \<Rightarrow> rpc" where
  "rpc_on_packet pkt s = (if ph_seq (fst pkt) = 0 then s else rpc_complete (ph_seq (fst pkt)) (RpcAnswer pkt) s)"

definition rpc_request :: "flag \<Rightarrow> u32 \<Rightarrow> u32 \<Rightarrow> bytes \<Rightarrow> rpc_packet" where
  "rpc_request fl cmd seq payload =
     (default_header\<lparr>ph_length := HEADER_SIZE + of_nat (length payload), ph_magic := MAGIC_VALUE, ph_cmd := cmd, ph_seq := seq,
        ph_flags := flag_bit fl\<rparr>, payload)"

text \<open>\<open>Call\<close> up to where it needs the mutex of the deadlines. A sequence number that is still pending, after \<open>2 ^ 32\<close> calls,
  loses its promise: the old future is broken.\<close>

definition rpc_begin_call :: "u32 \<Rightarrow> bytes \<Rightarrow> nat option \<Rightarrow> bool \<Rightarrow> rpc \<Rightarrow> rpc \<times> rpc_packet list" where
  "rpc_begin_call cmd payload deadline sent s =
     (let seq = rpc_seq s + 1; call = rpc_calls s;
          s1 = rpc_complete seq RpcBroken (s\<lparr>rpc_seq := seq, rpc_calls := call + 1\<rparr>);
          s2 = s1\<lparr>rpc_pending := AList.update seq call (rpc_pending s1)\<rparr>;
          out = (if rpc_conn s2 then [rpc_request FlagRpcReq cmd seq payload] else [])
      in if \<not> rpc_conn s2 \<or> \<not> sent then (rpc_complete seq RpcSendFailed s2, out)
         else case deadline of None \<Rightarrow> (s2, out) | Some d \<Rightarrow> (s2\<lparr>rpc_entering := rpc_entering s2 @ [(d, seq)]\<rparr>, out))"

text \<open>\<open>timeouts_[deadline] = seq\<close>: the map is ordered by deadlines and has one entry for each.\<close>

definition rpc_end_call :: "nat \<times> u32 \<Rightarrow> rpc \<Rightarrow> rpc" where
  "rpc_end_call x s = s\<lparr>rpc_entering := remove1 x (rpc_entering s),
     rpc_timeouts := insort_key fst x (filter (\<lambda>y. fst y \<noteq> fst x) (rpc_timeouts s))\<rparr>"

definition rpc_fire_forget :: "u32 \<Rightarrow> bytes \<Rightarrow> bool \<Rightarrow> rpc \<Rightarrow> bool \<times> rpc_packet list" where
  "rpc_fire_forget cmd payload sent s =
     (if rpc_conn s then (sent, [rpc_request FlagRpcFf cmd 0 payload]) else (False, []))"

definition timeout_cleanup :: "u32 \<Rightarrow> rpc \<Rightarrow> rpc" where
  "timeout_cleanup seq s = rpc_complete seq RpcTimeout s"

text \<open>One turn of \<open>TimeoutLoop\<close>; \<open>None\<close> when the thread sleeps. \<open>wait\<close> and \<open>wait_until\<close> with a predicate return true
  at once when the predicate holds; only otherwise do they give up the mutex, and \<open>wait_until\<close> returns false when the deadline
  has passed with the predicate still false.\<close>

definition deadline_passed :: "rpc \<Rightarrow> rpc" where
  "deadline_passed s = (case rpc_timeouts s of [] \<Rightarrow> s | (d, seq) # rest \<Rightarrow> timeout_cleanup seq (s\<lparr>rpc_timeouts := rest\<rparr>))"

definition timeout_turn :: "rpc \<Rightarrow> rpc option" where
  "timeout_turn s =
     (let wake = rpc_stop s \<or> rpc_timeouts s \<noteq> []
      in case rpc_place s of
        TlStart \<Rightarrow> Some (s\<lparr>rpc_place := TlTop, rpc_locked := True\<rparr>)
      | TlTop \<Rightarrow>
          (if rpc_stop s then Some (s\<lparr>rpc_place := TlExit, rpc_locked := False\<rparr>)
           else if rpc_timeouts s = []
           then (if wake then Some s else Some (s\<lparr>rpc_place := TlAsleep, rpc_locked := False\<rparr>))
           else if wake
           then (if rpc_stop s then Some (s\<lparr>rpc_place := TlExit, rpc_locked := False\<rparr>) else Some s)
           else Some (deadline_passed s))
      | TlAsleep \<Rightarrow> (if wake then Some (s\<lparr>rpc_place := TlTop, rpc_locked := True\<rparr>) else None)
      | TlExit \<Rightarrow> Some ((fold timeout_cleanup (map snd (rpc_timeouts s)) s)\<lparr>rpc_place := TlGone\<rparr>)
      | TlGone \<Rightarrow> None)"

text \<open>The destructor: it sets the flag under the mutex, joins the thread and breaks what is still pending.\<close>

definition rpc_begin_destroy :: "rpc \<Rightarrow> rpc" where
  "rpc_begin_destroy s = s\<lparr>rpc_stop := True\<rparr>"

definition rpc_end_destroy :: "rpc \<Rightarrow> rpc" where
  "rpc_end_destroy s = s\<lparr>rpc_results := rpc_results s @ map (\<lambda>(seq, call). (call, RpcDestroyed)) (rpc_pending s), rpc_pending := []\<rparr>"

inductive rpc_step :: "rpc \<Rightarrow> rpc \<Rightarrow> bool" where
  rs_call: "\<not> rpc_stop s \<Longrightarrow> rpc_begin_call cmd payload deadline sent s = (s', outs) \<Longrightarrow> rpc_step s s'"
| rs_entered: "x \<in> set (rpc_entering s) \<Longrightarrow> \<not> rpc_locked s \<Longrightarrow> rpc_step s (rpc_end_call x s)"
| rs_packet: "rpc_step s (rpc_on_packet pkt s)"
| rs_conn: "rpc_step s (rpc_set_conn conn s)"
| rs_thread: "timeout_turn s = Some s' \<Longrightarrow> rpc_step s s'"
| rs_destroy: "\<not> rpc_locked s \<Longrightarrow> rpc_step s (rpc_begin_destroy s)"
| rs_joined: "rpc_stop s \<Longrightarrow> rpc_place s = TlGone \<Longrightarrow> rpc_step s (rpc_end_destroy s)"

inductive rpc_steps :: "rpc \<Rightarrow> rpc \<Rightarrow> bool" where
  rss_none: "rpc_steps s s"
| rss_more: "rpc_steps s s' \<Longrightarrow> rpc_step s' s'' \<Longrightarrow> rpc_steps s s''"

section \<open>Answers reach their calls\<close>

definition own_answer :: "nat \<times> rpc_result \<Rightarrow> bool" where
  "own_answer x = (case snd x of RpcAnswer pkt \<Rightarrow> ph_seq (fst pkt) = of_nat (fst x + 1) | _ \<Rightarrow> True)"

lemma own_answer_other: "\<forall>pkt. r \<noteq> RpcAnswer pkt \<Longrightarrow> own_answer (call, r)"
  by (cases r) (simp_all add: own_answer_def)

definition rpc_inv :: "rpc \<Rightarrow> bool" where
  "rpc_inv s \<longleftrightarrow> rpc_seq s = of_nat (rpc_calls s) \<and> distinct (map fst (rpc_pending s)) \<and>
     distinct (map snd (rpc_pending s) @ map fst (rpc_results s)) \<and>
     set (map snd (rpc_pending s) @ map fst (rpc_results s)) = {..<rpc_calls s} \<and>
     (\<forall>(seq, call) \<in> set (rpc_pending s). seq = of_nat (call + 1)) \<and>
     list_all own_answer (rpc_results s)"

text \<open>Completing a call moves it from the pending ones to the results.\<close>

lemma delete_split:
  assumes "map_of al k = Some v" and "distinct (map fst al)"
  shows "\<exists>xs ys. al = xs @ (k, v) # ys \<and> AList.delete k al = xs @ ys"
proof -
  obtain xs ys where al: "al = xs @ (k, v) # ys" using map_of_SomeD [OF assms(1)] by (auto dest: split_list)
  have "k \<notin> fst ` set xs" "k \<notin> fst ` set ys" using assms(2) al by auto
  then have "AList.delete k xs = xs" "AList.delete k ys = ys" by (simp_all add: delete_id)
  then show ?thesis using al by (intro exI [of _ xs] exI [of _ ys]) (simp add: AList.delete_eq)
qed

lemma update_new: "map_of al k = None \<Longrightarrow> AList.update k v al = al @ [(k, v)]"
  by (induction al) (auto split: if_splits)

lemma rpc_inv_complete:
  assumes "rpc_inv s" and "\<And>pkt. r = RpcAnswer pkt \<Longrightarrow> ph_seq (fst pkt) = seq"
  shows "rpc_inv (rpc_complete seq r s)" "map_of (rpc_pending (rpc_complete seq r s)) seq = None"
    "rpc_calls (rpc_complete seq r s) = rpc_calls s" "rpc_seq (rpc_complete seq r s) = rpc_seq s"
proof -
  show "rpc_calls (rpc_complete seq r s) = rpc_calls s" "rpc_seq (rpc_complete seq r s) = rpc_seq s"
    by (simp_all add: rpc_complete_def split: option.split)
  show "map_of (rpc_pending (rpc_complete seq r s)) seq = None"
    by (auto simp: rpc_complete_def delete_conv split: option.split)
  show "rpc_inv (rpc_complete seq r s)"
  proof (cases "map_of (rpc_pending s) seq")
    case None
    then show ?thesis using assms(1) by (simp add: rpc_complete_def)
  next
    case (Some call)
    obtain xs ys where p: "rpc_pending s = xs @ (seq, call) # ys" "AList.delete seq (rpc_pending s) = xs @ ys"
      using delete_split [OF Some] assms(1) by (auto simp: rpc_inv_def)
    have "seq = of_nat (call + 1)" using assms(1) p(1) by (auto simp: rpc_inv_def)
    then have "own_answer (call, r)" using assms(2) by (cases r) (auto simp: own_answer_def)
    then show ?thesis using assms(1) Some p by (auto simp: rpc_inv_def rpc_complete_def)
  qed
qed

lemma rpc_inv_call:
  assumes "rpc_inv s" and "rpc_begin_call cmd payload deadline sent s = (s', outs)"
  shows "rpc_inv s'"
proof -
  define seq where "seq = rpc_seq s + 1"
  define s1 where "s1 = rpc_complete seq RpcBroken s"
  define s2 where "s2 = s1\<lparr>rpc_seq := seq, rpc_calls := rpc_calls s + 1, rpc_pending := AList.update seq (rpc_calls s) (rpc_pending s1)\<rparr>"
  have i1: "rpc_inv s1" "map_of (rpc_pending s1) seq = None" "rpc_calls s1 = rpc_calls s" "rpc_seq s1 = rpc_seq s"
    unfolding s1_def by (rule rpc_inv_complete [OF assms(1)]; simp)+
  have u: "AList.update seq (rpc_calls s) (rpc_pending s1) = rpc_pending s1 @ [(seq, rpc_calls s)]"
    by (rule update_new [OF i1(2)])
  have n: "seq \<notin> fst ` set (rpc_pending s1)" using i1(2) by (simp add: map_of_eq_None_iff)
  have sq: "seq = of_nat (rpc_calls s + 1)" using assms(1) by (simp add: seq_def rpc_inv_def)
  have "rpc_calls s \<notin> set (map snd (rpc_pending s1) @ map fst (rpc_results s1))" using i1(1,3) by (simp add: rpc_inv_def)
  then have i2: "rpc_inv s2" using i1(1,3) n sq u by (auto simp: rpc_inv_def s2_def lessThan_Suc)
  have e: "(rpc_complete seq RpcBroken (s\<lparr>rpc_seq := seq, rpc_calls := Suc (rpc_calls s)\<rparr>))
      \<lparr>rpc_pending := AList.update seq (rpc_calls s) (rpc_pending (rpc_complete seq RpcBroken (s\<lparr>rpc_seq := seq, rpc_calls := Suc (rpc_calls s)\<rparr>)))\<rparr> = s2"
    by (simp add: s2_def s1_def rpc_complete_def split: option.split)
  have "rpc_inv (rpc_complete seq RpcSendFailed s2)" by (rule rpc_inv_complete(1) [OF i2]) simp
  moreover have "rpc_inv (s2\<lparr>rpc_entering := en\<rparr>)" for en using i2 by (simp add: rpc_inv_def)
  ultimately show ?thesis using assms(2) i2 e
    by (auto simp: rpc_begin_call_def seq_def [symmetric] Let_def split: if_splits option.splits)
qed

lemma rpc_inv_update [simp]:
  "rpc_inv (s\<lparr>rpc_timeouts := ts\<rparr>) = rpc_inv s" "rpc_inv (s\<lparr>rpc_entering := en\<rparr>) = rpc_inv s" "rpc_inv (s\<lparr>rpc_stop := b\<rparr>) = rpc_inv s"
  "rpc_inv (s\<lparr>rpc_place := pl\<rparr>) = rpc_inv s" "rpc_inv (s\<lparr>rpc_locked := b\<rparr>) = rpc_inv s" "rpc_inv (s\<lparr>rpc_conn := b\<rparr>) = rpc_inv s"
  by (simp_all add: rpc_inv_def)

lemma rpc_inv_cleanup: "rpc_inv s \<Longrightarrow> rpc_inv (timeout_cleanup seq s)"
  unfolding timeout_cleanup_def by (rule rpc_inv_complete(1)) simp_all

lemma rpc_inv_turn: "rpc_inv s \<Longrightarrow> timeout_turn s = Some s' \<Longrightarrow> rpc_inv s'"
proof -
  assume a: "rpc_inv s" "timeout_turn s = Some s'"
  have "rpc_inv (fold timeout_cleanup seqs s)" for seqs
    using a(1) by (induction seqs arbitrary: s) (simp_all add: rpc_inv_cleanup)
  moreover have "rpc_inv (deadline_passed s)"
    using a(1) rpc_inv_cleanup by (simp add: deadline_passed_def split: list.split prod.split)
  ultimately show ?thesis using a by (auto simp: timeout_turn_def Let_def split: timeout_place.splits if_splits)
qed

lemma rpc_inv_destroy: "rpc_inv s \<Longrightarrow> rpc_inv (rpc_end_destroy s)"
  by (auto simp: rpc_inv_def rpc_end_destroy_def comp_def split_beta list_all_iff own_answer_other)

lemma rpc_inv_step: "rpc_step s s' \<Longrightarrow> rpc_inv s \<Longrightarrow> rpc_inv s'"
proof (induction rule: rpc_step.induct)
  case (rs_call s cmd payload deadline sent s' outs)
  then show ?case using rpc_inv_call [OF rs_call(3) rs_call(2)] by simp
next
  case (rs_packet s pkt)
  then show ?case using rpc_inv_complete(1) [of s "RpcAnswer pkt" "ph_seq (fst pkt)"] by (simp add: rpc_on_packet_def)
next
  case (rs_thread s s')
  then show ?case using rpc_inv_turn [OF rs_thread(2) rs_thread(1)] by simp
qed (simp_all add: rpc_end_call_def rpc_set_conn_def rpc_begin_destroy_def rpc_inv_destroy)

lemma rpc_inv_steps: "rpc_steps s s' \<Longrightarrow> rpc_inv s \<Longrightarrow> rpc_inv s'"
  by (induction rule: rpc_steps.induct) (auto intro: rpc_inv_step)

lemma rpc_inv_new: "rpc_inv (rpc_new conn)"
  by (simp add: rpc_inv_def rpc_new_def)

text \<open>C39: every call of the RPC client is either still pending or has exactly one outcome, and an answer goes to the call that
  asked: in every state a client reaches, the pending calls and the calls with an outcome are disjoint and together all the calls
  made, no call has two outcomes, and a call answered with a packet has that packet's sequence number, which is its own. This
  holds even when sequence numbers wrap around.\<close>

theorem rpc_answers_match:
  assumes "rpc_steps (rpc_new conn) s"
  shows "distinct (map snd (rpc_pending s) @ map fst (rpc_results s)) \<and>
    set (map snd (rpc_pending s) @ map fst (rpc_results s)) = {..<rpc_calls s} \<and>
    ((call, RpcAnswer pkt) \<in> set (rpc_results s) \<longrightarrow> ph_seq (fst pkt) = of_nat (call + 1))"
  using rpc_inv_steps [OF assms rpc_inv_new] by (auto simp: rpc_inv_def list_all_iff own_answer_def)

section \<open>Deadlines hang the client\<close>

text \<open>The timeout thread spins with the mutex in its hands.\<close>

definition rpc_hung :: "rpc \<Rightarrow> bool" where
  "rpc_hung s \<longleftrightarrow> rpc_place s = TlTop \<and> rpc_locked s \<and> rpc_timeouts s \<noteq> [] \<and> \<not> rpc_stop s"

lemma rpc_complete_hung [simp]: "rpc_hung (rpc_complete seq r s) = rpc_hung s" "rpc_entering (rpc_complete seq r s) = rpc_entering s"
  "rpc_timeouts (rpc_complete seq r s) = rpc_timeouts s" "rpc_place (rpc_complete seq r s) = rpc_place s"
  "rpc_locked (rpc_complete seq r s) = rpc_locked s" "rpc_stop (rpc_complete seq r s) = rpc_stop s"
  by (simp_all add: rpc_hung_def rpc_complete_def split: option.split)

lemma rpc_complete_results: "set (rpc_results (rpc_complete seq r s)) \<subseteq> set (rpc_results s) \<union> {(call, r) | call. True}"
  by (auto simp: rpc_complete_def split: option.split)

definition timed_out :: "rpc \<Rightarrow> nat set" where
  "timed_out s = {call. (call, RpcTimeout) \<in> set (rpc_results s)}"

lemma timed_out_complete: "r \<noteq> RpcTimeout \<Longrightarrow> timed_out (rpc_complete seq r s) = timed_out s"
  by (auto simp: timed_out_def rpc_complete_def split: option.split)

lemma begin_call_hung:
  assumes "rpc_begin_call cmd payload deadline sent s = (s', outs)"
  shows "rpc_hung s' = rpc_hung s" "set (rpc_entering s) \<subseteq> set (rpc_entering s')" "timed_out s' = timed_out s"
    "rpc_timeouts s' = rpc_timeouts s"
proof -
  have h: "rpc_hung (x\<lparr>rpc_pending := p\<rparr>) = rpc_hung x" "rpc_hung (x\<lparr>rpc_seq := q, rpc_calls := n\<rparr>) = rpc_hung x"
    "rpc_hung (x\<lparr>rpc_entering := en\<rparr>) = rpc_hung x" "timed_out (x\<lparr>rpc_pending := p\<rparr>) = timed_out x"
    "timed_out (x\<lparr>rpc_seq := q, rpc_calls := n\<rparr>) = timed_out x" "timed_out (x\<lparr>rpc_entering := en\<rparr>) = timed_out x" for x p q n en
    by (simp_all add: rpc_hung_def timed_out_def)
  show "rpc_hung s' = rpc_hung s" "set (rpc_entering s) \<subseteq> set (rpc_entering s')" "timed_out s' = timed_out s"
    "rpc_timeouts s' = rpc_timeouts s"
    using assms by (auto simp: rpc_begin_call_def Let_def h timed_out_complete split: if_splits option.splits)
qed

lemma rpc_hung_step:
  "rpc_step s s' \<Longrightarrow> rpc_hung s \<Longrightarrow> rpc_hung s' \<and> set (rpc_entering s) \<subseteq> set (rpc_entering s') \<and> timed_out s' = timed_out s"
proof (induction rule: rpc_step.induct)
  case (rs_call s cmd payload deadline sent s' outs)
  then show ?case using begin_call_hung [OF rs_call(2)] by simp
next
  case (rs_packet s pkt)
  then show ?case by (simp add: rpc_on_packet_def timed_out_complete)
next
  case (rs_thread s s')
  then show ?case by (auto simp: rpc_hung_def timeout_turn_def)
qed (auto simp: rpc_hung_def rpc_set_conn_def timed_out_def)

lemma rpc_hung_steps:
  "rpc_steps s s' \<Longrightarrow> rpc_hung s \<Longrightarrow> rpc_hung s' \<and> set (rpc_entering s) \<subseteq> set (rpc_entering s') \<and> timed_out s' = timed_out s"
proof (induction rule: rpc_steps.induct)
  case (rss_more s s' s'')
  then show ?case using rpc_hung_step [OF rss_more(2)] by blast
qed simp

text \<open>Where the thread can be while the client is not being destroyed.\<close>

definition place_inv :: "rpc \<Rightarrow> bool" where
  "place_inv s \<longleftrightarrow> (rpc_place s \<in> {TlExit, TlGone} \<longrightarrow> rpc_stop s) \<and> (rpc_locked s \<longleftrightarrow> rpc_place s = TlTop) \<and>
     (\<not> rpc_stop s \<longrightarrow> timed_out s = {})"

lemma place_inv_step: "rpc_step s s' \<Longrightarrow> place_inv s \<Longrightarrow> place_inv s'"
proof (induction rule: rpc_step.induct)
  case (rs_call s cmd payload deadline sent s' outs)
  have "rpc_place s' = rpc_place s" "rpc_locked s' = rpc_locked s" "rpc_stop s' = rpc_stop s"
    using rs_call(2) by (auto simp: rpc_begin_call_def Let_def split: if_splits option.splits)
  then show ?case using begin_call_hung(3) [OF rs_call(2)] rs_call(3) by (simp add: place_inv_def)
next
  case (rs_packet s pkt)
  then show ?case by (simp add: rpc_on_packet_def place_inv_def timed_out_complete)
next
  case (rs_thread s s')
  have "rpc_stop (fold timeout_cleanup seqs x) = rpc_stop x \<and> rpc_locked (fold timeout_cleanup seqs x) = rpc_locked x" for seqs x
    by (induction seqs arbitrary: x) (simp_all add: timeout_cleanup_def)
  then show ?case using rs_thread by (auto simp: place_inv_def timeout_turn_def timed_out_def Let_def split: timeout_place.splits if_splits)
qed (auto simp: place_inv_def rpc_end_call_def rpc_set_conn_def rpc_begin_destroy_def rpc_end_destroy_def timed_out_def)

lemma place_inv_steps: "rpc_steps s s' \<Longrightarrow> place_inv s \<Longrightarrow> place_inv s'"
  by (induction rule: rpc_steps.induct) (auto intro: place_inv_step)

text \<open>C40: a call with a timeout hangs the RPC client. In every state with a stored deadline, before the destructor has begun,
  the next turn of the timeout thread is defined and leaves it at the head of its loop with the mutex of the deadlines in its
  hands, and from there on, whatever calls are made, packets arrive and turns are taken, it keeps the mutex: no call ever
  times out, no call that wants to store its deadline returns, and the destructor never gets past its first line. The
  predicate of \<open>wait_until\<close> holds as soon as there is a deadline, so the wait returns at once, every time.\<close>

theorem rpc_timeouts_hang:
  assumes "rpc_steps (rpc_new conn) s" and "rpc_timeouts s \<noteq> []" and "\<not> rpc_stop s"
  shows "\<exists>s1. timeout_turn s = Some s1 \<and> (\<forall>s2. rpc_steps s1 s2 \<longrightarrow>
    rpc_locked s2 \<and> \<not> rpc_stop s2 \<and> set (rpc_entering s) \<subseteq> set (rpc_entering s2) \<and> (\<forall>call. (call, RpcTimeout) \<notin> set (rpc_results s2)))"
proof -
  have p: "place_inv s" by (rule place_inv_steps [OF assms(1)]) (simp add: place_inv_def rpc_new_def timed_out_def)
  then have "rpc_place s \<in> {TlStart, TlTop, TlAsleep}" using assms(3) by (cases "rpc_place s") (auto simp: place_inv_def)
  then obtain s1 where s1: "timeout_turn s = Some s1" "rpc_hung s1" "rpc_entering s1 = rpc_entering s" "timed_out s1 = timed_out s"
    using assms(2,3) p by (auto simp: timeout_turn_def rpc_hung_def place_inv_def timed_out_def)
  have "timed_out s = {}" using p assms(3) by (simp add: place_inv_def)
  then have "rpc_locked s2 \<and> \<not> rpc_stop s2 \<and> set (rpc_entering s) \<subseteq> set (rpc_entering s2) \<and> (\<forall>call. (call, RpcTimeout) \<notin> set (rpc_results s2))"
    if "rpc_steps s1 s2" for s2
    using rpc_hung_steps [OF that s1(2)] s1(3,4) by (auto simp: rpc_hung_def timed_out_def)
  then show ?thesis using s1(1) by blast
qed

text \<open>A call with a timeout whose answer arrives.\<close>

definition demo_rpc :: rpc where
  "demo_rpc = (rpc_new True)\<lparr>rpc_seq := 1, rpc_calls := 1, rpc_results := [(0, RpcAnswer (default_header\<lparr>ph_seq := 1\<rparr>, [5]))],
     rpc_timeouts := [(100, 1)], rpc_place := TlAsleep\<rparr>"

lemma demo_rpc_steps: "rpc_steps (rpc_new True) demo_rpc"
proof -
  define s1 where "s1 = (rpc_new True)\<lparr>rpc_place := TlTop, rpc_locked := True\<rparr>"
  define s2 where "s2 = (rpc_new True)\<lparr>rpc_place := TlAsleep\<rparr>"
  define s3 where "s3 = s2\<lparr>rpc_seq := 1, rpc_calls := 1, rpc_pending := [(1, 0)], rpc_entering := [(100, 1)]\<rparr>"
  define s4 where "s4 = s3\<lparr>rpc_entering := [], rpc_timeouts := [(100, 1)]\<rparr>"
  have "rpc_step (rpc_new True) s1" by (rule rs_thread) (simp add: timeout_turn_def s1_def rpc_new_def Let_def)
  moreover have "rpc_step s1 s2" by (rule rs_thread) (simp add: timeout_turn_def s1_def s2_def rpc_new_def Let_def)
  moreover have "rpc_step s2 s3"
  proof (rule rs_call)
    show "rpc_begin_call 9 [] (Some 100) True s2 = (s3, [rpc_request FlagRpcReq 9 1 []])"
      by (simp add: rpc_begin_call_def rpc_complete_def s2_def s3_def rpc_new_def Let_def)
  qed (simp add: s2_def rpc_new_def)
  moreover have "rpc_step s3 s4"
    using rs_entered [of "(100, 1)" s3] by (simp add: s3_def s4_def s2_def rpc_new_def rpc_end_call_def)
  moreover have "rpc_step s4 demo_rpc"
    using rs_packet [of s4 "(default_header\<lparr>ph_seq := 1\<rparr>, [5])"]
    by (simp add: s4_def s3_def s2_def rpc_new_def demo_rpc_def rpc_on_packet_def rpc_complete_def)
  ultimately show ?thesis by (meson rss_none rss_more)
qed

lemma rpc_answers_match_witness: "\<exists>pkt. (0, RpcAnswer pkt) \<in> set (rpc_results demo_rpc) \<and> ph_seq (fst pkt) = 1"
  using rpc_answers_match [OF demo_rpc_steps, of 0 "(default_header\<lparr>ph_seq := 1\<rparr>, [5])"]
  by (intro exI [of _ "(default_header\<lparr>ph_seq := 1\<rparr>, [5])"]) (simp add: demo_rpc_def)

lemma rpc_timeouts_hang_witness:
  "\<exists>s1. timeout_turn demo_rpc = Some s1 \<and> rpc_locked (rpc_set_conn False s1) \<and> \<not> rpc_stop (rpc_set_conn False s1)"
proof -
  have "rpc_timeouts demo_rpc \<noteq> []" "\<not> rpc_stop demo_rpc" by (simp_all add: demo_rpc_def rpc_new_def)
  from rpc_timeouts_hang [OF demo_rpc_steps this] obtain s1 where s1: "timeout_turn demo_rpc = Some s1"
    "\<forall>s2. rpc_steps s1 s2 \<longrightarrow> rpc_locked s2 \<and> \<not> rpc_stop s2" by blast
  have "rpc_steps s1 (rpc_set_conn False s1)" using rss_more [OF rss_none rs_conn] .
  then show ?thesis using s1 by blast
qed

end
