(* ===== verification/GM_Upstream.thy ===== *)
theory GM_Upstream
  imports GM_Packet
begin

text \<open>
  The pool of upstream connections (\<open>net/async/upstream.hpp\<close>, \<open>upstream.cpp\<close>): nodes, one connection each, a
  round-robin choice among the healthy ones and a timer that reconnects the others.

  A node has an address, because the callbacks of its connections capture the pointer; the nodes that are in \<open>pl_nodes\<close>
  are the ones that have not been freed. A connection is what the pool knows of an \<open>AsyncTCPConnection\<close>: who owns it (the
  node, or itself from \<open>Close\<close> to the end of its close callback), and what libuv still owes it. Callbacks on a freed node or
  a freed connection are undefined behaviour and give \<open>None\<close>. Results of libuv and of the connection are arguments. What
  is posted to the loop from another thread is queued in \<open>pl_posted\<close>. \<open>SendPacket\<close> chooses a node under the mutex and uses it
  after the mutex was released; on the thread of the loop nothing can come between, on another thread each access is a step of its
  own, and \<open>pl_senders\<close> says how far each such thread is. \<open>Start\<close> is the call on the thread of the loop, or before the loop runs.
\<close>

record pnode =
  pn_ptr :: nat
  pn_host :: string
  pn_port :: u16
  pn_healthy :: bool
  pn_connecting :: bool
  pn_conn :: "nat option"

record pconn =
  pc_node :: nat
  pc_alive :: bool
  pc_keep :: bool
  pc_connecting :: bool
  pc_closing :: bool

text \<open>A thread in \<open>SendPacket\<close>: it holds the pointer of a node, has found its connection not to be null, or has dereferenced it.\<close>

datatype send_phase = SendPicked nat | SendChecked nat | SendCalls nat

datatype pool_task = TaskConnect nat | TaskClose nat

record pool =
  pl_loop :: bool
  pl_nodes :: "pnode list"
  pl_running :: bool
  pl_rr :: u64
  pl_timer :: bool
  pl_next :: nat
  pl_conns :: "nat \<Rightarrow> pconn option"
  pl_posted :: "pool_task list"
  pl_senders :: "send_phase list"
  pl_watch :: bool
  pl_events :: "((string \<times> u16) \<times> bool) list"

definition pool_new :: "bool \<Rightarrow> pool" where
  "pool_new loop = \<lparr>pl_loop = loop, pl_nodes = [], pl_running = False, pl_rr = 0, pl_timer = False, pl_next = 0, pl_conns = Map.empty,
     pl_posted = [], pl_senders = [], pl_watch = False, pl_events = []\<rparr>"

definition set_on_node_event :: "pool \<Rightarrow> pool" where
  "set_on_node_event s = s\<lparr>pl_watch := True\<rparr>"

section \<open>Nodes and connections\<close>

definition node_at :: "nat \<Rightarrow> pool \<Rightarrow> pnode option" where
  "node_at p s = find (\<lambda>n. pn_ptr n = p) (pl_nodes s)"

definition map_node :: "nat \<Rightarrow> (pnode \<Rightarrow> pnode) \<Rightarrow> pool \<Rightarrow> pool" where
  "map_node p f s = s\<lparr>pl_nodes := map (\<lambda>n. if pn_ptr n = p then f n else n) (pl_nodes s)\<rparr>"

definition map_conn :: "nat \<Rightarrow> (pconn \<Rightarrow> pconn) \<Rightarrow> pool \<Rightarrow> pool" where
  "map_conn c f s = s\<lparr>pl_conns := (pl_conns s)(c := map_option f (pl_conns s c))\<rparr>"

text \<open>\<open>Close\<close> of a connection keeps it alive and closes its handle on the thread of the loop.\<close>

definition conn_close :: "bool \<Rightarrow> nat \<Rightarrow> pool \<Rightarrow> pool" where
  "conn_close here c s =
     (case pl_conns s c of
        None \<Rightarrow> s
      | Some k \<Rightarrow> if pc_keep k then s
          else if here then map_conn c (\<lambda>k. k\<lparr>pc_keep := True, pc_closing := True\<rparr>) s
          else (map_conn c (\<lambda>k. k\<lparr>pc_keep := True\<rparr>) s)\<lparr>pl_posted := pl_posted s @ [TaskClose c]\<rparr>)"

text \<open>The owner of a connection lets it go: unless it keeps itself alive it is destroyed, and the destructor closes its
  handle.\<close>

definition conn_drop :: "nat option \<Rightarrow> pool \<Rightarrow> pool" where
  "conn_drop c s =
     (case c of None \<Rightarrow> s
      | Some i \<Rightarrow> map_conn i (\<lambda>k. if pc_keep k then k else k\<lparr>pc_alive := False, pc_closing := True\<rparr>) s)"

definition update_health :: "nat \<Rightarrow> bool \<Rightarrow> pool \<Rightarrow> pool" where
  "update_health p h s =
     (case node_at p s of
        None \<Rightarrow> s
      | Some n \<Rightarrow>
          (let s1 = map_node p (\<lambda>n. n\<lparr>pn_healthy := h\<rparr>) s
           in if pn_healthy n \<noteq> h \<and> pl_watch s then s1\<lparr>pl_events := pl_events s @ [((pn_host n, pn_port n), h)]\<rparr> else s1))"

definition try_connect :: "bool \<Rightarrow> nat \<Rightarrow> pool \<Rightarrow> pool option" where
  "try_connect ok p s =
     (case node_at p s of
        None \<Rightarrow> None
      | Some n \<Rightarrow>
          if \<not> pl_loop s then Some s
          else if \<not> ok then Some (map_node p (\<lambda>n. n\<lparr>pn_connecting := False\<rparr>) s)
          else let c = pl_next s;
                   s1 = s\<lparr>pl_next := c + 1, pl_conns := (pl_conns s)(c \<mapsto>
                     \<lparr>pc_node = p, pc_alive = True, pc_keep = False, pc_connecting = True, pc_closing = False\<rparr>)\<rparr>
               in Some (map_node p (\<lambda>n. n\<lparr>pn_connecting := True, pn_conn := Some c\<rparr>) (conn_drop (pn_conn n) s1)))"

text \<open>The results of \<open>Connect\<close> are a function of the node, here and in the next definitions.\<close>

fun connect_all :: "(nat \<Rightarrow> bool) \<Rightarrow> nat list \<Rightarrow> pool \<Rightarrow> pool option" where
  "connect_all ok [] s = Some s"
| "connect_all ok (p # ps) s = Option.bind (try_connect (ok p) p s) (connect_all ok ps)"

section \<open>Operations\<close>

definition add_node :: "bool \<Rightarrow> bool \<Rightarrow> string \<Rightarrow> u16 \<Rightarrow> pool \<Rightarrow> pool option" where
  "add_node here ok host port s =
     (if \<exists>n \<in> set (pl_nodes s). pn_host n = host \<and> pn_port n = port then Some s
      else let p = pl_next s;
               s1 = s\<lparr>pl_next := p + 1, pl_nodes := pl_nodes s @
                 [\<lparr>pn_ptr = p, pn_host = host, pn_port = port, pn_healthy = False, pn_connecting = False, pn_conn = None\<rparr>]\<rparr>
           in if pl_running s \<and> pl_loop s
              then (if here then try_connect ok p s1 else Some (s1\<lparr>pl_posted := pl_posted s1 @ [TaskConnect p]\<rparr>))
              else Some s1)"

definition remove_node :: "bool \<Rightarrow> string \<Rightarrow> u16 \<Rightarrow> pool \<Rightarrow> pool" where
  "remove_node here host port s =
     (case find (\<lambda>n. pn_host n = host \<and> pn_port n = port) (pl_nodes s) of
        None \<Rightarrow> s
      | Some n \<Rightarrow>
          (let s1 = (case pn_conn n of None \<Rightarrow> s | Some c \<Rightarrow> conn_close here c s)
           in s1\<lparr>pl_nodes := filter (\<lambda>m. pn_ptr m \<noteq> pn_ptr n) (pl_nodes s1)\<rparr>))"

definition upool_start :: "(nat \<Rightarrow> bool) \<Rightarrow> pool \<Rightarrow> (bool \<times> pool) option" where
  "upool_start ok s =
     (if pl_running s then Some (False, s)
      else if \<not> pl_loop s then Some (False, s)
      else map_option (\<lambda>s. (True, s\<lparr>pl_timer := True\<rparr>)) (connect_all ok (map pn_ptr (pl_nodes s)) (s\<lparr>pl_running := True\<rparr>)))"

definition stop_node :: "bool \<Rightarrow> nat \<Rightarrow> pool \<Rightarrow> pool" where
  "stop_node here p s =
     (case node_at p s of
        None \<Rightarrow> s
      | Some n \<Rightarrow> map_node p (\<lambda>n. n\<lparr>pn_healthy := False, pn_connecting := False, pn_conn := None\<rparr>)
          (case pn_conn n of None \<Rightarrow> s | Some c \<Rightarrow> conn_drop (Some c) (conn_close here c s)))"

definition upool_stop :: "bool \<Rightarrow> pool \<Rightarrow> pool" where
  "upool_stop here s =
     (if \<not> pl_running s then s
      else fold (stop_node here) (map pn_ptr (pl_nodes s)) (s\<lparr>pl_running := False, pl_timer := False\<rparr>))"

definition on_reconnect_timer :: "(nat \<Rightarrow> bool) \<Rightarrow> pool \<Rightarrow> pool option" where
  "on_reconnect_timer ok s =
     connect_all ok (map pn_ptr (filter (\<lambda>n. \<not> pn_healthy n \<and> \<not> pn_connecting n) (pl_nodes s))) s"

definition usable :: "pnode \<Rightarrow> bool" where
  "usable n \<longleftrightarrow> pn_healthy n \<and> pn_conn n \<noteq> None"

text \<open>\<open>SendPacket\<close>: the node it selects, if any, and the answer of its connection. The index counts every send on a
  non-empty pool.\<close>

fun pick_from :: "pnode list \<Rightarrow> nat \<Rightarrow> nat \<Rightarrow> nat \<Rightarrow> pnode option" where
  "pick_from ns start i 0 = None"
| "pick_from ns start i (Suc k) =
     (let n = ns ! ((start + i) mod length ns) in if usable n then Some n else pick_from ns start (i + 1) k)"

definition pool_send_packet :: "(nat \<Rightarrow> bool) \<Rightarrow> pool \<Rightarrow> bool \<times> nat option \<times> pool" where
  "pool_send_packet sends s =
     (let count = length (pl_nodes s)
      in if count = 0 then (False, None, s)
         else let s1 = s\<lparr>pl_rr := pl_rr s + 1\<rparr>
              in case Option.bind (pick_from (pl_nodes s) (unat (pl_rr s) mod count) 0 count) pn_conn of
                   None \<Rightarrow> (False, None, s1)
                 | Some c \<Rightarrow> (sends c, Some c, s1))"

text \<open>The call on the thread of the loop: the connection it uses must not have been destroyed.\<close>

definition send_here :: "(nat \<Rightarrow> bool) \<Rightarrow> pool \<Rightarrow> pool option" where
  "send_here sends s =
     (case pool_send_packet sends s of
        (_, None, s1) \<Rightarrow> Some s1
      | (_, Some c, s1) \<Rightarrow> (case pl_conns s c of None \<Rightarrow> None | Some k \<Rightarrow> if pc_alive k then Some s1 else None))"

text \<open>The call on another thread: the choice, under the mutex, and then one access after the other, without it. The pointer
  \<open>target->conn\<close> is read twice.\<close>

definition send_pick :: "pool \<Rightarrow> pool" where
  "send_pick s =
     (let count = length (pl_nodes s)
      in if count = 0 then s
         else let s1 = s\<lparr>pl_rr := pl_rr s + 1\<rparr>
              in case pick_from (pl_nodes s) (unat (pl_rr s) mod count) 0 count of
                   None \<Rightarrow> s1
                 | Some n \<Rightarrow> s1\<lparr>pl_senders := pl_senders s @ [SendPicked (pn_ptr n)]\<rparr>)"

definition send_go :: "nat \<Rightarrow> pool \<Rightarrow> pool option" where
  "send_go i s =
     (let goes_to = (\<lambda>ph. s\<lparr>pl_senders := (pl_senders s)[i := ph]\<rparr>);
          returns = s\<lparr>pl_senders := take i (pl_senders s) @ drop (Suc i) (pl_senders s)\<rparr>
      in case pl_senders s ! i of
           SendPicked p \<Rightarrow> map_option (\<lambda>n. if pn_conn n = None then returns else goes_to (SendChecked p)) (node_at p s)
         | SendChecked p \<Rightarrow> Option.bind (node_at p s) (\<lambda>n. map_option (\<lambda>c. goes_to (SendCalls c)) (pn_conn n))
         | SendCalls c \<Rightarrow> Option.bind (pl_conns s c) (\<lambda>k. if pc_alive k then Some returns else None))"

definition broadcast_to_healthy :: "pool \<Rightarrow> nat list" where
  "broadcast_to_healthy s = List.map_filter (\<lambda>n. if usable n then pn_conn n else None) (pl_nodes s)"

definition healthy_count :: "pool \<Rightarrow> nat" where
  "healthy_count s = length (filter pn_healthy (pl_nodes s))"

definition total_count :: "pool \<Rightarrow> nat" where
  "total_count s = length (pl_nodes s)"

section \<open>What the loop calls\<close>

text \<open>The callback of a connect request, with the failure that closes the connection.\<close>

definition on_connected :: "nat \<Rightarrow> bool \<Rightarrow> pool \<Rightarrow> pool option" where
  "on_connected c ok s =
     (case pl_conns s c of
        None \<Rightarrow> None
      | Some k \<Rightarrow>
          if \<not> pc_alive k \<or> node_at (pc_node k) s = None then None
          else let s1 = update_health (pc_node k) ok (map_node (pc_node k) (\<lambda>n. n\<lparr>pn_connecting := False\<rparr>)
                 (map_conn c (\<lambda>k. k\<lparr>pc_connecting := False\<rparr>) s))
               in Some (if ok then s1 else conn_close True c s1))"

text \<open>The peer closes, or reading fails.\<close>

definition on_lost :: "nat \<Rightarrow> pool \<Rightarrow> pool option" where
  "on_lost c s = (case pl_conns s c of None \<Rightarrow> None | Some k \<Rightarrow> if pc_alive k then Some (conn_close True c s) else None)"

text \<open>The close callback: \<open>node->conn.reset()\<close> lets go of whatever connection the node has by then.\<close>

definition on_closed :: "nat \<Rightarrow> pool \<Rightarrow> pool option" where
  "on_closed c s =
     (case pl_conns s c of
        None \<Rightarrow> None
      | Some k \<Rightarrow>
          if \<not> pc_alive k then None
          else case node_at (pc_node k) s of
            None \<Rightarrow> None
          | Some n \<Rightarrow>
              (let s1 = conn_drop (pn_conn n) (map_node (pc_node k) (\<lambda>n. n\<lparr>pn_connecting := False, pn_conn := None\<rparr>)
                 (update_health (pc_node k) False s))
               in Some (s1\<lparr>pl_conns := (pl_conns s1)(c := None)\<rparr>)))"

definition run_posted :: "bool \<Rightarrow> pool \<Rightarrow> pool option" where
  "run_posted ok s =
     (case pl_posted s of
        [] \<Rightarrow> Some s
      | TaskConnect p # ts \<Rightarrow> try_connect ok p (s\<lparr>pl_posted := ts\<rparr>)
      | TaskClose c # ts \<Rightarrow> Some (map_conn c (\<lambda>k. k\<lparr>pc_closing := True\<rparr>) (s\<lparr>pl_posted := ts\<rparr>)))"

section \<open>Steps\<close>

text \<open>What can happen to a pool. libuv answers a connect request once, with a failure if the handle is closed before, and calls
  the close callback after that; it calls the close callbacks of an iteration before the timers of the next. A step that is not
  \<open>wild\<close> keeps to a careful use: nodes are added before \<open>Start\<close> or on the thread of the loop, none is removed, \<open>Start\<close> comes
  after the connections of an earlier run are gone, and packets are sent on the thread of the loop.\<close>

inductive pool_step :: "bool \<Rightarrow> pool \<Rightarrow> pool option \<Rightarrow> bool" for wild where
  ps_watch: "pool_step wild s (Some (set_on_node_event s))"
| ps_add: "wild \<or> here \<or> \<not> pl_running s \<Longrightarrow> pool_step wild s (add_node here ok host port s)"
| ps_remove: "wild \<Longrightarrow> pool_step wild s (Some (remove_node here host port s))"
| ps_start: "wild \<or> pl_conns s = Map.empty \<and> pl_posted s = [] \<Longrightarrow> pool_step wild s (map_option snd (upool_start ok s))"
| ps_stop: "pool_step wild s (Some (upool_stop here s))"
| ps_timer: "pl_timer s \<Longrightarrow> \<forall>c k. pl_conns s c = Some k \<longrightarrow> \<not> pc_closing k \<Longrightarrow> pool_step wild s (on_reconnect_timer ok s)"
| ps_task: "pool_step wild s (run_posted ok s)"
| ps_send: "pool_step wild s (send_here sends s)"
| ps_pick: "wild \<Longrightarrow> pool_step wild s (Some (send_pick s))"
| ps_go: "wild \<Longrightarrow> i < length (pl_senders s) \<Longrightarrow> pool_step wild s (send_go i s)"
| ps_connected: "pl_conns s c = Some k \<Longrightarrow> pc_connecting k \<Longrightarrow> ok \<longrightarrow> \<not> pc_closing k \<Longrightarrow> pool_step wild s (on_connected c ok s)"
| ps_lost: "pl_conns s c = Some k \<Longrightarrow> \<not> pc_connecting k \<Longrightarrow> \<not> pc_closing k \<Longrightarrow> pool_step wild s (on_lost c s)"
| ps_closed: "pl_conns s c = Some k \<Longrightarrow> \<not> pc_connecting k \<Longrightarrow> pc_closing k \<Longrightarrow> pool_step wild s (on_closed c s)"

inductive pool_reach :: "bool \<Rightarrow> pool \<Rightarrow> bool" for wild where
  pr_new: "pool_reach wild (pool_new loop)"
| pr_step: "pool_reach wild s \<Longrightarrow> pool_step wild s (Some s') \<Longrightarrow> pool_reach wild s'"

section \<open>Frames\<close>

lemma find_map_ptr:
  assumes "\<And>n. pn_ptr (f n) = pn_ptr n"
  shows "find (\<lambda>n. pn_ptr n = q) (map (\<lambda>n. if pn_ptr n = p then f n else n) ns) =
    (if q = p then map_option f (find (\<lambda>n. pn_ptr n = q) ns) else find (\<lambda>n. pn_ptr n = q) ns)"
  by (induction ns) (auto simp: assms)

lemma map_node_frame [simp]:
  "pl_conns (map_node p f s) = pl_conns s" "pl_next (map_node p f s) = pl_next s" "pl_timer (map_node p f s) = pl_timer s"
  "pl_running (map_node p f s) = pl_running s" "pl_posted (map_node p f s) = pl_posted s" "pl_loop (map_node p f s) = pl_loop s"
  by (simp_all add: map_node_def)

lemma map_conn_frame [simp]:
  "pl_nodes (map_conn c f s) = pl_nodes s" "pl_next (map_conn c f s) = pl_next s" "pl_timer (map_conn c f s) = pl_timer s"
  "pl_running (map_conn c f s) = pl_running s" "pl_posted (map_conn c f s) = pl_posted s" "pl_loop (map_conn c f s) = pl_loop s"
  "node_at p (map_conn c f s) = node_at p s"
  by (simp_all add: map_conn_def node_at_def)

lemma update_health_frame [simp]:
  "pl_conns (update_health p h s) = pl_conns s" "pl_next (update_health p h s) = pl_next s" "pl_timer (update_health p h s) = pl_timer s"
  "pl_running (update_health p h s) = pl_running s" "pl_posted (update_health p h s) = pl_posted s" "pl_loop (update_health p h s) = pl_loop s"
  by (simp_all add: update_health_def Let_def split: option.split)

lemma node_at_only_nodes [simp]:
  "node_at p (s\<lparr>pl_conns := x\<rparr>) = node_at p s" "node_at p (s\<lparr>pl_next := y\<rparr>) = node_at p s" "node_at p (s\<lparr>pl_posted := z\<rparr>) = node_at p s"
  "node_at p (s\<lparr>pl_events := e\<rparr>) = node_at p s" "node_at p (s\<lparr>pl_timer := b\<rparr>) = node_at p s" "node_at p (s\<lparr>pl_running := b\<rparr>) = node_at p s"
  "node_at p (s\<lparr>pl_rr := r\<rparr>) = node_at p s" "node_at p (s\<lparr>pl_watch := b\<rparr>) = node_at p s"
  "node_at p (s\<lparr>pl_senders := b'\<rparr>) = node_at p s"
  by (simp_all add: node_at_def)

lemma node_at_ptr: "node_at p s = Some n \<Longrightarrow> pn_ptr n = p"
  unfolding node_at_def by (induction "pl_nodes s") (auto simp: find_Some_iff)

lemma node_at_map:
  assumes "\<And>n. pn_ptr (f n) = pn_ptr n"
  shows "node_at q (map_node p f s) = (if q = p then map_option f (node_at q s) else node_at q s)"
  by (simp add: node_at_def map_node_def find_map_ptr [of f, OF assms])

lemma node_at_health: "node_at q (update_health p h s) = (if q = p then map_option (\<lambda>n. n\<lparr>pn_healthy := h\<rparr>) (node_at q s) else node_at q s)"
  by (cases "node_at p s") (simp_all add: update_health_def Let_def node_at_map)

lemma find_ptr_mem: "distinct (map pn_ptr ns) \<Longrightarrow> find (\<lambda>n. pn_ptr n = p) ns = Some n \<longleftrightarrow> n \<in> set ns \<and> pn_ptr n = p"
  by (induction ns) auto

lemma node_at_mem: "distinct (map pn_ptr (pl_nodes s)) \<Longrightarrow> node_at p s = Some n \<longleftrightarrow> n \<in> set (pl_nodes s) \<and> pn_ptr n = p"
  by (simp add: node_at_def find_ptr_mem)

lemma node_at_exists: "p \<in> pn_ptr ` set (pl_nodes s) \<longleftrightarrow> (\<exists>n. node_at p s = Some n)"
  unfolding node_at_def using find_None_iff [of "\<lambda>n. pn_ptr n = p" "pl_nodes s"] by auto

section \<open>The invariant\<close>

text \<open>In terms of the nodes and the connections as maps. With the flag, for a pool whose timer runs, a node that is neither
  healthy nor connecting has no connection but one that is being closed.\<close>

definition conn_ok :: "bool \<Rightarrow> nat \<Rightarrow> pconn \<Rightarrow> pnode \<Rightarrow> bool" where
  "conn_ok t c k n \<longleftrightarrow> pc_alive k \<and> (pc_keep k \<or> pn_conn n = Some c) \<and>
     (t \<and> \<not> pc_closing k \<longrightarrow> \<not> pc_keep k \<and> pn_conn n = Some c \<and> (if pc_connecting k then pn_connecting n else pn_healthy n))"

definition node_ok :: "bool \<Rightarrow> (nat \<Rightarrow> pconn option) \<Rightarrow> nat \<Rightarrow> pnode \<Rightarrow> bool" where
  "node_ok t C p n \<longleftrightarrow> (\<forall>c. pn_conn n = Some c \<longrightarrow> (\<exists>k. C c = Some k \<and> pc_node k = p)) \<and>
     (pn_healthy n \<longrightarrow> (\<exists>c k. C c = Some k \<and> pc_node k = p \<and> \<not> pc_connecting k \<and> (t \<longrightarrow> pn_conn n = Some c)))"

definition core :: "bool \<Rightarrow> (nat \<Rightarrow> pnode option) \<Rightarrow> (nat \<Rightarrow> pconn option) \<Rightarrow> bool" where
  "core t N C \<longleftrightarrow> (\<forall>c k. C c = Some k \<longrightarrow> (\<exists>n. N (pc_node k) = Some n \<and> conn_ok t c k n)) \<and>
     (\<forall>p n. N p = Some n \<longrightarrow> node_ok t C p n) \<and>
     (\<forall>c k c' k'. C c = Some k \<longrightarrow> C c' = Some k' \<longrightarrow> pc_node k = pc_node k' \<longrightarrow> c = c')"

lemma core_weaken: "core t N C \<Longrightarrow> core False N C"
proof -
  have "conn_ok t c k n \<Longrightarrow> conn_ok False c k n" for c k n by (simp add: conn_ok_def)
  moreover have "node_ok t C p n \<Longrightarrow> node_ok False C p n" for p n unfolding node_ok_def by blast
  ultimately show "core t N C \<Longrightarrow> core False N C" unfolding core_def by blast
qed

text \<open>A step that changes one node and its connection.\<close>

lemma core_update:
  assumes "core t N C" and "\<forall>c' k'. C c' = Some k' \<and> pc_node k' = p \<longrightarrow> c' = c" and "\<forall>k. C c = Some k \<longrightarrow> pc_node k = p"
    and "\<forall>k. x = Some k \<longrightarrow> pc_node k = p \<and> conn_ok t c k n" and "node_ok t (C(c := x)) p n"
  shows "core t (N(p \<mapsto> n)) (C(c := x))"
proof -
  have o: "pc_node k' \<noteq> p \<and> C c' = Some k'" if "(C(c := x)) c' = Some k'" "c' \<noteq> c" for c' k' using that assms(2) by auto
  show ?thesis unfolding core_def
  proof (intro conjI allI impI)
    fix c' k' assume a: "(C(c := x)) c' = Some k'"
    show "\<exists>n'. (N(p \<mapsto> n)) (pc_node k') = Some n' \<and> conn_ok t c' k' n'"
    proof (cases "c' = c")
      case True
      then show ?thesis using a assms(4) by auto
    next
      case False
      then show ?thesis using o [OF a False] assms(1) by (auto simp: core_def)
    qed
  next
    fix q n' assume a: "(N(p \<mapsto> n)) q = Some n'"
    show "node_ok t (C(c := x)) q n'"
    proof (cases "q = p")
      case True
      then show ?thesis using a assms(5) by simp
    next
      case False
      then have "node_ok t C q n'" using a assms(1) by (auto simp: core_def)
      moreover have "C c' = Some k \<and> pc_node k = q \<Longrightarrow> c' \<noteq> c" for c' k using False assms(3) by auto
      ultimately show ?thesis unfolding node_ok_def by (metis fun_upd_other)
    qed
  next
    fix c1 k1 c2 k2 assume a: "(C(c := x)) c1 = Some k1" "(C(c := x)) c2 = Some k2" "pc_node k1 = pc_node k2"
    have x: "x = Some k \<Longrightarrow> pc_node k = p" for k using assms(4) by blast
    show "c1 = c2"
    proof (rule ccontr)
      assume n: "c1 \<noteq> c2"
      consider "c1 = c" | "c2 = c" | "c1 \<noteq> c" "c2 \<noteq> c" by blast
      then show False
      proof cases
        case 1
        then have "pc_node k1 = p" "pc_node k2 \<noteq> p" using a(1) x o [OF a(2)] n by simp_all
        then show False using a(3) by simp
      next
        case 2
        then have "pc_node k2 = p" "pc_node k1 \<noteq> p" using a(2) x o [OF a(1)] n by simp_all
        then show False using a(3) by simp
      next
        case 3
        then have "C c1 = Some k1" "C c2 = Some k2" using a by simp_all
        then show False using a(3) assms(1) n unfolding core_def by blast
      qed
    qed
  qed
qed

lemma core_slot:
  assumes "core t N C" and "C d = None"
  obtains c where "\<forall>c' k'. C c' = Some k' \<and> pc_node k' = p \<longrightarrow> c' = c" and "\<forall>k. C c = Some k \<longrightarrow> pc_node k = p"
proof (cases "\<exists>c k. C c = Some k \<and> pc_node k = p")
  case True
  then obtain c k where c: "C c = Some k" "pc_node k = p" by blast
  show ?thesis
  proof (rule that)
    show "\<forall>c' k'. C c' = Some k' \<and> pc_node k' = p \<longrightarrow> c' = c" using assms(1) c unfolding core_def by metis
  qed (simp add: c)
next
  case False
  then show ?thesis using that [of d] assms(2) by auto
qed

definition ident :: "pnode \<Rightarrow> nat \<times> string \<times> u16" where
  "ident n = (pn_ptr n, pn_host n, pn_port n)"

definition upool_ids_ok :: "(nat \<times> string \<times> u16) list \<Rightarrow> nat \<Rightarrow> bool" where
  "upool_ids_ok ids m \<longleftrightarrow> distinct (map fst ids) \<and> distinct (map snd ids) \<and> (\<forall>i \<in> set ids. fst i < m)"

definition shape :: "pool \<Rightarrow> bool" where
  "shape s \<longleftrightarrow> upool_ids_ok (map ident (pl_nodes s)) (pl_next s) \<and> (\<forall>c. pl_conns s c \<noteq> None \<longrightarrow> c < pl_next s) \<and>
     (\<forall>p. TaskConnect p \<notin> set (pl_posted s)) \<and> (pl_running s \<longleftrightarrow> pl_timer s)"

definition pool_inv :: "pool \<Rightarrow> bool" where
  "pool_inv s \<longleftrightarrow> core (pl_timer s) (\<lambda>p. node_at p s) (pl_conns s) \<and> shape s"

lemma ident_map_node [simp]:
  assumes "\<And>n. ident (f n) = ident n"
  shows "map ident (pl_nodes (map_node p f s)) = map ident (pl_nodes s)"
  using assms by (simp add: map_node_def comp_def if_distrib)

lemma ident_set [simp]: "ident (n\<lparr>pn_healthy := h\<rparr>) = ident n" "ident (n\<lparr>pn_connecting := h\<rparr>) = ident n" "ident (n\<lparr>pn_conn := c\<rparr>) = ident n"
  by (simp_all add: ident_def)

lemma ident_health [simp]: "map ident (pl_nodes (update_health p h s)) = map ident (pl_nodes s)"
proof -
  have "map ident (pl_nodes (map_node p (\<lambda>n. n\<lparr>pn_healthy := h\<rparr>) s)) = map ident (pl_nodes s)" by simp
  then show ?thesis by (simp add: update_health_def Let_def split: option.split)
qed

lemma nodes_map: "(\<And>n. pn_ptr (f n) = pn_ptr n) \<Longrightarrow>
    (\<lambda>q. node_at q (map_node p f s)) = (\<lambda>q. node_at q s)(p := map_option f (node_at p s))"
  by (rule ext) (simp add: node_at_map)

lemma nodes_health: "(\<lambda>q. node_at q (update_health p h s)) = (\<lambda>q. node_at q s)(p := map_option (\<lambda>n. n\<lparr>pn_healthy := h\<rparr>) (node_at p s))"
  by (rule ext) (simp add: node_at_health)

lemma conns_map: "pl_conns (map_conn c f s) = (pl_conns s)(c := map_option f (pl_conns s c))"
  by (simp add: map_conn_def)

lemma core_conn:
  assumes "core t N C" and "C c = Some k"
  obtains n where "N (pc_node k) = Some n" "conn_ok t c k n" "node_ok t C (pc_node k) n" "pn_conn n = None \<or> pn_conn n = Some c"
    "\<forall>c' k'. C c' = Some k' \<and> pc_node k' = pc_node k \<longrightarrow> c' = c"
proof -
  obtain n where n: "N (pc_node k) = Some n" "conn_ok t c k n" using assms unfolding core_def by blast
  have u: "\<forall>c' k'. C c' = Some k' \<and> pc_node k' = pc_node k \<longrightarrow> c' = c" using assms unfolding core_def by metis
  have o: "node_ok t C (pc_node k) n" using assms(1) n(1) unfolding core_def by blast
  have "pn_conn n = None \<or> pn_conn n = Some c" using o u unfolding node_ok_def by (cases "pn_conn n") auto
  then show ?thesis by (rule that [OF n o _ u])
qed

text \<open>The callbacks.\<close>

lemma core_connected:
  assumes "core t N C" and "C c = Some k" and "N (pc_node k) = Some n" and "pc_connecting k" and "ok \<longrightarrow> \<not> pc_closing k"
    and "k' = (if ok \<or> pc_keep k then k\<lparr>pc_connecting := False\<rparr> else k\<lparr>pc_connecting := False, pc_keep := True, pc_closing := True\<rparr>)"
  shows "core t (N(pc_node k \<mapsto> n\<lparr>pn_connecting := False, pn_healthy := ok\<rparr>)) (C(c \<mapsto> k'))"
proof -
  obtain n' where n': "N (pc_node k) = Some n'" "conn_ok t c k n'" "node_ok t C (pc_node k) n'" "pn_conn n' = None \<or> pn_conn n' = Some c"
    "\<forall>c' k'. C c' = Some k' \<and> pc_node k' = pc_node k \<longrightarrow> c' = c" by (rule core_conn [OF assms(1,2)])
  have [simp]: "n' = n" using n'(1) assms(3) by simp
  have k: "pc_node k' = pc_node k" "\<not> pc_connecting k'" using assms(6) by (auto split: if_splits)
  show ?thesis
  proof (rule core_update [OF assms(1) n'(5)])
    show "\<forall>k''. Some k' = Some k'' \<longrightarrow> pc_node k'' = pc_node k \<and> conn_ok t c k'' (n\<lparr>pn_connecting := False, pn_healthy := ok\<rparr>)"
      using n'(2) assms(4,5,6) by (auto simp: conn_ok_def split: if_splits)
    show "node_ok t (C(c \<mapsto> k')) (pc_node k) (n\<lparr>pn_connecting := False, pn_healthy := ok\<rparr>)"
      using n'(2,4) assms(5) k by (auto simp: node_ok_def conn_ok_def)
  qed (simp add: assms(2))
qed

lemma core_closed:
  assumes "core t N C" and "C c = Some k" and "N (pc_node k) = Some n"
  shows "core t (N(pc_node k \<mapsto> n\<lparr>pn_healthy := False, pn_connecting := False, pn_conn := None\<rparr>)) (C(c := None))"
proof -
  obtain n' where n': "\<forall>c' k'. C c' = Some k' \<and> pc_node k' = pc_node k \<longrightarrow> c' = c" by (rule core_conn [OF assms(1,2)])
  show ?thesis
    by (rule core_update [OF assms(1) n']) (simp_all add: assms(2) node_ok_def)
qed

text \<open>A connection that is marked as closed, or whose handle is closed, leaves its node as it is.\<close>

lemma core_conn_change:
  assumes "core t N C" and "C c = Some k" and "pc_node k' = pc_node k" "pc_connecting k' = pc_connecting k" "pc_alive k' = pc_alive k"
    and "pc_keep k \<longrightarrow> pc_keep k'" and "t \<longrightarrow> pc_closing k'"
  shows "core t N (C(c \<mapsto> k'))"
proof -
  obtain n where n: "N (pc_node k) = Some n" "conn_ok t c k n" "node_ok t C (pc_node k) n" "pn_conn n = None \<or> pn_conn n = Some c"
    "\<forall>c' k'. C c' = Some k' \<and> pc_node k' = pc_node k \<longrightarrow> c' = c" by (rule core_conn [OF assms(1,2)])
  have "core t (N(pc_node k \<mapsto> n)) (C(c \<mapsto> k'))"
  proof (rule core_update [OF assms(1) n(5)])
    show "\<forall>k''. Some k' = Some k'' \<longrightarrow> pc_node k'' = pc_node k \<and> conn_ok t c k'' n"
      using n(2) assms(3-) by (auto simp: conn_ok_def)
    show "node_ok t (C(c \<mapsto> k')) (pc_node k) n"
      using n(3,4,5) assms(2-4) unfolding node_ok_def by (metis fun_upd_other fun_upd_same option.distinct(1) option.inject)
  qed (simp add: assms(2))
  then show ?thesis using n(1) by (simp add: fun_upd_idem)
qed

text \<open>A node without connections is connected.\<close>

lemma core_connect:
  assumes "core t N C" and "N p = Some n" and "\<forall>c k. C c = Some k \<longrightarrow> pc_node k \<noteq> p" and "C c = None"
  shows "pn_conn n = None" "\<not> pn_healthy n"
    "core t (N(p \<mapsto> n\<lparr>pn_connecting := True, pn_conn := Some c\<rparr>))
       (C(c \<mapsto> \<lparr>pc_node = p, pc_alive = True, pc_keep = False, pc_connecting = True, pc_closing = False\<rparr>))"
proof -
  have n: "node_ok t C p n" using assms(1,2) by (simp add: core_def)
  then show p: "pn_conn n = None" using assms(3) unfolding node_ok_def by (cases "pn_conn n") auto
  show h: "\<not> pn_healthy n" using n assms(3) unfolding node_ok_def by blast
  show "core t (N(p \<mapsto> n\<lparr>pn_connecting := True, pn_conn := Some c\<rparr>))
       (C(c \<mapsto> \<lparr>pc_node = p, pc_alive = True, pc_keep = False, pc_connecting = True, pc_closing = False\<rparr>))"
    by (rule core_update [OF assms(1)]) (use assms h in \<open>auto simp: conn_ok_def node_ok_def\<close>)
qed

lemma core_node_change:
  assumes "core t N C" and "\<forall>c k. C c = Some k \<longrightarrow> pc_node k \<noteq> p" and "C d = None"
    and "pn_conn n' = None" and "\<not> pn_healthy n'"
  shows "core t (N(p \<mapsto> n')) C"
proof -
  have "core t (N(p \<mapsto> n')) (C(d := None))"
    by (rule core_update [OF assms(1)]) (use assms in \<open>auto simp: node_ok_def\<close>)
  then show ?thesis using assms(3) by (simp add: fun_upd_idem)
qed

lemma core_let_go:
  assumes "core False N C" and "N p = Some n" and "C d = None" and "\<forall>c k. C c = Some k \<longrightarrow> pc_node k = p \<longrightarrow> pc_keep k"
    and "pn_conn n' = None" and "\<not> pn_healthy n'"
  shows "core False (N(p \<mapsto> n')) C"
proof -
  obtain c where c: "\<forall>c' k'. C c' = Some k' \<and> pc_node k' = p \<longrightarrow> c' = c" "\<forall>k. C c = Some k \<longrightarrow> pc_node k = p"
    by (rule core_slot [OF assms(1,3)])
  have "core False (N(p \<mapsto> n')) (C(c := C c))"
  proof (rule core_update [OF assms(1) c])
    show "\<forall>k. C c = Some k \<longrightarrow> pc_node k = p \<and> conn_ok False c k n'"
      using c(2) assms(1,4) unfolding core_def conn_ok_def by blast
  qed (simp add: node_ok_def assms(5,6))
  then show ?thesis by simp
qed

section \<open>The operations keep the invariant\<close>

text \<open>What stays the same while connections are made.\<close>

definition same_pool :: "pool \<Rightarrow> pool \<Rightarrow> bool" where
  "same_pool s s' \<longleftrightarrow> map ident (pl_nodes s') = map ident (pl_nodes s) \<and> pl_posted s' = pl_posted s \<and>
     pl_running s' = pl_running s \<and> pl_timer s' = pl_timer s \<and> pl_next s \<le> pl_next s' \<and>
     ((\<forall>c. pl_conns s c \<noteq> None \<longrightarrow> c < pl_next s) \<longrightarrow> (\<forall>c. pl_conns s' c \<noteq> None \<longrightarrow> c < pl_next s'))"

lemma same_pool_refl: "same_pool s s" by (simp add: same_pool_def)

lemma same_pool_trans: "same_pool s s1 \<Longrightarrow> same_pool s1 s2 \<Longrightarrow> same_pool s s2"
  by (simp add: same_pool_def)

lemma upool_ids_ok_mono: "upool_ids_ok ids m \<Longrightarrow> m \<le> m' \<Longrightarrow> upool_ids_ok ids m'"
  by (auto simp: upool_ids_ok_def)

lemma same_pool_shape: "same_pool s s' \<Longrightarrow> shape s \<Longrightarrow> shape s'"
  unfolding same_pool_def shape_def using upool_ids_ok_mono by auto

lemma same_pool_ptrs: "same_pool s s' \<Longrightarrow> map pn_ptr (pl_nodes s') = map pn_ptr (pl_nodes s)"
proof -
  assume "same_pool s s'"
  then have "map fst (map ident (pl_nodes s')) = map fst (map ident (pl_nodes s))" by (simp add: same_pool_def)
  then show ?thesis by (simp add: comp_def ident_def)
qed

lemma node_at_same: "map pn_ptr (pl_nodes s') = map pn_ptr (pl_nodes s) \<Longrightarrow> node_at p s = Some n \<Longrightarrow> \<exists>n'. node_at p s' = Some n'"
  by (metis node_at_exists set_map)

lemma try_connect_core:
  assumes "core t (\<lambda>p. node_at p s) (pl_conns s)" and "\<forall>c. pl_conns s c \<noteq> None \<longrightarrow> c < pl_next s"
    and "node_at p s = Some n" and "\<forall>c k. pl_conns s c = Some k \<longrightarrow> pc_node k \<noteq> p"
  shows "\<exists>s'. try_connect ok p s = Some s' \<and> core t (\<lambda>p. node_at p s') (pl_conns s') \<and> same_pool s s' \<and>
    (\<forall>c k. pl_conns s' c = Some k \<longrightarrow> pl_conns s c = Some k \<or> pc_node k = p)"
proof -
  define C' where "C' = (pl_conns s)(pl_next s \<mapsto> \<lparr>pc_node = p, pc_alive = True, pc_keep = False, pc_connecting = True, pc_closing = False\<rparr>)"
  have c: "pl_conns s (pl_next s) = None" using assms(2) by (cases "pl_conns s (pl_next s)") auto
  note k = core_connect [OF assms(1,3,4) c]
  consider "\<not> pl_loop s" | "pl_loop s" "\<not> ok" | "pl_loop s" ok by blast
  then show ?thesis
  proof cases
    case 1
    then show ?thesis using assms(1,3) by (simp add: try_connect_def same_pool_refl)
  next
    case 2
    have "core t ((\<lambda>p. node_at p s)(p \<mapsto> n\<lparr>pn_connecting := False\<rparr>)) (pl_conns s)"
      by (rule core_node_change [OF assms(1,4) c]) (simp_all add: k)
    then show ?thesis using 2 assms(3) by (simp add: try_connect_def nodes_map same_pool_def)
  next
    case 3
    define s1 where "s1 = map_node p (\<lambda>n. n\<lparr>pn_connecting := True, pn_conn := Some (pl_next s)\<rparr>)
      (s\<lparr>pl_next := pl_next s + 1, pl_conns := C'\<rparr>)"
    have "try_connect ok p s = Some s1" using 3 assms(3) k(1) by (simp add: try_connect_def Let_def conn_drop_def s1_def C'_def)
    moreover have "core t (\<lambda>p. node_at p s1) (pl_conns s1)"
      using k(3) by (simp add: s1_def nodes_map assms(3) C'_def)
    moreover have "same_pool s s1" by (auto simp: same_pool_def s1_def C'_def map_node_def comp_def if_distrib ident_def)
    moreover have "\<forall>c k. pl_conns s1 c = Some k \<longrightarrow> pl_conns s c = Some k \<or> pc_node k = p" by (simp add: s1_def C'_def)
    ultimately show ?thesis by blast
  qed
qed

lemma connect_all_core:
  assumes "core t (\<lambda>p. node_at p s) (pl_conns s)" and "\<forall>c. pl_conns s c \<noteq> None \<longrightarrow> c < pl_next s"
    and "\<forall>p \<in> set ps. node_at p s \<noteq> None \<and> (\<forall>c k. pl_conns s c = Some k \<longrightarrow> pc_node k \<noteq> p)" and "distinct ps"
  shows "\<exists>s'. connect_all ok ps s = Some s' \<and> core t (\<lambda>p. node_at p s') (pl_conns s') \<and> same_pool s s'"
  using assms
proof (induction ps arbitrary: s)
  case Nil
  then show ?case by (simp add: same_pool_refl)
next
  case (Cons p ps)
  obtain n where n: "node_at p s = Some n" using Cons.prems(3) by auto
  obtain s1 where s1: "try_connect (ok p) p s = Some s1" "core t (\<lambda>p. node_at p s1) (pl_conns s1)" "same_pool s s1"
    "\<forall>c k. pl_conns s1 c = Some k \<longrightarrow> pl_conns s c = Some k \<or> pc_node k = p"
    using try_connect_core [OF Cons.prems(1,2) n, of "ok p"] Cons.prems(3) by auto
  have b: "\<forall>c. pl_conns s1 c \<noteq> None \<longrightarrow> c < pl_next s1" using s1(3) Cons.prems(2) by (simp add: same_pool_def)
  have "\<forall>q \<in> set ps. node_at q s1 \<noteq> None \<and> (\<forall>c k. pl_conns s1 c = Some k \<longrightarrow> pc_node k \<noteq> q)"
  proof
    fix q assume q: "q \<in> set ps"
    then obtain m where "node_at q s = Some m" using Cons.prems(3) by auto
    then have "node_at q s1 \<noteq> None" using node_at_same [OF same_pool_ptrs [OF s1(3)]] by blast
    moreover have "p \<noteq> q" using q Cons.prems(4) by auto
    ultimately show "node_at q s1 \<noteq> None \<and> (\<forall>c k. pl_conns s1 c = Some k \<longrightarrow> pc_node k \<noteq> q)"
      using s1(4) Cons.prems(3) q by (metis list.set_intros(2))
  qed
  then obtain s2 where "connect_all ok ps s1 = Some s2" "core t (\<lambda>p. node_at p s2) (pl_conns s2)" "same_pool s1 s2"
    using Cons.IH [OF s1(2) b] Cons.prems(4) by auto
  then show ?case using s1(1,3) same_pool_trans by fastforce
qed

lemma same_pool_inv: "same_pool s s' \<Longrightarrow> pool_inv s \<Longrightarrow> core (pl_timer s) (\<lambda>p. node_at p s') (pl_conns s') \<Longrightarrow> pool_inv s'"
  using same_pool_shape by (auto simp: pool_inv_def same_pool_def)

lemma shape_bound: "shape s \<Longrightarrow> \<forall>c. pl_conns s c \<noteq> None \<longrightarrow> c < pl_next s"
  by (simp add: shape_def)

lemma shape_ptrs: "shape s \<Longrightarrow> distinct (map pn_ptr (pl_nodes s))"
  by (simp add: shape_def upool_ids_ok_def comp_def ident_def)

lemma node_at_listed: "p \<in> set (map pn_ptr (pl_nodes s)) \<Longrightarrow> node_at p s \<noteq> None"
  using node_at_exists [of p s] by auto

lemma timer_inv:
  assumes "pool_inv s" and "pl_timer s" and "\<forall>c k. pl_conns s c = Some k \<longrightarrow> \<not> pc_closing k"
  shows "\<exists>s'. on_reconnect_timer ok s = Some s' \<and> pool_inv s'"
proof -
  let ?ns = "filter (\<lambda>n. \<not> pn_healthy n \<and> \<not> pn_connecting n) (pl_nodes s)"
  have c: "core True (\<lambda>p. node_at p s) (pl_conns s)" and sh: "shape s" using assms(1,2) by (simp_all add: pool_inv_def)
  have "\<forall>p \<in> set (map pn_ptr ?ns). node_at p s \<noteq> None \<and> (\<forall>c k. pl_conns s c = Some k \<longrightarrow> pc_node k \<noteq> p)"
  proof
    fix p assume "p \<in> set (map pn_ptr ?ns)"
    then obtain n where n: "n \<in> set (pl_nodes s)" "pn_ptr n = p" "\<not> pn_healthy n" "\<not> pn_connecting n" by auto
    then have at: "node_at p s = Some n" using node_at_mem [OF shape_ptrs [OF sh]] by simp
    have "pc_node k \<noteq> p" if k: "pl_conns s i = Some k" for i k
    proof
      assume "pc_node k = p"
      then have "conn_ok True i k n" using c k at unfolding core_def by fastforce
      then show False using assms(3) k n(3,4) by (auto simp: conn_ok_def split: if_splits)
    qed
    then show "node_at p s \<noteq> None \<and> (\<forall>c k. pl_conns s c = Some k \<longrightarrow> pc_node k \<noteq> p)" using at by simp
  qed
  moreover have "distinct (map pn_ptr ?ns)" using shape_ptrs [OF sh] by (rule distinct_map_filter)
  ultimately obtain s' where s': "connect_all ok (map pn_ptr ?ns) s = Some s'" "core True (\<lambda>p. node_at p s') (pl_conns s')" "same_pool s s'"
    using connect_all_core [OF c shape_bound [OF sh], of "map pn_ptr ?ns" ok] by blast
  then show ?thesis using same_pool_inv [OF s'(3) assms(1)] assms(2) by (simp add: on_reconnect_timer_def)
qed

lemma core_empty: "core t N Map.empty \<longleftrightarrow> (\<forall>p n. N p = Some n \<longrightarrow> pn_conn n = None \<and> \<not> pn_healthy n)"
  by (auto simp: core_def node_ok_def)

lemma start_inv:
  assumes "pool_inv s" and "pl_conns s = Map.empty"
  shows "\<exists>s'. map_option snd (upool_start ok s) = Some s' \<and> pool_inv s' \<and> map ident (pl_nodes s') = map ident (pl_nodes s) \<and>
    (pl_loop s \<longrightarrow> pl_running s')"
proof (cases "pl_running s \<or> \<not> pl_loop s")
  case True
  then show ?thesis using assms(1) by (auto simp: upool_start_def)
next
  case False
  define s1 where "s1 = s\<lparr>pl_running := True\<rparr>"
  have sh: "shape s" using assms(1) by (simp add: pool_inv_def)
  have c: "core True (\<lambda>p. node_at p s1) (pl_conns s1)" using assms by (simp add: pool_inv_def s1_def core_empty)
  have l: "\<forall>p \<in> set (map pn_ptr (pl_nodes s)). node_at p s1 \<noteq> None \<and> (\<forall>c k. pl_conns s1 c = Some k \<longrightarrow> pc_node k \<noteq> p)"
    using node_at_listed [of _ s] by (simp add: s1_def assms(2))
  have b: "\<forall>c. pl_conns s1 c \<noteq> None \<longrightarrow> c < pl_next s1" by (simp add: s1_def assms(2))
  obtain s' where s': "connect_all ok (map pn_ptr (pl_nodes s)) s1 = Some s'" "core True (\<lambda>p. node_at p s') (pl_conns s')" "same_pool s1 s'"
    using connect_all_core [OF c b l shape_ptrs [OF sh], of ok] by blast
  have "pool_inv (s'\<lparr>pl_timer := True\<rparr>)"
    using s'(2,3) sh upool_ids_ok_mono b by (auto simp: pool_inv_def shape_def same_pool_def s1_def)
  moreover have "map ident (pl_nodes s') = map ident (pl_nodes s)" "pl_running s'" using s'(3) by (simp_all add: same_pool_def s1_def)
  ultimately show ?thesis using s'(1) False by (simp add: upool_start_def s1_def)
qed

lemma nodes_append: "node_at q (s\<lparr>pl_next := x, pl_nodes := pl_nodes s @ [n]\<rparr>) =
    (case node_at q s of None \<Rightarrow> if pn_ptr n = q then Some n else None | Some m \<Rightarrow> Some m)"
proof -
  have "find P (ns @ [n]) = (case find P ns of None \<Rightarrow> if P n then Some n else None | Some m \<Rightarrow> Some m)" for P ns
    by (induction ns) auto
  then show ?thesis by (simp add: node_at_def)
qed

lemma shape_fresh: "shape s \<Longrightarrow> node_at (pl_next s) s = None"
  using find_None_iff [of "\<lambda>n. pn_ptr n = pl_next s" "pl_nodes s"] by (auto simp: shape_def upool_ids_ok_def ident_def node_at_def)

lemma add_inv:
  assumes "pool_inv s" and "here \<or> \<not> pl_running s"
  shows "\<exists>s'. add_node here ok host port s = Some s' \<and> pool_inv s'"
proof (cases "\<exists>n \<in> set (pl_nodes s). pn_host n = host \<and> pn_port n = port")
  case True
  then show ?thesis using assms(1) by (simp add: add_node_def)
next
  case False
  define n where "n = \<lparr>pn_ptr = pl_next s, pn_host = host, pn_port = port, pn_healthy = False, pn_connecting = False, pn_conn = None\<rparr>"
  define s1 where "s1 = s\<lparr>pl_next := pl_next s + 1, pl_nodes := pl_nodes s @ [n]\<rparr>"
  have c: "core (pl_timer s) (\<lambda>p. node_at p s) (pl_conns s)" and sh: "shape s" using assms(1) by (simp_all add: pool_inv_def)
  have fr: "node_at (pl_next s) s = None" by (rule shape_fresh [OF sh])
  have nc: "\<forall>c k. pl_conns s c = Some k \<longrightarrow> pc_node k \<noteq> pl_next s" using c fr unfolding core_def by fastforce
  have d: "pl_conns s (pl_next s) = None" using shape_bound [OF sh] by (cases "pl_conns s (pl_next s)") auto
  have e: "(\<lambda>q. node_at q s1) = (\<lambda>q. node_at q s)(pl_next s \<mapsto> n)"
    using fr unfolding s1_def by (intro ext) (auto simp: nodes_append n_def split: option.split)
  have c1: "core (pl_timer s1) (\<lambda>q. node_at q s1) (pl_conns s1)"
    using core_node_change [OF c nc d, of n] by (simp add: e n_def) (simp add: s1_def)
  have "upool_ids_ok (map ident (pl_nodes s1)) (pl_next s1)"
    using sh False by (auto simp: shape_def upool_ids_ok_def s1_def n_def ident_def)
  then have sh1: "shape s1" using sh by (auto simp: shape_def s1_def)
  have i: "pool_inv s1" using c1 sh1 by (simp add: pool_inv_def)
  have nn: "node_at (pl_next s) s1 = Some n" using fun_cong [OF e, of "pl_next s"] by simp
  obtain s2 where s2: "try_connect ok (pl_next s) s1 = Some s2" "core (pl_timer s1) (\<lambda>p. node_at p s2) (pl_conns s2)" "same_pool s1 s2"
    using try_connect_core [OF c1 shape_bound [OF sh1] nn, of ok] nc by (auto simp: s1_def)
  have "pool_inv s2" by (rule same_pool_inv [OF s2(3) i s2(2)])
  then show ?thesis using s2(1) i assms(2) False by (auto simp: add_node_def Let_def s1_def n_def)
qed

lemma stop_node_core:
  assumes "core False (\<lambda>p. node_at p s) (pl_conns s)" and "\<forall>c. pl_conns s c \<noteq> None \<longrightarrow> c < pl_next s"
  shows "core False (\<lambda>p. node_at p (stop_node here q s)) (pl_conns (stop_node here q s)) \<and>
    map ident (pl_nodes (stop_node here q s)) = map ident (pl_nodes s) \<and>
    pl_next (stop_node here q s) = pl_next s \<and> pl_running (stop_node here q s) = pl_running s \<and> pl_timer (stop_node here q s) = pl_timer s \<and>
    (\<forall>c. pl_conns (stop_node here q s) c \<noteq> None \<longrightarrow> pl_conns s c \<noteq> None) \<and>
    ((\<forall>p. TaskConnect p \<notin> set (pl_posted s)) \<longrightarrow> (\<forall>p. TaskConnect p \<notin> set (pl_posted (stop_node here q s))))"
proof (cases "node_at q s")
  case None
  then show ?thesis using assms by (simp add: stop_node_def)
next
  case (Some n)
  define f where "f = (\<lambda>n :: pnode. n\<lparr>pn_healthy := False, pn_connecting := False, pn_conn := None\<rparr>)"
  define s1 where "s1 = (case pn_conn n of None \<Rightarrow> s | Some c \<Rightarrow> conn_drop (Some c) (conn_close here c s))"
  have st: "stop_node here q s = map_node q f s1" using Some by (simp add: stop_node_def s1_def f_def)
  have d: "pl_conns s (pl_next s) = None" using assms(2) by (cases "pl_conns s (pl_next s)") auto
  have own: "pc_keep k \<or> pn_conn n = Some c" if "pl_conns s c = Some k" "pc_node k = q" for c k
    using assms(1) Some that unfolding core_def conn_ok_def by fastforce
  have no: "node_ok False (pl_conns s) q n" using assms(1) Some unfolding core_def by blast
  have s1: "core False (\<lambda>p. node_at p s1) (pl_conns s1) \<and> node_at q s1 = Some n \<and> pl_conns s1 (pl_next s) = None \<and>
    (\<forall>c k. pl_conns s1 c = Some k \<longrightarrow> pc_node k = q \<longrightarrow> pc_keep k) \<and> pl_nodes s1 = pl_nodes s \<and> pl_next s1 = pl_next s \<and>
    pl_running s1 = pl_running s \<and> pl_timer s1 = pl_timer s \<and> (\<forall>c. pl_conns s1 c \<noteq> None \<longrightarrow> pl_conns s c \<noteq> None) \<and>
    ((\<forall>p. TaskConnect p \<notin> set (pl_posted s)) \<longrightarrow> (\<forall>p. TaskConnect p \<notin> set (pl_posted s1)))"
  proof (cases "pn_conn n")
    case None
    then show ?thesis using assms(1) own Some d by (simp add: s1_def)
  next
    case c: (Some c)
    then obtain k where k: "pl_conns s c = Some k" "pc_node k = q" using no unfolding node_ok_def by blast
    define k' where "k' = (if pc_keep k then k else if here then k\<lparr>pc_keep := True, pc_closing := True\<rparr> else k\<lparr>pc_keep := True\<rparr>)"
    have k': "pc_node k' = q" "pc_keep k'" by (simp_all add: k'_def k)
    have "core False (\<lambda>p. node_at p s) ((pl_conns s)(c \<mapsto> k'))"
      by (rule core_conn_change [OF assms(1) k(1)]) (simp_all add: k'_def)
    moreover have "pl_conns s1 = (pl_conns s)(c \<mapsto> k')" "(\<lambda>p. node_at p s1) = (\<lambda>p. node_at p s)" "pl_nodes s1 = pl_nodes s" "pl_next s1 = pl_next s"
      "pl_running s1 = pl_running s" "pl_timer s1 = pl_timer s" "set (pl_posted s1) \<subseteq> set (pl_posted s) \<union> {TaskClose c}"
      using k by (auto simp: s1_def c conn_drop_def conn_close_def map_conn_def k'_def)
    moreover have "node_at q s1 = Some n" using Some calculation(3) by (metis (mono_tags))
    moreover have "\<forall>i j. ((pl_conns s)(c \<mapsto> k')) i = Some j \<longrightarrow> pc_node j = q \<longrightarrow> pc_keep j"
      using own k' c by auto
    moreover have "c \<noteq> pl_next s" using d k(1) by auto
    ultimately show ?thesis using d k(1) by auto
  qed
  have "core False ((\<lambda>p. node_at p s1)(q \<mapsto> f n)) (pl_conns s1)"
    by (rule core_let_go [of _ _ q n "pl_next s"]) (use s1 in \<open>auto simp: f_def\<close>)
  then have "core False (\<lambda>p. node_at p (map_node q f s1)) (pl_conns s1)" using s1 by (simp add: nodes_map f_def)
  moreover have "map ident (pl_nodes (map_node q f s1)) = map ident (pl_nodes s1)" by (rule ident_map_node) (simp add: f_def ident_def)
  ultimately show ?thesis using s1 by (simp add: st)
qed

lemma stop_inv:
  assumes "pool_inv s"
  shows "pool_inv (upool_stop here s)"
proof (cases "pl_running s")
  case False
  then show ?thesis using assms by (simp add: upool_stop_def)
next
  case True
  define good where "good x \<longleftrightarrow> core False (\<lambda>p. node_at p x) (pl_conns x) \<and> upool_ids_ok (map ident (pl_nodes x)) (pl_next x) \<and>
    (\<forall>c. pl_conns x c \<noteq> None \<longrightarrow> c < pl_next x) \<and> (\<forall>p. TaskConnect p \<notin> set (pl_posted x)) \<and> \<not> pl_running x \<and> \<not> pl_timer x" for x
  have "good (fold (stop_node here) ps x)" if "good x" for ps x
    using that
  proof (induction ps arbitrary: x)
    case (Cons p ps)
    have "good (stop_node here p x)" using stop_node_core [of x here p] Cons.prems unfolding good_def by simp
    then show ?case using Cons.IH by simp
  qed simp
  moreover have "good (s\<lparr>pl_running := False, pl_timer := False\<rparr>)"
    using assms core_weaken by (auto simp: good_def pool_inv_def shape_def)
  ultimately have "good (upool_stop here s)" using True by (simp add: upool_stop_def)
  then show ?thesis by (simp add: good_def pool_inv_def shape_def)
qed

lemma close_here_conns: "pl_conns s c = Some k \<Longrightarrow>
    pl_conns (conn_close True c s) = (pl_conns s)(c \<mapsto> if pc_keep k then k else k\<lparr>pc_keep := True, pc_closing := True\<rparr>)"
  by (auto simp: conn_close_def map_conn_def fun_upd_idem)

lemma close_here_frame [simp]: "pl_nodes (conn_close True c s) = pl_nodes s" "pl_next (conn_close True c s) = pl_next s"
  "pl_running (conn_close True c s) = pl_running s" "pl_timer (conn_close True c s) = pl_timer s" "pl_posted (conn_close True c s) = pl_posted s"
  "node_at p (conn_close True c s) = node_at p s"
  by (simp_all add: conn_close_def split: option.split)

lemma connected_inv:
  assumes "pool_inv s" and "pl_conns s c = Some k" and "pc_connecting k" and "ok \<longrightarrow> \<not> pc_closing k"
  shows "\<exists>s'. on_connected c ok s = Some s' \<and> pool_inv s'"
proof -
  define k' where "k' = (if ok \<or> pc_keep k then k\<lparr>pc_connecting := False\<rparr> else k\<lparr>pc_connecting := False, pc_keep := True, pc_closing := True\<rparr>)"
  have c: "core (pl_timer s) (\<lambda>p. node_at p s) (pl_conns s)" and sh: "shape s" using assms(1) by (simp_all add: pool_inv_def)
  obtain n where n: "node_at (pc_node k) s = Some n" "pc_alive k" using core_conn [OF c assms(2)] unfolding conn_ok_def by blast
  define s1 where "s1 = update_health (pc_node k) ok (map_node (pc_node k) (\<lambda>n. n\<lparr>pn_connecting := False\<rparr>)
    (map_conn c (\<lambda>k. k\<lparr>pc_connecting := False\<rparr>) s))"
  define s2 where "s2 = (if ok then s1 else conn_close True c s1)"
  have e: "on_connected c ok s = Some s2" using n assms(2) by (simp add: on_connected_def s2_def s1_def Let_def)
  have C1: "pl_conns s1 = (pl_conns s)(c \<mapsto> k\<lparr>pc_connecting := False\<rparr>)" by (simp add: s1_def map_conn_def assms(2))
  have C2: "pl_conns s2 = (pl_conns s)(c \<mapsto> k')"
  proof (cases ok)
    case False
    then show ?thesis using close_here_conns [of s1 c "k\<lparr>pc_connecting := False\<rparr>"] by (simp add: s2_def C1 k'_def)
  qed (simp add: s2_def C1 k'_def)
  have N2: "(\<lambda>p. node_at p s2) = (\<lambda>p. node_at p s)(pc_node k \<mapsto> n\<lparr>pn_connecting := False, pn_healthy := ok\<rparr>)"
    by (rule ext) (simp add: s2_def s1_def node_at_health node_at_map n(1))
  have f: "map ident (pl_nodes s2) = map ident (pl_nodes s)" "pl_next s2 = pl_next s" "pl_running s2 = pl_running s"
    "pl_timer s2 = pl_timer s" "pl_posted s2 = pl_posted s" by (simp_all add: s2_def s1_def)
  have "core (pl_timer s) (\<lambda>p. node_at p s2) (pl_conns s2)"
    unfolding N2 C2 by (rule core_connected [OF c assms(2) n(1) assms(3,4)]) (simp add: k'_def)
  moreover have "shape s2" using sh assms(2) by (auto simp: shape_def f C2)
  ultimately show ?thesis using e f(4) by (simp add: pool_inv_def)
qed

lemma lost_inv:
  assumes "pool_inv s" and "pl_conns s c = Some k"
  shows "\<exists>s'. on_lost c s = Some s' \<and> pool_inv s'"
proof -
  have c: "core (pl_timer s) (\<lambda>p. node_at p s) (pl_conns s)" and sh: "shape s" using assms(1) by (simp_all add: pool_inv_def)
  have al: "pc_alive k" using core_conn [OF c assms(2)] unfolding conn_ok_def by blast
  have "core (pl_timer s) (\<lambda>p. node_at p s) (pl_conns (conn_close True c s))"
  proof (cases "pc_keep k")
    case True
    then show ?thesis using c assms(2) by (simp add: conn_close_def)
  next
    case False
    then show ?thesis unfolding close_here_conns [OF assms(2)] by (intro core_conn_change [OF c assms(2)]) simp_all
  qed
  moreover have "shape (conn_close True c s)" using sh assms(2) by (auto simp: shape_def close_here_conns)
  ultimately show ?thesis using assms(2) al by (simp add: on_lost_def pool_inv_def)
qed

lemma closed_inv:
  assumes "pool_inv s" and "pl_conns s c = Some k"
  shows "\<exists>s'. on_closed c s = Some s' \<and> pool_inv s'"
proof -
  have c: "core (pl_timer s) (\<lambda>p. node_at p s) (pl_conns s)" and sh: "shape s" using assms(1) by (simp_all add: pool_inv_def)
  obtain n where n: "node_at (pc_node k) s = Some n" "pc_alive k" "pn_conn n = None \<or> pn_conn n = Some c"
    using core_conn [OF c assms(2)] unfolding conn_ok_def by blast
  define s1 where "s1 = map_node (pc_node k) (\<lambda>n. n\<lparr>pn_connecting := False, pn_conn := None\<rparr>) (update_health (pc_node k) False s)"
  define s2 where "s2 = (conn_drop (pn_conn n) s1)\<lparr>pl_conns := (pl_conns (conn_drop (pn_conn n) s1))(c := None)\<rparr>"
  have e: "on_closed c s = Some s2" using n(1,2) assms(2) by (simp add: on_closed_def s2_def s1_def Let_def)
  have C2: "pl_conns s2 = (pl_conns s)(c := None)" using n(3) by (auto simp: s2_def conn_drop_def conns_map s1_def)
  have "pl_nodes s2 = pl_nodes s1" using n(3) by (auto simp: s2_def conn_drop_def)
  then have N2: "(\<lambda>p. node_at p s2) = (\<lambda>p. node_at p s)(pc_node k \<mapsto> n\<lparr>pn_healthy := False, pn_connecting := False, pn_conn := None\<rparr>)"
    and i: "map ident (pl_nodes s2) = map ident (pl_nodes s)"
  proof -
    assume s2: "pl_nodes s2 = pl_nodes s1"
    then have "node_at p s2 = node_at p s1" for p by (simp add: node_at_def)
    then show "(\<lambda>p. node_at p s2) = (\<lambda>p. node_at p s)(pc_node k \<mapsto> n\<lparr>pn_healthy := False, pn_connecting := False, pn_conn := None\<rparr>)"
      by (intro ext) (simp add: s1_def node_at_health node_at_map n(1))
    have "map ident (pl_nodes s1) = map ident (pl_nodes (update_health (pc_node k) False s))"
      unfolding s1_def by (rule ident_map_node) (simp add: ident_def)
    then show "map ident (pl_nodes s2) = map ident (pl_nodes s)" by (simp add: s2)
  qed
  have f: "pl_next s2 = pl_next s" "pl_running s2 = pl_running s" "pl_timer s2 = pl_timer s" "pl_posted s2 = pl_posted s"
    using n(3) by (auto simp: s2_def s1_def conn_drop_def)
  have "core (pl_timer s) (\<lambda>p. node_at p s2) (pl_conns s2)" unfolding N2 C2 by (rule core_closed [OF c assms(2) n(1)])
  moreover have "shape s2" using sh by (auto simp: shape_def f C2 i)
  ultimately show ?thesis using e f(3) by (simp add: pool_inv_def)
qed

lemma task_inv:
  assumes "pool_inv s"
  shows "\<exists>s'. run_posted ok s = Some s' \<and> pool_inv s'"
proof (cases "pl_posted s")
  case Nil
  then show ?thesis using assms by (simp add: run_posted_def)
next
  case (Cons t ts)
  have co: "core (pl_timer s) (\<lambda>p. node_at p s) (pl_conns s)" and sh: "shape s" using assms by (simp_all add: pool_inv_def)
  obtain c where t: "t = TaskClose c" using sh Cons by (cases t) (auto simp: shape_def)
  define s1 where "s1 = map_conn c (\<lambda>k. k\<lparr>pc_closing := True\<rparr>) (s\<lparr>pl_posted := ts\<rparr>)"
  have "core (pl_timer s) (\<lambda>p. node_at p s) (pl_conns s1)"
  proof (cases "pl_conns s c")
    case None
    then show ?thesis using co by (simp add: s1_def conns_map fun_upd_idem)
  next
    case (Some k)
    then show ?thesis unfolding s1_def conns_map
      using core_conn_change [OF co Some, of "k\<lparr>pc_closing := True\<rparr>"] by simp
  qed
  moreover have "shape s1" using sh Cons by (auto simp: shape_def s1_def conns_map)
  ultimately have "pool_inv s1" by (simp add: pool_inv_def s1_def)
  then show ?thesis using Cons t by (simp add: run_posted_def s1_def)
qed

lemma pick_from_mem: "ns \<noteq> [] \<Longrightarrow> pick_from ns start i k = Some n \<Longrightarrow> n \<in> set ns"
  by (induction k arbitrary: i) (auto simp: Let_def split: if_splits)

lemma send_inv:
  assumes "pool_inv s"
  shows "\<exists>s'. send_here sends s = Some s' \<and> pool_inv s'"
proof -
  obtain ok t s1 where p: "pool_send_packet sends s = (ok, t, s1)" by (cases "pool_send_packet sends s")
  then have "s1 = s \<or> (\<exists>r. s1 = s\<lparr>pl_rr := r\<rparr>)" by (auto simp: pool_send_packet_def Let_def split: option.splits if_splits)
  then have i: "pool_inv s1" using assms by (auto simp: pool_inv_def shape_def)
  have c: "core (pl_timer s) (\<lambda>p. node_at p s) (pl_conns s)" and sh: "shape s" using assms by (simp_all add: pool_inv_def)
  show ?thesis
  proof (cases t)
    case None
    then show ?thesis using i by (simp add: send_here_def p)
  next
    case (Some d)
    then obtain n where n: "n \<in> set (pl_nodes s)" "pn_conn n = Some d"
      using p by (auto simp: pool_send_packet_def Let_def bind_eq_Some_conv split: option.splits if_splits dest: pick_from_mem [rotated])
    then have "node_at (pn_ptr n) s = Some n" using node_at_mem [OF shape_ptrs [OF sh]] by simp
    then have "node_ok (pl_timer s) (pl_conns s) (pn_ptr n) n" using c unfolding core_def by blast
    then obtain k where k: "pl_conns s d = Some k" using n(2) unfolding node_ok_def by blast
    then have "pc_alive k" using core_conn [OF c k] unfolding conn_ok_def by blast
    then show ?thesis using i k by (simp add: send_here_def p Some)
  qed
qed

lemma step_inv: "pool_step False s r \<Longrightarrow> pool_inv s \<Longrightarrow> \<exists>s'. r = Some s' \<and> pool_inv s'"
proof (induction rule: pool_step.induct)
  case (ps_watch s)
  then show ?case by (simp add: set_on_node_event_def pool_inv_def shape_def)
next
  case (ps_start s ok)
  then show ?case using start_inv [of s ok] by auto
qed (simp_all add: add_inv stop_inv timer_inv task_inv send_inv connected_inv lost_inv closed_inv)

lemma reach_inv: "pool_reach False s \<Longrightarrow> pool_inv s"
proof (induction rule: pool_reach.induct)
  case (pr_new loop)
  show ?case by (simp add: pool_inv_def pool_new_def shape_def upool_ids_ok_def core_empty node_at_def)
next
  case (pr_step s s')
  then show ?case using step_inv by blast
qed

end
