(* ===== verification/GM_UpstreamProps.thy ===== *)
theory GM_UpstreamProps
  imports GM_Upstream
begin

text \<open>
  The properties of the upstream pool: careful use is defined (\<open>pool_never_undefined\<close>), what a removal leaves behind
  (\<open>removed_dangles\<close>, \<open>dangling_after\<close>), the round-robin choice, and runs that leave the careful use.
\<close>

section \<open>Careful use\<close>


section \<open>Removing a node\<close>

text \<open>The node is freed and a callback of its connection is still to come.\<close>

definition dangling :: "nat \<Rightarrow> nat \<Rightarrow> pool \<Rightarrow> bool" where
  "dangling p c s \<longleftrightarrow> p < pl_next s \<and> c < pl_next s \<and> p \<notin> pn_ptr ` set (pl_nodes s) \<and>
     (\<exists>k. pl_conns s c = Some k \<and> pc_node k = p \<and> pc_keep k \<and> (pc_closing k \<or> TaskClose c \<in> set (pl_posted s)))"

lemma node_at_gone: "p \<notin> pn_ptr ` set (pl_nodes s) \<Longrightarrow> node_at p s = None"
  using node_at_exists [of p s] by auto

lemma dangling_callbacks: "dangling p c s \<Longrightarrow> on_connected c ok s = None \<and> on_closed c s = None"
  by (auto simp: dangling_def on_connected_def on_closed_def node_at_gone)

lemma dangling_map_node:
  assumes "\<And>n. pn_ptr (f n) = pn_ptr n"
  shows "dangling p c (map_node q f s) = dangling p c s"
proof -
  have "map pn_ptr (pl_nodes (map_node q f s)) = map pn_ptr (pl_nodes s)"
    using assms by (simp add: map_node_def comp_def if_distrib)
  then have "pn_ptr ` set (pl_nodes (map_node q f s)) = pn_ptr ` set (pl_nodes s)" by (metis set_map)
  then show ?thesis by (simp add: dangling_def)
qed

lemma dangling_health [simp]: "dangling p c (update_health q h s) = dangling p c s"
proof -
  have "dangling p c (map_node q (\<lambda>n. n\<lparr>pn_healthy := h\<rparr>) s) = dangling p c s" by (rule dangling_map_node) simp
  then show ?thesis by (simp add: update_health_def Let_def dangling_def split: option.split)
qed

lemma dangling_only [simp]: "dangling p c (s\<lparr>pl_running := b\<rparr>) = dangling p c s" "dangling p c (s\<lparr>pl_timer := b\<rparr>) = dangling p c s"
  "dangling p c (s\<lparr>pl_watch := b\<rparr>) = dangling p c s" "dangling p c (s\<lparr>pl_rr := r\<rparr>) = dangling p c s"
  "dangling p c (s\<lparr>pl_senders := ph\<rparr>) = dangling p c s"
  by (simp_all add: dangling_def)

text \<open>A change of connections that keeps what is owed.\<close>

lemma dangling_map_conn:
  assumes "dangling p c s" and "\<And>k. pc_keep k \<Longrightarrow> pc_node (f k) = pc_node k \<and> pc_keep (f k) \<and> (pc_closing k \<longrightarrow> pc_closing (f k))"
  shows "dangling p c (map_conn d f s)"
  using assms by (cases "c = d") (auto simp: dangling_def map_conn_def)

lemma dangling_close: "dangling p c s \<Longrightarrow> dangling p c (conn_close here d s)"
proof -
  assume a: "dangling p c s"
  have "dangling p c (map_conn d (\<lambda>k. k\<lparr>pc_keep := True, pc_closing := True\<rparr>) s)" "dangling p c (map_conn d (\<lambda>k. k\<lparr>pc_keep := True\<rparr>) s)"
    by (rule dangling_map_conn [OF a]; simp)+
  moreover have "dangling p c x \<Longrightarrow> dangling p c (x\<lparr>pl_posted := pl_posted x @ [TaskClose d]\<rparr>)" for x by (auto simp: dangling_def)
  ultimately show ?thesis using a by (force simp: conn_close_def split: option.split)
qed

lemma dangling_drop: "dangling p c s \<Longrightarrow> dangling p c (conn_drop d s)"
  by (cases d) (auto simp: conn_drop_def intro!: dangling_map_conn)

lemma dangling_connect:
  assumes "dangling p c s" and "try_connect ok q s = Some s'"
  shows "dangling p c s'"
proof -
  have "dangling p c (s\<lparr>pl_next := pl_next s + 1, pl_conns := (pl_conns s)(pl_next s \<mapsto> k)\<rparr>)" for k
    using assms(1) by (auto simp: dangling_def)
  then show ?thesis using assms by (auto simp: try_connect_def Let_def dangling_map_node intro!: dangling_drop split: option.splits if_splits)
qed

lemma dangling_connect_all: "dangling p c s \<Longrightarrow> connect_all ok ps s = Some s' \<Longrightarrow> dangling p c s'"
  by (induction ps arbitrary: s) (auto simp: bind_eq_Some_conv intro: dangling_connect)

lemma dangling_stop: "dangling p c s \<Longrightarrow> dangling p c (stop_node here q s)"
  by (auto simp: stop_node_def dangling_map_node intro!: dangling_drop dangling_close split: option.split)

lemma add_node_cases:
  assumes "add_node here ok host port s = Some s'"
  shows "s' = s \<or> (\<exists>n s1. pn_ptr n = pl_next s \<and> s1 = s\<lparr>pl_next := Suc (pl_next s), pl_nodes := pl_nodes s @ [n]\<rparr> \<and>
    (s' = s1 \<or> try_connect ok (pl_next s) s1 = Some s' \<or> s' = s1\<lparr>pl_posted := pl_posted s1 @ [TaskConnect (pl_next s)]\<rparr>))"
proof -
  define n where "n = \<lparr>pn_ptr = pl_next s, pn_host = host, pn_port = port, pn_healthy = False, pn_connecting = False, pn_conn = None\<rparr>"
  define s1 where "s1 = s\<lparr>pl_next := Suc (pl_next s), pl_nodes := pl_nodes s @ [n]\<rparr>"
  have "s' = s \<or> s' = s1 \<or> try_connect ok (pl_next s) s1 = Some s' \<or> s' = s1\<lparr>pl_posted := pl_posted s1 @ [TaskConnect (pl_next s)]\<rparr>"
    using assms by (simp add: add_node_def Let_def n_def [symmetric] s1_def [symmetric] split: if_splits)
  moreover have "pn_ptr n = pl_next s" by (simp add: n_def)
  ultimately show ?thesis using s1_def by blast
qed

lemma dangling_step: "pool_step wild s r \<Longrightarrow> dangling p c s \<Longrightarrow> r = Some s' \<Longrightarrow> dangling p c s'"
proof (induction rule: pool_step.induct)
  case (ps_watch s)
  then show ?case by (auto simp: set_on_node_event_def)
next
  case (ps_add here s ok host port)
  have a: "dangling p c s1" if "pn_ptr n = pl_next s" "s1 = s\<lparr>pl_next := Suc (pl_next s), pl_nodes := pl_nodes s @ [n]\<rparr>" for n s1
    using ps_add(2) that by (auto simp: dangling_def)
  have "dangling p c x \<Longrightarrow> dangling p c (x\<lparr>pl_posted := pl_posted x @ [TaskConnect d]\<rparr>)" for x d by (auto simp: dangling_def)
  note b = this
  consider "s' = s" | n s1 where "pn_ptr n = pl_next s" "s1 = s\<lparr>pl_next := Suc (pl_next s), pl_nodes := pl_nodes s @ [n]\<rparr>"
      "s' = s1 \<or> try_connect ok (pl_next s) s1 = Some s' \<or> s' = s1\<lparr>pl_posted := pl_posted s1 @ [TaskConnect (pl_next s)]\<rparr>"
    using add_node_cases [OF ps_add(3)] by (elim disjE exE conjE) iprover+
  then show ?case
  proof cases
    case 1
    then show ?thesis using ps_add(2) by simp
  next
    case 2
    note d = a [OF 2(1,2)]
    from 2(3) show ?thesis
    proof (elim disjE)
      show "s' = s1 \<Longrightarrow> dangling p c s'" using d by simp
      show "try_connect ok (pl_next s) s1 = Some s' \<Longrightarrow> dangling p c s'" by (rule dangling_connect [OF d])
      show "s' = s1\<lparr>pl_posted := pl_posted s1 @ [TaskConnect (pl_next s)]\<rparr> \<Longrightarrow> dangling p c s'" using b [OF d] by simp
    qed
  qed
next
  case (ps_remove s here host port)
  have "dangling p c x \<Longrightarrow> dangling p c (x\<lparr>pl_nodes := filter P (pl_nodes x)\<rparr>)" for x P by (auto simp: dangling_def)
  then show ?case using ps_remove by (auto simp: remove_node_def Let_def dangling_close split: option.split)
next
  case (ps_start s ok)
  have "dangling p c (s\<lparr>pl_running := True\<rparr>)" using ps_start(2) by simp
  from dangling_connect_all [OF this] have "connect_all ok ps (s\<lparr>pl_running := True\<rparr>) = Some x \<Longrightarrow> dangling p c x" for ps x .
  then show ?case using ps_start(2,3) by (auto simp: upool_start_def split: if_splits)
next
  case (ps_stop s here)
  have "dangling p c x \<Longrightarrow> dangling p c (fold (stop_node here) ps x)" for ps x
    by (induction ps arbitrary: x) (simp_all add: dangling_stop)
  then show ?case using ps_stop by (auto simp: upool_stop_def)
next
  case (ps_timer s ok)
  then show ?case using dangling_connect_all by (simp add: on_reconnect_timer_def)
next
  case (ps_task s ok)
  show ?case
  proof (cases "pl_posted s")
    case Nil
    then show ?thesis using ps_task by (simp add: run_posted_def)
  next
    case (Cons t ts)
    show ?thesis
    proof (cases t)
      case (TaskConnect q)
      then have "dangling p c (s\<lparr>pl_posted := ts\<rparr>)" using ps_task(1) Cons by (auto simp: dangling_def)
      then show ?thesis using ps_task(2) Cons TaskConnect dangling_connect by (simp add: run_posted_def)
    next
      case (TaskClose d)
      then show ?thesis using ps_task Cons by (cases "c = d") (auto simp: run_posted_def dangling_def map_conn_def)
    qed
  qed
next
  case (ps_send s sends)
  obtain ok t s1 where p: "pool_send_packet sends s = (ok, t, s1)" by (cases "pool_send_packet sends s")
  then have "s1 = s \<or> (\<exists>r. s1 = s\<lparr>pl_rr := r\<rparr>)" by (auto simp: pool_send_packet_def Let_def split: option.splits if_splits)
  moreover have "s' = s1" using ps_send(2) by (auto simp: send_here_def p split: option.splits if_splits)
  ultimately show ?case using ps_send(1) by auto
next
  case (ps_pick s)
  then show ?case by (auto simp: send_pick_def Let_def split: option.split)
next
  case (ps_go i s)
  then show ?case by (auto simp: send_go_def Let_def bind_eq_Some_conv split: send_phase.splits if_splits)
next
  case (ps_connected s d k ok)
  have "dangling p c (map_conn d (\<lambda>k. k\<lparr>pc_connecting := False\<rparr>) s)" by (rule dangling_map_conn [OF ps_connected(4)]) simp
  then show ?case using ps_connected by (auto simp: on_connected_def Let_def dangling_map_node intro!: dangling_close split: if_splits)
next
  case (ps_lost s d k)
  then show ?case by (auto simp: on_lost_def intro: dangling_close split: if_splits)
next
  case (ps_closed s d k)
  then have "c \<noteq> d" using dangling_callbacks by fastforce
  then have b: "dangling p c x \<Longrightarrow> dangling p c (x\<lparr>pl_conns := (pl_conns x)(d := None)\<rparr>)" for x by (auto simp: dangling_def)
  have "dangling p c (map_node (pc_node k) (\<lambda>n. n\<lparr>pn_connecting := False, pn_conn := None\<rparr>) (update_health (pc_node k) False s))"
    using ps_closed(4) by (simp add: dangling_map_node)
  note b [OF dangling_drop [OF this]]
  then show ?case using ps_closed(1,5) by (auto simp: on_closed_def Let_def split: if_splits option.splits)
qed

inductive pool_after :: "pool \<Rightarrow> pool \<Rightarrow> bool" where
  pa_none: "pool_after s s"
| pa_more: "pool_after s s' \<Longrightarrow> pool_step True s' (Some s'') \<Longrightarrow> pool_after s s''"

lemma dangling_after: "pool_after s s' \<Longrightarrow> dangling p c s \<Longrightarrow> dangling p c s'"
  by (induction rule: pool_after.induct) (auto intro: dangling_step)

lemma find_addr:
  "distinct (map (\<lambda>n. (pn_host n, pn_port n)) ns) \<Longrightarrow> n \<in> set ns \<Longrightarrow> find (\<lambda>m. pn_host m = pn_host n \<and> pn_port m = pn_port n) ns = Some n"
  by (induction ns) auto

text \<open>\<open>RemoveNode\<close> of a node with a connection, while the pool runs.\<close>

lemma removed_dangles:
  assumes "pool_reach False s" and "pl_running s" and "n \<in> set (pl_nodes s)" and "pn_conn n = Some c"
  shows "dangling (pn_ptr n) c (remove_node here (pn_host n) (pn_port n) s)"
proof -
  have sh: "shape s" and co: "core True (\<lambda>p. node_at p s) (pl_conns s)"
    using reach_inv [OF assms(1)] assms(2) by (auto simp: pool_inv_def shape_def)
  have at: "node_at (pn_ptr n) s = Some n" using node_at_mem [OF shape_ptrs [OF sh]] assms(3) by simp
  then have "node_ok True (pl_conns s) (pn_ptr n) n" using co unfolding core_def by blast
  then obtain k where k: "pl_conns s c = Some k" "pc_node k = pn_ptr n" using assms(4) unfolding node_ok_def by blast
  obtain n' where "conn_ok True c k n'" using core_conn [OF co k(1)] by blast
  then have kc: "pc_keep k \<longrightarrow> pc_closing k" unfolding conn_ok_def by blast
  define s1 where "s1 = conn_close here c s"
  have "distinct (map (\<lambda>n. (pn_host n, pn_port n)) (pl_nodes s))" using sh by (simp add: shape_def upool_ids_ok_def comp_def ident_def)
  then have f: "find (\<lambda>m. pn_host m = pn_host n \<and> pn_port m = pn_port n) (pl_nodes s) = Some n" by (rule find_addr [OF _ assms(3)])
  have r: "remove_node here (pn_host n) (pn_port n) s = s1\<lparr>pl_nodes := filter (\<lambda>m. pn_ptr m \<noteq> pn_ptr n) (pl_nodes s1)\<rparr>"
    by (simp add: remove_node_def f assms(4) s1_def Let_def)
  have "\<exists>k'. pl_conns s1 c = Some k' \<and> pc_node k' = pn_ptr n \<and> pc_keep k' \<and> (pc_closing k' \<or> TaskClose c \<in> set (pl_posted s1))"
    "pl_next s1 = pl_next s"
    using k kc by (auto simp: s1_def conn_close_def map_conn_def)
  moreover have "pn_ptr n < pl_next s" "c < pl_next s" using sh assms(3) k(1) by (auto simp: shape_def upool_ids_ok_def ident_def)
  ultimately show ?thesis unfolding r dangling_def by auto
qed

section \<open>Sending\<close>

text \<open>The targets of successive sends.\<close>

fun send_targets :: "(nat \<Rightarrow> bool) \<Rightarrow> nat \<Rightarrow> pool \<Rightarrow> nat option list" where
  "send_targets sends 0 s = []"
| "send_targets sends (Suc k) s = fst (snd (pool_send_packet sends s)) # send_targets sends k (snd (snd (pool_send_packet sends s)))"

lemma pick_from_find: "pick_from ns start i k = find usable (map (\<lambda>j. ns ! ((start + j) mod length ns)) [i..<i + k])"
proof (induction k arbitrary: i)
  case (Suc k)
  have "[i..<i + Suc k] = i # [Suc i..<Suc i + k]" by (simp add: upt_rec [of i])
  then show ?case using Suc [of "Suc i"] by (simp add: Let_def)
qed simp

lemma pick_from_rotate: "pick_from ns start 0 (length ns) = find usable (rotate start ns)"
proof -
  have "map (\<lambda>j. ns ! ((start + j) mod length ns)) [0..<length ns] = rotate start ns"
    by (rule nth_equalityI) (simp_all add: nth_rotate)
  then show ?thesis by (simp add: pick_from_find)
qed

lemma send_packet_found:
  assumes "pl_nodes s \<noteq> []"
  shows "pool_send_packet sends s =
    (case find usable (rotate (unat (pl_rr s) mod length (pl_nodes s)) (pl_nodes s)) of
       None \<Rightarrow> (False, None, s\<lparr>pl_rr := pl_rr s + 1\<rparr>)
     | Some n \<Rightarrow> (sends (the (pn_conn n)), pn_conn n, s\<lparr>pl_rr := pl_rr s + 1\<rparr>))"
proof (cases "find usable (rotate (unat (pl_rr s) mod length (pl_nodes s)) (pl_nodes s))")
  case None
  then show ?thesis using assms by (simp add: pool_send_packet_def Let_def pick_from_rotate)
next
  case (Some n)
  then have "usable n" by (simp add: find_Some_iff) blast
  then obtain c where "pn_conn n = Some c" by (auto simp: usable_def)
  then show ?thesis using assms Some by (simp add: pool_send_packet_def Let_def pick_from_rotate)
qed

lemma send_targets_all:
  assumes "pl_nodes s \<noteq> []" and "\<forall>n \<in> set (pl_nodes s). usable n" and "unat (pl_rr s) + k \<le> 2 ^ 64"
  shows "send_targets sends k s = map (\<lambda>j. pn_conn (pl_nodes s ! ((unat (pl_rr s) + j) mod length (pl_nodes s)))) [0..<k]"
  using assms
proof (induction k arbitrary: s)
  case (Suc k)
  define i where "i = unat (pl_rr s) mod length (pl_nodes s)"
  have i: "i < length (pl_nodes s)" using Suc.prems(1) by (simp add: i_def)
  have "rotate i (pl_nodes s) = (pl_nodes s ! i) # tl (rotate i (pl_nodes s))"
    using Suc.prems(1) hd_rotate_conv_nth [of "pl_nodes s" i] i by (metis hd_Cons_tl mod_less rotate_is_Nil_conv)
  moreover have "usable (pl_nodes s ! i)" using Suc.prems(2) i by simp
  ultimately have "find usable (rotate i (pl_nodes s)) = Some (pl_nodes s ! i)" by (metis find.simps(2))
  then have e: "pool_send_packet sends s = (sends (the (pn_conn (pl_nodes s ! i))), pn_conn (pl_nodes s ! i), s\<lparr>pl_rr := pl_rr s + 1\<rparr>)"
    using send_packet_found [OF Suc.prems(1), of sends] by (simp add: i_def)
  show ?case
  proof (cases k)
    case 0
    then show ?thesis by (simp add: e i_def)
  next
    case (Suc m)
    have "unat (pl_rr s + 1) = unat (pl_rr s) + 1"
      using Suc.prems(3) Suc by (simp add: unat_plus_if')
    then have "send_targets sends k (s\<lparr>pl_rr := pl_rr s + 1\<rparr>) =
        map (\<lambda>j. pn_conn (pl_nodes s ! ((unat (pl_rr s) + Suc j) mod length (pl_nodes s)))) [0..<k]"
      using Suc.IH [of "s\<lparr>pl_rr := pl_rr s + 1\<rparr>"] Suc.prems by simp
    then show ?thesis by (simp add: e i_def upt_conv_Cons map_Suc_upt [symmetric] del: upt_Suc)
  qed
qed simp

text \<open>C37: \<open>SendPacket\<close> on a pool with nodes sends on the connection of the first healthy node that has one, counted cyclically from
  the round-robin index, answers with the answer of that connection, and fails exactly when there is no such node; and when
  all the nodes can be used, any as many successive sends as there are nodes (until the 64 bit index wraps around) use every node
  once, in their cyclic order.\<close>

theorem send_round_robin:
  assumes "pl_nodes s \<noteq> []"
  shows "pool_send_packet sends s =
      (case find usable (rotate (unat (pl_rr s) mod length (pl_nodes s)) (pl_nodes s)) of
         None \<Rightarrow> (False, None, s\<lparr>pl_rr := pl_rr s + 1\<rparr>)
       | Some n \<Rightarrow> (sends (the (pn_conn n)), pn_conn n, s\<lparr>pl_rr := pl_rr s + 1\<rparr>)) \<and>
    ((\<forall>n \<in> set (pl_nodes s). usable n) \<and> unat (pl_rr s) + length (pl_nodes s) \<le> 2 ^ 64 \<longrightarrow>
      send_targets sends (length (pl_nodes s)) s = map pn_conn (rotate (unat (pl_rr s) mod length (pl_nodes s)) (pl_nodes s)))"
proof (intro conjI impI)
  assume a: "(\<forall>n \<in> set (pl_nodes s). usable n) \<and> unat (pl_rr s) + length (pl_nodes s) \<le> 2 ^ 64"
  then have "send_targets sends (length (pl_nodes s)) s =
      map (\<lambda>j. pn_conn (pl_nodes s ! ((unat (pl_rr s) + j) mod length (pl_nodes s)))) [0..<length (pl_nodes s)]"
    by (intro send_targets_all [OF assms]) simp_all
  also have "\<dots> = map pn_conn (rotate (unat (pl_rr s) mod length (pl_nodes s)) (pl_nodes s))"
    by (rule nth_equalityI) (simp_all add: nth_rotate mod_add_left_eq)
  finally show "send_targets sends (length (pl_nodes s)) s = map pn_conn (rotate (unat (pl_rr s) mod length (pl_nodes s)) (pl_nodes s))" .
qed (rule send_packet_found [OF assms])

section \<open>Runs\<close>

definition demo_node :: pnode where
  "demo_node = \<lparr>pn_ptr = 0, pn_host = ''h'', pn_port = 80, pn_healthy = True, pn_connecting = False, pn_conn = Some 1\<rparr>"

definition demo_pool :: pool where
  "demo_pool = (pool_new True)\<lparr>pl_nodes := [demo_node], pl_running := True, pl_timer := True, pl_next := 2,
     pl_conns := [1 \<mapsto> \<lparr>pc_node = 0, pc_alive = True, pc_keep = False, pc_connecting = False, pc_closing = False\<rparr>]\<rparr>"

lemmas pool_defs = pool_new_def add_node_def upool_start_def try_connect_def node_at_def map_node_def conn_drop_def map_conn_def
  on_connected_def update_health_def Let_def

lemma demo_pool_reach: "pool_reach False demo_pool"
proof -
  define s1 where "s1 = (pool_new True)\<lparr>pl_nodes := [demo_node\<lparr>pn_healthy := False, pn_conn := None\<rparr>], pl_next := 1\<rparr>"
  define s2 where "s2 = (pool_new True)\<lparr>pl_nodes := [demo_node\<lparr>pn_healthy := False, pn_connecting := True\<rparr>], pl_running := True, pl_timer := True, pl_next := 2,
     pl_conns := [1 \<mapsto> \<lparr>pc_node = 0, pc_alive = True, pc_keep = False, pc_connecting = True, pc_closing = False\<rparr>]\<rparr>"
  have "add_node True True ''h'' 80 (pool_new True) = Some s1" by (simp add: pool_defs s1_def demo_node_def)
  then have "pool_step False (pool_new True) (Some s1)" using ps_add [of False True "pool_new True"] by metis
  moreover have "upool_start (\<lambda>p. True) s1 = Some (True, s2)" by (simp add: pool_defs s1_def s2_def demo_node_def)
  then have "pool_step False s1 (Some s2)"
    using ps_start [of False s1 "\<lambda>p. True"] by (simp add: s1_def pool_new_def)
  moreover have "on_connected 1 True s2 = Some demo_pool"
    by (simp add: pool_defs s2_def demo_node_def demo_pool_def)
  then have "pool_step False s2 (Some demo_pool)"
    using ps_connected [of s2 1 _ True False] by (simp add: s2_def)
  ultimately show ?thesis by (meson pr_new pr_step)
qed


lemma send_round_robin_witness: "fst (pool_send_packet (\<lambda>c. True) demo_pool)"
proof -
  have "pl_nodes demo_pool \<noteq> []" by (simp add: demo_pool_def)
  from send_round_robin [OF this, of "\<lambda>c. True"] show ?thesis
    by (simp add: demo_pool_def demo_node_def usable_def)
qed

text \<open>A packet is sent from another thread while the peer closes the connection. The thread chooses the node and sees that it has a
  connection; the close callback on the loop resets the pointer, without the mutex; then the thread dereferences null. One access
  later, after it has read the pointer, it calls a connection that has been destroyed.\<close>

definition demo_closing :: "send_phase \<Rightarrow> pool" where
  "demo_closing ph = demo_pool\<lparr>pl_rr := 1, pl_senders := [ph],
     pl_conns := [1 \<mapsto> \<lparr>pc_node = 0, pc_alive = True, pc_keep = True, pc_connecting = False, pc_closing = True\<rparr>]\<rparr>"

lemma wild_step: "pool_step False s r \<Longrightarrow> pool_step True s r"
  by (induction rule: pool_step.induct) (auto intro: pool_step.intros)

lemma send_race_undefined:
  "pool_reach True (demo_closing (SendChecked 0)) \<and> pool_reach True (demo_closing (SendCalls 1)) \<and>
   (\<exists>s. on_closed 1 (demo_closing (SendChecked 0)) = Some s \<and> send_go 0 s = None) \<and>
   (\<exists>s. on_closed 1 (demo_closing (SendCalls 1)) = Some s \<and> send_go 0 s = None)"
proof -
  define s1 where "s1 = demo_pool\<lparr>pl_rr := 1, pl_senders := [SendPicked 0]\<rparr>"
  define s2 where "s2 = demo_pool\<lparr>pl_rr := 1, pl_senders := [SendChecked 0]\<rparr>"
  have w: "pool_reach True s" if "pool_reach False s" for s
    using that by (induction rule: pool_reach.induct) (auto intro: pool_reach.intros wild_step)
  have e1: "send_pick demo_pool = s1"
    by (simp add: s1_def send_pick_def demo_pool_def demo_node_def usable_def pool_new_def Let_def)
  have e2: "send_go 0 s1 = Some s2"
    by (simp add: s1_def s2_def send_go_def demo_pool_def demo_node_def node_at_def pool_new_def Let_def)
  have e3: "on_lost 1 s2 = Some (demo_closing (SendChecked 0))"
    by (simp add: s2_def on_lost_def conn_close_def map_conn_def demo_closing_def demo_pool_def demo_node_def pool_new_def)
  have e4: "send_go 0 (demo_closing (SendChecked 0)) = Some (demo_closing (SendCalls 1))"
    by (simp add: send_go_def demo_closing_def demo_pool_def demo_node_def node_at_def pool_new_def Let_def)
  have r2: "pool_reach True s2"
    using pr_step [OF pr_step [OF w [OF demo_pool_reach]], of s1 s2] ps_pick [of True demo_pool] ps_go [of True 0 s1] e1 e2
    by (simp add: s1_def)
  have "pool_step True s2 (on_lost 1 s2)"
    by (rule ps_lost [where k = "\<lparr>pc_node = 0, pc_alive = True, pc_keep = False, pc_connecting = False, pc_closing = False\<rparr>"])
      (simp_all add: s2_def demo_pool_def)
  then have r3: "pool_reach True (demo_closing (SendChecked 0))" using pr_step [OF r2] e3 by simp
  have "pool_step True (demo_closing (SendChecked 0)) (send_go 0 (demo_closing (SendChecked 0)))"
    by (rule ps_go) (simp_all add: demo_closing_def)
  then have r4: "pool_reach True (demo_closing (SendCalls 1))" using pr_step [OF r3] e4 by simp
  have c: "\<exists>s. on_closed 1 (demo_closing ph) = Some s \<and> pl_senders s = [ph] \<and> node_at 0 s = Some (demo_node\<lparr>pn_healthy := False, pn_conn := None\<rparr>) \<and>
      pl_conns s 1 = None" for ph
    by (simp add: on_closed_def demo_closing_def demo_pool_def demo_node_def pool_new_def node_at_def update_health_def map_node_def
        conn_drop_def map_conn_def Let_def)
  show ?thesis using r3 r4 c [of "SendChecked 0"] c [of "SendCalls 1"] by (fastforce simp: send_go_def Let_def)
qed

text \<open>Two other ways out of the careful use. A node that is added from another thread while the pool runs is connected
  twice when the timer comes first, and its first connection is destroyed with the request pending.\<close>

lemma late_add_undefined:
  "\<exists>s. Option.bind (Option.bind (add_node False True ''h'' 80 ((pool_new True)\<lparr>pl_running := True, pl_timer := True\<rparr>))
     (on_reconnect_timer (\<lambda>p. True))) (run_posted True) = Some s \<and> on_connected 1 False s = None"
  by (simp add: pool_defs on_reconnect_timer_def run_posted_def)

text \<open>A stop and a start without a turn of the loop between them: the close callback of the old connection resets the new one.\<close>

lemma restart_undefined:
  "\<exists>s. Option.bind (map_option snd (upool_start (\<lambda>p. True) (upool_stop True demo_pool))) (on_closed 1) = Some s \<and> on_connected 2 False s = None"
  by (simp add: pool_defs upool_stop_def stop_node_def conn_close_def on_closed_def demo_pool_def demo_node_def)

end
