(* ===== verification/GM_Discovery.thy ===== *)
theory GM_Discovery
  imports GM_UpstreamProps "HOL-Library.AList"
begin

text \<open>
  Service discovery and the upstream manager (\<open>discovery/node.hpp\<close>, \<open>upstream_manager.hpp\<close>, \<open>upstream_manager.cpp\<close>, and
  what \<open>etcd_impl.cpp\<close> and \<open>registry_impl.cpp\<close> make of the events they watch): the manager has one upstream pool for each
  type of service, fills it from a snapshot and follows the events.

  The JSON parser and the protobuf messages are not under \<open>src/\<close> or generated: a parsed object is a parameter, as are the
  answers of discovery and of \<open>Connect\<close>. The order of the unordered map of the pools is that of an association list.
\<close>

datatype node_event_type = NodeJoin | NodeLeave | NodeUpdate

record node_info =
  ni_service :: string
  ni_id :: string
  ni_host :: string
  ni_port :: u32
  ni_metadata :: "(string \<times> string) list"
  ni_load :: u64
  ni_registered :: u64

record node_event =
  ne_type :: node_event_type
  ne_node :: node_info

definition no_node :: node_info where
  "no_node = \<lparr>ni_service = [], ni_id = [], ni_host = [], ni_port = 0, ni_metadata = [], ni_load = 0, ni_registered = 0\<rparr>"

section \<open>Events\<close>

text \<open>What jsoncpp gives for a key: the value, or the default if there is none.\<close>

record json_object =
  js_string :: "string \<Rightarrow> string \<Rightarrow> string"
  js_uint :: "string \<Rightarrow> u32 \<Rightarrow> u32"
  js_uint64 :: "string \<Rightarrow> u64 \<Rightarrow> u64"

definition json_to_node_info :: "(string \<Rightarrow> json_object option) \<Rightarrow> string \<Rightarrow> node_info" where
  "json_to_node_info parse txt =
     (case parse txt of
        None \<Rightarrow> no_node
      | Some j \<Rightarrow> no_node\<lparr>ni_service := js_string j ''service_type'' [], ni_id := js_string j ''node_id'' [], ni_host := js_string j ''host'' [],
          ni_port := js_uint j ''port'' 0, ni_load := js_uint64 j ''load_score'' 0, ni_registered := js_uint64 j ''register_at'' 0\<rparr>)"

text \<open>An event of etcd has the value that was put, or only the key.\<close>

datatype etcd_event = EtcdPut string | EtcdDelete string

definition last_part :: "string \<Rightarrow> string option" where
  "last_part k = (if CHR ''/'' \<in> set k then Some (rev (takeWhile (\<lambda>c. c \<noteq> CHR ''/'') (rev k))) else None)"

definition etcd_node_event :: "(string \<Rightarrow> json_object option) \<Rightarrow> string \<Rightarrow> etcd_event \<Rightarrow> node_event" where
  "etcd_node_event parse service e =
     (case e of
        EtcdPut txt \<Rightarrow> \<lparr>ne_type = NodeUpdate, ne_node = json_to_node_info parse txt\<rparr>
      | EtcdDelete k \<Rightarrow> \<lparr>ne_type = NodeLeave, ne_node = no_node\<lparr>ni_service := service,
          ni_id := (case last_part k of None \<Rightarrow> [] | Some i \<Rightarrow> i)\<rparr>\<rparr>)"

text \<open>An event of the registry has the whole node; other types than the three are updates.\<close>

definition pb_event_to_node_event :: "nat \<Rightarrow> node_info \<Rightarrow> node_event" where
  "pb_event_to_node_event ty n =
     \<lparr>ne_type = (if ty = 0 then NodeJoin else if ty = 1 then NodeLeave else NodeUpdate), ne_node = n\<rparr>"

section \<open>The manager\<close>

record upstream_mgr =
  um_discovery :: bool
  um_loop :: bool
  um_pools :: "(string \<times> pool) list"

definition add_interest :: "string \<Rightarrow> upstream_mgr \<Rightarrow> upstream_mgr" where
  "add_interest service m = m\<lparr>um_pools := AList.update service (pool_new (um_loop m)) (um_pools m)\<rparr>"

definition get_pool :: "string \<Rightarrow> upstream_mgr \<Rightarrow> pool option" where
  "get_pool service m = map_of (um_pools m) service"

fun add_nodes :: "bool \<Rightarrow> bool \<Rightarrow> node_info list \<Rightarrow> pool \<Rightarrow> pool option" where
  "add_nodes here ok [] s = Some s"
| "add_nodes here ok (n # ns) s = Option.bind (add_node here ok (ni_host n) (ucast (ni_port n)) s) (add_nodes here ok ns)"

text \<open>\<open>Start\<close>: the snapshots of all services first, then all pools. A service whose discovery fails keeps an empty pool.\<close>

fun fill_pools :: "bool \<Rightarrow> (string \<Rightarrow> node_info list option) \<Rightarrow> (string \<times> pool) list \<Rightarrow> (string \<times> pool) list option" where
  "fill_pools here discover [] = Some []"
| "fill_pools here discover ((svc, s) # ps) =
     (case (case discover svc of None \<Rightarrow> Some s | Some ns \<Rightarrow> add_nodes here True ns s) of
        None \<Rightarrow> None
      | Some s' \<Rightarrow> map_option ((#) (svc, s')) (fill_pools here discover ps))"

fun start_pools :: "(nat \<Rightarrow> bool) \<Rightarrow> (string \<times> pool) list \<Rightarrow> (string \<times> pool) list option" where
  "start_pools ok [] = Some []"
| "start_pools ok ((svc, s) # ps) =
     (case upool_start ok s of None \<Rightarrow> None | Some (b, s') \<Rightarrow> map_option ((#) (svc, s')) (start_pools ok ps))"

definition mgr_start :: "bool \<Rightarrow> (string \<Rightarrow> node_info list option) \<Rightarrow> (nat \<Rightarrow> bool) \<Rightarrow> upstream_mgr \<Rightarrow> (bool \<times> upstream_mgr) option" where
  "mgr_start here discover ok m =
     (if \<not> um_discovery m then Some (False, m)
      else if um_pools m = [] then Some (True, m)
      else map_option (\<lambda>ps. (True, m\<lparr>um_pools := ps\<rparr>))
        (Option.bind (fill_pools here discover (um_pools m)) (start_pools ok)))"

definition mgr_stop :: "bool \<Rightarrow> upstream_mgr \<Rightarrow> upstream_mgr" where
  "mgr_stop here m = m\<lparr>um_pools := map (\<lambda>(svc, s). (svc, upool_stop here s)) (um_pools m)\<rparr>"

definition on_node_event :: "bool \<Rightarrow> bool \<Rightarrow> node_event \<Rightarrow> upstream_mgr \<Rightarrow> upstream_mgr option" where
  "on_node_event here ok ev m =
     (let n = ne_node ev in
      if ni_host n = [] then Some m
      else case get_pool (ni_service n) m of
        None \<Rightarrow> Some m
      | Some s \<Rightarrow>
          (case ne_type ev of
             NodeLeave \<Rightarrow> Some (m\<lparr>um_pools := AList.update (ni_service n) (remove_node here (ni_host n) (ucast (ni_port n)) s) (um_pools m)\<rparr>)
           | _ \<Rightarrow> map_option (\<lambda>s'. m\<lparr>um_pools := AList.update (ni_service n) s' (um_pools m)\<rparr>)
               (add_node here ok (ni_host n) (ucast (ni_port n)) s)))"

section \<open>Starting\<close>

text \<open>The addresses of a snapshot without repetitions, the first of each kept.\<close>

definition addresses :: "node_info list \<Rightarrow> (string \<times> u16) list" where
  "addresses ns = rev (remdups (rev (map (\<lambda>n. (ni_host n, ucast (ni_port n))) ns)))"

lemma addresses_snoc: "addresses (ns @ [n]) =
    (if (ni_host n, ucast (ni_port n)) \<in> set (addresses ns) then addresses ns else addresses ns @ [(ni_host n, ucast (ni_port n))])"
  by (simp add: addresses_def)

definition pool_addrs :: "pool \<Rightarrow> (string \<times> u16) list" where
  "pool_addrs s = map snd (map ident (pl_nodes s))"

definition idle_pool :: "pool \<Rightarrow> bool" where
  "idle_pool s \<longleftrightarrow> pool_reach False s \<and> pl_loop s \<and> \<not> pl_running s \<and> pl_conns s = Map.empty \<and> pl_posted s = []"

lemma add_nodes_append: "add_nodes here ok (ms @ ns) s = Option.bind (add_nodes here ok ms s) (add_nodes here ok ns)"
  by (induction ms arbitrary: s) (auto split: bind_splits)

lemma add_node_idle:
  assumes "idle_pool s"
  shows "\<exists>s'. add_node here ok host port s = Some s' \<and> idle_pool s' \<and>
    pool_addrs s' = (if (host, port) \<in> set (pool_addrs s) then pool_addrs s else pool_addrs s @ [(host, port)])"
proof -
  have a: "(host, port) \<in> set (pool_addrs s) \<longleftrightarrow> (\<exists>n \<in> set (pl_nodes s). pn_host n = host \<and> pn_port n = port)"
    by (auto simp: pool_addrs_def ident_def)
  define s1 where "s1 = s\<lparr>pl_next := pl_next s + 1, pl_nodes := pl_nodes s @
    [\<lparr>pn_ptr = pl_next s, pn_host = host, pn_port = port, pn_healthy = False, pn_connecting = False, pn_conn = None\<rparr>]\<rparr>"
  define s' where "s' = (if (host, port) \<in> set (pool_addrs s) then s else s1)"
  have "\<not> pl_running s" using assms by (simp add: idle_pool_def)
  then have s': "add_node here ok host port s = Some s'" unfolding s'_def a add_node_def Let_def s1_def by simp
  have "pl_running s' = pl_running s" "pl_loop s' = pl_loop s" "pl_conns s' = pl_conns s" "pl_posted s' = pl_posted s"
    "pool_addrs s' = (if (host, port) \<in> set (pool_addrs s) then pool_addrs s else pool_addrs s @ [(host, port)])"
    by (simp_all add: s'_def s1_def pool_addrs_def ident_def)
  moreover have "pool_reach False s'"
    using pr_step [of False s s'] ps_add [of False here s ok host port] s' assms by (simp add: idle_pool_def)
  ultimately show ?thesis using assms s' by (simp add: idle_pool_def)
qed

lemma add_nodes_idle:
  assumes "idle_pool s" and "pl_nodes s = []"
  shows "\<exists>s'. add_nodes here ok ns s = Some s' \<and> idle_pool s' \<and> pool_addrs s' = addresses ns"
proof (induction ns rule: rev_induct)
  case Nil
  then show ?case using assms by (simp add: pool_addrs_def addresses_def)
next
  case (snoc n ns)
  then obtain s' where s': "add_nodes here ok ns s = Some s'" "idle_pool s'" "pool_addrs s' = addresses ns" by blast
  then show ?case using add_node_idle [OF s'(2), of here ok "ni_host n" "ucast (ni_port n)"]
    by (auto simp: add_nodes_append addresses_snoc)
qed

lemma start_idle:
  assumes "idle_pool s"
  shows "\<exists>s'. upool_start ok s = Some (True, s') \<and> pool_reach False s' \<and> pl_running s' \<and> pool_addrs s' = pool_addrs s"
proof -
  have i: "pool_inv s" using assms reach_inv by (simp add: idle_pool_def)
  obtain s' where s': "map_option snd (upool_start ok s) = Some s'" "map ident (pl_nodes s') = map ident (pl_nodes s)" "pl_running s'"
    using start_inv [OF i, of ok] assms by (auto simp: idle_pool_def)
  moreover have "pool_reach False s'"
    using pr_step [of False s s'] ps_start [of False s ok] s'(1) assms by (simp add: idle_pool_def)
  moreover have "pool_addrs s' = pool_addrs s" using s'(2) unfolding pool_addrs_def by (simp only:)
  ultimately show ?thesis using assms by (auto simp: idle_pool_def upool_start_def)
qed

lemma fill_idle:
  assumes "\<forall>(svc, s) \<in> set ps. idle_pool s \<and> pl_nodes s = []"
  shows "\<exists>qs. fill_pools here discover ps = Some qs \<and> list_all2 (\<lambda>(svc, s) (svc', s'). svc' = svc \<and> idle_pool s' \<and>
    pool_addrs s' = (case discover svc of None \<Rightarrow> [] | Some ns \<Rightarrow> addresses ns)) ps qs"
  using assms
proof (induction ps)
  case (Cons p ps)
  obtain svc s where p: "p = (svc, s)" by force
  obtain s' where "(case discover svc of None \<Rightarrow> Some s | Some ns \<Rightarrow> add_nodes here True ns s) = Some s'" "idle_pool s'"
    "pool_addrs s' = (case discover svc of None \<Rightarrow> [] | Some ns \<Rightarrow> addresses ns)"
  proof (cases "discover svc")
    case None
    then show ?thesis using that [of s] Cons.prems p by (simp add: pool_addrs_def)
  next
    case (Some ns)
    then show ?thesis using that add_nodes_idle [of s here True ns] Cons.prems p by auto
  qed
  then show ?case using Cons p by auto
qed simp

lemma start_all_idle:
  assumes "\<forall>(svc, s) \<in> set ps. idle_pool s"
  shows "\<exists>qs. start_pools ok ps = Some qs \<and> list_all2 (\<lambda>(svc, s) (svc', s'). svc' = svc \<and> pool_reach False s' \<and> pl_running s' \<and>
    pool_addrs s' = pool_addrs s) ps qs"
  using assms
proof (induction ps)
  case (Cons p ps)
  obtain svc s where p: "p = (svc, s)" by force
  obtain s' where "upool_start ok s = Some (True, s')" "pool_reach False s'" "pl_running s'" "pool_addrs s' = pool_addrs s"
    using start_idle [of s ok] Cons.prems p by auto
  then show ?case using Cons p by auto
qed simp

lemma list_all2_map_of:
  assumes "list_all2 (\<lambda>(k, a) (k', b). k' = k \<and> P k a b) xs ys" and "map_of xs k = Some a"
  shows "\<exists>b. map_of ys k = Some b \<and> P k a b"
  using assms by (induction xs ys rule: list_all2_induct) (auto split: if_splits)

lemma fresh_mgr:
  assumes "m = fold add_interest svcs \<lparr>um_discovery = True, um_loop = True, um_pools = []\<rparr>"
  shows "um_discovery m \<and> (\<forall>(svc, s) \<in> set (um_pools m). s = pool_new True) \<and> dom (map_of (um_pools m)) = set svcs"
proof -
  have "um_discovery (fold add_interest svcs x) \<and> (\<forall>(svc, s) \<in> set (um_pools (fold add_interest svcs x)). s = pool_new True) \<and>
      dom (map_of (um_pools (fold add_interest svcs x))) = dom (map_of (um_pools x)) \<union> set svcs"
    if "um_discovery x" "um_loop x" "\<forall>(svc, s) \<in> set (um_pools x). s = pool_new True" for x
    using that
  proof (induction svcs arbitrary: x)
    case (Cons svc svcs)
    have "\<forall>(k, s) \<in> set (AList.update svc v al). s = v" if "\<forall>(k, s) \<in> set al. s = v" for al :: "(string \<times> pool) list" and v
      using that by (induction al) auto
    then show ?case using Cons.IH [of "add_interest svc x"] Cons.prems by (auto simp: add_interest_def update_conv split: if_splits)
  qed simp
  from this [of "\<lparr>um_discovery = True, um_loop = True, um_pools = []\<rparr>"] show ?thesis unfolding assms by simp
qed

text \<open>C38: after \<open>Start\<close> the manager has, for every service it was told of, a running pool with exactly the addresses that discovery
  reported, each once and in their order (none where discovery failed), and each pool is in a state that documented use
  reaches; \<open>Start\<close> is defined and succeeds.\<close>

theorem mgr_start_fills:
  assumes "m = fold add_interest svcs \<lparr>um_discovery = True, um_loop = True, um_pools = []\<rparr>" and "svc \<in> set svcs"
  shows "\<exists>m' s. mgr_start here discover ok m = Some (True, m') \<and> get_pool svc m' = Some s \<and> pool_reach False s \<and> pl_running s \<and>
    map (\<lambda>n. (pn_host n, pn_port n)) (pl_nodes s) = (case discover svc of None \<Rightarrow> [] | Some ns \<Rightarrow> addresses ns)"
proof -
  note f = fresh_mgr [OF assms(1)]
  have "pool_reach False (pool_new True)" by (rule pr_new)
  then have i: "idle_pool (pool_new True)" "pl_nodes (pool_new True) = []" by (simp_all add: idle_pool_def pool_new_def)
  have "\<forall>(svc, s) \<in> set (um_pools m). idle_pool s \<and> pl_nodes s = []" using f i by auto
  then obtain qs where qs: "fill_pools here discover (um_pools m) = Some qs" "list_all2 (\<lambda>(svc, s) (svc', s'). svc' = svc \<and> idle_pool s' \<and>
    pool_addrs s' = (case discover svc of None \<Rightarrow> [] | Some ns \<Rightarrow> addresses ns)) (um_pools m) qs" using fill_idle by blast
  have "\<forall>(svc, s) \<in> set qs. idle_pool s" using qs(2)
    by (induction rule: list_all2_induct) auto
  then obtain rs where rs: "start_pools ok qs = Some rs" "list_all2 (\<lambda>(svc, s) (svc', s'). svc' = svc \<and> pool_reach False s' \<and> pl_running s' \<and>
    pool_addrs s' = pool_addrs s) qs rs" using start_all_idle by blast
  obtain s0 where s0: "map_of (um_pools m) svc = Some s0" using f assms(2) by auto
  obtain s1 where s1: "map_of qs svc = Some s1" "pool_addrs s1 = (case discover svc of None \<Rightarrow> [] | Some ns \<Rightarrow> addresses ns)"
    using list_all2_map_of [OF qs(2) s0] by auto
  obtain s2 where s2: "map_of rs svc = Some s2" "pool_reach False s2" "pl_running s2" "pool_addrs s2 = pool_addrs s1"
    using list_all2_map_of [OF rs(2) s1(1)] by auto
  have "um_pools m \<noteq> []" using s0 by auto
  then have "mgr_start here discover ok m = Some (True, m\<lparr>um_pools := rs\<rparr>)" using f qs(1) rs(1) by (simp add: mgr_start_def)
  moreover have "map (\<lambda>n. (pn_host n, pn_port n)) (pl_nodes s2) = pool_addrs s2" by (simp add: pool_addrs_def ident_def)
  ultimately show ?thesis using s1(2) s2 by (auto simp: get_pool_def)
qed

lemma mgr_start_fills_witness:
  "\<exists>m' s. mgr_start False (\<lambda>t. Some [no_node\<lparr>ni_host := ''h'', ni_port := 80\<rparr>, no_node\<lparr>ni_host := ''h'', ni_port := 80\<rparr>]) (\<lambda>p. True)
     (fold add_interest [''chat''] \<lparr>um_discovery = True, um_loop = True, um_pools = []\<rparr>) = Some (True, m') \<and> get_pool ''chat'' m' = Some s \<and>
     length (pl_nodes s) = 1"
proof -
  have "''chat'' \<in> set [''chat'']" by simp
  from mgr_start_fills [OF refl this, of False "\<lambda>t. Some [no_node\<lparr>ni_host := ''h'', ni_port := 80\<rparr>, no_node\<lparr>ni_host := ''h'', ni_port := 80\<rparr>]" "\<lambda>p. True"]
  obtain m' s where m: "mgr_start False (\<lambda>t. Some [no_node\<lparr>ni_host := ''h'', ni_port := 80\<rparr>, no_node\<lparr>ni_host := ''h'', ni_port := 80\<rparr>]) (\<lambda>p. True)
      (fold add_interest [''chat''] \<lparr>um_discovery = True, um_loop = True, um_pools = []\<rparr>) = Some (True, m')" "get_pool ''chat'' m' = Some s"
    "map (\<lambda>n. (pn_host n, pn_port n)) (pl_nodes s) = addresses [no_node\<lparr>ni_host := ''h'', ni_port := 80\<rparr>, no_node\<lparr>ni_host := ''h'', ni_port := 80\<rparr>]"
    by auto
  have "length (pl_nodes s) = length (map (\<lambda>n. (pn_host n, pn_port n)) (pl_nodes s))" by simp
  also have "\<dots> = 1" unfolding m(3) by (simp add: addresses_def)
  finally have "length (pl_nodes s) = 1" .
  then show ?thesis using m(1,2) by blast
qed

section \<open>Nodes that leave\<close>

lemma dangling_owed: "dangling p c s \<Longrightarrow>
    (\<exists>k. pl_conns s c = Some k \<and> (pc_closing k \<or> TaskClose c \<in> set (pl_posted s))) \<and> on_connected c success s = None \<and> on_closed c s = None"
  using dangling_callbacks unfolding dangling_def by blast

text \<open>C36: a node that leaves is never taken out properly. With etcd, the event of a deleted key has no host, and the manager ignores
  it: the node stays in its pool. With the registry, the manager removes the node, and if the pool runs and the node has a
  connection, the node is freed while callbacks of the connection are still to come: from the event on, whatever happens, the
  handle of the connection is closing or about to be closed, and each of its callbacks touches the freed node.\<close>

theorem leaving_node_broken:
  assumes "get_pool svc m = Some s" and "pool_reach False s" and "pl_running s" and "n \<in> set (pl_nodes s)" and "pn_conn n = Some c"
    and "ne_type ev = NodeLeave" and "ni_service (ne_node ev) = svc"
    and "ni_host (ne_node ev) = pn_host n" and "pn_host n \<noteq> []" and "ucast (ni_port (ne_node ev)) = pn_port n"
  shows "on_node_event here ok (etcd_node_event parse svc (EtcdDelete k)) m = Some m \<and>
    (\<exists>m' s1. on_node_event here ok ev m = Some m' \<and> get_pool svc m' = Some s1 \<and>
      (\<forall>s2. pool_after s1 s2 \<longrightarrow> (\<exists>k. pl_conns s2 c = Some k \<and> (pc_closing k \<or> TaskClose c \<in> set (pl_posted s2))) \<and>
        on_connected c success s2 = None \<and> on_closed c s2 = None))"
proof
  show "on_node_event here ok (etcd_node_event parse svc (EtcdDelete k)) m = Some m"
    by (simp add: on_node_event_def etcd_node_event_def no_node_def)
  define s1 where "s1 = remove_node here (pn_host n) (pn_port n) s"
  define m' where "m' = m\<lparr>um_pools := AList.update svc s1 (um_pools m)\<rparr>"
  have "on_node_event here ok ev m = Some m'" using assms by (simp add: on_node_event_def m'_def s1_def Let_def)
  moreover have "get_pool svc m' = Some s1" by (simp add: get_pool_def m'_def update_conv)
  moreover have d: "dangling (pn_ptr n) c s1" unfolding s1_def by (rule removed_dangles [OF assms(2-5)])
  have "(\<exists>k. pl_conns s2 c = Some k \<and> (pc_closing k \<or> TaskClose c \<in> set (pl_posted s2))) \<and>
      on_connected c success s2 = None \<and> on_closed c s2 = None" if "pool_after s1 s2" for s2
    by (rule dangling_owed [OF dangling_after [OF that d]])
  ultimately show "\<exists>m' s1. on_node_event here ok ev m = Some m' \<and> get_pool svc m' = Some s1 \<and>
      (\<forall>s2. pool_after s1 s2 \<longrightarrow> (\<exists>k. pl_conns s2 c = Some k \<and> (pc_closing k \<or> TaskClose c \<in> set (pl_posted s2))) \<and>
        on_connected c success s2 = None \<and> on_closed c s2 = None)" by blast
qed

lemma leaving_node_broken_witness:
  "\<exists>m'. on_node_event True True \<lparr>ne_type = NodeLeave, ne_node = no_node\<lparr>ni_service := ''chat'', ni_host := ''h'', ni_port := 80\<rparr>\<rparr>
     \<lparr>um_discovery = True, um_loop = True, um_pools = [(''chat'', demo_pool)]\<rparr> = Some m' \<and>
     (\<exists>s1. get_pool ''chat'' m' = Some s1 \<and> on_closed 1 s1 = None)"
proof -
  let ?m = "\<lparr>um_discovery = True, um_loop = True, um_pools = [(''chat'', demo_pool)]\<rparr>"
  let ?e = "\<lparr>ne_type = NodeLeave, ne_node = no_node\<lparr>ni_service := ''chat'', ni_host := ''h'', ni_port := 80\<rparr>\<rparr>"
  have n: "get_pool ''chat'' ?m = Some demo_pool" "pl_running demo_pool" "demo_node \<in> set (pl_nodes demo_pool)" "pn_conn demo_node = Some 1"
    "ne_type ?e = NodeLeave" "ni_service (ne_node ?e) = ''chat''" "ni_host (ne_node ?e) = pn_host demo_node" "pn_host demo_node \<noteq> []"
    "ucast (ni_port (ne_node ?e)) = pn_port demo_node"
    by (simp_all add: get_pool_def demo_pool_def demo_node_def)
  show ?thesis using leaving_node_broken [OF n(1) demo_pool_reach n(2-9), of True True "\<lambda>t. None" "[]"] pa_none by metis
qed

end
