(* ===== verification/Spec2Isabelle.thy ===== *)
theory Spec2Isabelle
  imports GM_Lockstep GM_Determ GM_BattleInv GM_Compute GM_TcpWrite GM_WSFrame GM_IdGen GM_GatewayDemo GM_RealtimeProps GM_WSHandshake GM_WSDemo GM_EventLoop GM_RpcClient GM_Discovery
begin

text \<open>
  gmaker is a framework for multiplayer game servers. Its C++ part, which this library models, consists of a gateway that holds
  the connections of the clients, a realtime server that runs battles in lockstep, and the libraries both are built from: wire
  formats, transports on libuv, connections to other services, and deterministic simulation. Paths below are relative to
  \<open>src/common/cpp/\<close> unless they begin with \<open>services/\<close>.

  How the parts work together. A client speaks TCP, WebSocket, KCP or UDP to the gateway (\<open>services/gateway-cpp/main.cpp\<close>). The
  bytes it sends run through a connection (\<open>net/async/tcp_connection.cpp\<close>, \<open>ws_connection.cpp\<close>) whose callbacks, on the thread of
  the event loop (\<open>net/async/event_loop.cpp\<close>), cut them into packets (\<open>net/packet.hpp\<close>), with a ring buffer (\<open>net/ring_buffer.cpp\<close>)
  in front and reference-counted buffers (\<open>net/buffer.cpp\<close>) behind. The middleware of the gateway establishes a session key,
  checks nonces (\<open>replay/replay.cpp\<close>), decrypts, and binds the connection to a player; packets are then forwarded to services
  through upstream pools (\<open>net/async/upstream.cpp\<close>), which the upstream manager (\<open>discovery/upstream_manager.cpp\<close>) fills and
  follows. One of the services is the realtime server (\<open>services/realtime-cpp/main.cpp\<close>): it turns packets into messages for
  rooms, which compute threads (\<open>realtime/compute_thread.cpp\<close>, \<open>compute_pool.cpp\<close>) run; a room of a battle
  (\<open>realtime/battle_room.cpp\<close>) has a lockstep engine (\<open>lockstep_engine.cpp\<close>), entities (\<open>entity.cpp\<close>), checkpoints and
  hashes. What a room broadcasts goes back through the routes of the realtime server and the gateway.

  How the code is modelled. A struct or class is a record, an enum a datatype, an integer a word of its width; \<open>float\<close> and
  \<open>double\<close> are their IEEE bit patterns (GM_Float). An operation is a function on the state that returns the new state and what
  it sends or calls; \<open>None\<close> is undefined behaviour (or an assertion of the standard library) unless a theory says otherwise. An
  \<open>std::unordered_map\<close> is an association list, an \<open>std::map\<close> a sorted one. A mutex makes an operation one step; where a lock is
  kept between steps (the RPC client) or released between two parts (tasks that are posted), the model has the parts. Results of
  libuv, clocks, random bytes, AES-GCM, HMAC, generated protobuf code and parsed JSON are arguments of the definitions, with what is
  assumed of them as hypotheses of the theorems and instances in the witnesses.

  Theories, in the order of the code.

  \<^item> GM_Prelude: types, byte codecs, the two containers (locale \<open>kv_store\<close>, interpreted for both) and facts on words.
  \<^item> GM_Float, GM_Fixed: IEEE arithmetic with round to nearest; \<open>realtime/fixed/\<close>. Division is the exact truncated quotient, the
    square root the integer root: its 40 Newton steps are enough for every argument (\<open>newton_40\<close>).
  \<^item> GM_Determ: \<open>realtime/deterministic/\<close>. The hash sees every byte, the generator never sticks, replays are read back.
  \<^item> GM_Lockstep: \<open>realtime/lockstep_engine\<close>. \<open>try_advance\<close> hands out complete frames in order, each once.
  \<^item> GM_Entity, GM_Room, GM_Checkpoint, GM_Battle, GM_BattleInv: \<open>realtime/entity\<close>, \<open>message\<close>, \<open>aoi\<close>, \<open>room\<close>, \<open>checkpoint\<close>,
    \<open>battle_room\<close>. The invariant \<open>battle_inv\<close> of every reachable battle: ids, hit points, players and heroes; ticks and messages are
    defined; the life cycle; no submitted input is ever applied.
  \<^item> GM_Compute: \<open>realtime/compute_thread\<close>, \<open>compute_pool\<close>. Messages reach their room in order, on one thread.
  \<^item> GM_Buffer, GM_Packet, GM_RingBuffer: \<open>net/buffer\<close>, \<open>packet.hpp\<close>, \<open>ring_buffer\<close>. Buffers are views of vectors in a heap;
    decoding accepts exactly the encodings; the ring refines a queue of bytes (locale \<open>byte_queue\<close>, interpreted
    on the ring, which carries its refinement).
  \<^item> GM_EventLoop: \<open>net/async/event_loop\<close>. What is posted runs once, in order; on the thread of the loop it runs at once.
  \<^item> GM_TcpConn, GM_TcpProps, GM_TcpWrite: \<open>net/async/tcp_connection\<close>. Cutting of the stream does not matter, packets arrive end
    to end, writes stay in order, back-pressure is bounded and released, \<open>CloseAfterWrite\<close> leaks.
  \<^item> GM_Sha1, GM_WSFrame, GM_WSConn, GM_WSConnRead, GM_WSConnWrite, GM_WSHandshake, GM_WSDemo: \<open>net/async/ws_frame\<close>, \<open>ws_connection\<close>.
    SHA-1 equals the standard, the parser accepts exactly the wire format, messages arrive whatever the fragments, draining ends
    in one close, requests are accepted as RFC 6455 says.
  \<^item> GM_IdGen, GM_Nonce: \<open>idgen/snowflake\<close>, \<open>replay/replay\<close>. Ids are unique, accepted messages are not accepted again.
  \<^item> GM_RpcClient: \<open>rpc/client\<close>. Answers go to their calls; deadlines hang the client.
  \<^item> GM_Upstream, GM_UpstreamProps, GM_Discovery: \<open>net/async/upstream\<close>, \<open>discovery/\<close>. Documented use touches no freed memory, the
    round robin is fair, the manager fills its pools; nodes that leave break the pool or stay.
  \<^item> GM_Gateway, GM_GatewayProps, GM_GatewayFlow, GM_GatewayDemo: the gateway, with \<open>crypto/session.cpp\<close>. The maps between players and
    connections, who becomes bound, what is forwarded, where answers go, what a close leaves.
  \<^item> GM_Realtime, GM_RealtimeProps: the realtime server, composed with the compute threads, the battle rooms and the gateway: when
    it is defined, how one packet of a client breaks it, where broadcasts arrive.

  Loops and bounds. Loops over data are structural or have a measure; the loops of the ring buffer, which may not end, are partial
  functions, and the id generator waits on a list of clock readings: the theorems say when they return. Runs of components are
  inductive relations or lists of steps, and their invariants are proved for all runs. There is no fuel.

  Not modelled.

  \<^item> Sockets and threads: \<open>net/async/tcp_server\<close>, \<open>tcp_listener\<close>, \<open>ws_server\<close>, \<open>udp_server\<close>, \<open>udp_packet_connection\<close>,
    \<open>io_thread\<close>, \<open>net/thread_pool\<close>: they accept and hand over connections and are calls of libuv and \<open>std::thread\<close>; what the
    gateway does with a connection is in its own handlers. \<open>kcp_server\<close> and \<open>kcp_connection\<close> drive the vendored KCP library.
  \<^item> \<open>net/async/coalescer\<close>: in the gateway a send through it is the event of the send; its timer is not modelled.
  \<^item> \<open>crypto/aes_gcm.cpp\<close>, \<open>crypto/hmac.cpp\<close>: calls of OpenSSL, arguments of the gateway and of the connections.
  \<^item> \<open>registry/\<close>: the client of the Go registry, which packs generated protobuf messages; \<open>registry/upstream_manager.cpp\<close> repeats
    the manager of \<open>discovery/\<close> on it.
  \<^item> \<open>redis/\<close>, \<open>config/\<close>, \<open>logger/\<close>, \<open>metrics/\<close>, \<open>limiter/\<close>, \<open>services/gateway-cpp/gateway_config\<close>: blocking I/O, parsing of
    configuration, output and counters that the modelled code does not depend on.
  \<^item> Vendored code under \<open>3rd/\<close>, generated code under \<open>gen/\<close>, the Go services, tools, tests and the web client.
\<close>

end
